(* ===== verification/Prelude.thy ===== *)
theory Prelude
  imports Main "HOL-Library.Word" "HOL-Library.Signed_Division"
begin

text \<open>
  Shared vocabulary of the development: the conversions between C's integer types over
  \<^typ>\<open>int\<close>, the scanning loops over machine words that several components run, and the
  generic list and word lemmas the component theories use.  C's unsigned arithmetic is
  modelled on \<^typ>\<open>int\<close> with \<open>u32\<close> wherever a step may leave the range, signed results
  that are stored in an \<open>int\<close> with \<open>i32\<close>, and C's truncating \<open>/\<close> and \<open>%\<close> on signed
  operands with \<open>sdiv\<close> and \<open>smod\<close>.  Bit fields and bit sets are words.
\<close>

unbundle bit_operations_syntax

named_theorems cint \<open>identities of the C integer conversions within range\<close>
named_theorems scan \<open>facts on the bit scanning loops\<close>

section \<open>C integers\<close>

definition u32 :: "int \<Rightarrow> int" where
  "u32 x = x mod 4294967296"

definition i32 :: "int \<Rightarrow> int" where
  "i32 x = (x + 2147483648) mod 4294967296 - 2147483648"

definition u64 :: "int \<Rightarrow> int" where
  "u64 x = x mod 18446744073709551616"

lemma u32_id [cint]: "0 \<le> x \<Longrightarrow> x < 4294967296 \<Longrightarrow> u32 x = x"
  by (simp add: u32_def)

lemma i32_id [cint]: "- 2147483648 \<le> x \<Longrightarrow> x < 2147483648 \<Longrightarrow> i32 x = x"
  by (simp add: i32_def)

lemma u64_id [cint]: "0 \<le> x \<Longrightarrow> x < 18446744073709551616 \<Longrightarrow> u64 x = x"
  by (simp add: u64_def)

lemma u32_range [simp]: "0 \<le> u32 x" "u32 x < 4294967296"
  by (simp_all add: u32_def)

lemma i32_range [simp]: "- 2147483648 \<le> i32 x" "i32 x < 2147483648"
proof -
  have "0 \<le> (x + 2147483648) mod 4294967296" "(x + 2147483648) mod 4294967296 < 4294967296"
    by simp_all
  then show "- 2147483648 \<le> i32 x" "i32 x < 2147483648"
    unfolding i32_def by linarith+
qed

lemma u32_mod_eq: "x mod 4294967296 = y mod 4294967296 \<Longrightarrow> u32 x = u32 y"
  by (simp add: u32_def)

lemma i32_cong: "x mod 4294967296 = y mod 4294967296 \<Longrightarrow> i32 x = i32 y"
  unfolding i32_def by (metis mod_add_left_eq)

lemma i32_u32 [simp]: "i32 (u32 x) = i32 x"
  by (rule i32_cong) (simp add: u32_def)

lemma u32_i32 [simp]: "u32 (i32 x) = u32 x"
  unfolding u32_def i32_def by (simp add: mod_diff_left_eq)

lemma u32_u32 [simp]: "u32 (u32 x) = u32 x"
  by (simp add: u32_def)

lemma u32_add_left [simp]: "u32 (u32 x + y) = u32 (x + y)"
  by (simp add: u32_def mod_add_left_eq)

lemma u32_add_right [simp]: "u32 (x + u32 y) = u32 (x + y)"
  by (simp add: u32_def mod_add_right_eq)

lemma u32_diff_left [simp]: "u32 (u32 x - y) = u32 (x - y)"
  by (simp add: u32_def mod_diff_left_eq)

lemma u32_diff_right [simp]: "u32 (x - u32 y) = u32 (x - y)"
  by (simp add: u32_def mod_diff_right_eq)

lemma u32_mult_left [simp]: "u32 (u32 x * y) = u32 (x * y)"
  by (simp add: u32_def mod_mult_left_eq)

lemma u32_i32_mult: "u32 (i32 a * k + z) = u32 (a * k + z)"
  by (metis u32_add_left u32_i32 u32_mult_left)

text \<open>C's signed division on a dividend of known sign.\<close>

lemma sdiv_nonneg: "0 \<le> a \<Longrightarrow> 0 < b \<Longrightarrow> a sdiv b = a div (b::int)"
  by (auto simp: signed_divide_int_def sgn_if)

lemma smod_nonneg: "0 \<le> a \<Longrightarrow> 0 < b \<Longrightarrow> a smod b = a mod (b::int)"
  by (auto simp: signed_modulo_int_def sgn_if)

text \<open>
  The idiom \<open>car = x / b; if ((cdr = x % b) < 0) cdr += b, car--\<close> is floor division.
\<close>

lemma floor_idiom:
  fixes a b :: int
  assumes "0 < b"
  shows "(if 0 \<le> a smod b then a smod b else a smod b + b) = a mod b"
    and "(if 0 \<le> a smod b then a sdiv b else a sdiv b - 1) = a div b"
proof -
  have eq: "a sdiv b * b + a smod b = a"
    by (metis signed_modulo_int_def div_mult_mod_eq mult.commute sdiv_mult_smod_eq)
  have lt: "\<bar>a smod b\<bar> < b"
    using assms by (simp add: signed_modulo_int_def abs_mult sgn_if)
  define q r where "q = (if 0 \<le> a smod b then a sdiv b else a sdiv b - 1)"
    and "r = (if 0 \<le> a smod b then a smod b else a smod b + b)"
  have "a = q * b + r" "0 \<le> r" "r < b"
    using eq lt by (auto simp: q_def r_def algebra_simps)
  then have "a mod b = r" "a div b = q"
    by (auto simp: mod_pos_pos_trivial div_pos_pos_trivial)
  then show "(if 0 \<le> a smod b then a smod b else a smod b + b) = a mod b"
    and "(if 0 \<le> a smod b then a sdiv b else a sdiv b - 1) = a div b"
    by (simp_all add: q_def r_def)
qed

lemma mod_split: "0 \<le> c \<Longrightarrow> n = b * c \<Longrightarrow> t mod n = b * (t div b mod c) + t mod b" for b c n t :: int
  by (simp add: zmod_zmult2_eq)

lemma div_split: "0 \<le> c \<Longrightarrow> n = b * c \<Longrightarrow> t div n = t div b div c" for b c n t :: int
  by (simp add: zdiv_zmult2_eq)

section \<open>Bit scans\<close>

text \<open>
  \<^verbatim>\<open>for (; !(b & 0b1U); it++, b >>= 1U);\<close> The loop is only entered with a set bit in \<open>b\<close>;
  on \<open>b = 0\<close>, where the C loop would not end, the model stops at once.
\<close>

lemma word_nonzero_least_bit:
  assumes "b \<noteq> (0 :: 'a::len word)"
  obtains n where "bit b n" "\<forall>k<n. \<not> bit b k" "n < LENGTH('a)"
proof -
  from assms obtain m where "bit b m"
    by (auto simp: bit_eq_iff)
  then have "bit b (LEAST n. bit b n)"
    by (rule LeastI)
  moreover have "\<forall>k<(LEAST n. bit b n). \<not> bit b k"
    using not_less_Least by blast
  ultimately show thesis
    using that bit_imp_le_length by blast
qed

lemma drop_bit_zero_iff: "drop_bit k b = (0 :: 'a::len word) \<longleftrightarrow> (\<forall>n\<ge>k. \<not> bit b n)"
proof
  assume "drop_bit k b = 0"
  then have "\<not> bit (drop_bit k b) m" for m by simp
  then show "\<forall>n\<ge>k. \<not> bit b n"
    by (metis bit_drop_bit_eq comp_apply le_add_diff_inverse)
qed (auto simp: bit_eq_iff bit_drop_bit_eq)

function skip_zeros :: "'a::len word \<Rightarrow> nat \<Rightarrow> nat \<times> 'a word" where
  "skip_zeros b it = (if b = 0 \<or> bit b 0 then (it, b) else skip_zeros (drop_bit 1 b) (Suc it))"
  by pat_completeness auto
termination
proof (relation "measure (\<lambda>(b, it). unat b)", goal_cases)
  case 1
  show ?case by simp
next
  case (2 b it)
  then have "unat b \<noteq> 0" by (simp add: unat_eq_zero)
  then have "unat b div 2 < unat b" by simp
  then show ?case by (simp add: unat_drop_bit_eq drop_bit_eq_div unat_div)
qed

declare skip_zeros.simps [simp del]

lemma skip_zeros_bit [scan]:
  "bit b n \<Longrightarrow> \<forall>k<n. \<not> bit b k \<Longrightarrow> skip_zeros b it = (it + n, drop_bit n b)"
proof (induction n arbitrary: b it)
  case 0
  then show ?case by (subst skip_zeros.simps) simp
next
  case (Suc n)
  have "b \<noteq> 0" "\<not> bit b 0" using Suc.prems by auto
  moreover have "bit (drop_bit 1 b) n" "\<forall>k<n. \<not> bit (drop_bit 1 b) k"
    using Suc.prems by (auto simp: bit_drop_bit_eq)
  then have "skip_zeros (drop_bit 1 b) (Suc it) = (Suc it + n, drop_bit n (drop_bit 1 b))"
    by (rule Suc.IH)
  ultimately show ?case by (subst skip_zeros.simps) simp
qed

lemma skip_zeros_shifted [scan]:
  assumes "bit b n" "it \<le> n" "\<forall>k. it \<le> k \<and> k < n \<longrightarrow> \<not> bit b k"
  shows "skip_zeros (drop_bit it b) it = (n, drop_bit n b)"
proof -
  have "bit (drop_bit it b) (n - it)" "\<forall>k<n - it. \<not> bit (drop_bit it b) k"
    using assms by (auto simp: bit_drop_bit_eq)
  from skip_zeros_bit [OF this] show ?thesis
    using assms(2) by simp
qed

text \<open>The same loop on a signed operand, where \<open>>>\<close> is the arithmetic shift.\<close>

lemma bit_signed_drop_1:
  "bit (signed_drop_bit (Suc 0) (b :: 'a::len word)) n \<longleftrightarrow>
     bit b (if n = LENGTH('a) - 1 then n else Suc n)"
  by (auto simp: bit_signed_drop_bit_iff dest: bit_imp_le_length)

lemma bit_signed_drop_below:
  "k + n < LENGTH('a) \<Longrightarrow> bit (signed_drop_bit k (b :: 'a::len word)) n \<longleftrightarrow> bit b (k + n)"
  by (auto simp: bit_signed_drop_bit_iff)

lemma signed_drop_zero_iff:
  assumes "k < LENGTH('a)"
  shows "signed_drop_bit k b = (0 :: 'a::len word) \<longleftrightarrow> (\<forall>n\<ge>k. \<not> bit b n)"
proof
  assume z: "signed_drop_bit k b = 0"
  show "\<forall>n\<ge>k. \<not> bit b n"
  proof (intro allI impI notI)
    fix n assume "k \<le> n" "bit b n"
    then have "bit (signed_drop_bit k b) (n - k)"
      using bit_signed_drop_below [of k "n - k" b] bit_imp_le_length by fastforce
    with z show False by simp
  qed
next
  assume "\<forall>n\<ge>k. \<not> bit b n"
  then show "signed_drop_bit k b = 0"
    using assms by (auto simp: bit_eq_iff bit_signed_drop_bit_iff)
qed

function skip_zeros_s :: "'a::len word \<Rightarrow> nat \<Rightarrow> nat" where
  "skip_zeros_s b it =
     (if b = 0 \<or> bit b 0 then it else skip_zeros_s (signed_drop_bit 1 b) (Suc it))"
  by pat_completeness auto
termination
proof (relation "measure (\<lambda>(b, it). LEAST n. bit b n)", goal_cases)
  case 1
  show ?case by simp
next
  case (2 b it)
  then obtain n where n: "bit b n" "\<forall>k<n. \<not> bit b k" "n < LENGTH('a)"
    using word_nonzero_least_bit by blast
  with 2 obtain m where m: "n = Suc m" by (cases n) auto
  have "bit (signed_drop_bit 1 b) m"
    using n m by (simp add: bit_signed_drop_1)
  then have "(LEAST n. bit (signed_drop_bit 1 b) n) \<le> m"
    by (rule Least_le)
  moreover have "(LEAST n. bit b n) = n"
    using n by (intro Least_equality) (auto simp: not_less [symmetric])
  ultimately show ?case using m by simp
qed

declare skip_zeros_s.simps [simp del]

lemma skip_zeros_s_bit [scan]:
  "bit b n \<Longrightarrow> \<forall>k<n. \<not> bit b k \<Longrightarrow> skip_zeros_s b it = it + n" for b :: "'a::len word"
proof (induction n arbitrary: b it)
  case 0
  then show ?case by (subst skip_zeros_s.simps) simp
next
  case (Suc n)
  have "b \<noteq> 0" "\<not> bit b 0" using Suc.prems by auto
  moreover have "Suc n < LENGTH('a)" using Suc.prems(1) bit_imp_le_length by blast
  then have "bit (signed_drop_bit 1 b) n" "\<forall>k<n. \<not> bit (signed_drop_bit 1 b) k"
    using Suc.prems by (auto simp: bit_signed_drop_1)
  then have "skip_zeros_s (signed_drop_bit 1 b) (Suc it) = Suc it + n"
    by (rule Suc.IH)
  ultimately show ?case by (subst skip_zeros_s.simps) simp
qed

lemma skip_zeros_s_shifted [scan]:
  fixes b :: "'a::len word"
  assumes "bit b n" "it \<le> n" "\<forall>k. it \<le> k \<and> k < n \<longrightarrow> \<not> bit b k"
  shows "skip_zeros_s (signed_drop_bit it b) j = j + (n - it)"
proof -
  have "n < LENGTH('a)" using assms(1) bit_imp_le_length by blast
  then have "bit (signed_drop_bit it b) (n - it)" "\<forall>k<n - it. \<not> bit (signed_drop_bit it b) k"
    using assms by (auto simp: bit_signed_drop_below)
  then show ?thesis by (rule skip_zeros_s_bit)
qed

section \<open>Filtered ranges\<close>

lemma filter_upt_first [scan]:
  assumes "a \<le> n" "n < b" "P n" "\<forall>k. a \<le> k \<and> k < n \<longrightarrow> \<not> P k"
  shows "filter P [a..<b] = n # filter P [Suc n..<b]"
proof -
  have "[a..<b] = [a..<n] @ n # [Suc n..<b]"
    using assms(1,2) upt_add_eq_append [of a n "b - n"] by (simp add: upt_conv_Cons)
  moreover have "filter P [a..<n] = []"
    using assms(4) by (auto simp: filter_empty_conv)
  ultimately show ?thesis using assms(3) by simp
qed

lemma filter_upt_none [scan]: "\<forall>k. a \<le> k \<and> k < b \<longrightarrow> \<not> P k \<Longrightarrow> filter P [a..<b] = []"
  by (auto simp: filter_empty_conv)

lemma least_from:
  fixes P :: "nat \<Rightarrow> bool"
  assumes "P m" "a \<le> m"
  obtains n where "P n" "a \<le> n" "n \<le> m" "\<forall>k. a \<le> k \<and> k < n \<longrightarrow> \<not> P k"
proof -
  let ?Q = "\<lambda>n. P n \<and> a \<le> n"
  have q: "?Q (LEAST n. ?Q n)" using assms by (intro LeastI [of ?Q m]) simp
  have "(LEAST n. ?Q n) \<le> m" using assms by (intro Least_le) simp
  moreover have "\<forall>k. a \<le> k \<and> k < (LEAST n. ?Q n) \<longrightarrow> \<not> P k"
    using not_less_Least [of _ ?Q] by blast
  ultimately show thesis using that q by blast
qed

end
