(* ===== verification/BitInt.thy ===== *)
theory BitInt
  imports Prelude
begin

text \<open>
  The degrading integer sets of \<^verbatim>\<open>src/src/bitint.h\<close>, \<^verbatim>\<open>src/src/bitint.c\<close> and
  \<^verbatim>\<open>src/src/bitint-bobs.c\<close>: a \<open>bituint\<close> or \<open>bitint\<close> holds one integer natively
  and turns into a bit set when a second one is assigned; a \<open>bitint383\<close> or \<open>bitint447\<close>
  holds up to 12 or 14 integers in a sorted array before it degrades.  The theory models
  assignment, membership and the iterators, gives each representation the set it stands for,
  and proves that assignment adds exactly the given integer and that iteration lists exactly
  the set, in the iterator's order, together with the exact cases where it does not.
\<close>

unbundle bit_operations_syntax

section \<open>Iterators\<close>

text \<open>
  Every client runs an iterator as
  \<^verbatim>\<open>for (bitint_iter_t i = 0; (x = next(&i, bi), i);) body\<close>: the loop ends when a call
  leaves the iterator at zero.  \<open>bi_collect\<close> lists what the body sees; the fuel bounds the
  number of calls and \<open>collect_rest\<close> shows how much of it is enough.
\<close>

fun bi_collect :: "(nat \<Rightarrow> 'v \<times> nat) \<Rightarrow> nat \<Rightarrow> nat \<Rightarrow> 'v list" where
  "bi_collect nx 0 it = []"
| "bi_collect nx (Suc fuel) it =
     (let (x, it') = nx it in if it' = 0 then [] else x # bi_collect nx fuel it')"

text \<open>
  The contract between a set representation and the loops over it: \<open>rest it b\<close> is what is
  still to come at iterator value \<open>it\<close>.
\<close>

locale bi_iterator =
  fixes nxt :: "nat \<Rightarrow> 'b \<Rightarrow> 'v \<times> nat"
    and rest :: "nat \<Rightarrow> 'b \<Rightarrow> 'v list"
    and inv :: "nat \<Rightarrow> 'b \<Rightarrow> bool"
  assumes stop: "inv it b \<Longrightarrow> rest it b = [] \<Longrightarrow> snd (nxt it b) = 0"
    and step: "inv it b \<Longrightarrow> rest it b = x # xs \<Longrightarrow>
      \<exists>it'. nxt it b = (x, it') \<and> it' \<noteq> 0 \<and> inv it' b \<and> rest it' b = xs"
begin

lemma collect_rest:
  "inv it b \<Longrightarrow> length (rest it b) < fuel \<Longrightarrow> bi_collect (\<lambda>i. nxt i b) fuel it = rest it b"
proof (induction fuel arbitrary: it)
  case 0
  then show ?case by simp
next
  case (Suc fuel)
  show ?case
  proof (cases "rest it b")
    case Nil
    with stop [OF Suc.prems(1) Nil] show ?thesis by (simp add: split_beta)
  next
    case (Cons x xs)
    with step [OF Suc.prems(1) Cons] obtain it' where
      it': "nxt it b = (x, it')" "it' \<noteq> 0" "inv it' b" "rest it' b = xs" by blast
    with Suc.IH [of it'] Suc.prems(2) Cons show ?thesis by simp
  qed
qed

end

section \<open>Unsigned sets: bituint31 and bituint63\<close>

text \<open>
  LSB set: one integer, in the upper bits; zero: empty; otherwise bit \<open>x + 1\<close> stands for
  \<open>x\<close>.  Both widths run the same code; \<open>ass_bui\<close> and \<open>bui_next\<close> are that code over any
  width.  A shift by the width or more is undefined in C; the theorems keep \<open>x + 1\<close> below it.
\<close>

type_synonym bituint31 = "32 word"
type_synonym bituint63 = "64 word"

definition ass_bui :: "'a::len word \<Rightarrow> nat \<Rightarrow> 'a word" where
  "ass_bui bi x =
     (if bi = 0 then push_bit 1 (of_nat x) OR 1
      else let bi = (if bit bi 0 then push_bit (unat (drop_bit 1 bi + 1)) 1 else bi)
           in bi OR push_bit (x + 1) 1)"

definition ass_bui31 :: "bituint31 \<Rightarrow> nat \<Rightarrow> bituint31" where
  "ass_bui31 bi x = ass_bui bi x"

text \<open>In \<open>ass_bui63\<close> the singleton is put together in 32-bit arithmetic and then widened.\<close>

definition ass_bui63 :: "bituint63 \<Rightarrow> nat \<Rightarrow> bituint63" where
  "ass_bui63 bi x =
     (if bi = 0 then ucast (push_bit 1 (of_nat x) OR 1 :: 32 word) else ass_bui bi x)"

definition bui31_has_bits_p :: "bituint31 \<Rightarrow> bool" where
  "bui31_has_bits_p bi \<longleftrightarrow> bi \<noteq> 0"

definition bui63_has_bits_p :: "bituint63 \<Rightarrow> bool" where
  "bui63_has_bits_p bi \<longleftrightarrow> bi \<noteq> 0"

definition bui31_has_bit_p :: "bituint31 \<Rightarrow> nat \<Rightarrow> bool" where
  "bui31_has_bit_p bi x =
     (if bit bi 0 then drop_bit 1 bi = of_nat x else bit (drop_bit (x + 1) bi) 0)"

definition bui_next :: "nat \<Rightarrow> 'a::len word \<Rightarrow> nat \<times> nat" where
  "bui_next it bi =
     (if bit bi 0 then
        (if it \<noteq> 0 then (0, 0)
         else let res = unat (drop_bit 1 bi) in (res, res))
      else let b = drop_bit it (drop_bit 1 bi)
           in if b \<noteq> 0 then (let res = fst (skip_zeros b it) in (res, res + 1))
              else (0, 0))"

definition bui31_next :: "nat \<Rightarrow> bituint31 \<Rightarrow> nat \<times> nat" where
  "bui31_next it bi = bui_next it bi"

definition bui63_next :: "nat \<Rightarrow> bituint63 \<Rightarrow> nat \<times> nat" where
  "bui63_next it bi = bui_next it bi"

definition bui31_list :: "bituint31 \<Rightarrow> nat list" where
  "bui31_list bi = bi_collect (\<lambda>i. bui31_next i bi) 64 0"

definition bui63_list :: "bituint63 \<Rightarrow> nat list" where
  "bui63_list bi = bi_collect (\<lambda>i. bui63_next i bi) 128 0"

text \<open>The set a word stands for, and its well-formedness.\<close>

definition bui_elems :: "'a::len word \<Rightarrow> nat set" where
  "bui_elems bi =
     (if bi = 0 then {} else if bit bi 0 then {unat (drop_bit 1 bi)} else {x. bit bi (x + 1)})"

definition bui_wf :: "'a::len word \<Rightarrow> bool" where
  "bui_wf bi \<longleftrightarrow> (bit bi 0 \<longrightarrow> unat (drop_bit 1 bi) + 1 < LENGTH('a))"

lemma bui_wf_0 [simp]: "bui_wf 0"
  by (simp add: bui_wf_def)

lemma bui_elems_0 [simp]: "bui_elems 0 = {}"
  by (simp add: bui_elems_def)

lemma len_less_exp: "Suc n < 2 ^ Suc n"
  by (induction n) auto

lemma bit_word_of_nat_iff: "bit (of_nat x :: 'a::len word) n \<longleftrightarrow> n < LENGTH('a) \<and> bit x n"
  by transfer (simp add: bit_take_bit_iff bit_of_nat_iff_bit)

lemma bui_singleton:
  fixes w :: "'a::len word"
  assumes "x + 1 < LENGTH('a)" and "w = push_bit 1 (of_nat x) OR 1"
  shows "bit w 0" and "unat (drop_bit 1 w) = x" and "w \<noteq> 0"
proof -
  show "bit w 0" unfolding assms(2) bit_or_iff by simp
  then show "w \<noteq> 0" by auto
  have x: "x < 2 ^ (LENGTH('a) - 1)"
    using assms(1) by (metis add_lessD1 less_diff_conv less_exp less_trans)
  have bx: "bit x n \<Longrightarrow> n < LENGTH('a) - 1" for n
    using x by (metis bit_take_bit_iff take_bit_nat_eq_self)
  have "bit w (Suc n) \<longleftrightarrow> bit x n" for n
    unfolding assms(2) bit_or_iff bit_push_bit_iff using bx [of n]
    by (auto simp: bit_1_iff bit_word_of_nat_iff)
  then have "drop_bit 1 w = of_nat x"
    by (intro bit_word_eqI) (simp add: bit_drop_bit_eq bit_word_of_nat_iff)
  moreover have "x < 2 ^ LENGTH('a)"
    using x by (meson diff_le_self less_le_trans one_le_numeral power_increasing)
  ultimately show "unat (drop_bit 1 w) = x"
    by (simp add: unsigned_of_nat take_bit_nat_eq_self)
qed

lemma bui_degrade:
  fixes bi :: "'a::len word"
  assumes "bui_wf bi" "bi \<noteq> 0"
  defines "b \<equiv> if bit bi 0 then push_bit (unat (drop_bit 1 bi + 1)) 1 else bi"
  shows "\<not> bit b 0" and "{x. bit b (x + 1)} = bui_elems bi" and "b \<noteq> 0"
proof -
  have "unat (drop_bit 1 bi + 1) = unat (drop_bit 1 bi) + 1" if "bit bi 0"
  proof -
    have "unat (drop_bit 1 bi) + 1 < 2 ^ LENGTH('a)"
      using that assms(1) by (metis bui_wf_def less_exp less_trans)
    then show ?thesis by (simp add: unat_word_ariths)
  qed
  then have b: "b = push_bit (unat (drop_bit 1 bi) + 1) 1" if "bit bi 0"
    using that by (simp add: b_def)
  show nb: "\<not> bit b 0"
    using b by (cases "bit bi 0") (auto simp: b_def bit_simps)
  show el: "{x. bit b (x + 1)} = bui_elems bi"
    using assms(1,2) b
    by (cases "bit bi 0") (auto simp: b_def bui_elems_def bui_wf_def bit_simps possible_bit_word)
  show "b \<noteq> 0"
  proof (cases "bit bi 0")
    case True
    then have "bui_elems bi \<noteq> {}" using assms(2) by (simp add: bui_elems_def)
    with el show ?thesis by auto
  qed (simp add: b_def assms(2))
qed

lemma ass_bui_nonzero:
  fixes bi :: "'a::len word"
  assumes "bui_wf bi" "x + 1 < LENGTH('a)" "bi \<noteq> 0"
  shows "\<not> bit (ass_bui bi x) 0 \<and>
    {y. bit (ass_bui bi x) (y + 1)} = insert x (bui_elems bi)"
proof -
  define b where "b = (if bit bi 0 then push_bit (unat (drop_bit 1 bi + 1)) 1 else bi)"
  have r: "ass_bui bi x = b OR push_bit (x + 1) 1"
    using assms(3) by (simp add: ass_bui_def b_def Let_def)
  note d = bui_degrade [OF assms(1,3), folded b_def]
  have "{y. bit (ass_bui bi x) (y + 1)} = insert x {y. bit b (y + 1)}"
    using assms(2) by (auto simp: r bit_simps)
  with d show ?thesis by (simp add: r bit_simps)
qed

lemma ass_bui_elems:
  fixes bi :: "'a::len word"
  assumes "bui_wf bi" "x + 1 < LENGTH('a)"
  shows "bui_elems (ass_bui bi x) = insert x (bui_elems bi) \<and> bui_wf (ass_bui bi x)
    \<and> ass_bui bi x \<noteq> 0"
proof (cases "bi = 0")
  case True
  with bui_singleton [OF assms(2) refl] assms(2) show ?thesis
    by (simp add: ass_bui_def bui_elems_def bui_wf_def)
next
  case False
  from ass_bui_nonzero [OF assms False] have
    n0: "\<not> bit (ass_bui bi x) 0" and
    el: "{y. bit (ass_bui bi x) (y + 1)} = insert x (bui_elems bi)" by auto
  from el have "ass_bui bi x \<noteq> 0" by auto
  with n0 el show ?thesis by (simp add: bui_elems_def bui_wf_def)
qed

text \<open>Iteration.  A native 0 is never listed: its iterator value is zero too.\<close>

definition bui_rest :: "nat \<Rightarrow> 'a::len word \<Rightarrow> nat list" where
  "bui_rest it bi =
     (if bit bi 0 then (if it = 0 \<and> unat (drop_bit 1 bi) \<noteq> 0 then [unat (drop_bit 1 bi)] else [])
      else filter (\<lambda>k. bit bi (k + 1)) [it..<LENGTH('a) - 1])"

lemma bui_next_bits:
  fixes bi :: "'a::len word"
  assumes "\<not> bit bi 0"
  shows "filter (\<lambda>k. bit bi (k + 1)) [it..<LENGTH('a) - 1] = [] \<Longrightarrow> snd (bui_next it bi) = 0"
    and "filter (\<lambda>k. bit bi (k + 1)) [it..<LENGTH('a) - 1] = x # xs \<Longrightarrow>
      bui_next it bi = (x, x + 1) \<and> filter (\<lambda>k. bit bi (k + 1)) [x + 1..<LENGTH('a) - 1] = xs"
proof -
  have lim: "k < LENGTH('a) - 1" if "bit bi (Suc k)" for k
    using bit_imp_le_length [OF that] by simp
  show "snd (bui_next it bi) = 0" if "filter (\<lambda>k. bit bi (k + 1)) [it..<LENGTH('a) - 1] = []"
  proof -
    have "drop_bit (Suc it) bi = 0"
      unfolding drop_bit_zero_iff
    proof (intro allI impI notI)
      fix n assume "Suc it \<le> n" "bit bi n"
      then obtain k where "n = Suc k" "it \<le> k" by (cases n) auto
      with \<open>bit bi n\<close> lim [of k] that show False by (auto simp: filter_empty_conv)
    qed
    then show ?thesis using assms by (simp add: bui_next_def)
  qed
  assume f: "filter (\<lambda>k. bit bi (k + 1)) [it..<LENGTH('a) - 1] = x # xs"
  then have "x \<in> set (filter (\<lambda>k. bit bi (k + 1)) [it..<LENGTH('a) - 1])" by simp
  then have "bit bi (x + 1)" "it \<le> x" by auto
  then obtain n where n: "bit bi (n + 1)" "it \<le> n" "\<forall>k. it \<le> k \<and> k < n \<longrightarrow> \<not> bit bi (k + 1)"
    using least_from [of "\<lambda>k. bit bi (k + 1)" x it] by blast
  have "n < LENGTH('a) - 1" using lim n(1) by simp
  then have "filter (\<lambda>k. bit bi (k + 1)) [it..<LENGTH('a) - 1] =
      n # filter (\<lambda>k. bit bi (k + 1)) [Suc n..<LENGTH('a) - 1]"
    using n by (intro filter_upt_first) auto
  with f have x: "x = n" "xs = filter (\<lambda>k. bit bi (k + 1)) [Suc n..<LENGTH('a) - 1]" by auto
  have "skip_zeros (drop_bit it (drop_bit 1 bi)) it = (n, drop_bit n (drop_bit 1 bi))"
    using n by (intro skip_zeros_shifted) (auto simp: bit_drop_bit_eq)
  moreover have "drop_bit it (drop_bit 1 bi) \<noteq> 0"
    using n by (auto simp: drop_bit_zero_iff intro!: exI [of _ "Suc n"])
  ultimately show "bui_next it bi = (x, x + 1) \<and>
      filter (\<lambda>k. bit bi (k + 1)) [x + 1..<LENGTH('a) - 1] = xs"
    using assms x by (simp add: bui_next_def Let_def)
qed

interpretation bui: bi_iterator "bui_next :: nat \<Rightarrow> 'a::len word \<Rightarrow> nat \<times> nat" bui_rest "\<lambda>it b. True"
proof (unfold_locales, goal_cases)
  case (1 it b)
  then show ?case
    using bui_next_bits(1) [of b it]
    by (cases "bit b 0") (auto simp: bui_rest_def bui_next_def Let_def split: if_splits)
next
  case (2 it b x xs)
  then show ?case
    using bui_next_bits(2) [of b it x xs]
    by (cases "bit b 0") (auto simp: bui_rest_def bui_next_def Let_def split: if_splits)
qed

lemma bui_rest_length: "length (bui_rest it (bi :: 'a::len word)) \<le> LENGTH('a)"
  using length_filter_le [of "\<lambda>k. bit bi (k + 1)" "[it..<LENGTH('a) - 1]"]
  by (auto simp: bui_rest_def)

lemma bui31_list_rest: "bui31_list bi = bui_rest 0 bi"
  unfolding bui31_list_def bui31_next_def
  using bui_rest_length [of 0 bi] by (intro bui.collect_rest) auto

lemma bui63_list_rest: "bui63_list bi = bui_rest 0 bi"
  unfolding bui63_list_def bui63_next_def
  using bui_rest_length [of 0 bi] by (intro bui.collect_rest) auto

lemma bui_rest_sorted: "sorted_wrt (<) (bui_rest 0 bi)"
  by (auto simp: bui_rest_def intro: sorted_wrt_filter)

lemma bui_rest_set:
  "set (bui_rest 0 bi) = (if bui_elems bi = {0} \<and> bit bi 0 then {} else bui_elems bi)"
  for bi :: "'a::len word"
proof (cases "bit bi 0")
  case True
  then show ?thesis by (auto simp: bui_rest_def bui_elems_def)
next
  case False
  have "x < LENGTH('a) - 1" if "bit bi (Suc x)" for x
    using bit_imp_le_length [OF that] by simp
  with False show ?thesis by (auto simp: bui_rest_def bui_elems_def)
qed


lemma bui31_has_bit_elems:
  assumes "bui_wf bi" "x + 1 < 32"
  shows "bui31_has_bit_p bi x \<longleftrightarrow> x \<in> bui_elems bi"
proof (cases "bit bi 0")
  case True
  have "drop_bit 1 bi = of_nat x \<longleftrightarrow> unat (drop_bit 1 bi) = x"
    using assms(2) by (auto simp: unsigned_of_nat take_bit_nat_eq_self)
  with True show ?thesis by (auto simp: bui31_has_bit_p_def bui_elems_def)
qed (auto simp: bui31_has_bit_p_def bui_elems_def bit_drop_bit_eq)

lemma ass_bui63_eq:
  assumes "x < 2 ^ 31"
  shows "ass_bui63 bi x = ass_bui bi x"
proof -
  have "bit x n \<Longrightarrow> n < 31" for n
    using assms by (metis bit_take_bit_iff take_bit_nat_eq_self)
  then have b: "bit x (n - Suc 0) \<Longrightarrow> n < 32 \<and> n - Suc 0 < 32" for n
    by fastforce
  have "ucast (push_bit 1 (of_nat x) OR 1 :: 32 word) = (push_bit 1 (of_nat x) OR 1 :: 64 word)"
    unfolding bit_eq_iff bit_ucast_iff bit_or_iff bit_push_bit_iff bit_word_of_nat_iff
    by (auto simp: bit_1_iff dest: b)
  then show ?thesis by (simp add: ass_bui63_def ass_bui_def)
qed

section \<open>Signed sets: bitint31 and bitint63\<close>

text \<open>
  \<open>pos\<close> odd: one integer, in \<open>neg\<close>; otherwise bit \<open>x\<close> of \<open>pos\<close> stands for \<open>x > 0\<close> and
  bit \<open>- x\<close> of \<open>neg\<close> for \<open>x \<le> 0\<close>.  The C text is the same at both widths, with the width
  and twice the width where the 32-bit version has 32 and 64.
\<close>

record (overloaded) ('a::len) bitint =
  bpos :: "'a word"
  bneg :: "'a word"

type_synonym bitint31 = "32 bitint"
type_synonym bitint63 = "64 bitint"

definition ass_bi :: "'a::len bitint \<Rightarrow> int \<Rightarrow> 'a bitint" where
  "ass_bi bi x =
     (if bpos bi = 0 \<and> bneg bi = 0 then bi\<lparr>bpos := bpos bi OR 1, bneg := of_int x\<rparr>
      else
        let bi = (if bit (bpos bi) 0 then
                    (if 0 < sint (bneg bi)
                     then bi\<lparr>bpos := push_bit (nat (sint (bneg bi))) 1, bneg := 0\<rparr>
                     else bi\<lparr>bpos := 0, bneg := push_bit (nat (- sint (bneg bi))) 1\<rparr>)
                  else bi)
        in if 0 < x then bi\<lparr>bpos := bpos bi OR push_bit (nat x) 1\<rparr>
           else bi\<lparr>bneg := bneg bi OR push_bit (nat (- x)) 1\<rparr>)"

definition ass_bi31 :: "bitint31 \<Rightarrow> int \<Rightarrow> bitint31" where
  "ass_bi31 bi x = ass_bi bi x"

definition ass_bi63 :: "bitint63 \<Rightarrow> int \<Rightarrow> bitint63" where
  "ass_bi63 bi x = ass_bi bi x"

definition bi31_has_bits_p :: "bitint31 \<Rightarrow> bool" where
  "bi31_has_bits_p bi \<longleftrightarrow> bpos bi \<noteq> 0 \<or> bneg bi \<noteq> 0"

definition bi63_has_bits_p :: "bitint63 \<Rightarrow> bool" where
  "bi63_has_bits_p bi \<longleftrightarrow> bpos bi \<noteq> 0 \<or> bneg bi \<noteq> 0"

definition bi31_has_bit_p :: "bitint31 \<Rightarrow> int \<Rightarrow> bool" where
  "bi31_has_bit_p bi x =
     (if bit (bpos bi) 0 then sint (bneg bi) = x
      else if 0 < x then bit (drop_bit (nat x) (bpos bi)) 0
      else bit (signed_drop_bit (nat (- x)) (bneg bi)) 0)"

definition bi_next :: "nat \<Rightarrow> 'a::len bitint \<Rightarrow> int \<times> nat" where
  "bi_next it bi =
     (if bit (bpos bi) 0 then
        (if it \<noteq> 0 then (0, 0) else (sint (bneg bi), 1))
      else if it = 0 \<and> bit (bneg bi) 0 then (0, 1)
      else if it < LENGTH('a) \<and> drop_bit it (bpos bi) \<noteq> 0 then
        (let (i, p) = skip_zeros (drop_bit it (bpos bi)) it
         in (int i, if 1 < p then i + 1 else LENGTH('a) + 1))
      else if LENGTH('a) < it \<and> it < 2 * LENGTH('a)
              \<and> signed_drop_bit (it - LENGTH('a)) (bneg bi) \<noteq> 0 then
        (let i = skip_zeros_s (signed_drop_bit (it - LENGTH('a)) (bneg bi)) it
         in (int LENGTH('a) - int i, i + 1))
      else (0, 0))"

definition bi31_next :: "nat \<Rightarrow> bitint31 \<Rightarrow> int \<times> nat" where
  "bi31_next it bi = bi_next it bi"

definition bi63_next :: "nat \<Rightarrow> bitint63 \<Rightarrow> int \<times> nat" where
  "bi63_next it bi = bi_next it bi"

definition bi31_list :: "bitint31 \<Rightarrow> int list" where
  "bi31_list bi = bi_collect (\<lambda>i. bi31_next i bi) 128 0"

definition bi63_list :: "bitint63 \<Rightarrow> int list" where
  "bi63_list bi = bi_collect (\<lambda>i. bi63_next i bi) 256 0"

definition bi_elems :: "'a::len bitint \<Rightarrow> int set" where
  "bi_elems bi =
     (if bit (bpos bi) 0 then {sint (bneg bi)}
      else int ` {k. bit (bpos bi) k} \<union> (\<lambda>k. - int k) ` {k. bit (bneg bi) k})"

definition bi_wf :: "'a::len bitint \<Rightarrow> bool" where
  "bi_wf bi \<longleftrightarrow> (bit (bpos bi) 0 \<longrightarrow> \<bar>sint (bneg bi)\<bar> < int LENGTH('a))"

lemma len_le_exp: "int LENGTH('a::len) \<le> 2 ^ (LENGTH('a) - 1)"
proof -
  have "Suc n \<le> 2 ^ n" for n :: nat by (induction n) auto
  from this [of "LENGTH('a) - 1"] have "LENGTH('a) \<le> 2 ^ (LENGTH('a) - 1)" by simp
  then show ?thesis by (metis of_nat_le_iff of_nat_numeral of_nat_power)
qed

lemma sint_small: "\<bar>x\<bar> < int LENGTH('a) \<Longrightarrow> sint (of_int x :: 'a::len word) = x"
proof -
  assume "\<bar>x\<bar> < int LENGTH('a)"
  then have "- (2 ^ (LENGTH('a) - 1)) \<le> x" "x < 2 ^ (LENGTH('a) - 1)"
    using len_le_exp [where ?'a = 'a] by linarith+
  then show ?thesis by (simp add: signed_of_int signed_take_bit_int_eq_self)
qed

lemma bit_push_1:
  "bit (2 ^ m :: 'a::len word) n \<longleftrightarrow> n = m \<and> n < LENGTH('a)"
  by (auto simp: bit_exp_iff)

lemma ass_bi_bits:
  fixes bi :: "'a::len bitint"
  assumes "\<not> bit (bpos bi) 0" "bpos bi \<noteq> 0 \<or> bneg bi \<noteq> 0" "\<bar>x\<bar> < int LENGTH('a)"
  shows "bi_elems (ass_bi bi x) = insert x (bi_elems bi) \<and> \<not> bit (bpos (ass_bi bi x)) 0"
proof (cases "0 < x")
  case True
  then have "{k. bit (bpos (ass_bi bi x)) k} = insert (nat x) {k. bit (bpos bi) k}"
    "bneg (ass_bi bi x) = bneg bi" "\<not> bit (bpos (ass_bi bi x)) 0"
    using assms by (auto simp: ass_bi_def bit_or_iff bit_push_1)
  with True assms(1) show ?thesis by (simp add: bi_elems_def)
next
  case False
  then have "{k. bit (bneg (ass_bi bi x)) k} = insert (nat (- x)) {k. bit (bneg bi) k}"
    "bpos (ass_bi bi x) = bpos bi"
    using assms by (auto simp: ass_bi_def bit_or_iff bit_push_1)
  with False assms(1) show ?thesis by (auto simp: bi_elems_def)
qed

lemma ass_bi_degrade:
  fixes bi :: "'a::len bitint"
  assumes "bit (bpos bi) 0" "bi_wf bi"
  obtains b where "\<not> bit (bpos b) 0" "bpos b \<noteq> 0 \<or> bneg b \<noteq> 0" "bi_elems b = bi_elems bi"
    "\<And>x. ass_bi bi x = ass_bi b x"
proof
  define b where "b = (if 0 < sint (bneg bi)
       then bi\<lparr>bpos := push_bit (nat (sint (bneg bi))) 1, bneg := 0\<rparr>
       else bi\<lparr>bpos := 0, bneg := push_bit (nat (- sint (bneg bi))) 1\<rparr>)"
  have v: "\<bar>sint (bneg bi)\<bar> < int LENGTH('a)"
    using assms by (simp add: bi_wf_def)
  show n0: "\<not> bit (bpos b) 0"
    by (auto simp: b_def bit_push_1)
  have sets: "{k. bit (bpos b) k} = (if 0 < sint (bneg bi) then {nat (sint (bneg bi))} else {})"
    "{k. bit (bneg b) k} = (if 0 < sint (bneg bi) then {} else {nat (- sint (bneg bi))})"
    using v by (auto simp: b_def bit_push_1)
  then show el: "bi_elems b = bi_elems bi"
    using n0 assms(1) by (simp add: bi_elems_def)
  from sets show ne: "bpos b \<noteq> 0 \<or> bneg b \<noteq> 0"
    by (metis bit_0_eq bot_apply empty_Collect_eq insert_not_empty)
  have "bpos bi \<noteq> 0" using assms(1) by auto
  with n0 ne assms(1) show "ass_bi bi x = ass_bi b x" for x
    by (auto simp: ass_bi_def b_def [symmetric])
qed

lemma ass_bi_elems:
  fixes bi :: "'a::len bitint"
  assumes "bi_wf bi" "\<bar>x\<bar> < int LENGTH('a)"
  shows "bi_elems (ass_bi bi x) = insert x (bi_elems bi) \<and> bi_wf (ass_bi bi x)"
proof (cases "bpos bi = 0 \<and> bneg bi = 0")
  case True
  with assms show ?thesis
    by (auto simp: ass_bi_def bi_elems_def bi_wf_def sint_small)
next
  case False
  show ?thesis
  proof (cases "bit (bpos bi) 0")
    case True
    from ass_bi_degrade [OF this assms(1)] obtain b where
      b: "\<not> bit (bpos b) 0" "bpos b \<noteq> 0 \<or> bneg b \<noteq> 0" "bi_elems b = bi_elems bi"
        "\<And>x. ass_bi bi x = ass_bi b x" by blast
    from ass_bi_bits [OF b(1,2) assms(2)] b(3,4) show ?thesis by (simp add: bi_wf_def)
  next
    case nb: False
    from ass_bi_bits [OF nb _ assms(2)] False show ?thesis by (auto simp: bi_wf_def)
  qed
qed

lemma bi31_has_bit_elems:
  assumes "\<bar>x\<bar> < 32"
  shows "bi31_has_bit_p bi x \<longleftrightarrow> x \<in> bi_elems bi"
proof -
  consider "0 < x" | "x \<le> 0" by linarith
  then show ?thesis
  proof cases
    case 1
    then have "x \<in> bi_elems bi \<longleftrightarrow> (if bit (bpos bi) 0 then sint (bneg bi) = x else bit (bpos bi) (nat x))"
      by (auto simp: bi_elems_def image_iff)
    with 1 show ?thesis by (simp add: bi31_has_bit_p_def bit_drop_bit_eq)
  next
    case 2
    have "bit (bneg bi) (nat (- x))" if "\<not> bit (bpos bi) 0" "int k = x" "bit (bpos bi) k" for k
      using that 2 by (cases k) auto
    then have "x \<in> bi_elems bi \<longleftrightarrow> (if bit (bpos bi) 0 then sint (bneg bi) = x else bit (bneg bi) (nat (- x)))"
      using 2 by (auto simp: bi_elems_def image_iff intro!: exI [of _ "nat (- x)"])
    moreover have "nat (- x) < 32" using 2 assms by simp
    ultimately show ?thesis using 2
      by (simp add: bi31_has_bit_p_def bit_signed_drop_bit_iff)
  qed
qed

text \<open>
  Iteration of a degraded set: zero first, then the positives upwards, then the negatives
  downwards, but only when there is a positive member to lead over to the negatives.
\<close>

definition bi_rest :: "nat \<Rightarrow> 'a::len bitint \<Rightarrow> int list" where
  "bi_rest it bi =
     (if bit (bpos bi) 0 then (if it = 0 then [sint (bneg bi)] else [])
      else if it < LENGTH('a) then
        (if it = 0 \<and> bit (bneg bi) 0 then [0] else []) @
        (if drop_bit it (bpos bi) = 0 then []
         else map int (filter (bit (bpos bi)) [it..<LENGTH('a)]) @
              map (\<lambda>k. - int k) (filter (bit (bneg bi)) [1..<LENGTH('a)]))
      else if LENGTH('a) < it then
        map (\<lambda>k. - int k) (filter (bit (bneg bi)) [it - LENGTH('a)..<LENGTH('a)])
      else [])"

lemma filter_bit_first:
  fixes w :: "'a::len word"
  assumes "drop_bit it w \<noteq> 0"
  obtains n where "bit w n" "it \<le> n" "n < LENGTH('a)" "\<forall>k. it \<le> k \<and> k < n \<longrightarrow> \<not> bit w k"
    "filter (bit w) [it..<LENGTH('a)] = n # filter (bit w) [Suc n..<LENGTH('a)]"
proof -
  from assms obtain m where "bit w m" "it \<le> m" by (auto simp: drop_bit_zero_iff)
  then obtain n where n: "bit w n" "it \<le> n" "\<forall>k. it \<le> k \<and> k < n \<longrightarrow> \<not> bit w k"
    using least_from [of "bit w" m it] by blast
  moreover have "n < LENGTH('a)" using n(1) by (rule bit_imp_le_length)
  ultimately show thesis using that filter_upt_first [of it n "LENGTH('a)" "bit w"] by blast
qed

lemma filter_bit_none:
  "drop_bit it w = 0 \<Longrightarrow> filter (bit w) [it..<LENGTH('a)] = []" for w :: "'a::len word"
  by (rule filter_upt_none) (auto simp: drop_bit_zero_iff)

lemma drop_bit_gt_1: "bit w n \<Longrightarrow> 1 < drop_bit n w \<longleftrightarrow> drop_bit (Suc n) w \<noteq> 0"
  for w :: "'a::len word"
proof -
  assume b: "bit w n"
  then have odd: "bit (drop_bit n w) 0" by (simp add: bit_drop_bit_eq)
  have "1 < drop_bit n w \<longleftrightarrow> drop_bit n w \<noteq> 0 \<and> drop_bit n w \<noteq> 1"
    by (metis word_gt_0 word_le_less_eq word_less_1 word_not_simps(1) not_less)
  also have "\<dots> \<longleftrightarrow> drop_bit n w \<noteq> 1" using odd by auto
  also have "\<dots> \<longleftrightarrow> drop_bit (Suc n) w \<noteq> 0"
  proof
    assume "drop_bit n w \<noteq> 1"
    then obtain k where k: "bit (drop_bit n w) k \<noteq> bit (1::'a word) k" by (auto simp: bit_eq_iff)
    with odd have "k \<noteq> 0" by (auto intro: Nat.gr0I)
    with k have "bit w (n + k)" "Suc n \<le> n + k" by (auto simp: bit_drop_bit_eq bit_1_iff)
    then show "drop_bit (Suc n) w \<noteq> 0"
      unfolding drop_bit_zero_iff by blast
  next
    assume "drop_bit (Suc n) w \<noteq> 0"
    then obtain k where k: "Suc n \<le> k" "bit w k" by (auto simp: drop_bit_zero_iff)
    then have "bit (drop_bit n w) (k - n)" "k - n \<noteq> 0" by (auto simp: bit_drop_bit_eq)
    then show "drop_bit n w \<noteq> 1" by (metis bit_1_iff)
  qed
  finally show ?thesis .
qed

lemma bi_next_pos:
  fixes bi :: "'a::len bitint"
  assumes "\<not> bit (bpos bi) 0" "it < LENGTH('a)" "drop_bit it (bpos bi) \<noteq> 0"
    "it = 0 \<longrightarrow> \<not> bit (bneg bi) 0"
  obtains n it' where "bi_next it bi = (int n, it')" "it' \<noteq> 0"
    "bi_rest it bi = int n # bi_rest it' bi"
proof -
  from filter_bit_first [OF assms(3)] obtain n where
    n: "bit (bpos bi) n" "it \<le> n" "n < LENGTH('a)" "\<forall>k. it \<le> k \<and> k < n \<longrightarrow> \<not> bit (bpos bi) k"
      "filter (bit (bpos bi)) [it..<LENGTH('a)] = n # filter (bit (bpos bi)) [Suc n..<LENGTH('a)]"
    by blast
  let ?it' = "if 1 < drop_bit n (bpos bi) then n + 1 else LENGTH('a) + 1"
  have "bi_next it bi = (int n, ?it')"
    using assms n by (auto simp: bi_next_def skip_zeros_shifted [OF n(1,2,4)])
  moreover have "bi_rest it bi = int n # bi_rest ?it' bi"
  proof (cases "drop_bit (Suc n) (bpos bi) = 0")
    case True
    then have "filter (bit (bpos bi)) [Suc n..<LENGTH('a)] = []"
      by (rule filter_bit_none)
    with True n assms show ?thesis by (auto simp: bi_rest_def drop_bit_gt_1)
  next
    case False
    then obtain m where "bit (bpos bi) m" "Suc n \<le> m" by (auto simp: drop_bit_zero_iff)
    then have "Suc n < LENGTH('a)" using bit_imp_le_length le_less_trans by blast
    with False n assms show ?thesis by (auto simp: bi_rest_def drop_bit_gt_1)
  qed
  ultimately show thesis using that [of n ?it'] by simp
qed

lemma bi_next_neg:
  fixes bi :: "'a::len bitint"
  assumes "\<not> bit (bpos bi) 0" "LENGTH('a) < it" "drop_bit (it - LENGTH('a)) (bneg bi) \<noteq> 0"
  obtains n where "bi_next it bi = (- int n, LENGTH('a) + n + 1)"
    "bi_rest it bi = - int n # bi_rest (LENGTH('a) + n + 1) bi"
proof -
  let ?k = "it - LENGTH('a)"
  from filter_bit_first [OF assms(3)] obtain n where
    n: "bit (bneg bi) n" "?k \<le> n" "n < LENGTH('a)" "\<forall>k. ?k \<le> k \<and> k < n \<longrightarrow> \<not> bit (bneg bi) k"
      "filter (bit (bneg bi)) [?k..<LENGTH('a)] = n # filter (bit (bneg bi)) [Suc n..<LENGTH('a)]"
    by blast
  have "skip_zeros_s (signed_drop_bit ?k (bneg bi)) it = it + (n - ?k)"
    by (rule skip_zeros_s_shifted [OF n(1,2,4)])
  then have "skip_zeros_s (signed_drop_bit ?k (bneg bi)) it = LENGTH('a) + n"
    using n(2) assms(2) by simp
  moreover have "signed_drop_bit ?k (bneg bi) \<noteq> 0" "it < 2 * LENGTH('a)"
    using n assms(2) by (auto simp: signed_drop_zero_iff)
  ultimately have "bi_next it bi = (- int n, LENGTH('a) + n + 1)"
    using assms by (simp add: bi_next_def)
  moreover have "bi_rest it bi = - int n # bi_rest (LENGTH('a) + n + 1) bi"
    using assms n(5) by (simp add: bi_rest_def)
  ultimately show thesis by (rule that)
qed

lemma bi_next_end:
  fixes bi :: "'a::len bitint"
  assumes "\<not> bit (bpos bi) 0" "it = 0 \<longrightarrow> \<not> bit (bneg bi) 0"
    "it < LENGTH('a) \<longrightarrow> drop_bit it (bpos bi) = 0"
    "LENGTH('a) < it \<longrightarrow> drop_bit (it - LENGTH('a)) (bneg bi) = 0"
  shows "bi_next it bi = (0, 0)" and "bi_rest it bi = []"
proof -
  have "it < 2 * LENGTH('a) \<and> LENGTH('a) < it \<longrightarrow> signed_drop_bit (it - LENGTH('a)) (bneg bi) = 0"
    using assms(4) by (auto simp: signed_drop_zero_iff drop_bit_zero_iff)
  with assms show "bi_next it bi = (0, 0)"
    by (auto simp: bi_next_def)
  show "bi_rest it bi = []"
    using assms filter_bit_none [of "it - LENGTH('a)" "bneg bi"] by (auto simp: bi_rest_def)
qed

lemma bi_next_zero:
  fixes bi :: "'a::len bitint"
  assumes "\<not> bit (bpos bi) 0" "bit (bneg bi) 0" "1 < LENGTH('a)"
  shows "bi_next 0 bi = (0, 1)" and "bi_rest 0 bi = 0 # bi_rest 1 bi"
proof -
  show "bi_next 0 bi = (0, 1)" using assms by (simp add: bi_next_def)
  have "drop_bit 1 (bpos bi) = 0 \<longleftrightarrow> drop_bit 0 (bpos bi) = 0"
    using assms(1) unfolding drop_bit_zero_iff by (metis One_nat_def Suc_leI le0 neq0_conv)
  moreover have "filter (bit (bpos bi)) [0..<LENGTH('a)] = filter (bit (bpos bi)) [1..<LENGTH('a)]"
    using assms(1,3) by (simp add: upt_conv_Cons)
  ultimately show "bi_rest 0 bi = 0 # bi_rest 1 bi"
    using assms by (simp add: bi_rest_def)
qed

lemma bi_next_rest:
  fixes bi :: "'a::len bitint"
  assumes "1 < LENGTH('a)"
  shows "bi_rest it bi = [] \<and> snd (bi_next it bi) = 0 \<or>
    (\<exists>x it'. bi_next it bi = (x, it') \<and> it' \<noteq> 0 \<and> bi_rest it bi = x # bi_rest it' bi)"
proof (cases "bit (bpos bi) 0")
  case True
  then show ?thesis by (auto simp: bi_rest_def bi_next_def)
next
  case False
  consider "it = 0" "bit (bneg bi) 0"
    | "it < LENGTH('a)" "drop_bit it (bpos bi) \<noteq> 0" "it = 0 \<longrightarrow> \<not> bit (bneg bi) 0"
    | "LENGTH('a) < it" "drop_bit (it - LENGTH('a)) (bneg bi) \<noteq> 0"
    | "it = 0 \<longrightarrow> \<not> bit (bneg bi) 0" "it < LENGTH('a) \<longrightarrow> drop_bit it (bpos bi) = 0"
      "LENGTH('a) < it \<longrightarrow> drop_bit (it - LENGTH('a)) (bneg bi) = 0"
    by blast
  then show ?thesis
  proof cases
    case 1
    with bi_next_zero [OF False 1(2) assms] show ?thesis by auto
  next
    case 2
    from bi_next_pos [OF False 2] show ?thesis by metis
  next
    case 3
    from bi_next_neg [OF False 3] obtain n where
      "bi_next it bi = (- int n, LENGTH('a) + n + 1)"
      "bi_rest it bi = - int n # bi_rest (LENGTH('a) + n + 1) bi" by blast
    then show ?thesis by simp
  next
    case 4
    with bi_next_end [OF False] show ?thesis by simp
  qed
qed

interpretation bi: bi_iterator "bi_next :: nat \<Rightarrow> 'a::len bitint \<Rightarrow> int \<times> nat" bi_rest
  "\<lambda>it b. 1 < LENGTH('a)"
proof (unfold_locales, goal_cases)
  case (1 it b)
  with bi_next_rest [where ?'a = 'a, of it b] show ?case by auto
next
  case (2 it b x xs)
  with bi_next_rest [where ?'a = 'a, of it b] show ?case by auto
qed

lemma bi_rest_length: "length (bi_rest 0 bi) \<le> 2 * LENGTH('a)" for bi :: "'a::len bitint"
proof -
  have "length (filter P [a..<n]) \<le> n - a" for P and a n :: nat
    using length_filter_le [of P "[a..<n]"] by simp
  from this [of "bit (bpos bi)" 0 "LENGTH('a)"] this [of "bit (bneg bi)" 1 "LENGTH('a)"]
  show ?thesis by (auto simp: bi_rest_def le_Suc_eq)
qed

lemma bi31_list_rest: "bi31_list bi = bi_rest 0 bi"
  unfolding bi31_list_def bi31_next_def
  using bi_rest_length [of bi] by (intro bi.collect_rest) auto

lemma bi63_list_rest: "bi63_list bi = bi_rest 0 bi"
  unfolding bi63_list_def bi63_next_def
  using bi_rest_length [of bi] by (intro bi.collect_rest) auto

text \<open>
  What a loop over a signed set sees: all of it, unless it is degraded, holds no positive
  integer and some negative one.
\<close>

lemma bi_rest_set:
  fixes bi :: "'a::len bitint"
  shows "set (bi_rest 0 bi) =
    (if \<not> bit (bpos bi) 0 \<and> bpos bi = 0 then bi_elems bi \<inter> {0} else bi_elems bi)"
proof (cases "bit (bpos bi) 0 \<or> bpos bi = 0")
  case True
  have "(\<lambda>k. - int k) ` S \<inter> {0} = (if 0 \<in> S then {0} else {})" for S by auto
  with True show ?thesis by (auto simp: bi_rest_def bi_elems_def)
next
  case False
  have p: "set (filter (bit w) [0..<LENGTH('a)]) = {k. bit w k}" for w :: "'a word"
    by (auto intro: bit_imp_le_length)
  have n: "set (filter (bit w) [1..<LENGTH('a)]) = {k. bit w k} - {0}" for w :: "'a word"
    by (auto intro: bit_imp_le_length simp: Suc_le_eq)
  have u: "(if (0::nat) \<in> S then {0::int} else {}) \<union> T \<union> (\<lambda>k. - int k) ` (S - {0}) =
      T \<union> (\<lambda>k. - int k) ` S" for S T by auto
  have "set (bi_rest 0 bi) = (if 0 \<in> {k. bit (bneg bi) k} then {0} else {}) \<union>
      int ` {k. bit (bpos bi) k} \<union> (\<lambda>k. - int k) ` ({k. bit (bneg bi) k} - {0})"
    using False by (simp add: bi_rest_def p n [unfolded One_nat_def] del: set_filter)
  also have "\<dots> = int ` {k. bit (bpos bi) k} \<union> (\<lambda>k. - int k) ` {k. bit (bneg bi) k}"
    by (rule u)
  finally show ?thesis using False by (simp add: bi_elems_def)
qed

section \<open>Storing integers and looping over them\<close>

lemma foldl_ass_bui:
  fixes bi :: "'a::len word"
  assumes "bui_wf bi" "\<forall>x \<in> set xs. x + 1 < LENGTH('a)"
  shows "bui_elems (foldl ass_bui bi xs) = set xs \<union> bui_elems bi \<and> bui_wf (foldl ass_bui bi xs) \<and>
    (bi \<noteq> 0 \<longrightarrow> foldl ass_bui bi xs \<noteq> 0 \<and> (xs \<noteq> [] \<longrightarrow> \<not> bit (foldl ass_bui bi xs) 0))"
  using assms
proof (induction xs rule: rev_induct)
  case Nil
  then show ?case by simp
next
  case (snoc x xs)
  let ?b = "foldl ass_bui bi xs"
  from snoc have b: "bui_wf ?b" "bui_elems ?b = set xs \<union> bui_elems bi" "bi \<noteq> 0 \<longrightarrow> ?b \<noteq> 0"
    and x: "x + 1 < LENGTH('a)" by auto
  with ass_bui_elems [OF b(1) x] ass_bui_nonzero [OF b(1) x] show ?case by auto
qed

lemma bui_list_fold:
  fixes xs :: "nat list"
  assumes "\<forall>x \<in> set xs. x + 1 < LENGTH('a::len)"
  shows "bui_rest 0 (foldl ass_bui (0 :: 'a word) xs) =
    (if xs = [0] then [] else sorted_list_of_set (set xs))"
proof -
  let ?b = "foldl ass_bui (0 :: 'a word) xs"
  have "set (bui_rest 0 ?b) = (if xs = [0] then {} else set xs)"
  proof (cases xs)
    case Nil
    then show ?thesis by (simp add: bui_rest_set)
  next
    case (Cons x ys)
    let ?a = "ass_bui (0 :: 'a word) x"
    have x: "x + 1 < LENGTH('a)" and ys: "\<forall>x \<in> set ys. x + 1 < LENGTH('a)"
      using assms Cons by auto
    have a: "bui_elems ?a = {x}" "bui_wf ?a" "?a \<noteq> 0"
      using ass_bui_elems [OF _ x, of 0] by auto
    have b: "bui_elems ?b = set xs" "ys \<noteq> [] \<longrightarrow> \<not> bit ?b 0"
      using foldl_ass_bui [OF a(2) ys] a Cons by auto
    show ?thesis
    proof (cases "ys = []")
      case True
      have "bit ?a 0" using bui_singleton(1) [OF x refl] by (simp add: ass_bui_def)
      with True Cons a(1) b(1) show ?thesis by (auto simp: bui_rest_set)
    next
      case False
      with b Cons show ?thesis by (auto simp: bui_rest_set)
    qed
  qed
  moreover have "sorted_wrt (<) (bui_rest 0 ?b)" by (rule bui_rest_sorted)
  ultimately show ?thesis
    by (metis empty_set sorted_list_of_set.idem_if_sorted_distinct sorted_list_of_set_empty
        strict_sorted_iff)
qed

lemma foldl_ass_bui63:
  "\<forall>x \<in> set xs. x < 63 \<Longrightarrow> foldl ass_bui63 bi xs = foldl ass_bui bi xs"
  by (induction xs arbitrary: bi) (simp_all add: ass_bui63_eq)

text \<open>The order of the iterators over signed sets: naught and up, then the negatives down.\<close>

definition it_before :: "int \<Rightarrow> int \<Rightarrow> bool" where
  "it_before a b \<longleftrightarrow> (if 0 \<le> a then b < 0 \<or> a < b else b < a)"

lemma it_before_total: "a \<noteq> b \<Longrightarrow> \<not> it_before a b \<Longrightarrow> it_before b a"
  and it_before_trans: "it_before a b \<Longrightarrow> it_before b c \<Longrightarrow> it_before a c"
  and it_before_irrefl: "\<not> it_before a a"
  by (auto simp: it_before_def split: if_splits)

lemma sorted_pos: "sorted_wrt (<) ks \<Longrightarrow> sorted_wrt it_before (map int ks)"
  by (auto simp: sorted_wrt_map it_before_def elim: sorted_wrt_mono_rel [rotated])

lemma sorted_neg: "sorted_wrt (<) ks \<Longrightarrow> \<forall>k \<in> set ks. 0 < k \<Longrightarrow> sorted_wrt it_before (map (\<lambda>k. - int k) ks)"
  by (auto simp: sorted_wrt_map it_before_def elim: sorted_wrt_mono_rel [rotated])

lemma sorted_filter_upt: "sorted_wrt (<) (filter P [a..<b :: nat])"
  by (rule sorted_wrt_filter) simp

lemma bi_rest_sorted: "sorted_wrt it_before (bi_rest 0 bi)" for bi :: "'a::len bitint"
proof -
  have "sorted_wrt it_before (map int (filter (bit (bpos bi)) [0..<LENGTH('a)]))"
    "sorted_wrt it_before (map (\<lambda>k. - int k) (filter (bit (bneg bi)) [1..<LENGTH('a)]))"
    by (intro sorted_pos sorted_neg sorted_filter_upt, simp)+
  then show ?thesis
    by (auto simp: bi_rest_def sorted_wrt_append it_before_def intro!: Nat.gr0I)
qed

lemma foldl_ass_bi:
  fixes bi :: "'a::len bitint"
  assumes "bi_wf bi" "\<forall>x \<in> set xs. \<bar>x\<bar> < int LENGTH('a)"
  shows "bi_elems (foldl ass_bi bi xs) = set xs \<union> bi_elems bi \<and> bi_wf (foldl ass_bi bi xs)"
  using assms
proof (induction xs arbitrary: bi)
  case (Cons x xs)
  with ass_bi_elems [of bi x] Cons.IH [of "ass_bi bi x"] show ?case by auto
qed simp

lemma ass_bi_degraded:
  fixes bi :: "'a::len bitint"
  assumes "bi_wf bi" "\<bar>x\<bar> < int LENGTH('a)" "bpos bi \<noteq> 0 \<or> bneg bi \<noteq> 0"
  shows "\<not> bit (bpos (ass_bi bi x)) 0 \<and> (bpos (ass_bi bi x) \<noteq> 0 \<or> bneg (ass_bi bi x) \<noteq> 0)"
proof -
  have "\<not> bit (bpos (ass_bi bi x)) 0"
  proof (cases "bit (bpos bi) 0")
    case True
    from ass_bi_degrade [OF True assms(1)] obtain b where
      "\<not> bit (bpos b) 0" "bpos b \<noteq> 0 \<or> bneg b \<noteq> 0" "ass_bi bi x = ass_bi b x" by metis
    with ass_bi_bits [of b x] assms(2) show ?thesis by simp
  next
    case False
    with ass_bi_bits [OF False assms(3,2)] show ?thesis by simp
  qed
  moreover have "x \<in> bi_elems (ass_bi bi x)" using ass_bi_elems [OF assms(1,2)] by simp
  ultimately show ?thesis by (auto simp: bi_elems_def)
qed

lemma foldl_ass_bi_degraded:
  fixes bi :: "'a::len bitint"
  assumes "bi_wf bi" "\<forall>x \<in> set xs. \<bar>x\<bar> < int LENGTH('a)" "bpos bi \<noteq> 0 \<or> bneg bi \<noteq> 0" "xs \<noteq> []"
  shows "\<not> bit (bpos (foldl ass_bi bi xs)) 0"
  using assms
proof (induction xs arbitrary: bi)
  case (Cons x xs)
  with ass_bi_degraded [of bi x] ass_bi_elems [of bi x] Cons.IH [of "ass_bi bi x"]
  show ?case by (cases "xs = []") auto
qed simp

definition bi_empty :: "'a::len bitint" where
  "bi_empty = \<lparr>bpos = 0, bneg = 0\<rparr>"

lemma bi_list_fold:
  fixes xs :: "int list"
  assumes "\<forall>x \<in> set xs. \<bar>x\<bar> < int LENGTH('a::len)"
  shows "set (bi_rest 0 (foldl ass_bi (bi_empty :: 'a bitint) xs)) =
    (if length xs \<noteq> 1 \<and> (\<forall>x \<in> set xs. x \<le> 0) then set xs \<inter> {0} else set xs)"
proof (cases xs)
  case Nil
  have "bi_elems (bi_empty :: 'a bitint) = {}" by (auto simp: bi_elems_def bi_empty_def)
  with Nil show ?thesis by (simp add: bi_rest_set)
next
  case (Cons x ys)
  let ?a = "ass_bi (bi_empty :: 'a bitint) x"
  let ?b = "foldl ass_bi (bi_empty :: 'a bitint) xs"
  have x: "\<bar>x\<bar> < int LENGTH('a)" and ys: "\<forall>x \<in> set ys. \<bar>x\<bar> < int LENGTH('a)"
    using assms Cons by auto
  have e: "bi_wf (bi_empty :: 'a bitint)" "bi_elems (bi_empty :: 'a bitint) = {}"
    by (auto simp: bi_elems_def bi_wf_def bi_empty_def)
  note fo = foldl_ass_bi [OF e(1) assms]
  have a: "bit (bpos ?a) 0" by (simp add: ass_bi_def bi_empty_def)
  then have az: "bpos ?a \<noteq> 0" by auto
  show ?thesis
  proof (cases "ys = []")
    case True
    with a Cons fo e show ?thesis by (simp add: bi_rest_set)
  next
    case False
    have b0: "\<not> bit (bpos ?b) 0"
      using foldl_ass_bi_degraded [OF _ ys _ False, of ?a] az ass_bi_elems [OF e(1) x] Cons by simp
    have "bpos ?b = 0 \<longleftrightarrow> (\<forall>v \<in> bi_elems ?b. v \<le> 0)"
    proof
      assume "\<forall>v \<in> bi_elems ?b. v \<le> 0"
      then have "int k \<le> 0" if "bit (bpos ?b) k" for k
        using b0 that unfolding bi_elems_def by fastforce
      then have "\<not> bit (bpos ?b) k" for k
        using b0 by (cases k) force+
      then show "bpos ?b = 0" by (auto simp: bit_eq_iff)
    qed (use b0 in \<open>auto simp: bi_elems_def\<close>)
    with b0 fo e False Cons show ?thesis by (simp add: bi_rest_set)
  qed
qed

text \<open>
  Storing integers in a \<open>bituint31\<close> or \<open>bituint63\<close> and looping over it lists exactly the
  stored integers, once each and in ascending order, and the membership test agrees; the one
  exception is a set that was assigned nothing but one 0, over which the loop does not run.
\<close>

theorem bui_store_loop:
  assumes "\<forall>x \<in> set xs. x < 31" "\<forall>y \<in> set ys. y < 63"
  shows "bui31_list (foldl ass_bui31 0 xs) = (if xs = [0] then [] else sorted_list_of_set (set xs)) \<and>
    bui63_list (foldl ass_bui63 0 ys) = (if ys = [0] then [] else sorted_list_of_set (set ys)) \<and>
    (\<forall>x < 31. bui31_has_bit_p (foldl ass_bui31 0 xs) x \<longleftrightarrow> x \<in> set xs)"
proof -
  have 31: "foldl ass_bui31 0 xs = foldl ass_bui 0 xs" by (simp add: ass_bui31_def [abs_def])
  note el = foldl_ass_bui [where ?'a = 32, of 0 xs]
  show ?thesis
    using bui_list_fold [where ?'a = 32, of xs] bui_list_fold [where ?'a = 64, of ys]
      bui31_has_bit_elems [of "foldl ass_bui31 0 xs"] el assms
    by (auto simp: bui31_list_rest bui63_list_rest foldl_ass_bui63 31)
qed

lemma bui_store_loop_witness:
  "bui31_list (foldl ass_bui31 0 [7, 3, 0, 7]) = [0, 3, 7] \<and> bui63_list (foldl ass_bui63 0 [0]) = []"
  using bui_store_loop [of "[7, 3, 0, 7]" "[0]"] by (simp add: insert_commute)

text \<open>
  Storing integers of either sign in a \<open>bitint31\<close> and looping over it lists the stored
  integers in the order naught, positives upwards, negatives downwards; but when more than one
  integer was assigned and none of them is positive, the loop loses the negative ones.
\<close>

theorem bi31_store_loop:
  assumes "\<forall>x \<in> set xs. \<bar>x\<bar> < 32"
  shows "sorted_wrt it_before (bi31_list (foldl ass_bi31 bi_empty xs)) \<and>
    set (bi31_list (foldl ass_bi31 bi_empty xs)) =
      (if length xs \<noteq> 1 \<and> (\<forall>x \<in> set xs. x \<le> 0) then set xs \<inter> {0} else set xs)"
proof -
  have "foldl ass_bi31 bi_empty xs = foldl ass_bi bi_empty xs" by (simp add: ass_bi31_def [abs_def])
  with bi_rest_sorted bi_list_fold [where ?'a = 32, of xs] assms show ?thesis
    by (simp add: bi31_list_rest)
qed

lemma bi31_store_loop_witness:
  "set (bi31_list (foldl ass_bi31 bi_empty [- 1, 5, 0])) = {- 1, 5, 0} \<and>
   set (bi31_list (foldl ass_bi31 bi_empty [- 1, - 2])) = {}"
  using bi31_store_loop [of "[- 1, 5, 0]"] bi31_store_loop [of "[- 1, - 2]"] by simp

end
