(* ===== verification/BitIntN.thy ===== *)
theory BitIntN
  imports BitInt
begin

text \<open>
  The larger sets of \<^verbatim>\<open>src/src/bitint.c\<close>: \<open>bitint383\<close> (12 words) and \<open>bitint447\<close>
  (14 words), whose code is instantiated twice from \<^verbatim>\<open>src/src/bitint-bobs.c\<close>.  A set
  starts native, a count in \<open>pos[0] >> 1\<close> and the integers in \<open>neg\<close> in iterator order, and
  degrades to a bit set, marked by the lowest bit of \<open>pos[0]\<close>, when the array is full.  The
  definitions take the number of words from the arrays; the theorems hold for any number.
\<close>

unbundle bit_operations_syntax

record bitintn =
  npos :: "32 word list"
  nneg :: "32 word list"

definition ass_bs :: "bitintn \<Rightarrow> int \<Rightarrow> bitintn" where
  "ass_bs bi x =
     (if 0 < x then
        let p = nat x mod 32; j = nat x div 32
        in bi\<lparr>npos := (npos bi)[j := npos bi ! j OR push_bit p 1]\<rparr>
      else
        let p = nat (- x) mod 32; j = nat (- x) div 32
        in bi\<lparr>nneg := (nneg bi)[j := nneg bi ! j OR push_bit p 1]\<rparr>)"

definition bi_count :: "bitintn \<Rightarrow> nat" where
  "bi_count bi = unat (drop_bit 1 (npos bi ! 0))"

definition memmove :: "'b list \<Rightarrow> nat \<Rightarrow> nat \<Rightarrow> nat \<Rightarrow> 'b list" where
  "memmove xs dst src n = take dst xs @ take n (drop src xs) @ drop (dst + n) xs"

text \<open>The empty-bodied search loops run over the first \<open>i\<close> entries of \<open>neg\<close>.\<close>

definition ass_int :: "bitintn \<Rightarrow> int \<Rightarrow> bitintn" where
  "ass_int bi x =
     (let i = bi_count bi;
          vs = map sint (take i (nneg bi));
          j = (if 0 \<le> x then length (takeWhile (\<lambda>v. 0 \<le> v \<and> v < x) vs)
               else length (takeWhile (\<lambda>v. x < v) vs))
      in if j < i \<and> sint (nneg bi ! j) = x then bi
         else
           let bi = (if j < i then bi\<lparr>nneg := memmove (nneg bi) (j + 1) j (i - j)\<rparr> else bi)
           in bi\<lparr>nneg := (nneg bi)[j := of_int x], npos := (npos bi)[0 := npos bi ! 0 + 2]\<rparr>)"

definition ass_bin :: "bitintn \<Rightarrow> int \<Rightarrow> bitintn" where
  "ass_bin bi x =
     (if bit (npos bi ! 0) 0 then ass_bs bi x
      else if bi_count bi < length (npos bi) then ass_int bi x
      else
        let tmp = map sint (nneg bi);
            n = length (npos bi);
            bi = \<lparr>npos = (replicate n 0)[0 := 1], nneg = replicate n 0\<rparr>
        in ass_bs (foldl ass_bs bi tmp) x)"

definition ass_bi383 :: "bitintn \<Rightarrow> int \<Rightarrow> bitintn" where
  "ass_bi383 bi x = ass_bin bi x"

definition ass_bi447 :: "bitintn \<Rightarrow> int \<Rightarrow> bitintn" where
  "ass_bi447 bi x = ass_bin bi x"

definition bi383_has_bits_p :: "bitintn \<Rightarrow> bool" where
  "bi383_has_bits_p bi \<longleftrightarrow> npos bi ! 0 \<noteq> 0"

definition bi447_has_bits_p :: "bitintn \<Rightarrow> bool" where
  "bi447_has_bits_p bi \<longleftrightarrow> npos bi ! 0 \<noteq> 0"

text \<open>The scan for the next set bit: the rest of the current word, then whole words.\<close>

function next_word :: "32 word list \<Rightarrow> nat \<Rightarrow> nat" where
  "next_word ws ij =
     (if ij < length ws \<and> ws ! ij = 0 then next_word ws (Suc ij) else ij)"
  by pat_completeness auto
termination by (relation "measure (\<lambda>(ws, ij). length ws - ij)") auto

declare next_word.simps [simp del]

definition scan_bits :: "32 word list \<Rightarrow> nat \<Rightarrow> nat option" where
  "scan_bits ws it =
     (let ij = it div 32; ip = it mod 32; tmp = drop_bit ip (ws ! ij)
      in if tmp \<noteq> 0 then Some (32 * ij + fst (skip_zeros tmp ip))
         else let ij = next_word ws (ij + 1)
              in if length ws \<le> ij then None
                 else Some (32 * ij + fst (skip_zeros (ws ! ij) 0)))"

definition bin_next :: "nat \<Rightarrow> bitintn \<Rightarrow> int \<times> nat" where
  "bin_next it bi =
     (let n = 32 * length (npos bi);
          negs = (\<lambda>k. case scan_bits (nneg bi) k of
                    None \<Rightarrow> (0, 0) | Some k \<Rightarrow> (- int k, k + n + 1))
      in if \<not> bit (npos bi ! 0) 0 then
           (if bi_count bi \<le> it then (0, 0) else (sint (nneg bi ! it), it + 1))
         else if it = 0 \<and> bit (nneg bi ! 0) 0 then (0, 1)
         else
           let it = (if it = 0 then 1 else it)
           in if it < n then
                (case scan_bits (npos bi) it of
                   Some k \<Rightarrow> (int k, k + 1)
                 | None \<Rightarrow> negs 1)
              else if n < it \<and> it < 2 * n then negs (it - n)
              else (0, 0))"

definition bi383_next :: "nat \<Rightarrow> bitintn \<Rightarrow> int \<times> nat" where
  "bi383_next it bi = bin_next it bi"

definition bi447_next :: "nat \<Rightarrow> bitintn \<Rightarrow> int \<times> nat" where
  "bi447_next it bi = bin_next it bi"

definition bi383_list :: "bitintn \<Rightarrow> int list" where
  "bi383_list bi = bi_collect (\<lambda>i. bi383_next i bi) 800 0"

definition bi447_list :: "bitintn \<Rightarrow> int list" where
  "bi447_list bi = bi_collect (\<lambda>i. bi447_next i bi) 900 0"

definition clz32 :: "32 word \<Rightarrow> nat" where
  "clz32 w = length (takeWhile (\<lambda>k. \<not> bit w (31 - k)) [0..<32])"

fun scan_down :: "(nat \<Rightarrow> bool) \<Rightarrow> nat \<Rightarrow> nat" where
  "scan_down P 0 = 0"
| "scan_down P (Suc n) = (if P n then scan_down P n else n)"

definition bi383_max0 :: "bitintn \<Rightarrow> int" where
  "bi383_max0 bi =
     (if \<not> bit (npos bi ! 0) 0 then
        let n = scan_down (\<lambda>k. sint (nneg bi ! k) < 0) (bi_count bi);
            res = sint (nneg bi ! n)
        in if 0 < res then res else 0
      else
        let i = scan_down (\<lambda>k. npos bi ! k = 0) (length (npos bi));
            tmp = npos bi ! i;
            res = clz32 tmp + (if tmp \<noteq> 0 then 1 else 0)
        in int ((i + 1) * 32) - int res)"

section \<open>What a set stands for\<close>

definition abit :: "32 word list \<Rightarrow> nat \<Rightarrow> bool" where
  "abit ws k \<longleftrightarrow> k < 32 * length ws \<and> bit (ws ! (k div 32)) (k mod 32)"

definition bin_vals :: "bitintn \<Rightarrow> int list" where
  "bin_vals bi = map sint (take (bi_count bi) (nneg bi))"

definition bin_elems :: "bitintn \<Rightarrow> int set" where
  "bin_elems bi =
     (if bit (npos bi ! 0) 0
      then int ` ({k. abit (npos bi) k} - {0}) \<union> (\<lambda>k. - int k) ` {k. abit (nneg bi) k}
      else set (bin_vals bi))"

definition bin_wf :: "nat \<Rightarrow> bitintn \<Rightarrow> bool" where
  "bin_wf n bi \<longleftrightarrow> length (npos bi) = n \<and> length (nneg bi) = n \<and> 0 < n \<and> n < 2 ^ 20 \<and>
     (\<not> bit (npos bi ! 0) 0 \<longrightarrow>
        bi_count bi \<le> n \<and> sorted_wrt it_before (bin_vals bi) \<and>
        (\<forall>v \<in> set (bin_vals bi). \<bar>v\<bar> < int (32 * n)) \<and>
        (bi_count bi = 0 \<longrightarrow> sint (nneg bi ! 0) \<le> 0))"

lemma abit_update:
  assumes "k < 32 * length ws"
  shows "abit (ws[k div 32 := ws ! (k div 32) OR push_bit (k mod 32) 1]) m \<longleftrightarrow>
    m = k \<or> abit ws m"
proof -
  have k: "k div 32 < length ws" using assms by linarith
  have "bit (push_bit (k mod 32) 1 :: 32 word) (m mod 32) \<longleftrightarrow> m mod 32 = k mod 32"
    by (auto simp: bit_push_1)
  moreover have "m = k \<longleftrightarrow> m div 32 = k div 32 \<and> m mod 32 = k mod 32"
    by (metis div_mult_mod_eq)
  ultimately show ?thesis
    using assms k by (auto simp: abit_def bit_or_iff nth_list_update)
qed

lemma ass_bs_elems:
  assumes "bin_wf n bi" "bit (npos bi ! 0) 0" "\<bar>x\<bar> < int (32 * n)"
  shows "bin_elems (ass_bs bi x) = insert x (bin_elems bi) \<and> bin_wf n (ass_bs bi x) \<and>
    bit (npos (ass_bs bi x) ! 0) 0"
proof -
  have len: "length (npos bi) = n" "length (nneg bi) = n" "0 < n" "n < 2 ^ 20"
    using assms(1) by (auto simp: bin_wf_def)
  show ?thesis
  proof (cases "0 < x")
    case True
    let ?w = "npos (ass_bs bi x)"
    have w: "?w = (npos bi)[nat x div 32 := npos bi ! (nat x div 32) OR push_bit (nat x mod 32) 1]"
      and n: "nneg (ass_bs bi x) = nneg bi"
      using True by (simp_all add: ass_bs_def Let_def)
    have nx: "nat x < 32 * length (npos bi)" using assms(3) len True by linarith
    have b0: "bit (?w ! 0) 0"
      using assms(2) len by (cases "nat x div 32 = 0") (auto simp: w bit_or_iff)
    have "{k. abit ?w k} = insert (nat x) {k. abit (npos bi) k}"
      unfolding w using abit_update [OF nx] by auto
    moreover have "nat x \<noteq> 0" "int (nat x) = x" using True by auto
    ultimately have "int ` ({k. abit ?w k} - {0}) = insert x (int ` ({k. abit (npos bi) k} - {0}))"
      by (simp add: insert_Diff_if)
    with b0 assms(2) n len show ?thesis by (simp add: bin_elems_def bin_wf_def w)
  next
    case False
    let ?w = "nneg (ass_bs bi x)"
    have w: "?w = (nneg bi)[nat (- x) div 32 :=
        nneg bi ! (nat (- x) div 32) OR push_bit (nat (- x) mod 32) 1]"
      and p: "npos (ass_bs bi x) = npos bi"
      using False by (simp_all add: ass_bs_def Let_def)
    have nx: "nat (- x) < 32 * length (nneg bi)" using assms(3) len False by linarith
    have "{k. abit ?w k} = insert (nat (- x)) {k. abit (nneg bi) k}"
      unfolding w using abit_update [OF nx] by auto
    with p False assms(2) len show ?thesis by (simp add: bin_elems_def bin_wf_def w)
  qed
qed

text \<open>Insertion into the native array.\<close>

lemma sorted_insert_at:
  fixes x :: int
  assumes "sorted_wrt it_before vs"
  defines "j \<equiv> length (takeWhile (\<lambda>v. it_before v x) vs)"
  assumes "j < length vs \<longrightarrow> vs ! j \<noteq> x"
  shows "sorted_wrt it_before (take j vs @ x # drop j vs)"
proof -
  have t: "take j vs = takeWhile (\<lambda>v. it_before v x) vs"
    unfolding j_def by (rule takeWhile_eq_take [symmetric])
  have d: "drop j vs = dropWhile (\<lambda>v. it_before v x) vs"
    unfolding j_def by (rule dropWhile_eq_drop [symmetric])
  have s: "sorted_wrt it_before (take j vs @ drop j vs)" using assms(1) by simp
  have "it_before x y" if "y \<in> set (drop j vs)" for y
  proof -
    from that have j: "j < length vs" by (cases "j < length vs") auto
    then have dc: "drop j vs = vs ! j # drop (Suc j) vs" by (rule Cons_nth_drop_Suc [symmetric])
    then have "\<not> it_before (vs ! j) x"
      using d by (metis hd_dropWhile list.discI list.sel(1))
    then have "it_before x (vs ! j)" using assms(3) j it_before_total by blast
    with that s dc show ?thesis
      by (auto simp: sorted_wrt_append intro: it_before_trans)
  qed
  with s t show ?thesis
    by (auto simp: sorted_wrt_append dest: set_takeWhileD)
qed

lemma ass_int_pos_eq:
  "(if 0 \<le> x then length (takeWhile (\<lambda>v. 0 \<le> v \<and> v < x) vs)
    else length (takeWhile (\<lambda>v. x < v) vs)) = length (takeWhile (\<lambda>v. it_before v x) vs)"
proof (cases "0 \<le> x")
  case True
  then have "(\<lambda>v. it_before v x) = (\<lambda>v. 0 \<le> v \<and> v < x)"
    by (auto simp: it_before_def fun_eq_iff)
  with True show ?thesis by simp
next
  case False
  then have "(\<lambda>v. it_before v x) = (\<lambda>v. x < v)"
    by (auto simp: it_before_def fun_eq_iff)
  with False show ?thesis by simp
qed

lemma ass_int_eq:
  "ass_int bi x =
     (let i = bi_count bi; j = length (takeWhile (\<lambda>v. it_before v x) (bin_vals bi))
      in if j < i \<and> sint (nneg bi ! j) = x then bi
         else bi\<lparr>nneg := (if j < i then memmove (nneg bi) (j + 1) j (i - j) else nneg bi)[j := of_int x],
                 npos := (npos bi)[0 := npos bi ! 0 + 2]\<rparr>)"
  unfolding ass_int_def Let_def bin_vals_def ass_int_pos_eq by simp

lemma memmove_insert:
  assumes "j \<le> i" "i < length ws"
  shows "take (Suc i) ((if j < i then memmove ws (j + 1) j (i - j) else ws)[j := w]) =
    take j ws @ w # drop j (take i ws)"
proof (cases "j < i")
  case True
  have t: "take (Suc j) ws = take j ws @ [ws ! j]"
    using True assms(2) by (intro take_Suc_conv_app_nth) linarith
  have "(memmove ws (j + 1) j (i - j))[j := w] =
      take j ws @ w # take (i - j) (drop j ws) @ drop (Suc i) ws"
    using True assms t by (simp add: memmove_def list_update_append)
  moreover have "take (i - j) (drop j ws) = drop j (take i ws)"
    by (simp add: drop_take)
  ultimately show ?thesis using True assms by (simp add: min_def Suc_diff_le)
next
  case False
  with assms have "j = i" by simp
  with assms(2) show ?thesis by (simp add: take_Suc_conv_app_nth)
qed

lemma unat_drop_count:
  assumes "unat (drop_bit 1 w) < 2 ^ 20"
  shows "unat (drop_bit 1 (w + 2)) = unat (drop_bit 1 (w :: 32 word)) + 1"
proof -
  have "unat w div 2 < 2 ^ 20" using assms by (simp add: unat_drop_bit_eq drop_bit_eq_div unat_div)
  then have "unat w < 2 ^ 21" by simp
  then have "unat (w + 2) = unat w + 2"
    by (subst unat_add_lem [THEN iffD1]) simp_all
  then show ?thesis by (simp add: unat_drop_bit_eq drop_bit_eq_div unat_div)
qed

lemma bit_0_add_2: "bit (w + 2 :: 32 word) 0 \<longleftrightarrow> bit w 0"
  by (simp add: bit_0)

lemma ass_int_vals:
  assumes "bin_wf n bi" "\<not> bit (npos bi ! 0) 0" "bi_count bi < n" "\<bar>x\<bar> < int (32 * n)"
  defines "j \<equiv> length (takeWhile (\<lambda>v. it_before v x) (bin_vals bi))"
  assumes "\<not> (j < bi_count bi \<and> bin_vals bi ! j = x)"
  shows "bin_vals (ass_int bi x) = take j (bin_vals bi) @ x # drop j (bin_vals bi)"
    "bi_count (ass_int bi x) = bi_count bi + 1"
    "\<not> bit (npos (ass_int bi x) ! 0) 0"
    "length (npos (ass_int bi x)) = n" "length (nneg (ass_int bi x)) = n"
proof -
  let ?i = "bi_count bi"
  let ?r = "ass_int bi x"
  have len: "length (npos bi) = n" "length (nneg bi) = n" "0 < n" "n < 2 ^ 20"
    using assms(1) by (auto simp: bin_wf_def)
  have lv: "length (bin_vals bi) = ?i" using assms(3) len by (simp add: bin_vals_def)
  have ji: "j \<le> ?i" unfolding j_def using length_takeWhile_le [of _ "bin_vals bi"] lv by metis
  have nd: "\<not> (j < ?i \<and> sint (nneg bi ! j) = x)"
    using assms(6) lv assms(3) len by (auto simp: bin_vals_def)
  have r: "npos ?r = (npos bi)[0 := npos bi ! 0 + 2]"
    "nneg ?r = (if j < ?i then memmove (nneg bi) (j + 1) j (?i - j) else nneg bi)[j := of_int x]"
    unfolding ass_int_eq j_def [symmetric] Let_def if_not_P [OF nd] by simp_all
  show c: "bi_count ?r = ?i + 1"
    using len assms(3) unat_drop_count [of "npos bi ! 0"] by (simp add: bi_count_def r)
  show "\<not> bit (npos ?r ! 0) 0" using assms(2) len by (simp add: r bit_0_add_2)
  show "length (npos ?r) = n" using len by (simp add: r)
  show "length (nneg ?r) = n" using len ji assms(3) by (simp add: r memmove_def)
  have "sint (of_int x :: 32 word) = x"
    using assms(4) len(4) by (simp add: signed_of_int signed_take_bit_int_eq_self)
  then show "bin_vals ?r = take j (bin_vals bi) @ x # drop j (bin_vals bi)"
    unfolding bin_vals_def c r(2)
    using memmove_insert [OF ji, of "nneg bi" "of_int x"] assms(3) len ji
    by (simp add: take_map drop_map min_def)
qed

lemma ass_int_elems:
  assumes "bin_wf n bi" "\<not> bit (npos bi ! 0) 0" "bi_count bi < n" "\<bar>x\<bar> < int (32 * n)"
  shows "bin_elems (ass_int bi x) = insert x (bin_elems bi) \<and> bin_wf n (ass_int bi x) \<and>
    \<not> bit (npos (ass_int bi x) ! 0) 0"
proof -
  define j where "j = length (takeWhile (\<lambda>v. it_before v x) (bin_vals bi))"
  have len: "length (npos bi) = n" "length (nneg bi) = n" "0 < n" "n < 2 ^ 20"
    and so: "sorted_wrt it_before (bin_vals bi)"
    and bd: "\<forall>v \<in> set (bin_vals bi). \<bar>v\<bar> < int (32 * n)"
    using assms(1,2) by (auto simp: bin_wf_def)
  have lv: "length (bin_vals bi) = bi_count bi" using assms(3) len by (simp add: bin_vals_def)
  show ?thesis
  proof (cases "j < bi_count bi \<and> bin_vals bi ! j = x")
    case True
    then have "sint (nneg bi ! j) = x" using assms(3) len by (auto simp: bin_vals_def)
    with True have "ass_int bi x = bi"
      unfolding ass_int_eq j_def [symmetric] Let_def by simp
    moreover have "x \<in> set (bin_vals bi)" using True lv nth_mem by metis
    ultimately show ?thesis using assms(1,2) by (auto simp: bin_elems_def)
  next
    case False
    note v = ass_int_vals [OF assms False [unfolded j_def], folded j_def]
    have "sorted_wrt it_before (bin_vals (ass_int bi x))"
      unfolding v(1) j_def using so False lv by (intro sorted_insert_at) (auto simp: j_def)
    moreover have "set (take j (bin_vals bi)) \<union> set (drop j (bin_vals bi)) = set (bin_vals bi)"
      by (metis append_take_drop_id set_append)
    then have "set (bin_vals (ass_int bi x)) = insert x (set (bin_vals bi))"
      unfolding v(1) by auto
    ultimately show ?thesis
      using v(2-5) assms bd len by (auto simp: bin_elems_def bin_wf_def)
  qed
qed

text \<open>Degrading, and the assignment as a whole.\<close>

lemma foldl_ass_bs:
  assumes "bin_wf n bi" "bit (npos bi ! 0) 0" "\<forall>v \<in> set vs. \<bar>v\<bar> < int (32 * n)"
  shows "bin_elems (foldl ass_bs bi vs) = set vs \<union> bin_elems bi \<and>
    bin_wf n (foldl ass_bs bi vs) \<and> bit (npos (foldl ass_bs bi vs) ! 0) 0"
  using assms
proof (induction vs arbitrary: bi)
  case Nil
  then show ?case by simp
next
  case (Cons v vs)
  with ass_bs_elems [of n bi v] have
    "bin_elems (ass_bs bi v) = insert v (bin_elems bi)"
    "bin_wf n (ass_bs bi v)" "bit (npos (ass_bs bi v) ! 0) 0" by auto
  with Cons.IH [of "ass_bs bi v"] Cons.prems(3) show ?case by auto
qed

lemma abit_zeros: "\<not> abit (replicate n 0) k"
  by (auto simp: abit_def)

lemma abit_marker: "0 < n \<Longrightarrow> abit ((replicate n 0)[0 := 1]) k \<longleftrightarrow> k = 0"
proof -
  assume "0 < n"
  then have "abit ((replicate n 0)[0 := 1]) k \<longleftrightarrow> k < 32 * n \<and> k div 32 = 0 \<and> k mod 32 = 0"
    by (auto simp: abit_def nth_list_update bit_1_iff)
  with \<open>0 < n\<close> show ?thesis by auto
qed

lemma ass_bin_elems:
  assumes "bin_wf n bi" "\<bar>x\<bar> < int (32 * n)"
  shows "bin_elems (ass_bin bi x) = insert x (bin_elems bi) \<and> bin_wf n (ass_bin bi x)"
proof -
  have len: "length (npos bi) = n" "length (nneg bi) = n" "0 < n" "n < 2 ^ 20"
    using assms(1) by (auto simp: bin_wf_def)
  consider "bit (npos bi ! 0) 0" | "\<not> bit (npos bi ! 0) 0" "bi_count bi < n"
    | "\<not> bit (npos bi ! 0) 0" "\<not> bi_count bi < n" by blast
  then show ?thesis
  proof cases
    case 1
    with ass_bs_elems [OF assms(1) 1 assms(2)] show ?thesis by (simp add: ass_bin_def)
  next
    case 2
    with ass_int_elems [OF assms(1) 2 assms(2)] len show ?thesis by (simp add: ass_bin_def)
  next
    case 3
    let ?b = "\<lparr>npos = (replicate n 0)[0 := 1], nneg = replicate n 0\<rparr>"
    have "bi_count bi = n" using 3 assms(1) by (simp add: bin_wf_def)
    then have v: "bin_vals bi = map sint (nneg bi)" using len by (simp add: bin_vals_def)
    have b: "bin_wf n ?b" "bit (npos ?b ! 0) 0" using len by (auto simp: bin_wf_def)
    have e: "bin_elems ?b = {}"
      using b(2) len by (auto simp: bin_elems_def abit_marker abit_zeros)
    have "\<forall>v \<in> set (map sint (nneg bi)). \<bar>v\<bar> < int (32 * n)"
      using assms(1) 3 unfolding bin_wf_def v by blast
    from foldl_ass_bs [OF b this] e 3 v have
      "bin_elems (foldl ass_bs ?b (map sint (nneg bi))) = bin_elems bi"
      "bin_wf n (foldl ass_bs ?b (map sint (nneg bi)))"
      "bit (npos (foldl ass_bs ?b (map sint (nneg bi))) ! 0) 0"
      by (auto simp: bin_elems_def [of bi])
    from ass_bs_elems [OF this(2,3) assms(2)] this(1) 3 len show ?thesis
      by (simp add: ass_bin_def Let_def)
  qed
qed

section \<open>Iteration\<close>

lemma next_word_spec:
  "next_word ws ij \<ge> ij \<and> (\<forall>k. ij \<le> k \<and> k < next_word ws ij \<longrightarrow> k < length ws \<and> ws ! k = 0) \<and>
   (next_word ws ij < length ws \<longrightarrow> ws ! next_word ws ij \<noteq> 0)"
proof (induction ws ij rule: next_word.induct)
  case (1 ws ij)
  show ?case
  proof (cases "ij < length ws \<and> ws ! ij = 0")
    case True
    then have "next_word ws ij = next_word ws (Suc ij)" by (subst next_word.simps) simp
    moreover have "k = ij \<or> Suc ij \<le> k" if "ij \<le> k" for k using that by linarith
    moreover have "ij \<le> m" if "Suc ij \<le> m" for m using that by linarith
    ultimately show ?thesis using 1 [OF True] True by metis
  next
    case False
    then have "next_word ws ij = ij" by (subst next_word.simps) auto
    with False show ?thesis by auto
  qed
qed

lemma abit_at: "p < 32 \<Longrightarrow> abit ws (32 * j + p) \<longleftrightarrow> j < length ws \<and> bit (ws ! j) p"
  by (auto simp: abit_def)

lemma skip_zeros_from:
  fixes w :: "32 word"
  assumes "drop_bit ip w \<noteq> 0"
  obtains p where "ip \<le> p" "p < 32" "bit w p" "\<forall>k. ip \<le> k \<and> k < p \<longrightarrow> \<not> bit w k"
    "fst (skip_zeros (drop_bit ip w) ip) = p"
proof -
  from filter_bit_first [OF assms] obtain p where
    p: "bit w p" "ip \<le> p" "p < LENGTH(32)" "\<forall>k. ip \<le> k \<and> k < p \<longrightarrow> \<not> bit w k" by blast
  with skip_zeros_shifted [OF p(1,2,4)] that show thesis by simp
qed

lemma scan_bits_spec:
  assumes "it < 32 * length ws"
  shows "case scan_bits ws it of
      None \<Rightarrow> \<forall>k\<ge>it. \<not> abit ws k
    | Some m \<Rightarrow> abit ws m \<and> it \<le> m \<and> (\<forall>k. it \<le> k \<and> k < m \<longrightarrow> \<not> abit ws k)"
proof -
  let ?j = "it div 32" and ?p = "it mod 32"
  have j: "?j < length ws" and it: "it = 32 * ?j + ?p" "?p < 32" using assms by auto
  show ?thesis
  proof (cases "drop_bit ?p (ws ! ?j) = 0")
    case False
    from skip_zeros_from [OF False] obtain p where
      p: "?p \<le> p" "p < 32" "bit (ws ! ?j) p" "\<forall>k. ?p \<le> k \<and> k < p \<longrightarrow> \<not> bit (ws ! ?j) k"
        "fst (skip_zeros (drop_bit ?p (ws ! ?j)) ?p) = p" by blast
    have "\<not> abit ws k" if k: "it \<le> k" "k < 32 * ?j + p" for k
    proof -
      have "k = 32 * ?j + (k - 32 * ?j)" "k - 32 * ?j < 32" "?p \<le> k - 32 * ?j" "k - 32 * ?j < p"
        using k it p(2) by linarith+
      with p(4) show ?thesis by (metis abit_at)
    qed
    moreover have "it \<le> 32 * ?j + p" using p(1) it by linarith
    ultimately show ?thesis using p j False by (simp add: scan_bits_def abit_at)
  next
    case True
    let ?m = "next_word ws (?j + 1)"
    note nw = next_word_spec [of "?j + 1" ws]
    have below: "\<not> abit ws k" if k: "it \<le> k" "k < 32 * ?m" for k
    proof (cases "k div 32 = ?j")
      case jj: True
      then have "?p \<le> k mod 32" using k by (metis it(1) div_mult_mod_eq mult.commute nat_add_left_cancel_le)
      with True jj show ?thesis by (auto simp: abit_def drop_bit_zero_iff)
    next
      case False
      then have "?j + 1 \<le> k div 32" "k div 32 < ?m" using k by (auto simp: div_le_mono le_neq_implies_less less_mult_imp_div_less mult.commute Suc_leI)
      with nw show ?thesis by (auto simp: abit_def)
    qed
    show ?thesis
    proof (cases "length ws \<le> ?m")
      case l: True
      have "\<not> abit ws k" if "it \<le> k" for k
        using below [OF that] l by (auto simp: abit_def)
      with l True show ?thesis by (simp add: scan_bits_def)
    next
      case l: False
      then have nz: "drop_bit 0 (ws ! ?m) \<noteq> 0" using nw by simp
      from skip_zeros_from [OF nz] obtain p where
        p: "p < 32" "bit (ws ! ?m) p" "\<forall>k. k < p \<longrightarrow> \<not> bit (ws ! ?m) k"
          "fst (skip_zeros (ws ! ?m) 0) = p" by auto
      have "\<not> abit ws k" if k: "it \<le> k" "k < 32 * ?m + p" for k
      proof (cases "k < 32 * ?m")
        case kl: True
        show ?thesis by (rule below [OF k(1) kl])
      next
        case False
        then have "k = 32 * ?m + (k - 32 * ?m)" "k - 32 * ?m < 32" "k - 32 * ?m < p"
          using k p(1) by linarith+
        with p(3) show ?thesis by (metis abit_at)
      qed
      moreover have "it \<le> 32 * ?m + p" using nw it by linarith
      ultimately show ?thesis
        using p l True by (simp add: scan_bits_def abit_at)
    qed
  qed
qed

text \<open>
  What is still to come at an iterator value.  A degraded set with the largest positive
  integer in it ends there: the iterator then rests on the border and its negatives are
  never listed.
\<close>

definition bin_negs :: "nat \<Rightarrow> bitintn \<Rightarrow> int list" where
  "bin_negs k bi = map (\<lambda>k. - int k) (filter (abit (nneg bi)) [k..<32 * length (npos bi)])"

definition bin_rest :: "nat \<Rightarrow> bitintn \<Rightarrow> int list" where
  "bin_rest it bi =
     (let n = 32 * length (npos bi) in
      if \<not> bit (npos bi ! 0) 0 then drop it (bin_vals bi)
      else if it < n then
        (if it = 0 \<and> bit (nneg bi ! 0) 0 then [0] else []) @
        map int (filter (abit (npos bi)) [if it = 0 then 1 else it..<n]) @
        (if abit (npos bi) (n - 1) then [] else bin_negs 1 bi)
      else if n < it then bin_negs (it - n) bi
      else [])"

lemmas bin_rest_eq = bin_rest_def [unfolded Let_def]

lemma scan_filter:
  assumes "it < n" "n = 32 * length ws"
  shows "scan_bits ws it = None \<and> filter (abit ws) [it..<n] = [] \<or>
    (\<exists>m. scan_bits ws it = Some m \<and> it \<le> m \<and> m < n \<and> abit ws m \<and>
      filter (abit ws) [it..<n] = m # filter (abit ws) [Suc m..<n])"
proof (cases "scan_bits ws it")
  case None
  with scan_bits_spec [of it ws] assms show ?thesis by (auto simp: filter_empty_conv)
next
  case (Some m)
  with scan_bits_spec [of it ws] assms have
    m: "abit ws m" "it \<le> m" "\<forall>k. it \<le> k \<and> k < m \<longrightarrow> \<not> abit ws k" by auto
  then have "m < n" using assms(2) by (simp add: abit_def)
  with m Some filter_upt_first [of it m n "abit ws"] show ?thesis by auto
qed

lemma bin_next_neg:
  assumes "length (nneg bi) = length (npos bi)" "k < n" "n = 32 * length (npos bi)"
    "x = (case scan_bits (nneg bi) k of None \<Rightarrow> (0, 0) | Some k \<Rightarrow> (- int k, k + n + 1))"
    "bit (npos bi ! 0) 0"
  shows "bin_negs k bi = [] \<and> snd x = 0 \<or>
    (\<exists>v it'. x = (v, it') \<and> it' \<noteq> 0 \<and> bin_negs k bi = v # bin_rest it' bi)"
proof -
  have "n = 32 * length (nneg bi)" using assms by simp
  from scan_filter [OF assms(2) this] show ?thesis
  proof (elim disjE exE conjE, goal_cases)
  case 1
  then show ?case using assms by (simp add: bin_negs_def)
next
  case (2 m)
  then have "x = (- int m, m + n + 1)" "bin_negs k bi = - int m # bin_rest (m + n + 1) bi"
    using assms by (simp_all add: bin_negs_def bin_rest_eq)
  then show ?case by simp
qed
qed

lemma bin_next_pos:
  assumes "bin_wf (length (npos bi)) bi" "bit (npos bi ! 0) 0" "0 < it" "it < n"
    "n = 32 * length (npos bi)"
  shows "bin_rest it bi = [] \<and> snd (bin_next it bi) = 0 \<or>
    (\<exists>v it'. bin_next it bi = (v, it') \<and> it' \<noteq> 0 \<and> bin_rest it bi = v # bin_rest it' bi)"
  using scan_filter [OF assms(4,5)]
proof (elim disjE exE conjE)
  assume no: "scan_bits (npos bi) it = None" "filter (abit (npos bi)) [it..<n] = []"
  then have "\<not> abit (npos bi) (n - 1)"
    using assms(4) by (auto simp: filter_empty_conv)
  then have "bin_rest it bi = bin_negs 1 bi"
    using no assms by (simp add: bin_rest_eq)
  moreover have "bin_next it bi =
      (case scan_bits (nneg bi) 1 of None \<Rightarrow> (0, 0) | Some k \<Rightarrow> (- int k, k + n + 1))"
    using no assms by (auto simp: bin_next_def split: option.splits)
  moreover have "1 < n" "length (nneg bi) = length (npos bi)"
    using assms by (auto simp: bin_wf_def)
  ultimately show ?thesis using bin_next_neg [of bi 1 n] assms(2,5) by metis
next
  fix m assume m: "scan_bits (npos bi) it = Some m" "it \<le> m" "m < n" "abit (npos bi) m"
    "filter (abit (npos bi)) [it..<n] = m # filter (abit (npos bi)) [Suc m..<n]"
  have "bin_next it bi = (int m, m + 1)"
    using m assms by (simp add: bin_next_def)
  moreover have "bin_rest it bi = int m # bin_rest (m + 1) bi"
  proof (cases "m + 1 < n")
    case True
    with m assms show ?thesis by (simp add: bin_rest_eq)
  next
    case False
    then have "m = n - 1" using m(3) by simp
    with m assms show ?thesis by (auto simp: bin_rest_eq)
  qed
  ultimately show ?thesis by simp
qed

lemma bin_next_rest:
  assumes wf: "bin_wf (length (npos bi)) bi"
  shows "bin_rest it bi = [] \<and> snd (bin_next it bi) = 0 \<or>
    (\<exists>v it'. bin_next it bi = (v, it') \<and> it' \<noteq> 0 \<and> bin_rest it bi = v # bin_rest it' bi)"
proof -
  define n where "n = 32 * length (npos bi)"
  have len: "length (nneg bi) = length (npos bi)" "0 < length (npos bi)"
    using wf by (auto simp: bin_wf_def)
  from len(2) have n1: "1 < n" unfolding n_def by linarith
  consider "\<not> bit (npos bi ! 0) 0" | "bit (npos bi ! 0) 0" "it = 0" "bit (nneg bi ! 0) 0"
    | "bit (npos bi ! 0) 0" "it = 0" "\<not> bit (nneg bi ! 0) 0"
    | "bit (npos bi ! 0) 0" "0 < it" "it < n"
    | "bit (npos bi ! 0) 0" "n < it" "it < 2 * n"
    | "bit (npos bi ! 0) 0" "it = n \<or> 2 * n \<le> it" by linarith
  then show ?thesis
  proof cases
    case 1
    then have c: "length (bin_vals bi) = bi_count bi" using wf by (simp add: bin_wf_def bin_vals_def)
    show ?thesis
    proof (cases "it < bi_count bi")
      case True
      with c have "drop it (bin_vals bi) = bin_vals bi ! it # drop (Suc it) (bin_vals bi)"
        by (simp add: Cons_nth_drop_Suc)
      moreover have "bin_vals bi ! it = sint (nneg bi ! it)"
        using True c by (auto simp: bin_vals_def)
      ultimately show ?thesis using 1 True by (simp add: bin_rest_eq bin_next_def)
    qed (use 1 c in \<open>simp add: bin_rest_eq bin_next_def\<close>)
  next
    case 2
    with len n1 show ?thesis by (simp add: bin_rest_eq bin_next_def n_def)
  next
    case 3
    then have "bin_rest 0 bi = bin_rest 1 bi" "bin_next 0 bi = bin_next 1 bi"
      using len n1 by (simp_all add: bin_rest_eq bin_next_def n_def)
    with 3 bin_next_pos [OF wf 3(1), of 1 n] n1 show ?thesis by (simp add: n_def)
  next
    case 4
    from bin_next_pos [OF wf 4 n_def] show ?thesis .
  next
    case 5
    then have e: "bin_rest it bi = bin_negs (it - n) bi" "bin_next it bi =
        (case scan_bits (nneg bi) (it - n) of None \<Rightarrow> (0, 0) | Some k \<Rightarrow> (- int k, k + n + 1))"
      by (simp_all add: bin_rest_eq bin_next_def n_def Let_def cong: option.case_cong)
    have "it - n < n" using 5 by linarith
    from bin_next_neg [OF len(1) this n_def e(2) 5(1)] show ?thesis unfolding e(1) .
  next
    case 6
    have "\<not> it < n" "it \<noteq> 0" "\<not> (n < it \<and> it < 2 * n)" "n < it \<longrightarrow> n \<le> it - n" using 6 n1 by auto
    then have "bin_rest it bi = []" "bin_next it bi = (0, 0)"
      using 6(1) by (auto simp: bin_rest_eq bin_next_def bin_negs_def n_def [symmetric])
    then show ?thesis by simp
  qed
qed

interpretation bin: bi_iterator bin_next bin_rest "\<lambda>it b. bin_wf (length (npos b)) b"
proof (unfold_locales, goal_cases)
  case (1 it b)
  with bin_next_rest [of b it] show ?case by auto
next
  case (2 it b x xs)
  with bin_next_rest [of b it] show ?case by auto
qed

lemma bin_rest_length:
  assumes "bin_wf (length (npos bi)) bi"
  shows "length (bin_rest 0 bi) \<le> 64 * length (npos bi)"
proof -
  have f: "length (filter P [1..<n]) \<le> n - 1" for P and n :: nat
    using length_filter_le [of P "[1..<n]"] by simp
  let ?n = "32 * length (npos bi)"
  have l: "0 < length (npos bi)" using assms by (auto simp: bin_wf_def)
  then have "0 < ?n" by simp
  have "1 + (?n - 1) + (?n - 1) \<le> 64 * length (npos bi)" using l by linarith
  moreover have "length (bin_vals bi) \<le> ?n" using assms by (auto simp: bin_wf_def bin_vals_def)
  ultimately show ?thesis
    using f [of "abit (npos bi)" ?n] f [of "abit (nneg bi)" ?n] l
    by (auto simp: bin_rest_eq bin_negs_def)
qed

lemma bi383_list_rest: "bin_wf 12 bi \<Longrightarrow> bi383_list bi = bin_rest 0 bi"
  unfolding bi383_list_def bi383_next_def using bin_rest_length [of bi]
  by (intro bin.collect_rest) (auto simp: bin_wf_def)

lemma bi447_list_rest: "bin_wf 14 bi \<Longrightarrow> bi447_list bi = bin_rest 0 bi"
  unfolding bi447_list_def bi447_next_def using bin_rest_length [of bi]
  by (intro bin.collect_rest) (auto simp: bin_wf_def)

lemma bin_rest_set:
  assumes "bin_wf (length (npos bi)) bi"
  shows "set (bin_rest 0 bi) =
    (if bit (npos bi ! 0) 0 \<and> abit (npos bi) (32 * length (npos bi) - 1)
     then {v \<in> bin_elems bi. 0 \<le> v} else bin_elems bi)"
proof (cases "bit (npos bi ! 0) 0")
  case False
  then show ?thesis by (simp add: bin_rest_eq bin_elems_def)
next
  case True
  let ?n = "32 * length (npos bi)"
  have len: "length (nneg bi) = length (npos bi)" "0 < length (npos bi)"
    using assms by (auto simp: bin_wf_def)
  have p: "set (filter (abit ws) [Suc 0..<?n]) = {k. abit ws k} - {0}"
    if "length ws = length (npos bi)" for ws
    using that by (auto simp: abit_def Suc_le_eq)
  have z: "bit (nneg bi ! 0) 0 \<longleftrightarrow> abit (nneg bi) 0" using len by (simp add: abit_def)
  define Q where "Q = {k. abit (nneg bi) k}"
  define P where "P = {k. abit (npos bi) k} - {0}"
  have u: "(if (0::nat) \<in> Q then {0::int} else {}) \<union> int ` P \<union> (\<lambda>k. - int k) ` (Q - {0}) =
      int ` P \<union> (\<lambda>k. - int k) ` Q" by auto
  have "(if (0::nat) \<in> Q then {0::int} else {}) \<union> int ` P =
      {v \<in> int ` P \<union> (\<lambda>k. - int k) ` Q. 0 \<le> v}" by auto
  moreover have "set (bin_rest 0 bi) = (if 0 \<in> Q then {0} else {}) \<union> int ` P \<union>
      (if abit (npos bi) (?n - 1) then {} else (\<lambda>k. - int k) ` (Q - {0}))"
    using True len p [of "npos bi"] p [of "nneg bi"] z
    by (simp add: bin_rest_eq bin_negs_def P_def Q_def del: set_filter)
  ultimately show ?thesis
    using True u by (simp add: bin_elems_def P_def [symmetric] Q_def [symmetric])
qed

section \<open>The largest positive member\<close>

lemma scan_downs:
  shows "scan_down P n < n \<or> n = 0 \<and> scan_down P n = 0" and
  "\<forall>k. scan_down P n < k \<and> k < n \<longrightarrow> P k" and
  "P (scan_down P n) \<Longrightarrow> scan_down P n = 0"
  by (induction n) (auto simp: less_Suc_eq split: if_splits)

lemma clz32_top:
  assumes "w \<noteq> 0"
  obtains t where "bit w t" "t < 32" "\<forall>k>t. \<not> bit w k" "clz32 w = 31 - t"
proof -
  let ?P = "\<lambda>k. bit w (31 - k) \<and> k < 32"
  obtain m where m: "bit w m" "m < LENGTH(32)"
    using word_nonzero_least_bit [OF assms] by blast
  then have p: "?P (31 - m)" by simp
  define i where "i = (LEAST k. ?P k)"
  have i: "?P i" unfolding i_def by (rule LeastI [of ?P, OF p])
  have il: "\<not> ?P k" if "k < i" for k using that unfolding i_def by (rule not_less_Least)
  have "takeWhile (\<lambda>k. \<not> bit w (31 - k)) [0..<32] = [0..<i]"
  proof -
    have "[0..<32] = [0..<i] @ i # [Suc i..<32]"
      using i upt_add_eq_append [of 0 i "32 - i"] by (simp add: upt_conv_Cons)
    moreover have "\<forall>k \<in> set [0..<i]. \<not> bit w (31 - k)" using il i by auto
    ultimately show ?thesis
      using i takeWhile_append2 [of "[0..<i]" "\<lambda>k. \<not> bit w (31 - k)" "i # [Suc i..<32]"] by simp
  qed
  then have c: "clz32 w = i" by (simp add: clz32_def)
  have "\<not> bit w k" if "31 - i < k" for k
  proof
    assume b: "bit w k"
    then have "k < 32" using bit_imp_le_length [OF b] by simp
    then have "31 - k < i" "31 - (31 - k) = k" using that by linarith+
    with il [of "31 - k"] b \<open>k < 32\<close> show False by simp
  qed
  with i c that [of "31 - i"] show thesis by auto
qed

lemma bi383_max0_bits:
  assumes "bin_wf 12 bi" "bit (npos bi ! 0) 0"
  shows "abit (npos bi) (nat (bi383_max0 bi)) \<and> 0 \<le> bi383_max0 bi \<and>
    (\<forall>k. abit (npos bi) k \<longrightarrow> int k \<le> bi383_max0 bi)"
proof -
  define i where "i = scan_down (\<lambda>k. npos bi ! k = 0) (length (npos bi))"
  have len: "length (npos bi) = 12" using assms(1) by (simp add: bin_wf_def)
  note sd = scan_downs [of "\<lambda>k. npos bi ! k = 0" "length (npos bi)", folded i_def]
  have i: "i < 12" using sd(1) len by auto
  have "npos bi ! i \<noteq> 0" using sd(3) assms(2) by auto
  then obtain t where t: "bit (npos bi ! i) t" "t < 32" "\<forall>k>t. \<not> bit (npos bi ! i) k"
    "clz32 (npos bi ! i) = 31 - t" by (rule clz32_top)
  have "bi383_max0 bi = int (32 * i + t)"
    using assms(2) t(2,4) \<open>npos bi ! i \<noteq> 0\<close>
    by (simp add: bi383_max0_def i_def [symmetric] Let_def)
  then obtain m where m: "bi383_max0 bi = int m" "m = 32 * i + t" by blast
  have "k \<le> 32 * i + t" if k: "abit (npos bi) k" for k
  proof (rule ccontr)
    assume n: "\<not> k \<le> 32 * i + t"
    have kb: "bit (npos bi ! (k div 32)) (k mod 32)" "k div 32 < 12"
      using k len by (auto simp: abit_def)
    have "i < k div 32 \<or> k div 32 = i \<and> t < k mod 32" 
    proof (cases "k div 32" i rule: linorder_cases)
      case less
      then have "32 * (k div 32) + k mod 32 < 32 * i" by (simp add: less_eq_Suc_le)
      with n show ?thesis by simp
    next
      case equal
      moreover have "32 * (k div 32) + k mod 32 = k" by simp
      ultimately show ?thesis using n by auto
    qed simp
    then show False using kb sd(2) t(3) len by auto
  qed
  moreover have "abit (npos bi) (32 * i + t)" using t i len by (simp add: abit_at)
  ultimately have "abit (npos bi) m" "\<forall>k. abit (npos bi) k \<longrightarrow> k \<le> m" unfolding m(2) by blast+
  then show ?thesis unfolding m(1) by simp
qed

lemma bi383_max0_spec:
  assumes "bin_wf 12 bi"
  shows "(bi383_max0 bi = 0 \<or> bi383_max0 bi \<in> bin_elems bi) \<and> 0 \<le> bi383_max0 bi \<and>
    (\<forall>v \<in> bin_elems bi. v \<le> bi383_max0 bi)"
proof (cases "bit (npos bi ! 0) 0")
  case True
  note b = bi383_max0_bits [OF assms True]
  then have "bi383_max0 bi = 0 \<or> bi383_max0 bi \<in> bin_elems bi"
  proof (cases "bi383_max0 bi = 0")
    case nz: False
    from b obtain m where m: "bi383_max0 bi = int m" using zero_le_imp_eq_int by blast
    with b nz have "m \<in> {k. abit (npos bi) k} - {0}" by simp
    then have "bi383_max0 bi \<in> int ` ({k. abit (npos bi) k} - {0})" unfolding m by (rule imageI)
    with True show ?thesis by (simp add: bin_elems_def)
  qed simp
  moreover have "v \<le> bi383_max0 bi" if "v \<in> bin_elems bi" for v
  proof -
    from that True have "v \<in> int ` ({k. abit (npos bi) k} - {0}) \<union> (\<lambda>k. - int k) ` {k. abit (nneg bi) k}"
      by (simp add: bin_elems_def)
    then consider k where "v = int k" "abit (npos bi) k" | k where "v = - int k"
      by (elim UnE imageE) blast+
    then show ?thesis using b by cases auto
  qed
  ultimately show ?thesis using b by blast
next
  case False
  let ?c = "bi_count bi"
  define i where "i = scan_down (\<lambda>k. sint (nneg bi ! k) < 0) ?c"
  note sd = scan_downs [of "\<lambda>k. sint (nneg bi ! k) < 0" ?c, folded i_def]
  have wf: "length (nneg bi) = 12" "?c \<le> 12" "sorted_wrt it_before (bin_vals bi)"
    "?c = 0 \<longrightarrow> sint (nneg bi ! 0) \<le> 0"
    using assms False by (auto simp: bin_wf_def)
  have lv: "length (bin_vals bi) = ?c" "\<And>k. k < ?c \<Longrightarrow> bin_vals bi ! k = sint (nneg bi ! k)"
    using wf by (auto simp: bin_vals_def)
  have m: "bi383_max0 bi = max 0 (sint (nneg bi ! i))"
    using False by (simp add: bi383_max0_def i_def [symmetric] Let_def)
  have up: "sint (nneg bi ! k) \<le> max 0 (sint (nneg bi ! i))" if k: "k < ?c" for k
  proof (cases "i < k")
    case True
    with sd(2) k show ?thesis by (auto simp: max_def)
  next
    case ki: False
    then have ic: "i < ?c" using sd(1) k by auto
    have "k = i \<or> it_before (sint (nneg bi ! k)) (sint (nneg bi ! i))"
    proof (cases "k = i")
      case False
      then have "k < i" using ki by simp
      then have "it_before (bin_vals bi ! k) (bin_vals bi ! i)"
        using ic lv(1) by (intro sorted_wrt_nth_less [OF wf(3)]) auto
      then show ?thesis using lv(2) ic k by simp
    qed simp
    moreover have "0 \<le> sint (nneg bi ! i) \<or> i = 0" using sd(3) by linarith
    ultimately show ?thesis using ki by (auto simp: it_before_def split: if_splits)
  qed
  have "max 0 (sint (nneg bi ! i)) = 0 \<or> max 0 (sint (nneg bi ! i)) \<in> set (bin_vals bi)"
    using sd(1) wf(4) lv by (metis max.absorb1 max.absorb2 nle_le nth_mem)
  moreover have "v \<le> max 0 (sint (nneg bi ! i))" if "v \<in> set (bin_vals bi)" for v
    using that up lv by (metis in_set_conv_nth)
  ultimately show ?thesis using False m by (simp add: bin_elems_def)
qed

section \<open>Storing integers and looping over them\<close>

definition bin_empty :: "nat \<Rightarrow> bitintn" where
  "bin_empty n = \<lparr>npos = replicate n 0, nneg = replicate n 0\<rparr>"

lemma bin_empty_wf: "0 < n \<Longrightarrow> n < 2 ^ 20 \<Longrightarrow> bin_wf n (bin_empty n)"
  and bin_empty_elems: "0 < n \<Longrightarrow> bin_elems (bin_empty n) = {}"
  by (simp_all add: bin_wf_def bin_empty_def bin_elems_def bin_vals_def bi_count_def)

lemma foldl_ass_bin:
  assumes "bin_wf n bi" "\<forall>x \<in> set xs. \<bar>x\<bar> < int (32 * n)"
  shows "bin_elems (foldl ass_bin bi xs) = set xs \<union> bin_elems bi \<and> bin_wf n (foldl ass_bin bi xs)"
  using assms
proof (induction xs arbitrary: bi)
  case (Cons x xs)
  with ass_bin_elems [of n bi x] Cons.IH [of "ass_bin bi x"] show ?case by auto
qed simp

lemma bin_rest_sorted:
  assumes "bin_wf (length (npos bi)) bi"
  shows "sorted_wrt it_before (bin_rest 0 bi)"
proof (cases "bit (npos bi ! 0) 0")
  case False
  with assms show ?thesis by (simp add: bin_rest_eq bin_wf_def)
next
  case True
  have "sorted_wrt it_before (map int (filter P [1..<n]))"
    "sorted_wrt it_before (map (\<lambda>k. - int k) (filter P [1..<n]))" for P n
    by (intro sorted_pos sorted_neg sorted_filter_upt, simp)+
  with True show ?thesis
    by (auto simp: bin_rest_eq bin_negs_def sorted_wrt_append it_before_def)
qed

text \<open>
  Storing integers in a \<open>bitint383\<close> or \<open>bitint447\<close>, in the sorted array or degraded to
  bits, and looping over it lists the stored integers once each, naught and the positives
  upwards before the negatives downwards; nothing is listed that was not stored, nonnegative
  integers are never lost, and the negative ones only when the largest integer the set can
  hold, 383 or 447, was stored too.
\<close>

theorem bin_store_loop:
  assumes "n = 12 \<and> l = bi383_list (foldl ass_bi383 (bin_empty n) xs) \<or>
      n = 14 \<and> l = bi447_list (foldl ass_bi447 (bin_empty n) xs)"
    and "\<forall>x \<in> set xs. \<bar>x\<bar> < int (32 * n)"
  shows "sorted_wrt it_before l \<and> set l \<subseteq> set xs \<and> {x \<in> set xs. 0 \<le> x} \<subseteq> set l \<and>
    (int (32 * n) - 1 \<notin> set xs \<longrightarrow> set l = set xs)"
proof -
  let ?b = "foldl ass_bin (bin_empty n) xs"
  have n: "0 < n" "n < 2 ^ 20" using assms(1) by auto
  have b: "bin_elems ?b = set xs" "bin_wf n ?b"
    using foldl_ass_bin [OF bin_empty_wf [OF n] assms(2)] bin_empty_elems [OF n(1)] by auto
  have l: "l = bin_rest 0 ?b"
    using assms(1) b(2)
    by (auto simp: bi383_list_rest bi447_list_rest ass_bi383_def [abs_def] ass_bi447_def [abs_def])
  have len: "length (npos ?b) = n" using b(2) by (simp add: bin_wf_def)
  have "int (32 * n - 1) \<in> set xs" if "bit (npos ?b ! 0) 0" "abit (npos ?b) (32 * n - 1)"
  proof -
    from n(1) have "32 * n - 1 \<noteq> 0" by linarith
    with that(2) have "32 * n - 1 \<in> {k. abit (npos ?b) k} - {0}" by blast
    then have "int (32 * n - 1) \<in> int ` ({k. abit (npos ?b) k} - {0})" by (rule imageI)
    then have "int (32 * n - 1) \<in> bin_elems ?b" using that(1) by (simp only: bin_elems_def if_True UnI1)
    with b(1) show ?thesis by simp
  qed
  moreover have "int (32 * n - 1) = int (32 * n) - 1" using n(1) by linarith
  ultimately show ?thesis
    using bin_rest_sorted [of ?b] bin_rest_set [of ?b] b len unfolding l by auto
qed

lemma bin_store_loop_witness:
  "set (bi383_list (foldl ass_bi383 (bin_empty 12) [5, - 3, 0, 382, 5])) = {5, - 3, 0, 382}"
  using bin_store_loop [of 12 _ "[5, - 3, 0, 382, 5]"] by auto

text \<open>\<open>bi383_max0\<close> is the largest stored integer, or 0 when none is positive.\<close>

theorem bi383_max0_stored:
  assumes "\<forall>x \<in> set xs. \<bar>x\<bar> < 384"
  shows "bi383_max0 (foldl ass_bi383 (bin_empty 12) xs) = Max (insert 0 (set xs))"
proof -
  let ?b = "foldl ass_bi383 (bin_empty 12) xs"
  have "bin_elems ?b = set xs \<and> bin_wf 12 ?b"
    using foldl_ass_bin [OF bin_empty_wf, of 12 xs] bin_empty_elems [of 12] assms
    by (simp add: ass_bi383_def [abs_def])
  then show ?thesis using bi383_max0_spec [of ?b] by (intro Max_eqI [symmetric]) auto
qed

lemma bi383_max0_stored_witness: "bi383_max0 (foldl ass_bi383 (bin_empty 12) [- 7, 12, 3]) = 12"
  using bi383_max0_stored [of "[- 7, 12, 3]"] by simp

end
