(* ===== verification/Instant.thy ===== *)
theory Instant
  imports Prelude
begin

text \<open>
  Instants, \<^verbatim>\<open>src/src/instant.h\<close> and \<^verbatim>\<open>src/src/instant.c\<close>: calendar time stamps packed
  into 64 bits, their comparison, normalisation, difference and addition.  The bit fields are
  integers here; a store into one is written with the truncation to its width.  A duration
  \<open>echs_idiff_t\<close> is its one member, a 64-bit count of milliseconds.

  The specification side is \<open>inst_ms\<close>, the number of milliseconds since the start of year 0
  in the calendar the code uses (every fourth year a leap year), which is the Gregorian
  calendar of the years 1901 to 2099.
\<close>

record instant =
  i_y :: int
  i_m :: int
  i_d :: int
  i_H :: int
  i_M :: int
  i_S :: int
  i_ms :: int

definition ECHS_ALL_DAY :: int where "ECHS_ALL_DAY = 255"
definition ECHS_ALL_SEC :: int where "ECHS_ALL_SEC = 1023"

definition MSECS_PER_DAY :: int where "MSECS_PER_DAY = 86400000"

text \<open>Every field within its bits.\<close>

definition inst_bits :: "instant \<Rightarrow> bool" where
  "inst_bits i \<longleftrightarrow> i_y i \<in> {0..<65536} \<and> i_m i \<in> {0..<256} \<and> i_d i \<in> {0..<256} \<and>
     i_H i \<in> {0..<256} \<and> i_M i \<in> {0..<256} \<and> i_S i \<in> {0..<64} \<and> i_ms i \<in> {0..<1024}"

text \<open>The member \<open>u\<close> of the union: the fields from the most significant end.\<close>

definition inst_u :: "instant \<Rightarrow> int" where
  "inst_u i =
     (((((i_y i * 256 + i_m i) * 256 + i_d i) * 256 + i_H i) * 256 + i_M i) * 64 + i_S i) * 1024
     + i_ms i"

definition echs_instant_all_day_p :: "instant \<Rightarrow> bool" where
  "echs_instant_all_day_p i \<longleftrightarrow> i_H i = ECHS_ALL_DAY"

definition echs_instant_all_sec_p :: "instant \<Rightarrow> bool" where
  "echs_instant_all_sec_p i \<longleftrightarrow> i_ms i = ECHS_ALL_SEC"

definition echs_instant_0_p :: "instant \<Rightarrow> bool" where
  "echs_instant_0_p x \<longleftrightarrow> inst_u x = 0"

text \<open>\<open>x.H++, x.ms++\<close> wraps within the fields.\<close>

definition inst_up :: "instant \<Rightarrow> instant" where
  "inst_up x = x\<lparr>i_H := (i_H x + 1) mod 256, i_ms := (i_ms x + 1) mod 1024\<rparr>"

definition echs_instant_lt_p :: "instant \<Rightarrow> instant \<Rightarrow> bool" where
  "echs_instant_lt_p x y \<longleftrightarrow> inst_u (inst_up x) < inst_u (inst_up y)"

definition echs_instant_le_p :: "instant \<Rightarrow> instant \<Rightarrow> bool" where
  "echs_instant_le_p x y \<longleftrightarrow> \<not> inst_u (inst_up x) > inst_u (inst_up y)"

definition echs_instant_eq_p :: "instant \<Rightarrow> instant \<Rightarrow> bool" where
  "echs_instant_eq_p x y \<longleftrightarrow> inst_u x = inst_u y"

definition echs_nul_instant :: instant where
  "echs_nul_instant = \<lparr>i_y = 0, i_m = 0, i_d = 0, i_H = 0, i_M = 0, i_S = 0, i_ms = 0\<rparr>"

definition echs_nul_instant_p :: "instant \<Rightarrow> bool" where
  "echs_nul_instant_p x \<longleftrightarrow> inst_u x = 0"

definition echs_min_instant :: instant where
  "echs_min_instant = echs_nul_instant"

definition echs_min_instant_p :: "instant \<Rightarrow> bool" where
  "echs_min_instant_p x \<longleftrightarrow> echs_nul_instant_p x"

definition echs_max_instant :: instant where
  "echs_max_instant =
     \<lparr>i_y = 65535, i_m = 255, i_d = 255, i_H = 255, i_M = 255, i_S = 63, i_ms = 1023\<rparr>"

definition echs_max_instant_p :: "instant \<Rightarrow> bool" where
  "echs_max_instant_p x \<longleftrightarrow> inst_u x = 18446744073709551615"

definition echs_idiff_neg :: "int \<Rightarrow> int" where
  "echs_idiff_neg d = - d"

section \<open>Calendar tables\<close>

definition doy :: "int list" where
  "doy = [0, 0, 31, 59, 90, 120, 151, 181, 212, 243, 273, 304, 334,
     365, 396, 424, 455, 485, 516, 546, 577, 608, 638, 669, 699]"

definition mdays :: "int list" where
  "mdays = [0, 31, 28, 31, 30, 31, 30, 31, 31, 30, 31, 30, 31]"

definition get_mdays :: "int \<Rightarrow> int \<Rightarrow> int" where
  "get_mdays y m = mdays ! nat m + (if y mod 4 = 0 \<and> m = 2 then 1 else 0)"

definition doy_of :: "instant \<Rightarrow> int" where
  "doy_of i = doy ! nat (i_m i) + i_d i + (if i_y i mod 4 = 0 \<and> 3 \<le> i_m i then 1 else 0)"

definition jan00 :: "int \<Rightarrow> int" where
  "jan00 year =
     (let by = u32 (year - 1601)
      in u32 (by * 365 + by div 4 - u32 (year - 1601) div 100 + u32 (year - 1601) div 400))"

section \<open>Normalisation\<close>

text \<open>\<open>refix_ym\<close>, a loop that ends because every round takes days off.\<close>

definition month_roll :: "int \<Rightarrow> int \<Rightarrow> int \<times> int" where
  "month_roll y m =
     (if 12 < m then ((y + (m - 1) div 12) mod 65536, (m - 1) mod 12 + 1) else (y, m))"

lemma month_roll_range: "1 \<le> m \<Longrightarrow> 1 \<le> snd (month_roll y m) \<and> snd (month_roll y m) \<le> 12"
proof -
  assume "1 \<le> m"
  have "0 \<le> (m - 1) mod 12" "(m - 1) mod 12 < 12" by simp_all
  then show ?thesis using \<open>1 \<le> m\<close> unfolding month_roll_def by (simp del: pos_mod_bound pos_mod_sign)
qed

lemma mdays_set: "set mdays \<subseteq> {0, 28, 30, 31}"
  by (simp add: mdays_def)

lemma month_cases:
  fixes m :: int
  assumes "1 \<le> m" "m \<le> 12"
  obtains "m = 1" | "m = 2" | "m = 3" | "m = 4" | "m = 5" | "m = 6" | "m = 7" | "m = 8" | "m = 9"
    | "m = 10" | "m = 11" | "m = 12"
proof -
  from assms have "m \<in> {1, 2, 3, 4, 5, 6, 7, 8, 9, 10, 11, 12}" by auto presburger
  with that show thesis by blast
qed

lemma get_mdays_range:
  assumes "1 \<le> m" "m \<le> 12"
  shows "28 \<le> get_mdays y m" "get_mdays y m \<le> 31"
  using assms by (cases m rule: month_cases; simp add: get_mdays_def mdays_def)+

lemma get_mdays_low: "m < 1 \<Longrightarrow> get_mdays y m = 0"
  by (simp add: get_mdays_def mdays_def)

function fixup_ym :: "int \<Rightarrow> int \<Rightarrow> int \<Rightarrow> int \<times> int \<times> int" where
  "fixup_ym y m d =
     (let (y, m) = month_roll y m; md = get_mdays y m
      in if md < d then fixup_ym y (m + 1) (d - md) else (y, m, d))"
  by pat_completeness auto
termination
proof (relation "measures [\<lambda>(y, m, d). nat d, \<lambda>(y, m, d). nat (1 - m)]", goal_cases)
  case 1
  show ?case by simp
next
  case (2 y m d x y' m' md)
  show ?case
  proof (cases "1 \<le> m")
    case True
    with month_roll_range [of m y] 2 have "1 \<le> m'" "m' \<le> 12" by (metis snd_conv)+
    with get_mdays_range [of m' y'] 2 show ?thesis by auto
  next
    case False
    with 2 show ?thesis by (auto simp: month_roll_def get_mdays_low)
  qed
qed

declare fixup_ym.simps [simp del]

definition fixup_S :: "instant \<Rightarrow> instant" where
  "fixup_S e =
     (let e = (if 60 \<le> i_S e
               then e\<lparr>i_S := i_S e mod 60, i_M := (i_M e + i_S e div 60) mod 256\<rparr> else e);
          e = (if 60 \<le> i_M e
               then e\<lparr>i_M := i_M e mod 60, i_H := (i_H e + i_M e div 60) mod 256\<rparr> else e)
      in if 24 \<le> i_H e
         then e\<lparr>i_H := i_H e mod 24, i_d := (i_d e + i_H e div 24) mod 256\<rparr> else e)"

definition echs_instant_fixup :: "instant \<Rightarrow> instant" where
  "echs_instant_fixup e =
     (let e = (if echs_instant_all_day_p e then e
               else if echs_instant_all_sec_p e then fixup_S e
               else fixup_S (if 1000 \<le> i_ms e
                             then e\<lparr>i_ms := i_ms e mod 1000, i_S := (i_S e + i_ms e div 1000) mod 64\<rparr>
                             else e));
          (y, m, d) = fixup_ym (i_y e) (i_m e) (i_d e)
      in e\<lparr>i_y := y, i_m := m, i_d := d\<rparr>)"

section \<open>Difference and addition\<close>

definition echs_instant_diff :: "instant \<Rightarrow> instant \<Rightarrow> int" where
  "echs_instant_diff endi beg =
     (let intra = i32 (i_H endi - i_H beg);
          intra = i32 (intra * 60);
          intra = i32 (intra + (i_M endi - i_M beg));
          intra = i32 (intra * 60);
          intra = i32 (intra + (i_S endi - i_S beg));
          intra = i32 (intra * 1000);
          intra = i32 (intra + (i_ms endi - i_ms beg));
          (intra, extra) =
            (if intra < 0 then (i32 (intra + MSECS_PER_DAY), - 1)
             else if intra < MSECS_PER_DAY then (intra, 0) else (intra, 1));
          extra = i32 (extra + (jan00 (i_y endi) - jan00 (i_y beg)));
          extra = i32 (extra + (doy_of endi - doy_of beg))
      in u32 (extra * MSECS_PER_DAY + intra))"

text \<open>The quotient and remainder of one carry step: \<open>car\<close> and the value stored.\<close>

definition carry :: "int \<Rightarrow> int \<Rightarrow> int \<times> int" where
  "carry x b =
     (let car = x sdiv b; cdr = x smod b
      in if 0 \<le> cdr then (car, cdr) else (car - 1, cdr + b))"

text \<open>Walking months backwards while the day is below 1, and forwards while it is too large.\<close>

function add_back :: "int \<Rightarrow> int \<Rightarrow> int \<Rightarrow> int \<times> int \<times> int" where
  "add_back y m d =
     (let (y, m) = (if m - 1 < 1 then (y - 1, 12) else (y, m - 1));
          d = d + get_mdays y m
      in if d < 1 then add_back y m d else (y, m, d))"
  by pat_completeness auto
termination
proof (relation "measures [\<lambda>(y, m, d). nat (m - 12), \<lambda>(y, m, d). nat (1 - d)]", goal_cases)
  case 1
  show ?case by simp
next
  case (2 y m d x y' m' d')
  show ?case
  proof (cases "12 < m")
    case False
    with 2 have "1 \<le> m'" "m' \<le> 12" by (auto split: if_splits)
    with get_mdays_range [of m' y'] 2 False show ?thesis by auto
  qed (use 2 in \<open>auto split: if_splits\<close>)
qed

function add_forth :: "int \<Rightarrow> int \<Rightarrow> int \<Rightarrow> int \<times> int \<times> int" where
  "add_forth y m d =
     (let md = get_mdays y m
      in if md < d
         then (if 12 < m + 1 then add_forth (y + 1) 1 (d - md) else add_forth y (m + 1) (d - md))
         else (y, m, d))"
  by pat_completeness auto
termination
proof (relation "measures [\<lambda>(y, m, d). nat (m - 12), \<lambda>(y, m, d). nat d, \<lambda>(y, m, d). nat (1 - m)]",
    goal_cases)
  case 1
  show ?case by simp
next
  case (2 y m d md)
  then show ?case using get_mdays_range [of m y] by (cases "m = 12") auto
next
  case (3 y m d md)
  then show ?case
    using get_mdays_range [of m y] get_mdays_low [of m y] by (cases "1 \<le> m") auto
qed

declare add_back.simps [simp del] add_forth.simps [simp del]

definition add_ymd :: "instant \<Rightarrow> int \<Rightarrow> instant \<Rightarrow> instant" where
  "add_ymd bas dd res =
     (let d = i_d bas + dd;
          (y, m, d) = (if 1 \<le> d \<and> d \<le> 28 then (i_y bas, i_m bas, d)
                       else if d < 1 then add_back (i_y bas) (i_m bas) d
                       else add_forth (i_y bas) (i_m bas) d)
      in res\<lparr>i_d := d mod 256, i_m := m mod 256, i_y := y mod 65536\<rparr>)"

definition add_S :: "instant \<Rightarrow> int \<Rightarrow> int \<Rightarrow> instant \<Rightarrow> instant" where
  "add_S bas dd msd res =
     (let (msd, s) = carry (i_S res + msd) 60; res = res\<lparr>i_S := s mod 64\<rparr>;
          (msd, mi) = carry (i_M res + msd) 60; res = res\<lparr>i_M := mi mod 256\<rparr>;
          (msd, h) = carry (i_H res + msd) 24; res = res\<lparr>i_H := h mod 256\<rparr>;
          dd = (if msd \<noteq> 0 then i32 (dd + msd) else dd)
      in if dd \<noteq> 0 then add_ymd bas dd res else res)"

definition echs_instant_add :: "instant \<Rightarrow> int \<Rightarrow> instant" where
  "echs_instant_add bas d =
     (let res = bas; dd = i32 (d sdiv MSECS_PER_DAY); msd = i32 (d smod MSECS_PER_DAY)
      in if echs_instant_all_day_p bas then add_ymd bas dd res
         else if echs_instant_all_sec_p bas then add_S bas dd (msd sdiv 1000) res
         else
           let (msd, ms) = carry (i_ms res + msd) 1000
           in add_S bas dd msd (res\<lparr>i_ms := ms mod 1024\<rparr>))"

section \<open>Sorting\<close>

text \<open>
  \<open>echs_instant_sort\<close> calls the vendored WikiSort, a stable in-place merge sort, with
  \<open>echs_instant_lt_p\<close>; what it relies on is that the result is the stable sort.
\<close>

definition echs_instant_sort :: "instant list \<Rightarrow> instant list" where
  "echs_instant_sort xs = sort_key (\<lambda>i. inst_u (inst_up i)) xs"

section \<open>The calendar behind the tables\<close>

definition dayno :: "int \<Rightarrow> int \<Rightarrow> int \<Rightarrow> int" where
  "dayno y m d = 365 * y + (y + 3) div 4 + doy ! nat m + (if y mod 4 = 0 \<and> 3 \<le> m then 1 else 0) + d"

definition valid_ymd :: "int \<Rightarrow> int \<Rightarrow> int \<Rightarrow> bool" where
  "valid_ymd y m d \<longleftrightarrow> 1 \<le> m \<and> m \<le> 12 \<and> 1 \<le> d \<and> d \<le> get_mdays y m"

lemma quad_step: "(y + 4) div 4 = (y + 3) div 4 + (if y mod 4 = 0 then 1 else 0)" for y :: int
  by presburger

lemma dayno_next_month:
  assumes "1 \<le> m" "m < 12"
  shows "dayno y (m + 1) d = dayno y m (d + get_mdays y m)"
proof -
  from assms have "1 \<le> m" "m \<le> 12" by auto
  then show ?thesis using assms
    by (cases m rule: month_cases) (simp_all add: dayno_def doy_def get_mdays_def mdays_def)
qed

lemma dayno_next_year: "dayno (y + 1) 1 d = dayno y 12 (d + get_mdays y 12)"
  using quad_step [of y] by (simp add: dayno_def doy_def get_mdays_def mdays_def algebra_simps)

lemma dayno_day: "dayno y m (d + k) = dayno y m d + k"
  by (simp add: dayno_def)

lemma dayno_year_bounds:
  assumes "valid_ymd y m d"
  shows "365 * y + (y + 3) div 4 < dayno y m d"
    and "dayno y m d \<le> 365 * (y + 1) + (y + 4) div 4"
proof -
  from assms have m: "1 \<le> m" "m \<le> 12" and d: "1 \<le> d" "d \<le> get_mdays y m"
    by (auto simp: valid_ymd_def)
  from m show "365 * y + (y + 3) div 4 < dayno y m d" using d
    by (cases m rule: month_cases) (simp_all add: dayno_def doy_def)
  from m show "dayno y m d \<le> 365 * (y + 1) + (y + 4) div 4" using d quad_step [of y]
    by (cases m rule: month_cases) (simp_all add: dayno_def doy_def get_mdays_def mdays_def)
qed

lemma dayno_month_mono:
  assumes "valid_ymd y m d" "valid_ymd y m' d'" "m < m'"
  shows "dayno y m d < dayno y m' d'"
proof -
  have le: "doy ! nat m + (if y mod 4 = 0 \<and> 3 \<le> m then 1 else 0) + get_mdays y m \<le>
      doy ! nat (m + 1) + (if y mod 4 = 0 \<and> 3 \<le> m + 1 then 1 else 0)"
  proof -
    from assms have "1 \<le> m" "m \<le> 12" "m < 12" by (auto simp: valid_ymd_def)
    then show ?thesis
      by (cases m rule: month_cases) (simp_all add: doy_def get_mdays_def mdays_def)
  qed
  have mono: "doy ! nat a \<le> doy ! nat b" if "1 \<le> a" "a \<le> b" "b \<le> 12" for a b
  proof -
    have "sorted doy" "length doy = 25" by (simp_all add: doy_def)
    then show ?thesis using that by (intro sorted_nth_mono) auto
  qed
  have "doy ! nat (m + 1) \<le> doy ! nat m'"
    using assms by (intro mono) (auto simp: valid_ymd_def)
  moreover have "(if y mod 4 = 0 \<and> 3 \<le> m + 1 then 1 else 0 :: int) \<le>
      (if y mod 4 = 0 \<and> 3 \<le> m' then 1 else 0)" using assms(3) by auto
  moreover have "d \<le> get_mdays y m" "1 \<le> d'" using assms by (auto simp: valid_ymd_def)
  ultimately show ?thesis using le unfolding dayno_def by linarith
qed

lemma dayno_less_iff:
  assumes "valid_ymd y m d" "valid_ymd y' m' d'"
  shows "dayno y m d < dayno y' m' d' \<longleftrightarrow> y < y' \<or> y = y' \<and> (m < m' \<or> m = m' \<and> d < d')"
proof -
  have year: "dayno a b c < dayno a' b' c'"
    if "a < a'" "valid_ymd a b c" "valid_ymd a' b' c'" for a b c a' b' c'
  proof -
    have "(a + 4) div 4 \<le> (a' + 3) div 4" using that(1) by (intro zdiv_mono1) auto
    moreover have "365 * (a + 1) \<le> 365 * a'" using that(1) by simp
    ultimately have "365 * (a + 1) + (a + 4) div 4 \<le> 365 * a' + (a' + 3) div 4"
      by (rule add_mono [rotated])
    with dayno_year_bounds(2) [OF that(2)] dayno_year_bounds(1) [OF that(3)] show ?thesis by linarith
  qed
  have month: "dayno y m d < dayno y m' d' \<longleftrightarrow> m < m' \<or> m = m' \<and> d < d'" if "y = y'"
  proof (cases m m' rule: linorder_cases)
    case less
    with dayno_month_mono [of y m d m' d'] assms that show ?thesis by auto
  next
    case equal
    then show ?thesis by (auto simp: dayno_def)
  next
    case greater
    with dayno_month_mono [of y m' d' m d] assms that show ?thesis by auto
  qed
  show ?thesis
  proof (cases y y' rule: linorder_cases)
    case less
    with year [OF less assms] show ?thesis by auto
  next
    case equal
    with month show ?thesis by auto
  next
    case greater
    with year [OF greater assms(2,1)] show ?thesis by auto
  qed
qed

lemma dayno_inj:
  assumes "valid_ymd y m d" "valid_ymd y' m' d'" "dayno y m d = dayno y' m' d'"
  shows "y = y' \<and> m = m' \<and> d = d'"
  using dayno_less_iff [OF assms(1,2)] dayno_less_iff [OF assms(2,1)] assms(3)
  by (metis less_irrefl linorder_less_linear)

text \<open>The walks over months keep the day.\<close>

lemma add_forth_dayno:
  "1 \<le> m \<Longrightarrow> m \<le> 12 \<Longrightarrow> 1 \<le> d \<Longrightarrow> add_forth y m d = (y', m', d') \<Longrightarrow>
   valid_ymd y' m' d' \<and> dayno y' m' d' = dayno y m d \<and> y \<le> y'"
proof (induction y m d rule: add_forth.induct)
  case (1 y m d)
  let ?md = "get_mdays y m"
  show ?case
  proof (cases "?md < d")
    case False
    with 1(3-6) show ?thesis by (simp add: add_forth.simps [of y m d] valid_ymd_def)
  next
    case True
    show ?thesis
    proof (cases "m = 12")
      case m: True
      then have "add_forth y m d = add_forth (y + 1) 1 (d - ?md)"
        using True by (subst add_forth.simps) simp
      with 1(1) [OF refl True] 1(3-6) m True dayno_next_year [of y "d - ?md"] show ?thesis by simp
    next
      case m: False
      then have "add_forth y m d = add_forth y (m + 1) (d - ?md)"
        using True 1(3,4) by (subst add_forth.simps) simp
      with 1(2) [OF refl True] 1(3-6) m True dayno_next_month [of m y "d - ?md"] show ?thesis by simp
    qed
  qed
qed

lemma add_back_dayno:
  "1 \<le> m \<Longrightarrow> m \<le> 12 \<Longrightarrow> d < 1 \<Longrightarrow> add_back y m d = (y', m', d') \<Longrightarrow>
   valid_ymd y' m' d' \<and> dayno y' m' d' = dayno y m d \<and> y' \<le> y"
proof (induction y m d rule: add_back.induct)
  case (1 y m d)
  obtain py pm where p: "(if m - 1 < 1 then (y - 1, 12) else (y, m - 1)) = (py, pm)"
    by (metis surj_pair)
  then have pm: "1 \<le> pm" "pm \<le> 12" "py \<le> y" using 1 by (auto split: if_splits)
  have day: "dayno py pm (d + get_mdays py pm) = dayno y m d"
    using p 1(2,3) dayno_next_year [of "y - 1" d] dayno_next_month [of "m - 1" y d]
    by (cases "m = 1") auto
  show ?case
  proof (cases "d + get_mdays py pm < 1")
    case True
    then have "add_back y m d = add_back py pm (d + get_mdays py pm)"
      using p by (simp add: add_back.simps [of y m d])
    with 1(1) [OF p [symmetric] refl refl True] pm 1(2-) day True show ?thesis by auto
  next
    case False
    then have "add_back y m d = (py, pm, d + get_mdays py pm)"
      using p by (simp add: add_back.simps [of y m d])
    with 1(2-) pm day False show ?thesis by (auto simp: valid_ymd_def)
  qed
qed

section \<open>Milliseconds\<close>

text \<open>Months beyond December count into the following years.\<close>

definition ext_dayno :: "int \<Rightarrow> int \<Rightarrow> int \<Rightarrow> int" where
  "ext_dayno y m d = dayno (y + (m - 1) div 12) ((m - 1) mod 12 + 1) d"

lemma ext_dayno_dayno: "1 \<le> m \<Longrightarrow> m \<le> 12 \<Longrightarrow> ext_dayno y m d = dayno y m d"
  by (simp add: ext_dayno_def)

definition inst_tod :: "instant \<Rightarrow> int" where
  "inst_tod i = ((i_H i * 60 + i_M i) * 60 + i_S i) * 1000 + i_ms i"

definition inst_ms :: "instant \<Rightarrow> int" where
  "inst_ms i = ext_dayno (i_y i) (i_m i) (i_d i) * MSECS_PER_DAY + inst_tod i"

definition valid_date :: "instant \<Rightarrow> bool" where
  "valid_date i \<longleftrightarrow> valid_ymd (i_y i) (i_m i) (i_d i) \<and> 0 \<le> i_y i \<and> i_y i < 65536"

definition valid_tod :: "instant \<Rightarrow> bool" where
  "valid_tod i \<longleftrightarrow> 0 \<le> i_H i \<and> i_H i < 24 \<and> 0 \<le> i_M i \<and> i_M i < 60 \<and>
     0 \<le> i_S i \<and> i_S i < 60 \<and> 0 \<le> i_ms i \<and> i_ms i < 1000"

definition inst_valid :: "instant \<Rightarrow> bool" where
  "inst_valid i \<longleftrightarrow> valid_date i \<and> valid_tod i"

lemma valid_month: "valid_date i \<Longrightarrow> 1 \<le> i_m i \<and> i_m i \<le> 12"
  by (simp add: valid_date_def valid_ymd_def)

lemma valid_day:
  assumes "valid_date i"
  shows "1 \<le> i_d i" "i_d i \<le> 31"
  using assms get_mdays_range(2) [of "i_m i" "i_y i"] by (auto simp: valid_date_def valid_ymd_def)

lemma inst_ms_valid:
  "valid_date i \<Longrightarrow> inst_ms i = dayno (i_y i) (i_m i) (i_d i) * MSECS_PER_DAY + inst_tod i"
  using valid_month [of i] by (simp add: inst_ms_def ext_dayno_dayno)

lemma tod_range: "valid_tod i \<Longrightarrow> 0 \<le> inst_tod i \<and> inst_tod i < MSECS_PER_DAY"
  by (simp add: valid_tod_def inst_tod_def MSECS_PER_DAY_def)

lemma inst_ms_split:
  assumes "valid_date i" "valid_tod i"
  shows "inst_ms i div MSECS_PER_DAY = dayno (i_y i) (i_m i) (i_d i)"
    and "inst_ms i mod MSECS_PER_DAY = inst_tod i"
  using tod_range [OF assms(2)] by (simp_all add: inst_ms_valid [OF assms(1)] MSECS_PER_DAY_def)

lemma radix_div: "0 \<le> r \<Longrightarrow> r < b \<Longrightarrow> (a * b + r) div b = a" for a b r :: int
  by simp

lemma radix_inj:
  fixes a b r a' r' :: int
  assumes "a * b + r = a' * b + r'" "0 \<le> r" "r < b" "0 \<le> r'" "r' < b"
  shows "a = a' \<and> r = r'"
proof -
  have "a = a'" using radix_div [of r b a] radix_div [of r' b a'] assms by simp
  with assms(1) show ?thesis by simp
qed

lemma tod_inj:
  assumes "valid_tod i" "valid_tod j" "inst_tod i = inst_tod j"
  shows "i_H i = i_H j" "i_M i = i_M j" "i_S i = i_S j" "i_ms i = i_ms j"
proof -
  let ?s = "\<lambda>k. (i_H k * 60 + i_M k) * 60 + i_S k"
  have v: "0 \<le> i_ms k" "i_ms k < 1000" "0 \<le> i_S k" "i_S k < 60" "0 \<le> i_M k" "i_M k < 60"
    if "valid_tod k" for k using that by (auto simp: valid_tod_def)
  have 1: "?s i = ?s j \<and> i_ms i = i_ms j"
    using assms(3) v [OF assms(1)] v [OF assms(2)] unfolding inst_tod_def by (intro radix_inj) auto
  then have "i_H i * 60 + i_M i = i_H j * 60 + i_M j \<and> i_S i = i_S j"
    using v [OF assms(1)] v [OF assms(2)] by (intro radix_inj) auto
  moreover from this have "i_H i = i_H j \<and> i_M i = i_M j"
    using v [OF assms(1)] v [OF assms(2)] by (intro radix_inj) auto
  ultimately show "i_H i = i_H j" "i_M i = i_M j" "i_S i = i_S j" "i_ms i = i_ms j"
    using 1 by simp_all
qed

lemma inst_ms_inj:
  assumes "inst_valid i" "inst_valid j" "inst_ms i = inst_ms j"
  shows "i = j"
proof -
  from assms have v: "valid_date i" "valid_tod i" "valid_date j" "valid_tod j"
    by (auto simp: inst_valid_def)
  have "dayno (i_y i) (i_m i) (i_d i) = dayno (i_y j) (i_m j) (i_d j)" "inst_tod i = inst_tod j"
    using inst_ms_split [OF v(1,2)] inst_ms_split [OF v(3,4)] assms(3) by simp_all
  with dayno_inj tod_inj [OF v(2,4)] v show ?thesis
    unfolding valid_date_def by (intro instant.equality) auto
qed

lemma carry_div: "0 < b \<Longrightarrow> carry x b = (x div b, x mod b)"
  using floor_idiom [of b x] by (auto simp: carry_def Let_def)

text \<open>A number between the first and the last day of the 16-bit years lies in such a year.\<close>

lemma year_16:
  assumes "valid_ymd y m d" "1 \<le> dayno y m d" "dayno y m d \<le> dayno 65535 12 31"
  shows "0 \<le> y \<and> y < 65536"
proof -
  note b = dayno_year_bounds [OF assms(1)]
  have "dayno 65535 12 31 = 365 * 65536 + 65539 div 4" by (simp add: dayno_def doy_def)
  moreover have "(y + 4) div 4 \<le> 0" "365 * (y + 1) \<le> 0" if "y < 0"
    using that by auto
  moreover have "65539 div 4 \<le> (y + 3) div 4" if "65536 \<le> y"
    using that by (intro zdiv_mono1) auto
  ultimately show ?thesis using b assms(2,3) by linarith
qed

lemma add_ymd_dayno:
  assumes "valid_date bas" "1 \<le> dayno (i_y bas) (i_m bas) (i_d bas) + dd"
    "dayno (i_y bas) (i_m bas) (i_d bas) + dd \<le> dayno 65535 12 31"
  shows "valid_date (add_ymd bas dd res) \<and>
    dayno (i_y (add_ymd bas dd res)) (i_m (add_ymd bas dd res)) (i_d (add_ymd bas dd res)) =
      dayno (i_y bas) (i_m bas) (i_d bas) + dd \<and>
    i_H (add_ymd bas dd res) = i_H res \<and> i_M (add_ymd bas dd res) = i_M res \<and>
    i_S (add_ymd bas dd res) = i_S res \<and> i_ms (add_ymd bas dd res) = i_ms res"
proof -
  let ?d = "i_d bas + dd"
  obtain y m d where ymd: "(if 1 \<le> ?d \<and> ?d \<le> 28 then (i_y bas, i_m bas, ?d)
      else if ?d < 1 then add_back (i_y bas) (i_m bas) ?d
      else add_forth (i_y bas) (i_m bas) ?d) = (y, m, d)" by (metis surj_pair)
  have mon: "1 \<le> i_m bas" "i_m bas \<le> 12" using valid_month [OF assms(1)] by auto
  consider "1 \<le> ?d" "?d \<le> 28" | "?d < 1" | "28 < ?d" by linarith
  then have "valid_ymd y m d \<and> dayno y m d = dayno (i_y bas) (i_m bas) ?d"
  proof cases
    case 1
    with ymd mon get_mdays_range(1) [OF mon, of "i_y bas"] show ?thesis
      by (auto simp: valid_ymd_def)
  next
    case 2
    with ymd have "add_back (i_y bas) (i_m bas) ?d = (y, m, d)" by simp
    from add_back_dayno [OF mon 2 this] show ?thesis by simp
  next
    case 3
    with ymd have "add_forth (i_y bas) (i_m bas) ?d = (y, m, d)" by simp
    from add_forth_dayno [OF mon _ this] 3 show ?thesis by simp
  qed
  then have v: "valid_ymd y m d" "dayno y m d = dayno (i_y bas) (i_m bas) (i_d bas) + dd"
    by (auto simp: dayno_day)
  with year_16 [of y m d] assms have y: "0 \<le> y \<and> y < 65536" by simp
  have "1 \<le> m" "m \<le> 12" "1 \<le> d" "d \<le> 31"
    using v(1) get_mdays_range(2) [of m y] by (auto simp: valid_ymd_def)
  then have "add_ymd bas dd res = res\<lparr>i_d := d, i_m := m, i_y := y\<rparr>"
    using y unfolding add_ymd_def Let_def ymd by simp
  with v y show ?thesis by (simp add: valid_date_def)
qed

text \<open>The carry chain below the day.\<close>

lemma add_S_eq:
  "add_S bas dd msd res =
    (let t = (i_H res * 60 + i_M res) * 60 + i_S res + msd;
         dd' = (if t div 86400 \<noteq> 0 then i32 (dd + t div 86400) else dd);
         r = res\<lparr>i_S := t mod 60, i_M := t div 60 mod 60, i_H := t div 3600 mod 24\<rparr>
     in if dd' \<noteq> 0 then add_ymd bas dd' r else r)"
proof -
  define t where "t = (i_H res * 60 + i_M res) * 60 + i_S res + msd"
  have t: "t = (i_H res * 60 + i_M res) * 60 + (i_S res + msd)" by (simp add: t_def)
  have S: "(i_S res + msd) mod 60 = t mod 60"
    unfolding t by (subst (2) add.commute) (simp only: mod_mult_self1)
  have d60: "(i_S res + msd) div 60 = t div 60 - (i_H res * 60 + i_M res)"
    unfolding t by (simp only: div_mult_self3)
  have "(t div 60 - i_H res * 60) mod 60 = (t div 60 - i_H res * 60 + i_H res * 60) mod 60"
    by (simp only: mod_mult_self1)
  then have M0: "(t div 60 - i_H res * 60) mod 60 = t div 60 mod 60" by simp
  have "(t div 60 - i_H res * 60 + i_H res * 60) div 60 = i_H res + (t div 60 - i_H res * 60) div 60"
    by (rule div_mult_self1) simp
  then have M1: "(t div 60 - i_H res * 60) div 60 = t div 60 div 60 - i_H res" by simp
  have M: "(i_M res + (i_S res + msd) div 60) mod 60 = t div 60 mod 60"
    "(i_M res + (i_S res + msd) div 60) div 60 = t div 3600 - i_H res"
    unfolding d60 using zdiv_zmult2_eq [of 60 t 60] M0 M1 by simp_all
  have D: "(i_H res + (t div 3600 - i_H res)) mod 24 = t div 3600 mod 24"
    "(i_H res + (t div 3600 - i_H res)) div 24 = t div 86400"
    using zdiv_zmult2_eq [of 24 t 3600] by simp_all
  have m: "t mod 60 mod 64 = t mod 60" "t div 60 mod 60 mod 256 = t div 60 mod 60"
    "t div 3600 mod 24 mod 256 = t div 3600 mod 24" by (simp_all add: mod_pos_pos_trivial)
  define q1 q2 where "q1 = (i_S res + msd) div 60" and "q2 = (i_M res + q1) div 60"
  have c: "carry (i_S res + msd) 60 = (q1, t mod 60)" "carry (i_M res + q1) 60 = (q2, t div 60 mod 60)"
    "carry (i_H res + q2) 24 = (t div 86400, t div 3600 mod 24)"
    using S M D by (simp_all only: carry_div zero_less_numeral q1_def q2_def)
  show ?thesis
    unfolding t_def [symmetric] by (simp add: add_S_def c m Let_def)
qed

lemma add_S_spec:
  fixes dd msd :: int
  assumes "valid_date bas" "0 \<le> i_ms res \<and> i_ms res < 1000 \<or> i_ms res = 1023"
    "i_y res = i_y bas" "i_m res = i_m bas" "i_d res = i_d bas"
  defines "t \<equiv> (i_H res * 60 + i_M res) * 60 + i_S res + msd"
  defines "k \<equiv> dd + t div 86400"
  assumes "1 \<le> dayno (i_y bas) (i_m bas) (i_d bas) + k"
    "dayno (i_y bas) (i_m bas) (i_d bas) + k \<le> dayno 65535 12 31" "\<bar>k\<bar> < 2147483648"
  defines "r \<equiv> add_S bas dd msd res"
  shows "valid_date r \<and> dayno (i_y r) (i_m r) (i_d r) = dayno (i_y bas) (i_m bas) (i_d bas) + k \<and>
    i_H r = t div 3600 mod 24 \<and> i_M r = t div 60 mod 60 \<and> i_S r = t mod 60 \<and> i_ms r = i_ms res"
proof -
  have k: "(if t div 86400 \<noteq> 0 then i32 (dd + t div 86400) else dd) = k"
    using assms(10) by (auto simp: k_def i32_id)
  let ?r = "res\<lparr>i_S := t mod 60, i_M := t div 60 mod 60, i_H := t div 3600 mod 24\<rparr>"
  have r: "r = (if k \<noteq> 0 then add_ymd bas k ?r else ?r)"
    unfolding r_def add_S_eq t_def [symmetric] Let_def k ..
  show ?thesis
  proof (cases "k = 0")
    case True
    with r assms(1,3-5) show ?thesis by (simp add: valid_date_def)
  next
    case False
    with r add_ymd_dayno [OF assms(1,8,9), of ?r] show ?thesis by simp
  qed
qed

lemma dayno_16_range:
  assumes "valid_date i"
  shows "1 \<le> dayno (i_y i) (i_m i) (i_d i) \<and> dayno (i_y i) (i_m i) (i_d i) \<le> dayno 65535 12 31"
proof -
  have v: "valid_ymd (i_y i) (i_m i) (i_d i)" "0 \<le> i_y i" "i_y i \<le> 65535"
    using assms by (auto simp: valid_date_def)
  have "365 * (i_y i + 1) + (i_y i + 4) div 4 \<le> 365 * (65535 + 1) + (65535 + 4) div 4"
    using v(3) by (intro add_mono zdiv_mono1) auto
  moreover have "0 \<le> 365 * i_y i + (i_y i + 3) div 4" using v(2) by simp
  ultimately show ?thesis
    using dayno_year_bounds [OF v(1)] by (simp add: dayno_def [of 65535] doy_def)
qed

lemma dayno_max: "dayno 65535 12 31 = 23937024"
  by (simp add: dayno_def doy_def)

text \<open>Milliseconds added one carry at a time arrive where one division would.\<close>

lemma add_ms_split:
  fixes T d b msd :: int
  assumes "b + msd = d" "b mod 86400000 = 0"
  shows "(T + msd) div 1000 div 86400 + b div 86400000 = (T + d) div 86400000"
    and "(T + msd) mod 86400000 = (T + d) mod 86400000"
proof -
  obtain q where q: "b = q * 86400000" using assms(2) by (metis div_mult_mod_eq add.right_neutral)
  have "(T + msd) div 1000 div 86400 = (T + msd) div 86400000"
    using zdiv_zmult2_eq [of 86400 "T + msd" 1000] by simp
  moreover have d: "T + d = (T + msd) + q * 86400000" using assms(1) q by simp
  ultimately show "(T + msd) div 1000 div 86400 + b div 86400000 = (T + d) div 86400000"
    by (simp add: q)
  show "(T + msd) mod 86400000 = (T + d) mod 86400000" by (simp add: d)
qed

lemma day_digits:
  fixes t :: int
  shows "60 * (60 * (t div 3600 mod 24) + t div 60 mod 60) + t mod 60 = t mod 86400"
proof -
  have "t mod 86400 = 60 * (t div 60 mod 1440) + t mod 60"
    by (rule mod_split) simp_all
  moreover have "t div 60 mod 1440 = 60 * (t div 60 div 60 mod 24) + t div 60 mod 60"
    by (rule mod_split) simp_all
  moreover have "t div 3600 = t div 60 div 60" by (rule div_split) simp_all
  ultimately show ?thesis by (simp only: distrib_left)
qed

lemma valid_todI:
  "i_H r = a mod 24 \<Longrightarrow> i_M r = b mod 60 \<Longrightarrow> i_S r = c mod 60 \<Longrightarrow> i_ms r = e mod 1000 \<Longrightarrow> valid_tod r"
  by (simp add: valid_tod_def)

lemma echs_instant_add_ms:
  assumes "inst_valid bas"
    "MSECS_PER_DAY \<le> inst_ms bas + d" "inst_ms bas + d < MSECS_PER_DAY * (dayno 65535 12 31 + 1)"
  shows "inst_valid (echs_instant_add bas d) \<and> inst_ms (echs_instant_add bas d) = inst_ms bas + d"
proof -
  let ?D = "dayno (i_y bas) (i_m bas) (i_d bas)"
  let ?T = "inst_tod bas"
  have v: "valid_date bas" "valid_tod bas" using assms(1) by (auto simp: inst_valid_def)
  have T: "0 \<le> ?T" "?T < 86400000" using tod_range [OF v(2)] by (auto simp: MSECS_PER_DAY_def)
  have ms: "inst_ms bas = ?D * 86400000 + ?T" by (simp add: inst_ms_valid [OF v(1)] MSECS_PER_DAY_def)
  have D: "1 \<le> ?D" "?D \<le> 23937024" using dayno_16_range [OF v(1)] by (auto simp: dayno_max)
  define b msd where "b = d sdiv 86400000 * 86400000" and "msd = d smod 86400000"
  have bm: "b + msd = d" unfolding b_def msd_def by (rule sdiv_mult_smod_eq)
  have bz: "b mod 86400000 = 0" by (simp add: b_def)
  have msd: "\<bar>msd\<bar> < 86400000" by (simp add: msd_def signed_modulo_int_def abs_mult sgn_if)
  have "\<bar>d\<bar> < 86400000 * 23937146" using assms(2,3) ms T D by (simp add: dayno_max MSECS_PER_DAY_def)
  then have dd: "\<bar>d sdiv 86400000\<bar> < 23937148" using bm msd unfolding b_def by linarith
  define t where "t = (i_H bas * 60 + i_M bas) * 60 + i_S bas + (i_ms bas + msd) div 1000"
  have t: "t = (?T + msd) div 1000"
    unfolding t_def inst_tod_def by (simp add: add.assoc)
  define k where "k = d sdiv 86400000 + t div 86400"
  have k: "k = (?T + d) div 86400000"
    using add_ms_split(1) [OF bm bz, of ?T] by (simp add: b_def k_def t)
  have Dk: "?D + k = (inst_ms bas + d) div 86400000" unfolding k ms by simp
  have "86400000 div 86400000 \<le> (inst_ms bas + d) div 86400000"
    using assms(2) by (intro zdiv_mono1) (auto simp: MSECS_PER_DAY_def)
  then have lo: "1 \<le> ?D + k" unfolding Dk by simp
  have hi: "?D + k \<le> 23937024"
    using assms(3) unfolding Dk by (simp add: dayno_max MSECS_PER_DAY_def)
  let ?bas = "bas\<lparr>i_ms := (i_ms bas + msd) mod 1000\<rparr>"
  have e: "echs_instant_add bas d = add_S bas (d sdiv 86400000) ((i_ms bas + msd) div 1000) ?bas"
  proof -
    have "\<not> echs_instant_all_day_p bas" "\<not> echs_instant_all_sec_p bas"
      using v(2) by (auto simp: valid_tod_def echs_instant_all_day_p_def echs_instant_all_sec_p_def
          ECHS_ALL_DAY_def ECHS_ALL_SEC_def)
    moreover have "i32 (d sdiv 86400000) = d sdiv 86400000" "i32 msd = msd"
      using dd msd by (simp_all add: i32_id)
    ultimately show ?thesis
      by (simp add: echs_instant_add_def MSECS_PER_DAY_def carry_div msd_def Let_def)
  qed
  have f: "0 \<le> i_ms ?bas \<and> i_ms ?bas < 1000 \<or> i_ms ?bas = 1023"
    "i_y ?bas = i_y bas" "i_m ?bas = i_m bas" "i_d ?bas = i_d bas" by simp_all
  have fm: "i_ms ?bas = (i_ms bas + msd) mod 1000" by simp
  have t': "(i_H ?bas * 60 + i_M ?bas) * 60 + i_S ?bas + (i_ms bas + msd) div 1000 = t"
    unfolding t_def by simp
  have "\<bar>k\<bar> < 2147483648" using lo hi D by linarith
  with add_S_spec [of bas ?bas "d sdiv 86400000" "(i_ms bas + msd) div 1000", OF v(1) f,
      unfolded t' dayno_max, folded k_def, OF lo hi]
  have r: "valid_date (echs_instant_add bas d)"
    "dayno (i_y (echs_instant_add bas d)) (i_m (echs_instant_add bas d)) (i_d (echs_instant_add bas d)) = ?D + k"
    "i_H (echs_instant_add bas d) = t div 3600 mod 24" "i_M (echs_instant_add bas d) = t div 60 mod 60"
    "i_S (echs_instant_add bas d) = t mod 60" "i_ms (echs_instant_add bas d) = (i_ms bas + msd) mod 1000"
    unfolding e by (simp_all only: fm)
  have "inst_valid (echs_instant_add bas d)"
    unfolding inst_valid_def by (rule conjI [OF r(1) valid_todI [OF r(3-6)]])
  moreover have "inst_tod (echs_instant_add bas d) = (?T + msd) mod 86400000"
  proof -
    have "?T + msd = i_ms bas + msd + ((i_H bas * 60 + i_M bas) * 60 + i_S bas) * 1000"
      by (simp only: inst_tod_def add_ac)
    then have "(i_ms bas + msd) mod 1000 = (?T + msd) mod 1000" by (simp only: mod_mult_self1)
    then have "inst_tod (echs_instant_add bas d) = 1000 * (t mod 86400) + (?T + msd) mod 1000"
      unfolding inst_tod_def r(3-6) day_digits [symmetric] by (simp only: mult.commute)
    moreover have "(?T + msd) mod 86400000 = 1000 * ((?T + msd) div 1000 mod 86400) + (?T + msd) mod 1000"
      by (rule mod_split) simp_all
    ultimately show ?thesis unfolding t by (simp only:)
  qed
  moreover have "(inst_ms bas + d) mod 86400000 = (?T + msd) mod 86400000"
    using add_ms_split(2) [OF bm bz, of ?T] by (simp add: ms add.assoc)
  ultimately show ?thesis
    using r(1,2) Dk div_mult_mod_eq [of "inst_ms bas + d" 86400000]
    by (simp add: inst_ms_valid MSECS_PER_DAY_def)
qed

text \<open>Differences.\<close>

lemma jan00_dayno:
  assumes "1901 \<le> i_y i" "i_y i \<le> 2100" "1 \<le> i_m i" "i_m i \<le> 12"
  shows "jan00 (i_y i) + doy_of i = dayno (i_y i) (i_m i) (i_d i) - 584769"
proof -
  define y where "y = i_y i - 1601"
  have y: "300 \<le> y" "y \<le> 499" using assms by (auto simp: y_def)
  have c: "y div 400 - y div 100 = - 3"
  proof (cases "y < 400")
    case True
    with y have "y div 400 = 0" "y div 100 = 3"
      by (auto intro!: int_div_pos_eq [where r = "y - 300"])
    then show ?thesis by simp
  next
    case False
    with y have "y div 400 = 1" "y div 100 = 4"
      by (auto intro!: int_div_pos_eq [where r = "y - 400"])
    then show ?thesis by simp
  qed
  have q: "(i_y i + 3) div 4 = y div 4 + 401" unfolding y_def by presburger
  have "u32 y = y" using y by (simp add: u32_id)
  moreover have "0 \<le> y * 365 + y div 4 - y div 100 + y div 400"
    "y * 365 + y div 4 - y div 100 + y div 400 < 4294967296"
    using c y by linarith+
  ultimately have "jan00 (i_y i) = y * 365 + y div 4 - 3"
    using c unfolding jan00_def y_def [symmetric] by (simp add: u32_id)
  with q show ?thesis by (simp add: dayno_def doy_of_def y_def)
qed

lemma jan00_range: "0 \<le> jan00 y" "jan00 y < 4294967296"
  by (simp_all add: jan00_def Let_def)

lemma echs_instant_diff_ms:
  assumes "inst_valid e" "inst_valid b" "1901 \<le> i_y e" "i_y e \<le> 2100" "1901 \<le> i_y b" "i_y b \<le> 2100"
  shows "echs_instant_diff e b = (inst_ms e - inst_ms b) mod 4294967296"
proof -
  have v: "valid_tod e" "valid_tod b" "valid_date e" "valid_date b"
    using assms by (auto simp: inst_valid_def)
  note r = v(1,2) [unfolded valid_tod_def]
  have mon: "1 \<le> i_m e" "i_m e \<le> 12" "1 \<le> i_m b" "i_m b \<le> 12"
    using v valid_month by auto
  define I where "I = inst_tod e - inst_tod b"
  have I: "- 86400000 < I" "I < 86400000"
    using tod_range [OF v(1)] tod_range [OF v(2)] unfolding I_def MSECS_PER_DAY_def by auto
  have 1: "i32 (i_H e - i_H b) = i_H e - i_H b"
    "i32 ((i_H e - i_H b) * 60) = (i_H e - i_H b) * 60"
    "i32 ((i_H e - i_H b) * 60 + (i_M e - i_M b)) = (i_H e - i_H b) * 60 + (i_M e - i_M b)"
    "i32 (((i_H e - i_H b) * 60 + (i_M e - i_M b)) * 60) = ((i_H e - i_H b) * 60 + (i_M e - i_M b)) * 60"
    using r by (simp_all add: i32_id)
  let ?s = "((i_H e - i_H b) * 60 + (i_M e - i_M b)) * 60 + (i_S e - i_S b)"
  have 2: "i32 ?s = ?s" "i32 (?s * 1000) = ?s * 1000" using r by (simp_all add: i32_id)
  have s: "?s * 1000 + (i_ms e - i_ms b) = I" by (simp add: I_def inst_tod_def algebra_simps)
  have 3: "i32 I = I" "i32 (I + 86400000) = I + 86400000" using I by (simp_all add: i32_id)
  define D where "D = dayno (i_y e) (i_m e) (i_d e) - dayno (i_y b) (i_m b) (i_d b)"
  have D: "(jan00 (i_y e) - jan00 (i_y b)) + (doy_of e - doy_of b) = D"
    using jan00_dayno [of e] jan00_dayno [of b] assms mon unfolding D_def by linarith
  have i: "u32 (i32 (i32 x + y) * 86400000 + z) = u32 ((x + y) * 86400000 + z)" for x y z
    using u32_i32_mult [of "i32 x + y" 86400000 z] u32_i32_mult [of x 86400000 "y * 86400000 + z"]
    by (simp add: algebra_simps)
  have "echs_instant_diff e b = u32 (D * 86400000 + I)"
  proof -
    have "u32 ((- 1 + (jan00 (i_y e) - jan00 (i_y b)) + (doy_of e - doy_of b)) * 86400000 + (I + 86400000)) =
        u32 (D * 86400000 + I)" unfolding D [symmetric] by (simp add: algebra_simps)
    moreover have "u32 ((0 + (jan00 (i_y e) - jan00 (i_y b)) + (doy_of e - doy_of b)) * 86400000 + I) =
        u32 (D * 86400000 + I)" unfolding D [symmetric] by simp
    ultimately show ?thesis
      unfolding echs_instant_diff_def Let_def MSECS_PER_DAY_def 1 2 s 3 using I 3
      by (simp add: i)
  qed
  moreover have "D * 86400000 + I = inst_ms e - inst_ms b"
    by (simp add: inst_ms_valid v D_def I_def MSECS_PER_DAY_def algebra_simps)
  ultimately show ?thesis by (simp add: u32_def)
qed

text \<open>Order.\<close>

lemma radix_less:
  fixes a b r a' r' :: int
  assumes "0 \<le> r" "r < b" "0 \<le> r'" "r' < b"
  shows "a * b + r < a' * b + r' \<longleftrightarrow> a < a' \<or> a = a' \<and> r < r'"
proof -
  have lt: "c * b + s < c' * b + s'" if "c < c'" "s < b" "0 \<le> s'" for c c' s s'
  proof -
    have "(c + 1) * b \<le> c' * b" using that assms by (intro mult_right_mono) auto
    with that show ?thesis by (simp add: algebra_simps)
  qed
  show ?thesis
    using lt [of a a' r r'] lt [of a' a r' r] assms by (cases a a' rule: linorder_cases) auto
qed

lemma radix_eq:
  fixes a b r a' r' :: int
  assumes "0 \<le> r" "r < b" "0 \<le> r'" "r' < b"
  shows "a * b + r = a' * b + r' \<longleftrightarrow> a = a' \<and> r = r'"
  using radix_inj [OF _ assms] by auto

lemma inst_u_less:
  fixes a b c d e f g a' b' c' d' e' f' g' :: int
  assumes "{b, c, d, e, b', c', d', e'} \<subseteq> {0..<256}" "{f, f'} \<subseteq> {0..<64}" "{g, g'} \<subseteq> {0..<1024}"
  shows "(((((a * 256 + b) * 256 + c) * 256 + d) * 256 + e) * 64 + f) * 1024 + g <
      (((((a' * 256 + b') * 256 + c') * 256 + d') * 256 + e') * 64 + f') * 1024 + g' \<longleftrightarrow>
    a < a' \<or> a = a' \<and> (b < b' \<or> b = b' \<and> (c < c' \<or> c = c' \<and> (d < d' \<or> d = d' \<and>
      (e < e' \<or> e = e' \<and> (f < f' \<or> f = f' \<and> g < g')))))"
proof -
  have l: "x * 256 + p < x' * 256 + p' \<longleftrightarrow> x < x' \<or> x = x' \<and> p < p'"
    "x * 256 + p = x' * 256 + p' \<longleftrightarrow> x = x' \<and> p = p'"
    if "p \<in> {0..<256}" "p' \<in> {0..<256}" for x x' p p' :: int
    using that radix_less [of p 256 p'] radix_eq [of p 256 p'] by auto
  have m: "x * 64 + f < x' * 64 + f' \<longleftrightarrow> x < x' \<or> x = x' \<and> f < f'"
    "x * 64 + f = x' * 64 + f' \<longleftrightarrow> x = x' \<and> f = f'" for x x' :: int
    using assms radix_less [of f 64 f'] radix_eq [of f 64 f'] by auto
  have n: "x * 1024 + g < x' * 1024 + g' \<longleftrightarrow> x < x' \<or> x = x' \<and> g < g'" for x x' :: int
    using assms radix_less [of g 1024 g'] by auto
  show ?thesis unfolding n m using assms(1) by (simp only: l insert_subset) blast
qed

lemma tod_less:
  fixes d e f g d' e' f' g' :: int
  assumes "{e, f, e', f'} \<subseteq> {0..<60}" "{g, g'} \<subseteq> {0..<1000}"
  shows "((d * 60 + e) * 60 + f) * 1000 + g < ((d' * 60 + e') * 60 + f') * 1000 + g' \<longleftrightarrow>
    (d < d' \<or> d = d' \<and> (e < e' \<or> e = e' \<and> (f < f' \<or> f = f' \<and> g < g')))"
proof -
  have l: "x * 60 + p < x' * 60 + p' \<longleftrightarrow> x < x' \<or> x = x' \<and> p < p'"
    "x * 60 + p = x' * 60 + p' \<longleftrightarrow> x = x' \<and> p = p'"
    if "p \<in> {0..<60}" "p' \<in> {0..<60}" for x x' p p' :: int
    using that radix_less [of p 60 p'] radix_eq [of p 60 p'] by auto
  have n: "x * 1000 + g < x' * 1000 + g' \<longleftrightarrow> x < x' \<or> x = x' \<and> g < g'" for x x' :: int
    using assms radix_less [of g 1000 g'] by auto
  show ?thesis unfolding n using assms(1) by (simp only: l insert_subset) blast
qed

lemma inst_lt_ms:
  assumes "inst_valid x" "inst_valid y"
  shows "inst_u (inst_up x) < inst_u (inst_up y) \<longleftrightarrow> inst_ms x < inst_ms y"
proof -
  have v: "valid_tod x" "valid_tod y" "valid_date x" "valid_date y" using assms by (auto simp: inst_valid_def)
  note r = v(1,2) [unfolded valid_tod_def]
  note b = v(3,4) [unfolded valid_date_def valid_ymd_def]
  have d: "i_d x < 256" "i_d y < 256" "0 \<le> i_d x" "0 \<le> i_d y" using valid_day v by fastforce+
  let ?lex = "i_y x < i_y y \<or> i_y x = i_y y \<and> (i_m x < i_m y \<or> i_m x = i_m y \<and> (i_d x < i_d y \<or>
    i_d x = i_d y \<and> (i_H x < i_H y \<or> i_H x = i_H y \<and> (i_M x < i_M y \<or> i_M x = i_M y \<and>
      (i_S x < i_S y \<or> i_S x = i_S y \<and> i_ms x < i_ms y)))))"
  have "inst_u (inst_up x) < inst_u (inst_up y) \<longleftrightarrow> ?lex"
    using r b d inst_u_less [of "i_m x" "i_d x" "i_H x + 1" "i_M x" "i_m y" "i_d y" "i_H y + 1" "i_M y"
        "i_S x" "i_S y" "i_ms x + 1" "i_ms y + 1" "i_y x" "i_y y"]
    unfolding inst_u_def inst_up_def by (simp del: distrib_right_numeral add: add1_zle_eq)
  moreover have "inst_ms x < inst_ms y \<longleftrightarrow> ?lex"
  proof -
    have "inst_ms x < inst_ms y \<longleftrightarrow> dayno (i_y x) (i_m x) (i_d x) < dayno (i_y y) (i_m y) (i_d y) \<or>
        dayno (i_y x) (i_m x) (i_d x) = dayno (i_y y) (i_m y) (i_d y) \<and> inst_tod x < inst_tod y"
      using tod_range [OF v(1)] tod_range [OF v(2)]
      unfolding inst_ms_valid [OF v(3)] inst_ms_valid [OF v(4)] by (simp add: radix_less)
    moreover have "inst_tod x < inst_tod y \<longleftrightarrow> (i_H x < i_H y \<or> i_H x = i_H y \<and> (i_M x < i_M y \<or>
        i_M x = i_M y \<and> (i_S x < i_S y \<or> i_S x = i_S y \<and> i_ms x < i_ms y)))"
      unfolding inst_tod_def using r by (intro tod_less) auto
    ultimately show ?thesis
      using dayno_less_iff dayno_inj v(3,4) unfolding valid_date_def by metis
  qed
  ultimately show ?thesis by blast
qed

text \<open>Normalisation.\<close>

lemma ext_dayno_next:
  assumes "1 \<le> m"
  shows "ext_dayno y (m + 1) d = ext_dayno y m (d + get_mdays (y + (m - 1) div 12) ((m - 1) mod 12 + 1))"
proof -
  define q r where "q = (m - 1) div 12" and "r = (m - 1) mod 12"
  have m: "m = 12 * q + r + 1" and r: "0 \<le> r" "r < 12"
    using mult_div_mod_eq [of 12 "m - 1"] by (auto simp: q_def r_def)
  show ?thesis
  proof (cases "r = 11")
    case True
    then have "m div 12 = q + 1" "m mod 12 = 0" using m by simp_all
    then show ?thesis
      using True dayno_next_year [of "y + q" d]
      by (simp add: ext_dayno_def q_def [symmetric] r_def [symmetric] add.assoc)
  next
    case False
    then have "m div 12 = q" "m mod 12 = r + 1"
      using m r by (auto intro: int_div_pos_eq int_mod_pos_eq)
    then show ?thesis
      using False r dayno_next_month [of "r + 1" "y + q" d]
      by (simp add: ext_dayno_def q_def [symmetric] r_def [symmetric])
  qed
qed

lemma month_roll_eq:
  assumes "1 \<le> m" "0 \<le> y" "y + (m - 1) div 12 < 65536"
  shows "month_roll y m = (y + (m - 1) div 12, (m - 1) mod 12 + 1)"
proof (cases "12 < m")
  case True
  then have "0 \<le> (m - 1) div 12" by (intro pos_imp_zdiv_nonneg_iff [THEN iffD2]) auto
  with assms True show ?thesis by (simp add: month_roll_def)
next
  case False
  with assms have "(m - 1) div 12 = 0" "(m - 1) mod 12 = m - 1"
    by (auto intro: div_pos_pos_trivial mod_pos_pos_trivial)
  with False show ?thesis by (simp add: month_roll_def)
qed

lemma fixup_ym_dayno:
  "1 \<le> m \<Longrightarrow> 1 \<le> d \<Longrightarrow> 0 \<le> y \<Longrightarrow> y + (m - 1) div 12 + d < 65536 \<Longrightarrow> fixup_ym y m d = (y', m', d') \<Longrightarrow>
   valid_ymd y' m' d' \<and> dayno y' m' d' = ext_dayno y m d \<and> 0 \<le> y' \<and> y' < 65536"
proof (induction y m d rule: fixup_ym.induct)
  case (1 y m d)
  define q r where "q = y + (m - 1) div 12" and "r = (m - 1) mod 12 + 1"
  have mr: "month_roll y m = (q, r)"
    using month_roll_eq [OF 1(2,4)] 1(3,5) unfolding q_def r_def by linarith
  have r: "1 \<le> r" "r \<le> 12" using month_roll_range [OF 1(2), of y] mr by auto
  have "0 \<le> (m - 1) div 12" using 1(2) by (intro pos_imp_zdiv_nonneg_iff [THEN iffD2]) auto
  then have q: "0 \<le> q" "q + d < 65536" using 1(4,5) by (auto simp: q_def)
  have e: "ext_dayno y m d = dayno q r d" by (simp add: ext_dayno_def q_def r_def)
  have md: "28 \<le> get_mdays q r" using get_mdays_range [OF r] by simp
  show ?case
  proof (cases "get_mdays q r < d")
    case False
    then have "fixup_ym y m d = (q, r, d)" by (subst fixup_ym.simps) (simp add: mr)
    with 1(3,6) False r q e show ?thesis by (auto simp: valid_ymd_def)
  next
    case True
    then have f: "fixup_ym y m d = fixup_ym q (r + 1) (d - get_mdays q r)"
      by (subst fixup_ym.simps) (simp add: mr)
    have "ext_dayno q (r + 1) (d - get_mdays q r) = dayno q r d"
      using ext_dayno_next [of r q "d - get_mdays q r"] r by (simp add: ext_dayno_dayno)
    moreover have "r div 12 \<le> 1" using r by linarith
    then have "q + (r + 1 - 1) div 12 + (d - get_mdays q r) < 65536" using q(2) md by simp
    moreover note 1(1) [OF mr [symmetric] refl refl True _ _ q(1), of] 
    ultimately show ?thesis using 1(6) f r True e by simp
  qed
qed

lemma carry_field:
  fixes x b w :: int
  assumes "0 < b" "0 \<le> x" "0 \<le> c" "c + x div b < w"
  shows "(if b \<le> x then x mod b else x) = x mod b"
    and "(if b \<le> x then (c + x div b) mod w else c) = c + x div b"
proof -
  show "(if b \<le> x then x mod b else x) = x mod b" using assms by simp
  show "(if b \<le> x then (c + x div b) mod w else c) = c + x div b"
  proof (cases "b \<le> x")
    case True
    have "0 \<le> x div b" using assms by (simp add: pos_imp_zdiv_nonneg_iff)
    with True assms show ?thesis by simp
  next
    case False
    with assms show ?thesis by simp
  qed
qed

definition inst_sec :: "instant \<Rightarrow> int" where
  "inst_sec e = ((i_d e * 24 + i_H e) * 60 + i_M e) * 60 + i_S e"

lemma sec_sum:
  fixes s s0 s1 M m m0 m1 H h h0 h1 d :: int
  assumes "s = 60 * s0 + s1" "M = m + s0" "M = 60 * m0 + m1" "H = h + m0" "H = 24 * h0 + h1"
  shows "(((d + h0) * 24 + h1) * 60 + m1) * 60 + s1 = ((d * 24 + h) * 60 + m) * 60 + s"
  using assms by simp

lemma fixup_S_spec:
  assumes "0 \<le> i_S e" "i_S e < 64" "0 \<le> i_M e" "i_M e < 255" "0 \<le> i_H e" "i_H e < 250"
    "0 \<le> i_d e" "i_d e < 245"
  shows "inst_sec (fixup_S e) = inst_sec e \<and> i_y (fixup_S e) = i_y e \<and> i_m (fixup_S e) = i_m e \<and>
    i_ms (fixup_S e) = i_ms e \<and> i_d e \<le> i_d (fixup_S e) \<and> i_d (fixup_S e) < 256 \<and>
    0 \<le> i_S (fixup_S e) \<and> i_S (fixup_S e) < 60 \<and> 0 \<le> i_M (fixup_S e) \<and> i_M (fixup_S e) < 60 \<and>
    0 \<le> i_H (fixup_S e) \<and> i_H (fixup_S e) < 24"
proof -
  define M H D where "M = i_M e + i_S e div 60" and "H = i_H e + M div 60" and "D = i_d e + H div 24"
  have b: "0 \<le> i_S e div 60" "i_S e div 60 \<le> 1" "0 \<le> M div 60" "M div 60 \<le> 4"
    "0 \<le> H div 24" "H div 24 \<le> 10" "0 \<le> M" "0 \<le> H"
    using assms unfolding H_def M_def by linarith+
  have f: "fixup_S e = e\<lparr>i_S := i_S e mod 60, i_M := M mod 60, i_H := H mod 24, i_d := D\<rparr>"
  proof -
    have 1: "(if 60 \<le> i_S e then e\<lparr>i_S := i_S e mod 60, i_M := (i_M e + i_S e div 60) mod 256\<rparr> else e) =
        e\<lparr>i_S := i_S e mod 60, i_M := M\<rparr>" (is "?e = ?e1")
      using assms b unfolding M_def by (cases "60 \<le> i_S e") simp_all
    have 2: "(if 60 \<le> i_M ?e1 then ?e1\<lparr>i_M := i_M ?e1 mod 60, i_H := (i_H ?e1 + i_M ?e1 div 60) mod 256\<rparr>
        else ?e1) = e\<lparr>i_S := i_S e mod 60, i_M := M mod 60, i_H := H\<rparr>" (is "_ = ?e2")
      using assms b unfolding H_def by (cases "60 \<le> M") simp_all
    have 3: "(if 24 \<le> i_H ?e2 then ?e2\<lparr>i_H := i_H ?e2 mod 24, i_d := (i_d ?e2 + i_H ?e2 div 24) mod 256\<rparr>
        else ?e2) = e\<lparr>i_S := i_S e mod 60, i_M := M mod 60, i_H := H mod 24, i_d := D\<rparr>"
      using assms b unfolding D_def by (cases "24 \<le> H") simp_all
    show ?thesis unfolding fixup_S_def Let_def 1 2 3 ..
  qed
  have "i_S e = 60 * (i_S e div 60) + i_S e mod 60" "M = 60 * (M div 60) + M mod 60"
    "H = 24 * (H div 24) + H mod 24" by simp_all
  then have "((D * 24 + H mod 24) * 60 + M mod 60) * 60 + i_S e mod 60 =
      ((i_d e * 24 + i_H e) * 60 + i_M e) * 60 + i_S e"
    unfolding D_def by (intro sec_sum [OF _ M_def _ H_def])
  with b assms show ?thesis unfolding f inst_sec_def D_def by simp
qed

lemma inst_ms_sec: "inst_ms e = (ext_dayno (i_y e) (i_m e) 0 * 86400 + inst_sec e) * 1000 + i_ms e"
  by (simp add: inst_ms_def inst_sec_def inst_tod_def ext_dayno_def dayno_def MSECS_PER_DAY_def algebra_simps)

lemma ext_dayno_0: "ext_dayno y m d = ext_dayno y m 0 + d"
  by (simp add: ext_dayno_def dayno_def)

text \<open>
  C28: normalising an instant keeps its position on the time line to the millisecond and yields
  a valid date and time of day, whatever excess the fields hold, as long as no carry leaves a
  bit field.
\<close>

theorem echs_instant_fixup_valid:
  assumes "0 \<le> i_y e" "i_y e < 65000" "1 \<le> i_m e" "i_m e < 256" "1 \<le> i_d e" "i_d e < 245"
    "0 \<le> i_H e" "i_H e < 250" "0 \<le> i_M e" "i_M e < 255" "0 \<le> i_S e" "i_S e < 63"
    "0 \<le> i_ms e" "i_ms e < 1023"
  shows "inst_valid (echs_instant_fixup e) \<and> inst_ms (echs_instant_fixup e) = inst_ms e"
proof -
  define e1 where "e1 = (if 1000 \<le> i_ms e
      then e\<lparr>i_ms := i_ms e mod 1000, i_S := (i_S e + i_ms e div 1000) mod 64\<rparr> else e)"
  have ms: "0 \<le> i_ms e div 1000" "i_ms e div 1000 \<le> 1" using assms by linarith+
  have e1: "e1 = e\<lparr>i_ms := i_ms e mod 1000, i_S := i_S e + i_ms e div 1000\<rparr>"
    using assms ms unfolding e1_def by (cases "1000 \<le> i_ms e") simp_all
  have "0 \<le> i_S e1" "i_S e1 < 64" using assms ms by (simp_all add: e1)
  then have s: "inst_sec (fixup_S e1) = inst_sec e1 \<and> i_y (fixup_S e1) = i_y e1 \<and>
    i_m (fixup_S e1) = i_m e1 \<and> i_ms (fixup_S e1) = i_ms e1 \<and> i_d e1 \<le> i_d (fixup_S e1) \<and>
    i_d (fixup_S e1) < 256 \<and>
    0 \<le> i_S (fixup_S e1) \<and> i_S (fixup_S e1) < 60 \<and> 0 \<le> i_M (fixup_S e1) \<and> i_M (fixup_S e1) < 60 \<and>
    0 \<le> i_H (fixup_S e1) \<and> i_H (fixup_S e1) < 24"
    using assms by (intro fixup_S_spec) (simp_all add: e1)
  define f where "f = fixup_S e1"
  note s = s [folded f_def]
  obtain y m d where ymd: "fixup_ym (i_y f) (i_m f) (i_d f) = (y, m, d)" by (metis surj_pair)
  have r: "echs_instant_fixup e = f\<lparr>i_y := y, i_m := m, i_d := d\<rparr>"
  proof -
    have "\<not> echs_instant_all_day_p e" "\<not> echs_instant_all_sec_p e"
      using assms by (auto simp: echs_instant_all_day_p_def echs_instant_all_sec_p_def
          ECHS_ALL_DAY_def ECHS_ALL_SEC_def)
    then show ?thesis by (simp add: echs_instant_fixup_def e1_def [symmetric] f_def [symmetric] ymd)
  qed
  have "(i_m f - 1) div 12 \<le> 21" using s assms by (simp add: e1)
  then have "1 \<le> i_m f" "1 \<le> i_d f" "0 \<le> i_y f" "i_y f + (i_m f - 1) div 12 + i_d f < 65536"
    using s assms by (auto simp: e1)
  from fixup_ym_dayno [OF this ymd] have
    v: "valid_ymd y m d" "dayno y m d = ext_dayno (i_y f) (i_m f) (i_d f)" "0 \<le> y" "y < 65536" by auto
  have "0 \<le> i_ms f" "i_ms f < 1000" using s by (simp_all add: e1)
  then have valid: "inst_valid (echs_instant_fixup e)"
    using v s unfolding r inst_valid_def valid_date_def valid_tod_def by simp
  have "inst_ms (f\<lparr>i_y := y, i_m := m, i_d := d\<rparr>) = inst_ms f"
    using v(1,2) by (simp add: inst_ms_def inst_tod_def valid_ymd_def ext_dayno_dayno)
  also have "\<dots> = inst_ms e"
  proof -
    have "i_ms e = 1000 * (i_ms e div 1000) + i_ms e mod 1000" by simp
    then show ?thesis using s unfolding inst_ms_sec by (simp add: e1 inst_sec_def)
  qed
  finally show ?thesis using valid unfolding r by simp
qed

lemma echs_instant_fixup_valid_witness:
  "inst_valid (echs_instant_fixup \<lparr>i_y = 2015, i_m = 14, i_d = 31, i_H = 25, i_M = 61, i_S = 60, i_ms = 1001\<rparr>)"
  using echs_instant_fixup_valid
    [of "\<lparr>i_y = 2015, i_m = 14, i_d = 31, i_H = 25, i_M = 61, i_S = 60, i_ms = 1001\<rparr>"] by simp

text \<open>
  C27: adding a duration moves a valid instant by exactly that many milliseconds, forwards or
  backwards over any number of months and years, and the result is valid again, as long as it
  lies in the years 0 to 65535.
\<close>

theorem echs_instant_add_exact:
  assumes "inst_valid bas"
    "MSECS_PER_DAY \<le> inst_ms bas + d" "inst_ms bas + d < MSECS_PER_DAY * (dayno 65535 12 31 + 1)"
  shows "inst_valid (echs_instant_add bas d) \<and> inst_ms (echs_instant_add bas d) = inst_ms bas + d"
  by (rule echs_instant_add_ms [OF assms])

definition inst_sample :: "int \<Rightarrow> int \<Rightarrow> int \<Rightarrow> int \<Rightarrow> instant" where
  "inst_sample y m d h = \<lparr>i_y = y, i_m = m, i_d = d, i_H = h, i_M = 30, i_S = 15, i_ms = 500\<rparr>"

lemmas inst_eval = inst_sample_def inst_valid_def valid_date_def valid_tod_def valid_ymd_def
  get_mdays_def mdays_def inst_ms_def inst_tod_def ext_dayno_def dayno_def doy_def MSECS_PER_DAY_def

lemma echs_instant_add_exact_witness:
  "inst_valid (echs_instant_add (inst_sample 2016 3 1 0) (- 86400000))"
proof -
  let ?b = "inst_sample 2016 3 1 0"
  have "inst_valid ?b" "MSECS_PER_DAY \<le> inst_ms ?b + - 86400000"
    "inst_ms ?b + - 86400000 < MSECS_PER_DAY * (dayno 65535 12 31 + 1)"
    by (simp_all add: inst_eval)
  from echs_instant_add_exact [OF this] show ?thesis by (rule conjunct1)
qed

text \<open>
  C29: the difference of two valid instants of the years 1901 to 2100 is their distance in
  milliseconds reduced to 32 bits; when the distance fits, adding it to the earlier instant
  gives the later one back.
\<close>

theorem echs_instant_diff_add:
  assumes "inst_valid e" "inst_valid b" "1901 \<le> i_y e" "i_y e \<le> 2100" "1901 \<le> i_y b" "i_y b \<le> 2100"
  shows "echs_instant_diff e b = (inst_ms e - inst_ms b) mod 4294967296 \<and>
    (inst_ms b \<le> inst_ms e \<and> inst_ms e - inst_ms b < 4294967296 \<longrightarrow>
       echs_instant_add b (echs_instant_diff e b) = e)"
proof (intro conjI impI)
  show d: "echs_instant_diff e b = (inst_ms e - inst_ms b) mod 4294967296"
    by (rule echs_instant_diff_ms [OF assms])
  assume "inst_ms b \<le> inst_ms e \<and> inst_ms e - inst_ms b < 4294967296"
  then have d: "echs_instant_diff e b = inst_ms e - inst_ms b" unfolding d by simp
  have v: "valid_date e" "valid_tod e" using assms(1) by (auto simp: inst_valid_def)
  have "MSECS_PER_DAY \<le> inst_ms e" "inst_ms e < MSECS_PER_DAY * (dayno 65535 12 31 + 1)"
    using dayno_16_range [OF v(1)] tod_range [OF v(2)]
    unfolding inst_ms_valid [OF v(1)] MSECS_PER_DAY_def dayno_max by auto
  with echs_instant_add_ms [OF assms(2), of "echs_instant_diff e b"] inst_ms_inj [OF _ assms(1)]
  show "echs_instant_add b (echs_instant_diff e b) = e" unfolding d by simp
qed

lemma echs_instant_diff_add_witness:
  "echs_instant_add (inst_sample 2015 12 31 23) (echs_instant_diff (inst_sample 2016 1 31 1) (inst_sample 2015 12 31 23))
   = inst_sample 2016 1 31 1"
proof -
  let ?e = "inst_sample 2016 1 31 1" and ?b = "inst_sample 2015 12 31 23"
  have v: "inst_valid ?e" "inst_valid ?b" "1901 \<le> i_y ?e" "i_y ?e \<le> 2100" "1901 \<le> i_y ?b" "i_y ?b \<le> 2100"
    and d: "inst_ms ?b \<le> inst_ms ?e \<and> inst_ms ?e - inst_ms ?b < 4294967296"
    by (simp_all add: inst_eval)
  show ?thesis by (rule echs_instant_diff_add [OF v, THEN conjunct2, rule_format, OF d])
qed

text \<open>
  the packed comparison is chronological on valid instants, and an all-day instant comes
  before every time of its day and after every time of the days before.
\<close>

theorem echs_instant_order:
  assumes "inst_valid x" "inst_valid y" "valid_date a" "i_H a = ECHS_ALL_DAY" "0 \<le> i_M a" "i_M a < 60"
    "0 \<le> i_S a" "i_S a < 60" "0 \<le> i_ms a" "i_ms a < 1000"
  shows "(echs_instant_lt_p x y \<longleftrightarrow> inst_ms x < inst_ms y) \<and>
    (echs_instant_le_p x y \<longleftrightarrow> inst_ms x \<le> inst_ms y) \<and>
    (echs_instant_lt_p a x \<longleftrightarrow> dayno (i_y a) (i_m a) (i_d a) \<le> dayno (i_y x) (i_m x) (i_d x)) \<and>
    (echs_instant_lt_p x a \<longleftrightarrow> dayno (i_y x) (i_m x) (i_d x) < dayno (i_y a) (i_m a) (i_d a))"
proof -
  have v: "valid_tod x" "valid_date x" "0 \<le> i_d x" "i_d x < 256" "0 \<le> i_d a" "i_d a < 256"
    "0 \<le> i_m x" "i_m x < 256" "0 \<le> i_m a" "i_m a < 256"
    using assms(1,3) valid_day valid_month unfolding inst_valid_def by fastforce+
  note r = v(1) [unfolded valid_tod_def]
  have "inst_u (inst_up a) < inst_u (inst_up x) \<longleftrightarrow> (i_y a < i_y x \<or> i_y a = i_y x \<and>
      (i_m a < i_m x \<or> i_m a = i_m x \<and> i_d a \<le> i_d x))"
    using r v(3-) assms(4-) inst_u_less [of "i_m a" "i_d a" 0 "i_M a" "i_m x" "i_d x" "i_H x + 1" "i_M x"
        "i_S a" "i_S x" "i_ms a + 1" "i_ms x + 1" "i_y a" "i_y x"]
    unfolding inst_u_def inst_up_def
    by (simp del: distrib_right_numeral add: ECHS_ALL_DAY_def) linarith
  moreover have "inst_u (inst_up x) < inst_u (inst_up a) \<longleftrightarrow> (i_y x < i_y a \<or> i_y x = i_y a \<and>
      (i_m x < i_m a \<or> i_m x = i_m a \<and> i_d x < i_d a))"
    using r v(3-) assms(4-) inst_u_less [of "i_m x" "i_d x" "i_H x + 1" "i_M x" "i_m a" "i_d a" 0 "i_M a"
        "i_S x" "i_S a" "i_ms x + 1" "i_ms a + 1" "i_y x" "i_y a"]
    unfolding inst_u_def inst_up_def
    by (simp del: distrib_right_numeral add: ECHS_ALL_DAY_def)
  moreover have "dayno (i_y x) (i_m x) (i_d x) < dayno (i_y a) (i_m a) (i_d a) \<longleftrightarrow>
      (i_y x < i_y a \<or> i_y x = i_y a \<and> (i_m x < i_m a \<or> i_m x = i_m a \<and> i_d x < i_d a))"
    using v(2) assms(3) by (intro dayno_less_iff) (auto simp: valid_date_def)
  moreover have "(p < q \<or> p = q \<and> (r < s \<or> r = s \<and> t \<le> u)) \<longleftrightarrow>
      \<not> (q < p \<or> q = p \<and> (s < r \<or> s = r \<and> u < t))" for p q r s t u :: int by auto
  ultimately have "inst_u (inst_up a) < inst_u (inst_up x) \<longleftrightarrow>
      \<not> dayno (i_y x) (i_m x) (i_d x) < dayno (i_y a) (i_m a) (i_d a)"
    "inst_u (inst_up x) < inst_u (inst_up a) \<longleftrightarrow>
      dayno (i_y x) (i_m x) (i_d x) < dayno (i_y a) (i_m a) (i_d a)" by metis+
  then show ?thesis
    using inst_lt_ms [OF assms(1,2)] inst_lt_ms [OF assms(2,1)]
    unfolding echs_instant_lt_p_def echs_instant_le_p_def by (simp add: not_less)
qed

lemma echs_instant_order_witness:
  "echs_instant_lt_p (inst_sample 2016 2 28 0) (inst_sample 2016 2 29 0) \<and>
   echs_instant_lt_p \<lparr>i_y = 2016, i_m = 2, i_d = 28, i_H = 255, i_M = 0, i_S = 0, i_ms = 0\<rparr> (inst_sample 2016 2 28 0)"
  using echs_instant_order [of "inst_sample 2016 2 28 0" "inst_sample 2016 2 29 0"
      "\<lparr>i_y = 2016, i_m = 2, i_d = 28, i_H = 255, i_M = 0, i_S = 0, i_ms = 0\<rparr>"]
  by (simp add: inst_eval ECHS_ALL_DAY_def)

end
