(* ===== verification/Scale.thy ===== *)
theory Scale
  imports Instant HijriData
begin

text \<open>
  Calendar scales, \<^verbatim>\<open>src/src/scale.h\<close> and \<^verbatim>\<open>src/src/scale.c\<close>, and the tag bits of instants,
  \<^verbatim>\<open>src/src/tzob.h\<close>: the top four bits of the year carry the scale, the top four bits of the
  month and the top two of the day an interned time zone.  Conversions go through (modified)
  Julian days in unsigned 32-bit arithmetic, which \<open>u32\<close> writes out.
\<close>

section \<open>Tags\<close>

type_synonym echs_scale = int
type_synonym echs_wday = int

abbreviation (input) SCALE_GREGORIAN :: echs_scale where "SCALE_GREGORIAN \<equiv> 0"
abbreviation (input) SCALE_HIJRI_IA :: echs_scale where "SCALE_HIJRI_IA \<equiv> 1"
abbreviation (input) SCALE_HIJRI_IVC :: echs_scale where "SCALE_HIJRI_IVC \<equiv> 8"
abbreviation (input) SCALE_HIJRI_UMMULQURA :: echs_scale where "SCALE_HIJRI_UMMULQURA \<equiv> 9"
abbreviation (input) SCALE_HIJRI_DIYANET :: echs_scale where "SCALE_HIJRI_DIYANET \<equiv> 10"

abbreviation (input) MIR :: echs_wday where "MIR \<equiv> 0"
abbreviation (input) MON :: echs_wday where "MON \<equiv> 1"
abbreviation (input) FRI :: echs_wday where "FRI \<equiv> 5"
abbreviation (input) SAT :: echs_wday where "SAT \<equiv> 6"
abbreviation (input) SUN :: echs_wday where "SUN \<equiv> 7"

definition scale_mux :: "echs_scale \<Rightarrow> int" where
  "scale_mux s = (s mod 16) * 268435456"

definition scale_demux :: "int \<Rightarrow> echs_scale" where
  "scale_demux x = x div 268435456 mod 16"

definition inst_dpart :: "instant \<Rightarrow> int" where
  "inst_dpart i = (i_y i * 256 + i_m i) * 256 + i_d i"

definition echs_instant_scale :: "instant \<Rightarrow> echs_scale" where
  "echs_instant_scale i = scale_demux (inst_dpart i)"

definition echs_instant_detach_scale :: "instant \<Rightarrow> instant" where
  "echs_instant_detach_scale i = i\<lparr>i_y := i_y i mod 4096\<rparr>"

definition echs_instant_attach_scale :: "instant \<Rightarrow> echs_scale \<Rightarrow> instant" where
  "echs_instant_attach_scale i s =
     (let i = echs_instant_detach_scale i in i\<lparr>i_y := i_y i + scale_mux s div 65536\<rparr>)"

definition echs_instant_tzob :: "instant \<Rightarrow> int" where
  "echs_instant_tzob i = (i_m i div 16 * 16) * 256 + i_d i div 64 * 64"

definition echs_instant_detach_tzob :: "instant \<Rightarrow> instant" where
  "echs_instant_detach_tzob i = i\<lparr>i_m := i_m i mod 16, i_d := i_d i mod 64\<rparr>"

definition echs_instant_attach_tzob :: "instant \<Rightarrow> int \<Rightarrow> instant" where
  "echs_instant_attach_tzob i tz =
     (let i = echs_instant_detach_tzob i
      in i\<lparr>i_m := i_m i + tz div 4096 mod 16 * 16, i_d := i_d i + tz div 64 mod 4 * 64\<rparr>)"

lemma inst_bits_scale: "inst_bits i \<Longrightarrow> echs_instant_scale i = i_y i div 4096"
proof -
  assume b: "inst_bits i"
  have "inst_dpart i = i_y i * 65536 + (i_m i * 256 + i_d i)" by (simp add: inst_dpart_def)
  moreover have "0 \<le> i_m i * 256 + i_d i" "i_m i * 256 + i_d i < 65536"
    using b by (auto simp: inst_bits_def)
  ultimately have "inst_dpart i div 65536 = i_y i" by (simp add: radix_div)
  then have "inst_dpart i div 268435456 = i_y i div 4096"
    using div_split [of 4096 268435456 65536 "inst_dpart i"] by simp
  moreover have "i_y i div 4096 < 16" "0 \<le> i_y i div 4096" using b by (auto simp: inst_bits_def)
  ultimately show ?thesis by (simp add: echs_instant_scale_def scale_demux_def)
qed

lemma attach_bits:
  assumes "inst_bits i" "0 \<le> s" "s < 16"
  shows "inst_bits (echs_instant_attach_scale i s)" "inst_bits (echs_instant_detach_scale i)"
    "inst_bits (echs_instant_detach_tzob i)" "inst_bits (echs_instant_attach_tzob i z)"
proof -
  have y: "0 \<le> i_y i mod 4096" "i_y i mod 4096 < 4096" by simp_all
  then show "inst_bits (echs_instant_attach_scale i s)" "inst_bits (echs_instant_detach_scale i)"
    using assms by (auto simp: inst_bits_def echs_instant_attach_scale_def
        echs_instant_detach_scale_def scale_mux_def Let_def)
  have "i_m i mod 16 < 16" "0 \<le> i_m i mod 16" "i_d i mod 64 < 64" "0 \<le> i_d i mod 64" by simp_all
  moreover have "z div 4096 mod 16 < 16" "0 \<le> z div 4096 mod 16" "z div 64 mod 4 < 4" "0 \<le> z div 64 mod 4"
    by simp_all
  ultimately show "inst_bits (echs_instant_detach_tzob i)" "inst_bits (echs_instant_attach_tzob i z)"
    using assms by (auto simp: inst_bits_def echs_instant_attach_tzob_def
        echs_instant_detach_tzob_def Let_def)
qed

section \<open>Julian days\<close>

definition tsh :: "int list" where "tsh = [401, 301, 1, u32 (- 199)]"
definition epo :: "int list" where "epo = [1948085, 1948084]"

definition SCAL2TYP :: "echs_scale \<Rightarrow> nat" where "SCAL2TYP x = nat (u32 (x - 1) div 2)"
definition SCAL2EPO :: "echs_scale \<Rightarrow> nat" where "SCAL2EPO x = nat (u32 (x - 1) mod 2)"

text \<open>A table is the array of the source: \<open>SM\<close>, \<open>EM\<close>, and the month beginnings.\<close>

definition ht_num :: "int list \<Rightarrow> int" where "ht_num cal = int (length cal) - 2"

definition ht2mjd :: "int list \<Rightarrow> int \<Rightarrow> int \<Rightarrow> int \<Rightarrow> int" where
  "ht2mjd cal y m d =
     (let i = u32 ((y - 1) * 12 + (m - 1) - cal ! 0)
      in if ht_num cal \<le> i then 0 else u32 (cal ! nat (i + 2) + (d - 1)))"

definition hij_m :: "int list" where
  "hij_m = [0, 0, 30, 59, 89, 118, 148, 177, 207, 236, 266, 295, 325]"

definition hij2mjd :: "nat \<Rightarrow> nat \<Rightarrow> int \<Rightarrow> int \<Rightarrow> int \<Rightarrow> int" where
  "hij2mjd t e y m d =
     (let doy = u32 (hij_m ! nat m + d); cyc = y div 30; k = y mod 30;
          z1 = u32 (cyc * 10631 + u32 (k * 1063100 + tsh ! t) div 3000 + doy)
      in u32 (z1 + epo ! e - 2400000))"

definition g2mjd :: "int \<Rightarrow> int \<Rightarrow> int \<Rightarrow> int" where
  "g2mjd y m d =
     (let b = u32 (y + 100100 + (m - 8) sdiv 6);
          dd = u32 (b * 1461) div 4;
          dd = u32 (dd + u32 (153 * (u32 (m + 9) mod 12) + 2) div 5 + d)
      in u32 (dd - u32 (b div 100 * 3) div 4 + 752 - 34840408 - 2400000))"

definition mjd2g :: "int \<Rightarrow> int \<times> int \<times> int" where
  "mjd2g d =
     (let d = u32 (d + 2400000);
          j = u32 (4 * d + 139361631);
          j = u32 (j + u32 (u32 (u32 (4 * d + 183187720) div 146097 * 3) div 4 * 4 - 3908));
          i = u32 (j mod 1461 div 4 * 5 + 308);
          gd = i mod 153 div 5 + 1;
          gm = i div 153 mod 12 + 1;
          gy = u32 (j div 1461 - 100100 + i32 (8 - gm) sdiv 6)
      in (gy, gm, gd))"

definition mjd2ht :: "int list \<Rightarrow> int \<Rightarrow> int \<times> int \<times> int" where
  "mjd2ht cal d =
     (let i = int (length (takeWhile (\<lambda>t. t \<le> d) (drop 2 cal)))
      in if ht_num cal \<le> i then (0, 0, 0)
         else let m = u32 (i + cal ! 0)
              in (u32 (m - 1) div 12 + 1, u32 (m - 1) mod 12 + 1, u32 (d - cal ! nat (i + 1) + 1)))"

definition mjd2hij :: "nat \<Rightarrow> nat \<Rightarrow> int \<Rightarrow> int \<times> int \<times> int" where
  "mjd2hij t e j =
     (let z = u32 (j + 2400000 - epo ! e); cyc = z div 10631; z1 = z mod 10631;
          nz = (if z1 = 0 then 1 else 0);
          k = u32 (u32 (3000 * z1 - tsh ! t) div 1063100 - nz);
          z2 = u32 (z1 - u32 (i32 k * 1063100 + tsh ! t) div 3000 + nz);
          y = u32 (30 * cyc + k);
          m = u32 (10000 * z2 + 285001) div 295000;
          d = u32 (z2 - u32 (295001 * m - 290000) div 10000)
      in (y, m, d))"

section \<open>Days in months and weekdays\<close>

definition ndim_ht :: "int list \<Rightarrow> int \<Rightarrow> int \<Rightarrow> int" where
  "ndim_ht cal y m =
     (let i = u32 ((y - 1) * 12 + (m - 1) - cal ! 0)
      in if ht_num cal \<le> u32 (i + 1) then 0
         else u32 (cal ! nat (u32 (i + 1) + 2) - cal ! nat (i + 2)))"

definition ndim_greg :: "int \<Rightarrow> int \<Rightarrow> int" where
  "ndim_greg y m = mdays ! nat m + (if y mod 4 = 0 \<and> m = 2 then 1 else 0)"

definition hij_inty_p :: "nat \<Rightarrow> int \<Rightarrow> bool" where
  "hij_inty_p t y \<longleftrightarrow>
     (let k = y mod 30;
          z1 = u32 (u32 (k * 1063100 + tsh ! t) div 3000 + 355) mod 10631;
          nz = (if z1 = 0 then 1 else 0);
          kr = u32 (u32 (3000 * z1 - tsh ! t) div 1063100 - nz)
      in u32 (z1 - u32 (i32 kr * 1063100 + tsh ! t) div 3000 + nz) \<noteq> 1)"

definition ndim_hij :: "nat \<Rightarrow> int \<Rightarrow> int \<Rightarrow> int" where
  "ndim_hij t y m = 29 + m mod 2 + (if m = 12 \<and> hij_inty_p t y then 1 else 0)"

definition wday_t :: "int list" where
  "wday_t = [0, 3, 2, 5, 0, 3, 5, 1, 4, 6, 2, 4]"

definition wday_greg :: "int \<Rightarrow> int \<Rightarrow> int \<Rightarrow> echs_wday" where
  "wday_greg y m d =
     (let y = u32 (y - (if m < 3 then 1 else 0));
          res = u32 (y + y div 4 - y div 100 + y div 400);
          res = u32 (res + wday_t ! nat (m - 1) + d)
      in if res mod 7 = 0 then SUN else res mod 7)"

definition wday_ht :: "int list \<Rightarrow> int \<Rightarrow> int \<Rightarrow> int \<Rightarrow> echs_wday" where
  "wday_ht cal y m d = u32 (ht2mjd cal y m d + 1) mod 7 + 1"

definition wday_hij :: "nat \<Rightarrow> nat \<Rightarrow> int \<Rightarrow> int \<Rightarrow> int \<Rightarrow> echs_wday" where
  "wday_hij t e y m d = u32 (hij2mjd t e y m d + 1) mod 7 + 1"

definition echs_scale_ndim :: "echs_scale \<Rightarrow> int \<Rightarrow> int \<Rightarrow> int" where
  "echs_scale_ndim s y m =
     (if s = SCALE_GREGORIAN then ndim_greg y m
      else if SCALE_HIJRI_IA \<le> s \<and> s \<le> SCALE_HIJRI_IVC then ndim_hij (SCAL2TYP s) y m
      else if s = SCALE_HIJRI_UMMULQURA then ndim_ht dat_ummulqura y m
      else if s = SCALE_HIJRI_DIYANET then ndim_ht dat_diyanet y m
      else 0)"

definition echs_scale_wday :: "echs_scale \<Rightarrow> int \<Rightarrow> int \<Rightarrow> int \<Rightarrow> echs_wday" where
  "echs_scale_wday s y m d =
     (if s = SCALE_GREGORIAN then wday_greg y m d
      else if SCALE_HIJRI_IA \<le> s \<and> s \<le> SCALE_HIJRI_IVC then wday_hij (SCAL2TYP s) (SCAL2EPO s) y m d
      else if s = SCALE_HIJRI_UMMULQURA then wday_ht dat_ummulqura y m d
      else if s = SCALE_HIJRI_DIYANET then wday_ht dat_diyanet y m d
      else MIR)"

definition echs_instant_ndim :: "instant \<Rightarrow> int" where
  "echs_instant_ndim i =
     (let str = echs_instant_detach_scale i
      in echs_scale_ndim (echs_instant_scale i) (i_y str) (i_m str))"

section \<open>Rescaling\<close>

definition scale_to_mjd :: "echs_scale \<Rightarrow> int \<Rightarrow> int \<Rightarrow> int \<Rightarrow> int option" where
  "scale_to_mjd s y m d =
     (if s = SCALE_GREGORIAN then Some (g2mjd y m d)
      else if SCALE_HIJRI_IA \<le> s \<and> s \<le> SCALE_HIJRI_IVC
      then Some (hij2mjd (SCAL2TYP s) (SCAL2EPO s) y m d)
      else if s = SCALE_HIJRI_UMMULQURA then Some (ht2mjd dat_ummulqura y m d)
      else if s = SCALE_HIJRI_DIYANET then Some (ht2mjd dat_diyanet y m d)
      else None)"

definition mjd_to_scale :: "echs_scale \<Rightarrow> int \<Rightarrow> (int \<times> int \<times> int) option" where
  "mjd_to_scale s d =
     (let r = (if s = SCALE_GREGORIAN then Some (mjd2g d)
               else if SCALE_HIJRI_IA \<le> s \<and> s \<le> SCALE_HIJRI_IVC
               then Some (mjd2hij (SCAL2TYP s) (SCAL2EPO s) d)
               else if s = SCALE_HIJRI_UMMULQURA then Some (mjd2ht dat_ummulqura d)
               else if s = SCALE_HIJRI_DIYANET then Some (mjd2ht dat_diyanet d)
               else None)
      in case r of None \<Rightarrow> None | Some (y, m, d) \<Rightarrow> if y = 0 then None else Some (y, m, d))"

definition echs_instant_rescale :: "instant \<Rightarrow> echs_scale \<Rightarrow> instant" where
  "echs_instant_rescale i tgt =
     (let src = echs_instant_scale i; z = echs_instant_tzob i;
          tmp = echs_instant_detach_scale (echs_instant_detach_tzob i);
          fin = (\<lambda>t. echs_instant_attach_tzob (echs_instant_attach_scale t tgt) z)
      in if src = tgt then fin tmp
         else case scale_to_mjd src (i_y tmp) (i_m tmp) (i_d tmp) of
             None \<Rightarrow> echs_nul_instant
           | Some d \<Rightarrow>
               (case mjd_to_scale tgt d of
                  None \<Rightarrow> echs_nul_instant
                | Some (y, m, d) \<Rightarrow>
                    fin (tmp\<lparr>i_y := y mod 65536, i_m := m mod 256, i_d := d mod 256\<rparr>)))"

section \<open>Table calendars\<close>

definition ht_wf :: "int list \<Rightarrow> bool" where
  "ht_wf cal \<longleftrightarrow> 3 \<le> length cal \<and> length cal < 100000 \<and> 0 \<le> cal ! 0 \<and> cal ! 0 < 100000 \<and>
     sorted_wrt (<) (drop 2 cal) \<and> 0 \<le> cal ! 2 \<and> last cal < 100000"

text \<open>The number of a month within the table.\<close>

definition ht_index :: "int list \<Rightarrow> int \<Rightarrow> int \<Rightarrow> int" where
  "ht_index cal y m = (y - 1) * 12 + (m - 1) - cal ! 0"

lemma ht_entry:
  assumes "ht_wf cal" "2 \<le> k" "k < length cal"
  shows "0 \<le> cal ! k" "cal ! k < 100000"
proof -
  have s: "sorted_wrt (<) (drop 2 cal)" "3 \<le> length cal" using assms by (auto simp: ht_wf_def)
  have le: "cal ! i \<le> cal ! j" if "2 \<le> i" "i \<le> j" "j < length cal" for i j
  proof (cases "i = j")
    case False
    then have "drop 2 cal ! (i - 2) < drop 2 cal ! (j - 2)"
      using that s by (intro sorted_wrt_nth_less [OF s(1)]) auto
    moreover have "2 + (i - 2) = i" "2 + (j - 2) = j" using that by auto
    ultimately show ?thesis using that by (simp add: less_imp_le)
  qed simp
  have "cal \<noteq> []" "k \<le> length cal - 1" "length cal - 1 < length cal" using assms s by auto
  then have "cal ! k \<le> last cal" using le [of k "length cal - 1"] assms(2) by (simp add: last_conv_nth)
  with le [of 2 k] assms show "0 \<le> cal ! k" "cal ! k < 100000" by (auto simp: ht_wf_def)
qed

lemma ht_strict:
  assumes "ht_wf cal" "2 \<le> i" "i < j" "j < length cal"
  shows "cal ! i < cal ! j"
proof -
  have s: "sorted_wrt (<) (drop 2 cal)" using assms by (auto simp: ht_wf_def)
  have "drop 2 cal ! (i - 2) < drop 2 cal ! (j - 2)"
    using assms by (intro sorted_wrt_nth_less [OF s]) auto
  moreover have "2 + (i - 2) = i" "2 + (j - 2) = j" using assms by auto
  ultimately show ?thesis using assms by simp
qed

lemma ht_table:
  assumes "ht_wf cal" "1 \<le> m" "m \<le> 12" "0 \<le> ht_index cal y m" "ht_index cal y m + 1 < ht_num cal"
    "1 \<le> d" "d \<le> ndim_ht cal y m"
  defines "k \<equiv> nat (ht_index cal y m + 2)"
  shows "ht2mjd cal y m d = cal ! k + (d - 1)" "2 \<le> k" "k + 1 < length cal"
    "ndim_ht cal y m = cal ! (k + 1) - cal ! k"
proof -
  let ?i = "ht_index cal y m"
  have len: "3 \<le> length cal" "length cal < 100000" using assms(1) by (auto simp: ht_wf_def)
  show k: "2 \<le> k" "k + 1 < length cal" using assms(4,5) len unfolding k_def ht_num_def by linarith+
  have i: "u32 ?i = ?i" "u32 (?i + 1) = ?i + 1"
    using assms(4,5) len by (auto simp: ht_num_def intro!: u32_id)
  have e: "0 \<le> cal ! k" "cal ! k < 100000" "0 \<le> cal ! (k + 1)" "cal ! (k + 1) < 100000" "cal ! k < cal ! (k + 1)"
    using ht_entry [OF assms(1)] ht_strict [OF assms(1), of k "k + 1"] k by auto
  have k1: "nat (?i + 1 + 2) = k + 1" unfolding k_def using assms(4) by linarith
  show n: "ndim_ht cal y m = cal ! (k + 1) - cal ! k"
    using assms(5) i e k1 unfolding ndim_ht_def ht_index_def [symmetric] Let_def
    by (simp add: k_def [symmetric] u32_id)
  have "u32 (cal ! k + (d - 1)) = cal ! k + (d - 1)" using assms(6,7) n e by (intro u32_id) auto
  then show "ht2mjd cal y m d = cal ! k + (d - 1)"
    using assms(4,5) i unfolding ht2mjd_def ht_index_def [symmetric] Let_def
    by (simp add: k_def [symmetric])
qed

lemma ht_roundtrip:
  assumes "ht_wf cal" "1 \<le> m" "m \<le> 12" "0 \<le> ht_index cal y m" "ht_index cal y m + 1 < ht_num cal"
    "1 \<le> d" "d \<le> ndim_ht cal y m"
  shows "mjd2ht cal (ht2mjd cal y m d) = (y, m, d)"
proof -
  define k where "k = nat (ht_index cal y m + 2)"
  note t = ht_table [OF assms, folded k_def]
  have len: "3 \<le> length cal" "length cal < 100000" using assms(1) by (auto simp: ht_wf_def)
  let ?v = "cal ! k + (d - 1)"
  have v: "cal ! k \<le> ?v" "?v < cal ! (k + 1)" using assms(6,7) t(4) by auto
  have "takeWhile (\<lambda>t. t \<le> ?v) (drop 2 cal) = take (k - 1) (drop 2 cal)"
  proof (rule takeWhile_eq_take_P_nth)
    fix n assume "n < k - 1" "n < length (drop 2 cal)"
    then have "n + 2 = k \<or> n + 2 < k" by linarith
    then have "cal ! (n + 2) \<le> cal ! k"
      using ht_strict [OF assms(1), of "n + 2" k] t(3) by (elim disjE) auto
    with v(1) show "drop 2 cal ! n \<le> ?v" using len by (simp add: add.commute)
  next
    assume "k - 1 < length (drop 2 cal)"
    then show "\<not> drop 2 cal ! (k - 1) \<le> ?v" using v(2) t(2) by (simp add: add.commute)
  qed
  then have i: "int (length (takeWhile (\<lambda>t. t \<le> ?v) (drop 2 cal))) = ht_index cal y m + 1"
    using t(2,3) assms(4) by (simp add: k_def)
  have e: "0 \<le> cal ! k" "cal ! k < 100000" "0 \<le> cal ! 0" "cal ! 0 < 100000"
    using ht_entry [OF assms(1)] t assms(1) by (auto simp: ht_wf_def)
  have m: "ht_index cal y m + 1 + cal ! 0 = (y - 1) * 12 + m" by (simp add: ht_index_def)
  have b: "1 \<le> (y - 1) * 12 + m" "(y - 1) * 12 + m < 4294967296"
    using m assms(4,5) e len unfolding ht_num_def by linarith+
  have "((y - 1) * 12 + m - 1) div 12 = y - 1"
    by (rule int_div_pos_eq [where r = "m - 1"]) (use assms(2,3) in auto)
  moreover have "((y - 1) * 12 + m - 1) mod 12 = m - 1"
    by (rule int_mod_pos_eq [where q = "y - 1"]) (use assms(2,3) in auto)
  moreover have "nat (ht_index cal y m + 1 + 1) = k" by (simp add: k_def)
  moreover have "d < 4294967296" using v t(3) ht_entry [OF assms(1), of "k + 1"] t(2) e by simp
  ultimately show ?thesis
    using b assms(5,6) unfolding t(1) mjd2ht_def i Let_def
    by (simp add: m u32_id)
qed

lemma dat_ummulqura_wf: "ht_wf dat_ummulqura"
  using dat_ummulqura_ok by (simp add: ht_wf_def)

lemma dat_diyanet_wf: "ht_wf dat_diyanet"
  using dat_diyanet_ok by (simp add: ht_wf_def)

section \<open>Weekdays\<close>

lemma seven: "(if x mod 7 = 0 then 7 else x mod 7) = (x - 1) mod 7 + 1" for x :: int
  by presburger

lemma wday_greg_range: "1 \<le> wday_greg y m d \<and> wday_greg y m d \<le> 7"
proof -
  have "0 \<le> x mod 7" "x mod 7 < 7" for x :: int by simp_all
  from this [of "_ - 1"] show ?thesis unfolding wday_greg_def Let_def seven by (simp add: zle_add1_eq_le)
qed

text \<open>
  Within 1901 to 2099 the weekday is the day number of the 4-year calendar modulo seven, so
  that it advances with every day across months and years.
\<close>

definition wday_of :: "int \<Rightarrow> int" where
  "wday_of n = (n + 3) mod 7 + 1"

lemma wday_of_add: "wday_of (n + k) = (wday_of n - 1 + k) mod 7 + 1"
  unfolding wday_of_def by (simp add: mod_simps ac_simps)

lemma wday_greg_dayno:
  assumes "1901 \<le> y" "y \<le> 2099" "1 \<le> m" "m \<le> 12" "0 \<le> d" "d \<le> 31"
  shows "wday_greg y m d = wday_of (dayno y m d)"
proof -
  define v where "v = y - (if m < 3 then 1 else 0)"
  have v: "1900 \<le> v" "v \<le> 2099" using assms by (auto simp: v_def)
  have c: "v div 400 - v div 100 = - 15"
  proof (cases "v < 2000")
    case True
    with v have "v div 400 = 4" "v div 100 = 19" by (auto intro!: int_div_pos_eq [where r = "v - 1600"] int_div_pos_eq [where r = "v - 1900"])
    then show ?thesis by simp
  next
    case False
    with v have "v div 400 = 5" "v div 100 = 20" by (auto intro!: int_div_pos_eq [where r = "v - 2000"])
    then show ?thesis by simp
  qed
  have t: "0 \<le> wday_t ! nat (m - 1)" "wday_t ! nat (m - 1) \<le> 6"
    using assms(3,4) by (cases m rule: month_cases; simp add: wday_t_def)+
  have "0 \<le> v div 4" "v div 4 < 600" using v by auto
  then have u: "u32 (v + v div 4 - v div 100 + v div 400) = v + v div 4 - 15"
    "u32 (v + v div 4 - 15 + wday_t ! nat (m - 1) + d) = v + v div 4 - 15 + wday_t ! nat (m - 1) + d"
    using v c t assms by (auto simp: u32_id)
  have uv: "u32 v = v" using v by (simp add: u32_id)
  have w: "wday_greg y m d =
      (let r = v + v div 4 - 15 + wday_t ! nat (m - 1) + d in if r mod 7 = 0 then 7 else r mod 7)"
    unfolding wday_greg_def v_def [symmetric] Let_def uv u by (rule refl)
  have "(y + 3) div 4 = (if y mod 4 = 0 then y div 4 else y div 4 + 1)" by presburger
  moreover have "(y + 3) div 4 = (y - 1) div 4 + 1" using div_add_self1 [of 4 "y - 1"] by simp
  ultimately have "(y + 3) div 4 + (if y mod 4 = 0 \<and> 3 \<le> m then 1 else 0) = v div 4 + 1"
    by (cases "m < 3") (auto simp: v_def)
  then have "dayno y m d = 365 * y + (v div 4 + 1) + doy ! nat m + d"
    unfolding dayno_def by linarith
  then have e: "dayno y m d + 3 - (v + v div 4 - 15 + wday_t ! nat (m - 1) + d - 1) =
      365 * y - v + 20 + doy ! nat m - wday_t ! nat (m - 1)" by simp
  have "7 dvd 365 * y - v + 20 + doy ! nat m - wday_t ! nat (m - 1)"
  proof -
    have v7: "365 * y - v = 364 * y + (if m < 3 then 1 else 0)" by (simp add: v_def)
    have "7 dvd (if m < 3 then 1 else 0) + 20 + doy ! nat m - wday_t ! nat (m - 1)"
      using assms(3,4) by (cases m rule: month_cases; simp add: doy_def wday_t_def)
    moreover have "7 dvd 364 * y" by simp
    ultimately have "7 dvd 364 * y + ((if m < 3 then 1 else 0) + 20 + doy ! nat m - wday_t ! nat (m - 1))"
      by (rule dvd_add [rotated])
    then show ?thesis unfolding v7 by (simp add: algebra_simps)
  qed
  then have "7 dvd (dayno y m d + 3 - (v + v div 4 - 15 + wday_t ! nat (m - 1) + d - 1))"
    unfolding e .
  then have "(dayno y m d + 3) mod 7 = (v + v div 4 - 15 + wday_t ! nat (m - 1) + d - 1) mod 7"
    by (simp only: mod_eq_dvd_iff)
  with w seven [of "v + v div 4 - 15 + wday_t ! nat (m - 1) + d"]
  show ?thesis by (simp add: wday_of_def Let_def)
qed

section \<open>Correctness of the scales\<close>

text \<open>
  C31: on the two table calendars the conversion to Julian days and back is the identity on
  every day of every tabulated month but the last.
\<close>

theorem table_calendar_roundtrip:
  assumes "cal = dat_ummulqura \<or> cal = dat_diyanet"
    and "1 \<le> m" "m \<le> 12" "0 \<le> ht_index cal y m" "ht_index cal y m + 1 < ht_num cal"
    and "1 \<le> d" "d \<le> ndim_ht cal y m"
  shows "mjd2ht cal (ht2mjd cal y m d) = (y, m, d)"
proof -
  from assms(1) dat_ummulqura_wf dat_diyanet_wf have "ht_wf cal" by blast
  from ht_roundtrip [OF this assms(2-)] show ?thesis .
qed

lemma dat_ummulqura_1:
  "dat_ummulqura ! 2 = 28607" "dat_ummulqura ! 3 = 28636" "dat_ummulqura ! 0 = 16260"
  "length dat_ummulqura = 1743"
proof -
  show "dat_ummulqura ! 2 = 28607" "dat_ummulqura ! 0 = 16260" "length dat_ummulqura = 1743"
    by (rule dat_ummulqura_ok)+
  have "dat_ummulqura ! 3 = ummulqura_1 ! 3" by (simp add: dat_ummulqura_def nth_append hijri_blocks)
  also have "\<dots> = 28636" by (simp add: ummulqura_1_def)
  finally show "dat_ummulqura ! 3 = 28636" .
qed

lemma table_calendar_roundtrip_witness:
  "mjd2ht dat_ummulqura (ht2mjd dat_ummulqura 1356 1 29) = (1356, 1, 29)"
  by (rule table_calendar_roundtrip)
    (simp_all add: ht_index_def ht_num_def ndim_ht_def dat_ummulqura_1 u32_def)

text \<open>
  tagging an instant with a scale and a time zone is reversible: the tags read back, and
  what is left after detaching them is the instant's date, unless it used the tag bits itself.
\<close>

theorem instant_tags:
  assumes "inst_bits i" "0 \<le> s" "s < 16" "z = hi * 4096 + lo * 64" "0 \<le> hi" "hi < 16" "0 \<le> lo" "lo < 4"
  defines "j \<equiv> echs_instant_attach_tzob (echs_instant_attach_scale i s) z"
  shows "echs_instant_scale j = s \<and> echs_instant_tzob j = z \<and>
    (i_y i < 4096 \<and> i_m i < 16 \<and> i_d i < 64 \<longrightarrow>
       echs_instant_detach_tzob (echs_instant_detach_scale j) = i)"
proof -
  have j: "j = i\<lparr>i_y := i_y i mod 4096 + s * 4096, i_m := i_m i mod 16 + hi * 16, i_d := i_d i mod 64 + lo * 64\<rparr>"
  proof -
    have "z div 4096 = hi" using assms(4-8) by (intro int_div_pos_eq [where r = "lo * 64"]) auto
    moreover have "z div 64 = hi * 64 + lo" using assms(4-8) by (intro int_div_pos_eq [where r = 0]) auto
    moreover have "(hi * 64 + lo) mod 4 = lo" using assms(7,8) by (intro int_mod_pos_eq [where q = "hi * 16"]) auto
    ultimately show ?thesis
      using assms(2,3,5,6) by (simp add: j_def echs_instant_attach_tzob_def echs_instant_attach_scale_def
          echs_instant_detach_tzob_def echs_instant_detach_scale_def scale_mux_def)
  qed
  have "inst_bits j" unfolding j_def by (intro attach_bits(4) attach_bits(1)) (use assms in auto)
  then have "echs_instant_scale j = (i_y i mod 4096 + s * 4096) div 4096"
    by (simp add: inst_bits_scale j)
  moreover have "(i_y i mod 4096 + s * 4096) div 4096 = s" by simp
  moreover have "(i_m i mod 16 + hi * 16) div 16 = hi" "(i_d i mod 64 + lo * 64) div 64 = lo" by simp_all
  ultimately show ?thesis
    using assms(1,4) by (auto simp: j echs_instant_tzob_def echs_instant_detach_tzob_def
        echs_instant_detach_scale_def inst_bits_def)
qed

lemma instant_tags_witness:
  "echs_instant_scale (echs_instant_attach_tzob (echs_instant_attach_scale (inst_sample 1437 9 21 3) 9) 4160) = 9"
  using instant_tags [of "inst_sample 1437 9 21 3" 9 4160 1 1] by (simp add: inst_sample_def inst_bits_def)

lemma wday_greg_step:
  assumes "valid_ymd y m d" "valid_ymd y' m' d'" "1901 \<le> y" "y \<le> 2099" "1901 \<le> y'" "y' \<le> 2099"
    "dayno y' m' d' = dayno y m d + k"
  shows "wday_greg y' m' d' = (wday_greg y m d - 1 + k) mod 7 + 1"
proof -
  have "0 \<le> d \<and> d \<le> 31" "0 \<le> d' \<and> d' \<le> 31"
    using assms(1,2) get_mdays_range(2) [of m y] get_mdays_range(2) [of m' y']
    by (auto simp: valid_ymd_def)
  then have "wday_greg y m d = wday_of (dayno y m d)" "wday_greg y' m' d' = wday_of (dayno y' m' d')"
    using assms(1-6) by (auto intro!: wday_greg_dayno simp: valid_ymd_def)
  then show ?thesis using assms(7) by (simp add: wday_of_add)
qed

text \<open>
  from 1901 to 2099 the weekday of a Gregorian date follows the days: the weekday of the
  day \<open>k\<close> days later is \<open>k\<close> further on, whatever months and years lie between.
\<close>

theorem wday_greg_advances:
  assumes "valid_ymd y m d" "valid_ymd y' m' d'" "1901 \<le> y" "y \<le> 2099" "1901 \<le> y'" "y' \<le> 2099"
    "dayno y' m' d' = dayno y m d + k"
  shows "wday_greg y' m' d' = (wday_greg y m d - 1 + k) mod 7 + 1"
  by (rule wday_greg_step [OF assms])

lemma wday_greg_advances_witness: "wday_greg 2016 3 1 = (wday_greg 2016 2 28 - 1 + 2) mod 7 + 1"
  by (rule wday_greg_advances) (simp_all add: valid_ymd_def get_mdays_def mdays_def dayno_def doy_def)

text \<open>The last day of an intercalary year on the calculated Hijri scales comes back as month 13.\<close>

lemma hij_last_day:
  "ndim_hij 0 1412 12 = 30" "mjd2hij 0 0 (hij2mjd 0 0 1412 12 30) = (1412, 13, 1)"
  by code_simp+

text \<open>On type IV the years divisible by 30 go through a negative shift taken unsigned.\<close>

lemma hij_type_IV: "mjd2hij 3 0 (hij2mjd 3 0 1440 1 1) = (5480, 1, 15)"
  by code_simp

end
