(* ===== verification/DateConv.thy ===== *)
theory DateConv
  imports Scale
begin

text \<open>
  The date converters of \<^verbatim>\<open>src/src/evrrul.c\<close> (and the packing of counted weekdays in
  \<^verbatim>\<open>src/src/evrrul.h\<close>): weekday of a date, day of the year, the n-th weekday of a month or
  year, ISO weeks, Easter.  All are functions of \<open>unsigned int\<close> or \<open>int\<close> arguments; a wrap that
  can matter is written with \<open>u32\<close> or \<open>i32\<close>.
\<close>

section \<open>The converters\<close>

type_synonym md = "int \<times> int"

definition ymd_get_wday :: "int \<Rightarrow> int \<Rightarrow> int \<Rightarrow> echs_wday" where
  "ymd_get_wday y m d =
     (let t = [0, 3, 2, 5, 0, 3, 5, 1, 4, 6, 2, 4];
          y = u32 (y - (if m < 3 then 1 else 0));
          res = u32 (y + y div 4 - y div 100 + y div 400);
          res = u32 (res + t ! nat (m - 1) + d)
      in if res mod 7 = 0 then SUN else res mod 7)"

definition yd_get_wday :: "int \<Rightarrow> int \<Rightarrow> echs_wday" where
  "yd_get_wday y yd =
     (let j01 = ymd_get_wday y 1 1; r = u32 (j01 + (yd - 1)) mod 7
      in if r = 0 then SUN else r)"

definition mon_yday :: "int list" where
  "mon_yday = [65528, 0, 31, 59, 90, 120, 151, 181, 212, 243, 273, 304, 334, 365]"

definition ymd_get_yd :: "int \<Rightarrow> int \<Rightarrow> int \<Rightarrow> int" where
  "ymd_get_yd y m d = mon_yday ! nat m + d + (if y mod 4 = 0 \<and> 3 \<le> m then 1 else 0)"

definition get_ndom :: "int \<Rightarrow> int \<Rightarrow> int" where
  "get_ndom y m = mdays ! nat m + (if y mod 4 = 0 \<and> m = 2 then 1 else 0)"

definition get_mcnt :: "int \<Rightarrow> int \<Rightarrow> echs_wday \<Rightarrow> int" where
  "get_mcnt y m w =
     (let wd1 = ymd_get_wday y m 1; md = get_ndom y m;
          wd01cnt = (md - 1) div 7 + 1; wd01mod = (md - 1) mod 7;
          w = (if w = SUN then MIR else w)
      in if wd1 \<le> w \<and> w \<le> wd1 + wd01mod \<or> w + 7 \<le> wd1 + wd01mod then wd01cnt else wd01cnt - 1)"

definition ymcw_get_dom :: "int \<Rightarrow> int \<Rightarrow> int \<Rightarrow> echs_wday \<Rightarrow> int" where
  "ymcw_get_dom y m c w =
     (let wd1 = ymd_get_wday y m 1; mx = get_mcnt y m w
      in if mx < c then 0
         else if c < 0 \<and> c + mx + 1 \<le> 0 then 0
         else
           let c = (if c < 0 then c + mx + 1 else c);
               add = u32 (w + 7 - wd1) mod 7;
               tgtd = u32 (1 + add + (c - 1) * 7)
           in if mdays ! nat m < tgtd then (if tgtd = 29 \<and> y mod 4 = 0 then tgtd else u32 (tgtd - 7))
              else tgtd)"

definition jan01_28y_wday :: "int list" where
  "jan01_28y_wday =
     [5, 7, 1, 2, 3, 5, 6,
      7, 1, 3, 4, 5, 6, 1,
      2, 3, 4, 6, 7, 1, 2,
      4, 5, 6, 7, 2, 3, 4]"

definition get_jan01_wday :: "int \<Rightarrow> echs_wday" where
  "get_jan01_wday year = jan01_28y_wday ! nat (year mod 28)"

definition ywd_get_jan01_hang :: "echs_wday \<Rightarrow> int" where
  "ywd_get_jan01_hang j01 = (let res = 1 - j01 in if res < - 3 then 7 + res else res)"

definition get_isowk :: "int \<Rightarrow> int" where
  "get_isowk y = (if y mod 28 \<in> {16, 21, 27, 4, 10} then 53 else 52)"

definition ywd_get_yday :: "int \<Rightarrow> int \<Rightarrow> int \<Rightarrow> int" where
  "ywd_get_yday y w d =
     (let j01 = get_jan01_wday y; hang = ywd_get_jan01_hang j01;
          w = (if w < 0 then w + 1 + get_isowk y else w)
      in u32 (7 * (w - 1) + d + hang))"

definition yd_rem :: "int list" where
  "yd_rem = [19, 19, 18, 14, 13, 11, 10, 8, 7, 6, 4, 3, 1, 0]"

text \<open>\<open>yd\<close> is an \<open>int\<close>; \<open>(yd + 19) / 32U\<close> and all that follows is unsigned.\<close>

definition yd_to_md :: "int \<Rightarrow> int \<Rightarrow> md" where
  "yd_to_md y yd =
     (let leap = y mod 4 = 0;
          yd = (if yd < 0 then yd + (366 + (if leap then 1 else 0)) else yd);
          m = u32 (yd + 19) div 32; d = u32 (yd + 19) mod 32;
          beef = yd_rem ! nat m; cake = yd_rem ! nat (m + 1);
          (beef, cake) =
            (if leap \<and> cake < 16 then (beef + (if beef < 16 then 1 else 0), cake + 1) else (beef, cake))
      in if d \<le> cake then (m, u32 (yd - ((m - 1) * 32 - 19 + beef)))
         else (m + 1, u32 (yd - (m * 32 - 19 + cake))))"

definition ywd_to_md :: "int \<Rightarrow> int \<Rightarrow> echs_wday \<Rightarrow> md" where
  "ywd_to_md y w d =
     (let yday = ywd_get_yday y w d; (m, d) = yd_to_md y (i32 yday)
      in if m = 0 then (12, u32 (d - 1)) else if m = 13 then (1, d) else (m, d))"

definition ycw_get_yday :: "int \<Rightarrow> int \<Rightarrow> echs_wday \<Rightarrow> int" where
  "ycw_get_yday y c w =
     (let j01w = ymd_get_wday y 1 1; diff = (if j01w \<le> w then w - j01w else 7 + w - j01w)
      in if 0 < c then u32 (7 * (c - 1) + diff + 1)
         else if c < 0 then
           let res = u32 (7 * (53 + c) + diff + 1)
           in if diff = 0 then res
              else if diff = 1 \<and> y mod 4 = 0 then res
              else u32 (res - 7)
         else 0)"

definition easter_get_yday :: "int \<Rightarrow> int" where
  "easter_get_yday y =
     (let a = y mod 19; b = y div 4; c = b div 25 + 1; d = u32 (3 * c) div 4;
          e = u32 (19 * a - u32 (8 * c + 5) div 25 + d + 15) mod 30;
          e = u32 (e + u32 (29578 - a - 32 * e) div 1024);
          e = u32 (e - u32 (y mod 7 + b - d + e + 2) mod 7)
      in u32 (e + 59 + (if y mod 4 = 0 then 1 else 0)))"

definition pack_cand :: "int \<Rightarrow> int \<Rightarrow> int" where
  "pack_cand m d = u32 ((m - 1) * 32 + d)"

definition unpack_cand :: "int \<Rightarrow> md" where
  "unpack_cand c = (c div 32 + 1, c mod 32)"

definition inc_md :: "md \<Rightarrow> int \<Rightarrow> md" where
  "inc_md md y = (case md of (m, d) \<Rightarrow> if get_ndom y m < d + 1 then (m + 1, 1) else (m, d + 1))"

definition inc_wd :: "echs_wday \<Rightarrow> echs_wday" where
  "inc_wd wd = (if (wd + 1) mod 8 = 0 then MON else wd + 1)"

text \<open>Counted weekdays: \<open>cnt << 3 | dow\<close>, and back with an arithmetic shift.\<close>

definition pack_cd :: "int \<Rightarrow> echs_wday \<Rightarrow> int" where
  "pack_cd cnt dow = cnt * 8 + dow mod 8"

definition unpack_cd :: "int \<Rightarrow> int \<times> echs_wday" where
  "unpack_cd cd = (cd div 8, cd mod 8)"

section \<open>Weekdays and days of the year\<close>

lemma ymd_get_wday_greg: "ymd_get_wday y m d = wday_greg y m d"
  by (simp add: ymd_get_wday_def wday_greg_def wday_t_def)

lemma get_ndom_mdays: "get_ndom y m = get_mdays y m"
  by (simp add: get_ndom_def get_mdays_def)

lemma ymd_get_yd_dayno:
  "1 \<le> m \<Longrightarrow> m \<le> 12 \<Longrightarrow> dayno y m d = 365 * y + (y + 3) div 4 + ymd_get_yd y m d"
  by (cases m rule: month_cases) (simp_all add: dayno_def ymd_get_yd_def mon_yday_def doy_def)

lemma pack_unpack_cand: "1 \<le> m \<Longrightarrow> m \<le> 12 \<Longrightarrow> 0 \<le> d \<Longrightarrow> d < 32 \<Longrightarrow> unpack_cand (pack_cand m d) = (m, d)"
proof -
  assume a: "1 \<le> m" "m \<le> 12" "0 \<le> d" "d < 32"
  then have "pack_cand m d = (m - 1) * 32 + d" by (simp add: pack_cand_def u32_id)
  moreover have "((m - 1) * 32 + d) div 32 = m - 1" by (rule int_div_pos_eq [where r = d]) (use a in auto)
  moreover have "((m - 1) * 32 + d) mod 32 = d" by (rule int_mod_pos_eq [where q = "m - 1"]) (use a in auto)
  ultimately show ?thesis by (simp add: unpack_cand_def)
qed

lemma pack_unpack_cd: "0 \<le> w \<Longrightarrow> w < 8 \<Longrightarrow> unpack_cd (pack_cd c w) = (c, w)"
  by (simp add: pack_cd_def unpack_cd_def)

lemma yd_to_md_leap:
  "yd_to_md y yd = yd_to_md (if y mod 4 = 0 then 0 else 1) yd"
  by (simp add: yd_to_md_def)

lemma int_upt: "int a \<le> x \<Longrightarrow> x < int b \<Longrightarrow> x \<in> set (map int [a..<b])"
  unfolding set_map set_upt by (rule image_eqI [of _ _ "nat x"]) auto

lemma yd_to_md_table:
  "\<forall>yd \<in> set (map int [1..<366]).
     (case yd_to_md 1 yd of (m, d) \<Rightarrow> 1 \<le> m \<and> m \<le> 12 \<and> 1 \<le> d \<and> d \<le> get_ndom 1 m \<and> ymd_get_yd 1 m d = yd)"
  "\<forall>yd \<in> set (map int [1..<367]).
     (case yd_to_md 0 yd of (m, d) \<Rightarrow> 1 \<le> m \<and> m \<le> 12 \<and> 1 \<le> d \<and> d \<le> get_ndom 0 m \<and> ymd_get_yd 0 m d = yd)"
  by code_simp+

lemma isowk_hang: "1 \<le> j \<Longrightarrow> j \<le> 7 \<Longrightarrow> - 3 \<le> ywd_get_jan01_hang j \<and> ywd_get_jan01_hang j \<le> 3"
  by (auto simp: ywd_get_jan01_hang_def Let_def)

section \<open>Day of the year to date\<close>

definition year_len :: "int \<Rightarrow> int" where
  "year_len y = 365 + (if y mod 4 = 0 then 1 else 0)"

lemma yd_to_md_correct:
  assumes "1 \<le> yd" "yd \<le> year_len y" "yd_to_md y yd = (m, d)"
  shows "valid_ymd y m d \<and> ymd_get_yd y m d = yd"
proof -
  have "get_ndom y k = get_ndom (if y mod 4 = 0 then 0 else 1) k" for k
    by (simp add: get_ndom_def)
  moreover have "ymd_get_yd y m d = ymd_get_yd (if y mod 4 = 0 then 0 else 1) m d"
    by (simp add: ymd_get_yd_def)
  moreover have "yd \<in> set (map int [1..<if y mod 4 = 0 then 367 else 366])"
    using assms(1,2) by (intro int_upt) (auto simp: year_len_def)
  ultimately show ?thesis
    using yd_to_md_table assms(3) yd_to_md_leap [of y yd]
    by (fastforce simp: valid_ymd_def get_ndom_mdays [symmetric] split: if_splits)
qed

lemma wday_yday:
  assumes "valid_ymd y m d" "1901 \<le> y" "y \<le> 2099"
  shows "ymd_get_wday y m d = (ymd_get_wday y 1 1 - 1 + (ymd_get_yd y m d - 1)) mod 7 + 1"
proof -
  have "valid_ymd y 1 1" by (simp add: valid_ymd_def get_mdays_def mdays_def)
  moreover have "dayno y m d = dayno y 1 1 + (ymd_get_yd y m d - 1)"
    using assms ymd_get_yd_dayno [of m y d] ymd_get_yd_dayno [of 1 y 1]
    by (simp add: valid_ymd_def ymd_get_yd_def [of y 1] mon_yday_def)
  ultimately show ?thesis
    using wday_greg_step [of y 1 1 y m d "ymd_get_yd y m d - 1"] assms by (simp add: ymd_get_wday_greg)
qed

section \<open>The n-th weekday of a month\<close>

lemma mcnt_table:
  "\<forall>md \<in> set [28, 29, 30, 31 :: int]. \<forall>wd1 \<in> set [1, 2, 3, 4, 5, 6, 7 :: int]. \<forall>w \<in> set [1, 2, 3, 4, 5, 6, 7 :: int].
     (let v = (if w = 7 then 0 else w)
      in if wd1 \<le> v \<and> v \<le> wd1 + (md - 1) mod 7 \<or> v + 7 \<le> wd1 + (md - 1) mod 7
         then (md - 1) div 7 + 1 else (md - 1) div 7 + 1 - 1) = (md - 1 - (w - wd1) mod 7) div 7 + 1"
  by code_simp

lemma one_to_seven: "1 \<le> w \<Longrightarrow> w \<le> 7 \<Longrightarrow> w \<in> set [1, 2, 3, 4, 5, 6, 7 :: int]"
  by auto

lemma ndom_set: "1 \<le> m \<Longrightarrow> m \<le> 12 \<Longrightarrow> get_ndom y m \<in> set [28, 29, 30, 31]"
  by (cases m rule: month_cases) (simp_all add: get_ndom_def mdays_def)

lemma get_mcnt_eq:
  assumes "1 \<le> m" "m \<le> 12" "1 \<le> w" "w \<le> 7"
  shows "get_mcnt y m w = (get_ndom y m - 1 - (w - ymd_get_wday y m 1) mod 7) div 7 + 1"
proof -
  have "ymd_get_wday y m 1 \<in> set [1, 2, 3, 4, 5, 6, 7]"
    using wday_greg_range [of y m 1] by (intro one_to_seven) (auto simp: ymd_get_wday_greg)
  from mcnt_table [rule_format, OF ndom_set [OF assms(1,2), of y] this one_to_seven [OF assms(3,4)]]
  show ?thesis unfolding get_mcnt_def Let_def .
qed

text \<open>Counting from the first, or for a negative count from the last day of the month.\<close>

definition nth_of :: "int \<Rightarrow> int \<Rightarrow> int \<Rightarrow> int" where
  "nth_of n c d = (if 0 < c then (d - 1) div 7 + 1 else - ((n - d) div 7 + 1))"

lemma week_walk:
  fixes n a d c k :: int
  assumes "0 \<le> a" "a < 7" "28 \<le> n" "n \<le> 400" "1 \<le> d" "d \<le> n" "d = 1 + a + 7 * k"
  defines "mx \<equiv> (n - 1 - a) div 7 + 1"
  shows "nth_of n c d = (if 0 < c then k + 1 else k - mx)" "0 \<le> k" "k < mx"
proof -
  have "(d - 1) div 7 = k" using assms by (intro int_div_pos_eq [where r = a]) auto
  moreover have "(n - d) div 7 = (n - 1 - a) div 7 - k"
  proof -
    have "(n - d + k * 7) div 7 = k + (n - d) div 7" by (rule div_mult_self1) simp
    moreover have "n - d + k * 7 = n - 1 - a" using assms by simp
    ultimately show ?thesis by simp
  qed
  ultimately show "nth_of n c d = (if 0 < c then k + 1 else k - mx)" by (simp add: nth_of_def mx_def)
  show "0 \<le> k" using assms by simp
  have "0 \<le> (n - d) div 7" using assms by (simp add: pos_imp_zdiv_nonneg_iff)
  with \<open>(n - d) div 7 = (n - 1 - a) div 7 - k\<close> show "k < mx" by (simp add: mx_def)
qed

lemma week_day:
  fixes n a :: int
  assumes "0 \<le> a" "a < 7" "28 \<le> n" "0 \<le> k" "k < (n - 1 - a) div 7 + 1"
  shows "1 \<le> 1 + a + 7 * k" "1 + a + 7 * k \<le> n"
proof -
  have "7 * ((n - 1 - a) div 7) \<le> n - 1 - a"
    by (metis add_increasing2 div_mult_mod_eq le_add_same_cancel1 mult.commute pos_mod_sign zero_less_numeral)
  moreover have "7 * k \<le> 7 * ((n - 1 - a) div 7)" using assms by simp
  ultimately show "1 + a + 7 * k \<le> n" by linarith
  show "1 \<le> 1 + a + 7 * k" using assms by simp
qed

lemma wday_residue:
  fixes wd1 w d :: int
  assumes "1 \<le> wd1" "wd1 \<le> 7" "1 \<le> w" "w \<le> 7"
  shows "(wd1 - 1 + (d - 1)) mod 7 + 1 = w \<longleftrightarrow> (\<exists>k. d = 1 + (w - wd1) mod 7 + 7 * k)"
proof
  assume "(wd1 - 1 + (d - 1)) mod 7 + 1 = w"
  then have "(wd1 - 1 + (d - 1)) mod 7 = w - 1" by simp
  then have "(w - wd1) mod 7 = ((wd1 - 1 + (d - 1)) mod 7 - (wd1 - 1)) mod 7" by simp
  also have "\<dots> = (d - 1) mod 7" by (simp add: mod_diff_left_eq)
  finally have "d - 1 = (w - wd1) mod 7 + 7 * ((d - 1) div 7)" by simp
  then show "\<exists>k. d = 1 + (w - wd1) mod 7 + 7 * k" by (metis add.assoc diff_add_cancel add.commute)
next
  assume "\<exists>k. d = 1 + (w - wd1) mod 7 + 7 * k"
  then obtain k where "d - 1 = (w - wd1) mod 7 + 7 * k" by auto
  then have "(wd1 - 1 + (d - 1)) mod 7 = (wd1 - 1 + (w - wd1)) mod 7"
    by (metis (no_types, opaque_lifting) add.assoc mod_add_right_eq mod_mult_self2)
  with assms show "(wd1 - 1 + (d - 1)) mod 7 + 1 = w" by simp
qed

lemma ymcw_get_dom_eq:
  fixes y m w c :: int
  assumes "1 \<le> m" "m \<le> 12" "1 \<le> w" "w \<le> 7" "c \<noteq> 0"
  defines "a \<equiv> (w - ymd_get_wday y m 1) mod 7"
  defines "mx \<equiv> (get_ndom y m - 1 - a) div 7 + 1"
  shows "ymcw_get_dom y m c w =
    (if mx < c \<or> c < 0 \<and> c + mx + 1 \<le> 0 then 0
     else 1 + a + 7 * ((if c < 0 then c + mx + 1 else c) - 1))"
proof (cases "mx < c \<or> c < 0 \<and> c + mx + 1 \<le> 0")
  case True
  then show ?thesis
    using get_mcnt_eq [OF assms(1-4), of y, folded a_def, folded mx_def]
    by (auto simp: ymcw_get_dom_def Let_def)
next
  case False
  let ?c = "if c < 0 then c + mx + 1 else c"
  let ?t = "1 + a + 7 * (?c - 1)"
  have wd: "1 \<le> ymd_get_wday y m 1" "ymd_get_wday y m 1 \<le> 7"
    using wday_greg_range [of y m 1] by (auto simp: ymd_get_wday_greg)
  have a: "0 \<le> a" "a < 7" by (simp_all add: a_def)
  have n: "28 \<le> get_ndom y m" "get_ndom y m \<le> 31"
    using get_mdays_range [OF assms(1,2), of y] by (auto simp: get_ndom_mdays)
  have c: "1 \<le> ?c" "?c \<le> mx" using False assms(5) by auto
  then have t: "1 \<le> ?t" "?t \<le> get_ndom y m"
    using week_day [OF a n(1), of "?c - 1"] unfolding mx_def by auto
  have u: "u32 (w + 7 - ymd_get_wday y m 1) mod 7 = a"
  proof -
    have "u32 (w + 7 - ymd_get_wday y m 1) = w + 7 - ymd_get_wday y m 1"
      using wd assms by (intro u32_id) auto
    moreover have "(w + 7 - ymd_get_wday y m 1) mod 7 = (w - ymd_get_wday y m 1 + 7) mod 7"
      by (simp add: algebra_simps)
    ultimately show ?thesis by (simp add: a_def)
  qed
  have ut: "u32 (1 + a + (?c - 1) * 7) = ?t" using t n by (subst u32_id) auto
  have nd: "get_ndom y m = mdays ! nat m + (if y mod 4 = 0 \<and> m = 2 then 1 else 0)"
    by (simp add: get_ndom_def)
  have "?t = 29 \<and> y mod 4 = 0" if "mdays ! nat m < ?t"
    using that t(2) nd by (auto simp: mdays_def split: if_splits)
  then have e: "(if mdays ! nat m < ?t then if ?t = 29 \<and> y mod 4 = 0 then ?t else u32 (?t - 7) else ?t) = ?t"
    by auto
  have mc: "get_mcnt y m w = mx" using get_mcnt_eq [OF assms(1-4), of y] by (simp add: mx_def a_def)
  have n1: "\<not> mx < c" and n2: "\<not> (c < 0 \<and> c + mx + 1 \<le> 0)" using False by auto
  have "ymcw_get_dom y m c w = ?t"
    unfolding ymcw_get_dom_def Let_def mc u if_not_P [OF n1] if_not_P [OF n2] ut by (rule e)
  then show ?thesis unfolding if_not_P [OF False] .
qed

lemma nth_week_unique:
  fixes n a c d mx :: int
  assumes "0 \<le> a" "a < 7" "28 \<le> n" "n \<le> 400" "c \<noteq> 0" "1 \<le> d" "d \<le> n" "d = 1 + a + 7 * k" "nth_of n c d = c"
    "mx = (n - 1 - a) div 7 + 1"
  shows "k = (if c < 0 then c + mx + 1 else c) - 1" "0 \<le> k" "k < mx"
proof -
  note w = week_walk [OF assms(1-4) assms(6,7,8), folded assms(10)]
  show "0 \<le> k" "k < mx" by (rule w)+
  show "k = (if c < 0 then c + mx + 1 else c) - 1"
    using w(1) [of c] assms(5,9) by (auto split: if_splits)
qed

lemma nth_week_exists:
  fixes n a c mx k :: int
  assumes "0 \<le> a" "a < 7" "28 \<le> n" "n \<le> 400" "c \<noteq> 0" "mx = (n - 1 - a) div 7 + 1"
    "k = (if c < 0 then c + mx + 1 else c) - 1" "0 \<le> k" "k < mx"
  shows "1 \<le> 1 + a + 7 * k" "1 + a + 7 * k \<le> n" "nth_of n c (1 + a + 7 * k) = c"
proof -
  show b: "1 \<le> 1 + a + 7 * k" "1 + a + 7 * k \<le> n"
    using week_day [OF assms(1-3,8)] assms(9) unfolding assms(6) by blast+
  show "nth_of n c (1 + a + 7 * k) = c"
    using week_walk(1) [OF assms(1-4) b refl, of c] assms(5,6,7) by (auto split: if_splits)
qed

lemma weekday_of_month:
  assumes "valid_ymd y m d" "1901 \<le> y" "y \<le> 2099"
  shows "ymd_get_wday y m d = (ymd_get_wday y m 1 - 1 + (d - 1)) mod 7 + 1"
proof -
  have "valid_ymd y m 1" using assms(1) by (auto simp: valid_ymd_def)
  moreover have "dayno y m d = dayno y m 1 + (d - 1)" by (simp add: dayno_def)
  ultimately show ?thesis
    using wday_greg_step [of y m 1 y m d "d - 1"] assms by (simp add: ymd_get_wday_greg)
qed

text \<open>
  C38: The n-th weekday of a month is right: for a count \<open>c\<close> other than 0, a month and a weekday of
  the years 1901 to 2099, \<open>ymcw_get_dom\<close> returns a day \<open>d\<close> (not 0) exactly when \<open>d\<close> is a day
  of the month that falls on the weekday and is the \<open>c\<close>-th such day, counted from the end of the
  month when \<open>c\<close> is negative; it returns 0 exactly when there is no such day.
\<close>
theorem ymcw_get_dom_correct:
  assumes "1901 \<le> y" "y \<le> 2099" "1 \<le> m" "m \<le> 12" "1 \<le> w" "w \<le> 7" "c \<noteq> 0"
  shows "ymcw_get_dom y m c w = d \<and> d \<noteq> 0 \<longleftrightarrow>
    valid_ymd y m d \<and> ymd_get_wday y m d = w \<and> nth_of (get_ndom y m) c d = c"
proof -
  define a where "a = (w - ymd_get_wday y m 1) mod 7"
  define n where "n = get_ndom y m"
  define mx where "mx = (n - 1 - a) div 7 + 1"
  define k0 where "k0 = (if c < 0 then c + mx + 1 else c) - 1"
  have a: "0 \<le> a" "a < 7" by (simp_all add: a_def)
  have n: "28 \<le> n" "n \<le> 400" using get_mdays_range [OF assms(3,4), of y] by (auto simp: n_def get_ndom_mdays)
  have wd: "1 \<le> ymd_get_wday y m 1" "ymd_get_wday y m 1 \<le> 7"
    using wday_greg_range [of y m 1] by (auto simp: ymd_get_wday_greg)
  have eq: "ymcw_get_dom y m c w = (if mx < c \<or> c < 0 \<and> c + mx + 1 \<le> 0 then 0 else 1 + a + 7 * k0)"
    using ymcw_get_dom_eq [OF assms(3-7), of y] by (simp only: a_def n_def mx_def k0_def)
  have valid: "valid_ymd y m d \<longleftrightarrow> 1 \<le> d \<and> d \<le> n"
    using assms by (simp add: valid_ymd_def n_def get_ndom_mdays)
  have wday: "ymd_get_wday y m d = w \<longleftrightarrow> (\<exists>k. d = 1 + a + 7 * k)" if "valid_ymd y m d"
    using wday_residue [OF wd assms(5,6), of d] weekday_of_month [OF that assms(1,2)] by (simp add: a_def)
  show ?thesis
  proof
    assume l: "ymcw_get_dom y m c w = d \<and> d \<noteq> 0"
    then have d: "d = 1 + a + 7 * k0" and k: "0 \<le> k0" "k0 < mx"
      using eq assms(7) by (auto simp: k0_def split: if_splits)
    from nth_week_exists [OF a n assms(7) mx_def k0_def k] d valid wday
    show "valid_ymd y m d \<and> ymd_get_wday y m d = w \<and> nth_of (get_ndom y m) c d = c"
      by (auto simp: n_def)
  next
    assume r: "valid_ymd y m d \<and> ymd_get_wday y m d = w \<and> nth_of (get_ndom y m) c d = c"
    then obtain k where d: "d = 1 + a + 7 * k" using wday by auto
    from nth_week_unique [OF a n assms(7) _ _ this _ mx_def] r valid
    have "k = k0" "0 \<le> k" "k < mx" by (auto simp: n_def k0_def)
    then show "ymcw_get_dom y m c w = d \<and> d \<noteq> 0"
      using eq d a by (auto simp: k0_def split: if_splits)
  qed
qed

theorem ymcw_get_dom_correct_witness:
  "ymcw_get_dom 2024 2 (- 1) 4 = 29 \<and> valid_ymd 2024 2 29 \<and> ymd_get_wday 2024 2 29 = 4 \<and>
    nth_of (get_ndom 2024 2) (- 1) 29 = - 1"
proof -
  have "ymcw_get_dom 2024 2 (- 1) 4 = 29" by code_simp
  then show ?thesis using ymcw_get_dom_correct [of 2024 2 4 "- 1" 29] by simp
qed

section \<open>The n-th weekday of a year\<close>

lemma jan01_range: "1 \<le> ymd_get_wday y 1 1" "ymd_get_wday y 1 1 \<le> 7"
  using wday_greg_range [of y 1 1] by (auto simp: ymd_get_wday_greg)

lemma yd_get_wday_mod:
  assumes "0 \<le> yd" "yd \<le> 1000"
  shows "yd_get_wday y yd = (ymd_get_wday y 1 1 - 1 + (yd - 1)) mod 7 + 1"
proof -
  let ?s = "ymd_get_wday y 1 1 + (yd - 1)"
  have "u32 ?s = ?s" using jan01_range [of y] assms by (intro u32_id) auto
  moreover have "(x - 1) mod 7 + 1 = (if x mod 7 = 0 then 7 else x mod 7)" for x :: int by presburger
  moreover have "ymd_get_wday y 1 1 - 1 + (yd - 1) = ?s - 1" by simp
  ultimately show ?thesis by (simp only: yd_get_wday_def Let_def)
qed

lemma year_len_range: "365 \<le> year_len y" "year_len y \<le> 366"
  by (simp_all add: year_len_def)

lemma ycw_diff:
  assumes "1 \<le> j" "j \<le> 7" "1 \<le> w" "w \<le> (7::int)"
  shows "(if j \<le> w then w - j else 7 + w - j) = (w - j) mod 7"
proof (cases "j \<le> w")
  case False
  then have "(w - j) mod 7 = (w - j + 7) mod 7" by simp
  also have "\<dots> = w - j + 7" using False assms by (intro mod_pos_pos_trivial) auto
  finally show ?thesis using False by simp
qed (use assms in simp)

lemma year_weeks:
  assumes "0 \<le> a" "a < 7"
  shows "(year_len y - 1 - a) div 7 + 1 = (if a = 0 \<or> a = 1 \<and> y mod 4 = 0 then 53 else 52)"
proof -
  have "a \<in> {0, 1, 2, 3, 4, 5, 6}" using assms by auto
  then show ?thesis by (auto simp: year_len_def)
qed

lemma ycw_get_yday_eq:
  fixes y c w :: int
  assumes "1 \<le> w" "w \<le> 7" "c \<noteq> 0"
  defines "a \<equiv> (w - ymd_get_wday y 1 1) mod 7"
  shows "ycw_get_yday y c w =
    u32 (1 + a + 7 * ((if c < 0 then c + ((year_len y - 1 - a) div 7 + 1) + 1 else c) - 1))"
proof -
  have a: "0 \<le> a" "a < 7" by (simp_all add: a_def)
  have wrap: "u32 (u32 x - 7) = u32 (x - 7)" for x by (simp add: u32_def mod_diff_left_eq)
  have e: "ycw_get_yday y c w =
    (if 0 < c then u32 (7 * (c - 1) + a + 1)
     else if c < 0 then
       let res = u32 (7 * (53 + c) + a + 1)
       in if a = 0 then res else if a = 1 \<and> y mod 4 = 0 then res else u32 (res - 7)
     else 0)"
    unfolding ycw_get_yday_def Let_def ycw_diff [OF jan01_range assms(1,2), of y, folded a_def] ..
  have p: "7 * (c - 1) + a + 1 = 1 + a + 7 * (c - 1)"
    and n3: "7 * (53 + c) + a + 1 = 1 + a + 7 * (c + 53 + 1 - 1)"
    and n2: "7 * (53 + c) + a + 1 - 7 = 1 + a + 7 * (c + 52 + 1 - 1)"
    by simp_all
  show ?thesis
    unfolding e Let_def wrap year_weeks [OF a] unfolding p n2 unfolding n3
    using assms(3) by (cases "c < 0") (simp_all split: if_split)
qed

text \<open>
  The n-th weekday of a year: for a weekday and a count between -53 and 53 other than 0, in the
  years 1901 to 2099, a day \<open>yd\<close> of the year is what \<open>ycw_get_yday\<close> returns exactly when it
  falls on the weekday and is the \<open>c\<close>-th such day of the year, counted from the end when \<open>c\<close> is
  negative.  When the year has no such day (a count of 53 or -53), the value returned is not a day of
  the year, but nothing marks it as an error.
\<close>
theorem ycw_get_yday_correct:
  assumes "1901 \<le> y" "y \<le> 2099" "1 \<le> w" "w \<le> 7" "c \<noteq> 0" "- 53 \<le> c" "c \<le> 53" "1 \<le> yd" "yd \<le> year_len y"
  shows "ycw_get_yday y c w = yd \<longleftrightarrow> yd_get_wday y yd = w \<and> nth_of (year_len y) c yd = c"
proof -
  define a where "a = (w - ymd_get_wday y 1 1) mod 7"
  define n where "n = year_len y"
  define mx where "mx = (n - 1 - a) div 7 + 1"
  define k0 where "k0 = (if c < 0 then c + mx + 1 else c) - 1"
  have a: "0 \<le> a" "a < 7" by (simp_all add: a_def)
  have n: "28 \<le> n" "n \<le> 400" "n \<le> 366" using year_len_range [of y] by (auto simp: n_def)
  have mx: "52 \<le> mx" "mx \<le> 53" using year_weeks [OF a, of y] by (auto simp: mx_def n_def)
  have eq: "ycw_get_yday y c w = u32 (1 + a + 7 * k0)"
    using ycw_get_yday_eq [OF assms(3-5), of y] by (simp only: a_def n_def mx_def k0_def)
  have wday: "yd_get_wday y yd = w \<longleftrightarrow> (\<exists>k. yd = 1 + a + 7 * k)"
    using wday_residue [OF jan01_range assms(3,4), of y yd] yd_get_wday_mod [of yd y] assms(8,9) year_len_range [of y]
    by (simp add: a_def)
  show ?thesis
  proof
    assume l: "ycw_get_yday y c w = yd"
    have "0 \<le> k0"
    proof (rule ccontr)
      assume "\<not> 0 \<le> k0"
      then have "k0 \<le> - 1" by simp
      moreover have "- 2 \<le> k0" using assms(5,6) mx by (auto simp: k0_def)
      ultimately have bd: "- 400 \<le> 1 + a + 7 * k0" "1 + a + 7 * k0 \<le> 0" using a by auto
      show False
      proof (cases "1 + a + 7 * k0 = 0")
        case True
        then show False using l eq assms(8) by (simp add: u32_def)
      next
        case False
        with bd have "u32 (1 + a + 7 * k0) = 1 + a + 7 * k0 + 2 ^ 32"
          unfolding u32_def by (intro int_mod_pos_eq [where q = "- 1"]) auto
        then show False using l eq assms(9) n bd(1) by (simp add: n_def)
      qed
    qed
    have "u32 (1 + a + 7 * k0) = 1 + a + 7 * k0"
      using \<open>0 \<le> k0\<close> a assms(6,7) mx by (intro u32_id) (auto simp: k0_def)
    then have d: "yd = 1 + a + 7 * k0" using l eq by simp
    have "7 * k0 \<le> n - 1 - a" using d assms(9) by (simp add: n_def)
    then have "k0 < mx" unfolding mx_def by simp
    from nth_week_exists [OF a n(1,2) assms(5) mx_def k0_def \<open>0 \<le> k0\<close> this] d wday
    show "yd_get_wday y yd = w \<and> nth_of (year_len y) c yd = c" by (auto simp: n_def)
  next
    assume r: "yd_get_wday y yd = w \<and> nth_of (year_len y) c yd = c"
    then obtain k where d: "yd = 1 + a + 7 * k" using wday by auto
    from nth_week_unique [OF a n(1,2) assms(5,8) _ this _ mx_def] r assms(9)
    have "k = k0" by (auto simp: n_def k0_def)
    with d eq assms(8,9) n show "ycw_get_yday y c w = yd" by (simp add: u32_id n_def)
  qed
qed

theorem ycw_get_yday_correct_witness:
  "ycw_get_yday 2024 (- 1) 2 = 366 \<and> yd_get_wday 2024 366 = 2 \<and> nth_of (year_len 2024) (- 1) 366 = - 1"
proof -
  have "ycw_get_yday 2024 (- 1) 2 = 366" by code_simp
  then show ?thesis using ycw_get_yday_correct [of 2024 2 "- 1" 366] by (simp add: year_len_def)
qed

section \<open>ISO weeks\<close>

lemma jan01_cycle_table:
  "\<forall>y \<in> set (map int [0..<28]). get_jan01_wday y = wday_of (dayno y 1 1)"
  by code_simp

lemma jan01_wday_cycle: "wday_of (dayno (y mod 28) 1 1) = wday_of (dayno y 1 1)"
proof -
  have "y = y mod 28 + 28 * (y div 28)" by simp
  then have "(y + 3) div 4 = (y mod 28 + 3) div 4 + 7 * (y div 28)" by linarith
  moreover have year365: "365 * y = 365 * (y mod 28) + 10220 * (y div 28)"
    using mult_div_mod_eq [of 28 y] by linarith
  ultimately have "dayno y 1 1 + 3 = (dayno (y mod 28) 1 1 + 3) + 7 * (1461 * (y div 28))"
    using year365 by (simp add: dayno_def doy_def)
  then show ?thesis unfolding wday_of_def by (metis mod_mult_self2)
qed

lemma jan01_valid: "valid_ymd y 1 1"
  by (simp add: valid_ymd_def get_mdays_def mdays_def)

lemma jan01_cycle:
  assumes "1901 \<le> y" "y \<le> 2099"
  shows "get_jan01_wday y = ymd_get_wday y 1 1"
proof -
  have "y mod 28 \<in> set (map int [0..<28])" by (rule int_upt) auto
  from jan01_cycle_table [rule_format, OF this] show ?thesis
    using jan01_wday_cycle [of y] wday_greg_dayno [OF assms, of 1 1]
    by (simp add: ymd_get_wday_greg get_jan01_wday_def)
qed

lemma isowk_table:
  "\<forall>y \<in> set (map int [0..<28]).
     get_isowk y = (year_len y - 1 - (4 - get_jan01_wday y) mod 7) div 7 + 1"
  by code_simp

lemma isowk_thursdays: "get_isowk y = (year_len y - 1 - (4 - get_jan01_wday y) mod 7) div 7 + 1"
proof -
  have "(y mod 28) mod 4 = y mod 4" by (rule mod_mod_cancel) simp
  then have "get_isowk (y mod 28) = get_isowk y" "year_len (y mod 28) = year_len y"
    "get_jan01_wday (y mod 28) = get_jan01_wday y"
    by (simp_all add: get_isowk_def year_len_def get_jan01_wday_def)
  moreover have "y mod 28 \<in> set (map int [0..<28])" by (rule int_upt) auto
  ultimately show ?thesis using isowk_table by (metis (no_types, lifting))
qed

lemma hang_thursday:
  assumes "1 \<le> j" "j \<le> 7"
  shows "4 + ywd_get_jan01_hang j = 1 + (4 - j) mod 7"
proof -
  have "j \<in> {1, 2, 3, 4, 5, 6, 7}" using assms by auto
  then show ?thesis by (auto simp: ywd_get_jan01_hang_def Let_def)
qed

text \<open>
  C39: ISO weeks: for the years 1901 to 2099, a week number \<open>w\<close> that the year has (1 to
  \<open>get_isowk y\<close>, or negative and counted from the last) and a weekday \<open>d\<close>, the day that
  \<open>ywd_get_yday\<close> computes (read as a signed number, it may lie in a neighbouring year) falls on
  weekday \<open>d\<close>, and the Thursday of its Monday-to-Sunday week is a day of the year, namely its \<open>w\<close>-th
  Thursday: the definition of ISO 8601.
\<close>
theorem ywd_get_yday_iso:
  assumes "1901 \<le> y" "y \<le> 2099" "1 \<le> d" "d \<le> 7" "w \<noteq> 0" "- get_isowk y \<le> w" "w \<le> get_isowk y"
  shows "let yd = i32 (ywd_get_yday y w d); thu = yd - d + 4
    in (ymd_get_wday y 1 1 - 1 + (yd - 1)) mod 7 + 1 = d \<and>
       1 \<le> thu \<and> thu \<le> year_len y \<and> nth_of (year_len y) w thu = w"
proof -
  define j where "j = ymd_get_wday y 1 1"
  define a where "a = (4 - j) mod 7"
  define mx where "mx = (year_len y - 1 - a) div 7 + 1"
  define k where "k = (if w < 0 then w + mx + 1 else w) - 1"
  define yd where "yd = a + 7 * k + d - 3"
  have j: "1 \<le> j" "j \<le> 7" using jan01_range [of y] by (simp_all add: j_def)
  have gj: "get_jan01_wday y = j" using jan01_cycle assms by (simp add: j_def)
  have iw: "get_isowk y = mx" using isowk_thursdays [of y] by (simp add: gj mx_def a_def)
  have a: "0 \<le> a" "a < 7" by (simp_all add: a_def)
  have mx: "52 \<le> mx" "mx \<le> 53" using year_weeks [OF a, of y] by (auto simp: mx_def)
  have k: "0 \<le> k" "k < mx" using assms(5-7) by (auto simp: k_def iw)
  have hang: "ywd_get_jan01_hang j = a - 3" using hang_thursday [OF j] by (simp add: a_def)
  have "ywd_get_yday y w d = u32 yd"
    unfolding ywd_get_yday_def gj Let_def hang iw by (simp add: yd_def k_def algebra_simps)
  then have yd: "i32 (ywd_get_yday y w d) = yd"
    using a k mx assms(3,4) by (simp add: yd_def i32_u32 i32_id)
  have n: "28 \<le> year_len y" "year_len y \<le> 400" using year_len_range [of y] by auto
  have thu: "yd - d + 4 = 1 + a + 7 * k" by (simp add: yd_def)
  note t = nth_week_exists [OF a n assms(5) mx_def k_def k]
  have "(j - 1 + (yd - 1)) mod 7 = (d - 1) mod 7"
  proof -
    have "j - 1 + (yd - 1) = (d - 1) + 7 * k + ((4 - j) mod 7 - (4 - j))" by (simp add: yd_def a_def)
    moreover have "(4 - j) mod 7 - (4 - j) = 7 * (- ((4 - j) div 7))" by (simp add: minus_div_mult_eq_mod [symmetric])
    ultimately have "j - 1 + (yd - 1) = (d - 1) + 7 * (k - (4 - j) div 7)" by simp
    then show ?thesis by (metis mod_mult_self2)
  qed
  then have "(j - 1 + (yd - 1)) mod 7 + 1 = d" using assms(3,4) by simp
  then show ?thesis using t unfolding Let_def yd thu by (simp add: j_def)
qed

theorem ywd_get_yday_iso_witness:
  "ywd_get_yday 2020 53 7 = 369 \<and> (369 - 7 + 4 :: int) \<le> year_len 2020 \<and> nth_of (year_len 2020) 53 (369 - 7 + 4) = 53"
proof -
  have "ywd_get_yday 2020 53 7 = 369" "get_isowk 2020 = 53" by code_simp+
  then show ?thesis using ywd_get_yday_iso [of 2020 7 53] by (simp add: Let_def i32_id)
qed

text \<open>
  The days that lie in a neighbouring year are turned into a month and day that are off: the Monday of
  week 1 of 2015 is 29 December 2014.
\<close>

lemma ywd_to_md_neighbour: "i32 (ywd_get_yday 2015 1 1) = - 2" "ywd_to_md 2015 1 1 = (12, 30)"
  by code_simp+

section \<open>Easter\<close>

text \<open>
  The ecclesiastical full moons of 1900 to 2199 as days of the year without leap day, by golden number:
  14 April, 3 April, 23 March, and so on.
\<close>

definition paschal_moon :: "int list" where
  "paschal_moon = [104, 93, 82, 101, 90, 108, 98, 87, 106, 95, 84, 103, 92, 81, 100, 89, 107, 97, 86]"

lemma easter_epact_table:
  "\<forall>a \<in> set (map int [0..<19]).
     (let e = (19 * a + 24) mod 30 in e + (29578 - a - 32 * e) div 1024 + 59 = paschal_moon ! nat a + 7)"
  by code_simp

lemma easter_plain:
  assumes "1901 \<le> y" "y \<le> 2099"
  shows "easter_get_yday y =
    (let e = paschal_moon ! nat (y mod 19) - 52
     in e - (y mod 7 + y div 4 - 13 + e) mod 7 + 59 + (if y mod 4 = 0 then 1 else 0))"
proof -
  define a where "a = y mod 19"
  define c where "c = y div 4 div 25 + 1"
  define e where "e = (19 * a + 24) mod 30"
  define f where "f = paschal_moon ! nat a - 52"
  have a: "0 \<le> a" "a < 19" by (simp_all add: a_def)
  have "y div 100 = 19 \<or> y div 100 = 20" using assms by linarith
  then have "c = 20 \<or> c = 21" by (auto simp: c_def zdiv_zmult2_eq [symmetric])
  then have c: "u32 (3 * c) div 4 = 15" "u32 (8 * c + 5) div 25 = 6" by (auto simp: u32_id)
  have e0: "u32 (19 * a - 6 + 15 + 15) mod 30 = e"
    using a by (simp add: u32_id e_def add.commute)
  have e: "0 \<le> e" "e < 30" by (simp_all add: e_def)
  have tab: "a \<in> set (map int [0..<19])" using a by (intro int_upt) auto
  have "e + (29578 - a - 32 * e) div 1024 = f"
    using easter_epact_table [rule_format, OF tab] by (simp add: Let_def e_def f_def)
  moreover have "0 \<le> (29578 - a - 32 * e) div 1024" "(29578 - a - 32 * e) div 1024 \<le> 28"
    using a e by (auto simp: pos_imp_zdiv_nonneg_iff intro: order_trans [OF zdiv_mono1 [of _ 29578]])
  ultimately have f: "u32 (e + u32 (29578 - a - 32 * e) div 1024) = f" "f \<le> 60"
    using a e by (auto simp: u32_id)
  have f7: "7 \<le> f"
  proof -
    have "\<forall>a \<in> set (map int [0..<19]). 7 \<le> paschal_moon ! nat a - 52" by code_simp
    then show ?thesis using tab f_def by blast
  qed
  have b: "475 \<le> y div 4" "y div 4 \<le> 524" using assms by auto
  have "0 \<le> y mod 7" "y mod 7 < 7" by simp_all
  then have g: "u32 (y mod 7 + y div 4 - 15 + f + 2) = y mod 7 + y div 4 - 13 + f"
    using b f f7 by (subst u32_id) auto
  define r where "r = (y mod 7 + y div 4 - 13 + f) mod 7"
  have r: "0 \<le> r" "r < 7" by (simp_all add: r_def)
  show ?thesis
    unfolding easter_get_yday_def Let_def a_def [symmetric] c_def [symmetric] c e0 f g
      f_def [symmetric] r_def [symmetric]
    using f f7 r by (simp add: u32_id)
qed

text \<open>
  C40: Easter: for the years 1901 to 2099 \<open>easter_get_yday\<close> is the first Sunday strictly after
  the ecclesiastical full moon of the year.
\<close>
theorem easter_after_full_moon:
  assumes "1901 \<le> y" "y \<le> 2099"
  shows "let moon = paschal_moon ! nat (y mod 19) + (if y mod 4 = 0 then 1 else 0); yd = easter_get_yday y
    in moon < yd \<and> yd \<le> moon + 7 \<and> yd_get_wday y yd = SUN"
proof -
  define p where "p = paschal_moon ! nat (y mod 19)"
  define l where "l = (if y mod 4 = 0 then 1 else 0 :: int)"
  define r where "r = (y mod 7 + y div 4 - 13 + (p - 52)) mod 7"
  have yd: "easter_get_yday y = p + 7 - r + l"
    using easter_plain [OF assms] by (simp add: Let_def p_def l_def r_def)
  have r: "0 \<le> r" "r < 7" by (simp_all add: r_def)
  have tab: "y mod 19 \<in> set (map int [0..<19])" by (rule int_upt) auto
  have "\<forall>a \<in> set (map int [0..<19]). 81 \<le> paschal_moon ! nat a \<and> paschal_moon ! nat a \<le> 108" by code_simp
  then have p: "81 \<le> p" "p \<le> 108" using tab p_def by blast+
  have "yd_get_wday y (easter_get_yday y) = wday_of (dayno y 1 1 + (p + 7 - r + l - 1))"
    using yd_get_wday_mod [of "easter_get_yday y" y] p r wday_greg_dayno [OF assms, of 1 1]
    by (simp add: yd wday_of_add ymd_get_wday_greg l_def)
  also have "\<dots> = SUN"
  proof -
    define x where "x = y + y div 4 + p - 65"
    have "r = (y mod 7 + (y div 4 + p - 65)) mod 7" unfolding r_def by (simp add: algebra_simps)
    also have "\<dots> = (y + (y div 4 + p - 65)) mod 7" by (rule mod_add_left_eq)
    finally have "r = x mod 7" by (simp add: x_def algebra_simps)
    then have "r = x - 7 * (x div 7)" by (simp add: minus_mult_div_eq_mod)
    moreover have "(y + 3) div 4 = y div 4 + 1 - l" unfolding l_def by presburger
    ultimately have "365 * y + (y + 3) div 4 + 1 + (p + 7 - r + l - 1) + 3 = 7 * (52 * y + 10 + x div 7) + 6"
      by (simp add: x_def)
    then have "(365 * y + (y + 3) div 4 + 1 + (p + 7 - r + l - 1) + 3) mod 7 = 6"
      by (intro int_mod_pos_eq [where q = "52 * y + 10 + x div 7"]) auto
    then show ?thesis by (simp add: wday_of_def dayno_def doy_def)
  qed
  finally show ?thesis using r by (simp add: Let_def yd p_def [symmetric] l_def [symmetric])
qed

theorem easter_after_full_moon_witness: "easter_get_yday 2024 = 91 \<and> yd_get_wday 2024 91 = SUN"
proof -
  have "easter_get_yday 2024 = 91" by code_simp
  then show ?thesis using easter_after_full_moon [of 2024] by (simp add: Let_def)
qed

end
