(* ===== verification/CString.thy ===== *)
theory CString
  imports Prelude
begin

text \<open>
  Characters and numbers the way the C library reads and prints them: \<^verbatim>\<open>strtol\<close> and
  \<^verbatim>\<open>strtoul\<close> for base 10 on a C string (a list of characters whose end reads as NUL), and
  the conversions \<^verbatim>\<open>%d\<close> and \<^verbatim>\<open>%u\<close> of \<^verbatim>\<open>printf\<close>.
\<close>

section \<open>Characters\<close>

definition chr :: "int \<Rightarrow> char" where
  "chr n = char_of (nat n)"

definition ord :: "char \<Rightarrow> int" where
  "ord c = int (of_char c)"

definition is_digit :: "char \<Rightarrow> bool" where
  "is_digit c \<longleftrightarrow> 48 \<le> ord c \<and> ord c \<le> 57"

definition is_space :: "char \<Rightarrow> bool" where
  "is_space c \<longleftrightarrow> ord c = 32 \<or> 9 \<le> ord c \<and> ord c \<le> 13"

definition deref :: "string \<Rightarrow> char" where
  "deref s = (case s of [] \<Rightarrow> CHR 0x00 | c # _ \<Rightarrow> c)"

lemma deref_simps [simp]: "deref [] = CHR 0x00" "deref (c # s) = c"
  by (simp_all add: deref_def)

lemma ord_chr [simp]: "0 \<le> n \<Longrightarrow> n < 256 \<Longrightarrow> ord (chr n) = n"
  by (simp add: ord_def chr_def nat_mod_distrib [symmetric] zmod_int)

lemma is_digit_chr [simp]: "0 \<le> n \<Longrightarrow> n < 10 \<Longrightarrow> is_digit (chr (48 + n))"
  by (simp add: is_digit_def)

lemma digit_not_space [simp]: "is_digit c \<Longrightarrow> \<not> is_space c"
  by (auto simp: is_digit_def is_space_def)

section \<open>Reading numbers\<close>

fun read_digits :: "int \<Rightarrow> string \<Rightarrow> int \<times> string" where
  "read_digits acc [] = (acc, [])"
| "read_digits acc (c # s) =
     (if is_digit c then read_digits (acc * 10 + (ord c - 48)) s else (acc, c # s))"

definition LONG_MAX :: int where "LONG_MAX = 9223372036854775807"

text \<open>\<open>strtol s\<close> is the value and what is left: all of \<open>s\<close> when there is no number.\<close>

definition strtol :: "string \<Rightarrow> int \<times> string" where
  "strtol s =
     (let t = dropWhile is_space s;
          (neg, t) = (if deref t = CHR ''-'' then (True, tl t)
                      else if deref t = CHR ''+'' then (False, tl t) else (False, t))
      in if is_digit (deref t)
         then let (v, r) = read_digits 0 t; v = (if neg then - v else v)
              in (max (- LONG_MAX - 1) (min LONG_MAX v), r)
         else (0, s))"

definition ULONG_MAX :: int where "ULONG_MAX = 18446744073709551615"

definition strtoul :: "string \<Rightarrow> int \<times> string" where
  "strtoul s =
     (let t = dropWhile is_space s;
          (neg, t) = (if deref t = CHR ''-'' then (True, tl t)
                      else if deref t = CHR ''+'' then (False, tl t) else (False, t))
      in if is_digit (deref t)
         then let (v, r) = read_digits 0 t
              in (if ULONG_MAX < v then ULONG_MAX else if neg then (- v) mod (ULONG_MAX + 1) else v, r)
         else (0, s))"

section \<open>Printing numbers\<close>

function show_pos :: "int \<Rightarrow> string" where
  "show_pos n = (if n < 10 then [chr (48 + n)] else show_pos (n div 10) @ [chr (48 + n mod 10)])"
  by pat_completeness auto
termination by (relation "measure nat") auto

declare show_pos.simps [simp del]

definition show_int :: "int \<Rightarrow> string" where
  "show_int n = (if n < 0 then CHR ''-'' # show_pos (- n) else show_pos n)"

definition stops :: "string \<Rightarrow> bool" where
  "stops s \<longleftrightarrow> \<not> is_digit (deref s)"

lemma stops_Nil [simp]: "stops []"
  by (simp add: stops_def is_digit_def ord_def)

lemma stops_Cons [simp]: "stops (c # s) \<longleftrightarrow> \<not> is_digit c"
  by (simp add: stops_def)

lemma read_digits_stops [simp]: "stops s \<Longrightarrow> read_digits acc s = (acc, s)"
  by (cases s) simp_all

lemma read_digits_append:
  "list_all is_digit ds \<Longrightarrow> read_digits acc (ds @ s) = read_digits (fst (read_digits acc ds)) s"
  by (induction ds arbitrary: acc) auto

lemma show_pos_digits: "0 \<le> n \<Longrightarrow> list_all is_digit (show_pos n)"
proof (induction n rule: show_pos.induct)
  case (1 n)
  then show ?case by (subst show_pos.simps) (auto simp: pos_imp_zdiv_nonneg_iff)
qed

lemma show_pos_ne [simp]: "show_pos n \<noteq> []"
  by (subst show_pos.simps) simp

lemma read_show_pos: "0 \<le> n \<Longrightarrow> fst (read_digits 0 (show_pos n)) = n"
proof (induction n rule: show_pos.induct)
  case (1 n)
  show ?case
  proof (cases "n < 10")
    case True
    with 1 show ?thesis by (subst show_pos.simps) simp
  next
    case False
    with 1 have "fst (read_digits 0 (show_pos (n div 10))) = n div 10" "0 \<le> n div 10"
      by (auto simp: pos_imp_zdiv_nonneg_iff)
    then have "read_digits 0 (show_pos (n div 10) @ [chr (48 + n mod 10)]) = (n div 10 * 10 + n mod 10, [])"
      by (simp add: read_digits_append show_pos_digits)
    with False show ?thesis by (subst show_pos.simps) simp
  qed
qed

lemma read_digits_show:
  assumes "0 \<le> n" "stops s"
  shows "read_digits 0 (show_pos n @ s) = (n, s)"
  using read_digits_append [OF show_pos_digits [OF assms(1)], of 0 s] read_show_pos [OF assms(1)] assms(2)
  by simp

lemma show_pos_head: "0 \<le> n \<Longrightarrow> is_digit (deref (show_pos n @ s))"
  using show_pos_digits [of n] by (cases "show_pos n") auto

lemma deref_sign: "is_digit (deref s) \<Longrightarrow> deref s \<noteq> CHR ''-'' \<and> deref s \<noteq> CHR ''+''"
  by (auto simp: is_digit_def ord_def)

lemma dropWhile_digit: "is_digit (deref s) \<Longrightarrow> dropWhile is_space s = s"
  by (cases s) auto

lemma sign_not_space [simp]: "\<not> is_space (CHR ''-'')" "\<not> is_space (CHR ''+'')"
  by (simp_all add: is_space_def ord_def)

lemma strtol_show_pos:
  assumes "0 \<le> n" "n \<le> LONG_MAX" "stops s"
  shows "strtol (show_pos n @ s) = (n, s)" "strtol (CHR ''+'' # show_pos n @ s) = (n, s)"
    "strtol (CHR ''-'' # show_pos n @ s) = (- n, s)"
  using assms show_pos_head [of n s] deref_sign [of "show_pos n @ s"]
  by (auto simp: strtol_def dropWhile_digit read_digits_show Let_def LONG_MAX_def)

lemma strtol_show_int:
  "- LONG_MAX \<le> n \<Longrightarrow> n \<le> LONG_MAX \<Longrightarrow> stops s \<Longrightarrow> strtol (show_int n @ s) = (n, s)"
  using strtol_show_pos [of n s] strtol_show_pos(3) [of "- n" s] by (auto simp: show_int_def)

lemma strtoul_show_pos:
  assumes "0 \<le> n" "n \<le> ULONG_MAX" "stops s"
  shows "strtoul (show_pos n @ s) = (n, s)"
  using assms show_pos_head [of n s] deref_sign [of "show_pos n @ s"]
  by (auto simp: strtoul_def dropWhile_digit read_digits_show Let_def)

lemma stops_consts [simp]: "\<not> is_digit (CHR '','')" "\<not> is_digit (CHR '';'')" "\<not> is_digit (CHR ''B'')"
  "\<not> is_digit (CHR ''+'')" "\<not> is_digit (CHR ''-'')" "\<not> is_digit (CHR 0x00)"
  by (simp_all add: is_digit_def ord_def)

end
