(* ===== verification/RangeShift.thy ===== *)
theory RangeShift
  imports Instant CString
begin

text \<open>
  Ranges of instants with the relations of \<^verbatim>\<open>src/src/range.h\<close>, and the packed shifts of
  \<^verbatim>\<open>src/src/shift.h\<close> with their text form: parsing is \<open>snarf_shift\<close> of
  \<^verbatim>\<open>src/src/evical.c\<close>, printing the SHIFT part of \<open>send_rrul\<close> there.
\<close>

unbundle bit_operations_syntax

section \<open>Ranges\<close>

record range =
  r_beg :: instant
  r_end :: instant

definition echs_range_dur :: "range \<Rightarrow> int" where
  "echs_range_dur r = echs_instant_diff (r_end r) (r_beg r)"

definition echs_nul_range :: range where
  "echs_nul_range = \<lparr>r_beg = echs_nul_instant, r_end = echs_nul_instant\<rparr>"

definition echs_nul_range_p :: "range \<Rightarrow> bool" where
  "echs_nul_range_p r \<longleftrightarrow> echs_nul_instant_p (r_end r)"

definition echs_max_range :: range where
  "echs_max_range = \<lparr>r_beg = echs_min_instant, r_end = echs_max_instant\<rparr>"

definition echs_max_range_p :: "range \<Rightarrow> bool" where
  "echs_max_range_p r \<longleftrightarrow> echs_min_instant_p (r_beg r) \<and> echs_max_instant_p (r_end r)"

definition echs_min_range :: range where
  "echs_min_range = \<lparr>r_beg = echs_max_instant, r_end = echs_min_instant\<rparr>"

definition echs_min_range_p :: "range \<Rightarrow> bool" where
  "echs_min_range_p r \<longleftrightarrow> echs_instant_le_p (r_end r) (r_beg r)"

definition echs_range_precedes_p :: "range \<Rightarrow> range \<Rightarrow> bool" where
  "echs_range_precedes_p a b \<longleftrightarrow> echs_instant_lt_p (r_end a) (r_beg b)"

definition echs_range_meets_p :: "range \<Rightarrow> range \<Rightarrow> bool" where
  "echs_range_meets_p a b \<longleftrightarrow> echs_instant_eq_p (r_end a) (r_beg b)"

definition echs_range_overlaps_p :: "range \<Rightarrow> range \<Rightarrow> bool" where
  "echs_range_overlaps_p a b \<longleftrightarrow>
     echs_instant_lt_p (r_beg a) (r_end b) \<and> echs_instant_lt_p (r_beg b) (r_end a)"

definition echs_range_finishes_p :: "range \<Rightarrow> range \<Rightarrow> bool" where
  "echs_range_finishes_p a b \<longleftrightarrow> echs_instant_eq_p (r_end a) (r_end b)"

definition echs_range_contains_p :: "range \<Rightarrow> range \<Rightarrow> bool" where
  "echs_range_contains_p a b \<longleftrightarrow>
     echs_instant_lt_p (r_beg a) (r_beg b) \<and> echs_instant_lt_p (r_end b) (r_end a)"

definition echs_range_starts_p :: "range \<Rightarrow> range \<Rightarrow> bool" where
  "echs_range_starts_p a b \<longleftrightarrow> echs_instant_eq_p (r_beg a) (r_beg b)"

definition echs_range_equals_p :: "range \<Rightarrow> range \<Rightarrow> bool" where
  "echs_range_equals_p a b \<longleftrightarrow>
     echs_instant_eq_p (r_beg a) (r_beg b) \<and> echs_instant_eq_p (r_end a) (r_end b)"

section \<open>Shifts\<close>

type_synonym echs_shift = int

definition echs_shift_bday_p :: "echs_shift \<Rightarrow> bool" where
  "echs_shift_bday_p sh \<longleftrightarrow> sh AND 0xffff \<noteq> 0"

definition echs_shift_neg_p :: "echs_shift \<Rightarrow> bool" where
  "echs_shift_neg_p sh \<longleftrightarrow> sh AND 1 \<noteq> 0"

definition echs_shift_inv_p :: "echs_shift \<Rightarrow> bool" where
  "echs_shift_inv_p sh \<longleftrightarrow> sh AND 2 \<noteq> 0"

definition echs_shift_bvalue :: "echs_shift \<Rightarrow> int" where
  "echs_shift_bvalue sh =
     (let x = drop_bit 2 (sh AND 0xffff) in if sh AND 1 = 0 then x else - x)"

definition echs_shift_dvalue :: "echs_shift \<Rightarrow> int" where
  "echs_shift_dvalue sh = drop_bit 16 sh"

definition echs_shift_absval :: "echs_shift \<Rightarrow> int" where
  "echs_shift_absval sh = drop_bit 2 (sh AND 0xffff)"

text \<open>
  The parser: the labels \<open>more\<close> and \<open>again\<close> are two functions, \<open>sem\<close>, \<open>b\<close> and \<open>d\<close> the locals.
  Assigning a \<open>long\<close> to the \<open>int\<close> counters truncates.
\<close>

definition shift_pack :: "int \<Rightarrow> int \<Rightarrow> int \<Rightarrow> echs_shift" where
  "shift_pack d b sem = i32 ((push_bit 16 d XOR push_bit 2 b) XOR sem)"

definition shift_fin :: "int \<Rightarrow> int \<Rightarrow> int \<Rightarrow> echs_shift" where
  "shift_fin d b sem =
     (let sem = sem OR (if b < 0 then 1 else 0); sem = sem OR (if b = 0 then 2 else 0);
          b = (if 0 \<le> b then b else - b)
      in shift_pack d b sem)"

datatype again = Abort | Final int int | More int int string

fun shift_again :: "int \<Rightarrow> int \<Rightarrow> int \<Rightarrow> string \<Rightarrow> again" where
  "shift_again sem b tmp [] = Final sem (i32 (b + tmp))"
| "shift_again sem b tmp (c # s) =
     (if c = CHR 0x00 \<or> c = CHR '';'' then Final sem (i32 (b + tmp))
      else if c = CHR ''+'' then shift_again (sem OR (if 0 \<le> tmp then 2 else 0)) b tmp s
      else if c = CHR ''-'' then shift_again (sem OR (if tmp < 0 then 2 else 0)) b tmp s
      else if c = CHR '','' then More sem (i32 (b + tmp)) s
      else Abort)"

lemma read_digits_length: "length (snd (read_digits acc s)) \<le> length s"
  by (induction acc s rule: read_digits.induct) auto

lemma strtol_length: "strtol s = (v, r) \<Longrightarrow> length r \<le> length s"
proof -
  assume a: "strtol s = (v, r)"
  let ?t = "dropWhile is_space s"
  have "length ?t \<le> length s" by (simp add: length_dropWhile_le)
  moreover have "length (snd (read_digits 0 ?t)) \<le> length ?t" "length (snd (read_digits 0 (tl ?t))) \<le> length ?t"
    using read_digits_length [of 0 ?t] read_digits_length [of 0 "tl ?t"] by auto
  ultimately show ?thesis using a by (auto simp: strtol_def Let_def split: if_splits prod.splits)
qed

lemma shift_again_length: "shift_again sem b tmp s = More sem' b' s' \<Longrightarrow> length s' < length s"
  by (induction sem b tmp s rule: shift_again.induct) (auto split: if_splits)

function shift_more :: "int \<Rightarrow> int \<Rightarrow> int \<Rightarrow> string \<Rightarrow> echs_shift" where
  "shift_more sem b d s =
     (case strtol s of (tmp, s) \<Rightarrow>
       (case s of
          [] \<Rightarrow> shift_pack (i32 (d + tmp)) b sem
        | c # s \<Rightarrow>
            if c = CHR ''b'' \<or> c = CHR ''B'' then
              (case shift_again sem b tmp s of
                 Abort \<Rightarrow> 0
               | Final sem b \<Rightarrow> shift_fin d b sem
               | More sem b s \<Rightarrow> shift_more sem b d s)
            else if c = CHR '','' then shift_more sem b (i32 (d + tmp)) s
            else if c = CHR 0x00 \<or> c = CHR '';'' then shift_pack (i32 (d + tmp)) b sem
            else 0))"
  by pat_completeness auto
termination
  by (relation "measure (\<lambda>(sem, b, d, s). length s)")
    (auto dest!: strtol_length [OF sym] shift_again_length)

declare shift_more.simps [simp del]

definition snarf_shift :: "string \<Rightarrow> echs_shift" where
  "snarf_shift s = shift_more 0 0 0 s"

definition send_shift :: "echs_shift \<Rightarrow> string" where
  "send_shift sh =
     (if echs_shift_dvalue sh \<noteq> 0 then show_int (drop_bit 16 sh) else []) @
     (if echs_shift_bday_p sh then
        (if echs_shift_dvalue sh \<noteq> 0 then '','' else []) @
        (if echs_shift_neg_p sh then ''-'' else ''+'') @
        show_int (echs_shift_absval sh) @ ''B'' @
        (if echs_shift_inv_p sh \<and> echs_shift_absval sh \<noteq> 0
         then (if echs_shift_neg_p sh then ''-'' else ''+'') else [])
      else [])"

section \<open>What a shift holds\<close>

lemma int_and_high_low:
  "0 \<le> (b :: int) \<Longrightarrow> b < 2 ^ n \<Longrightarrow> push_bit n a AND b = 0"
proof -
  assume "0 \<le> b" "b < 2 ^ n"
  then have "b = take_bit n b" by (simp add: take_bit_int_eq_self)
  then show ?thesis by (metis (no_types, lifting) bit_eq_iff bit_and_iff bit_push_bit_iff bit_take_bit_iff bit_0_eq bot_apply bot_bool_def not_le)
qed

lemma xor_high_low: "0 \<le> (b :: int) \<Longrightarrow> b < 2 ^ n \<Longrightarrow> push_bit n a XOR b = a * 2 ^ n + b"
  using disjunctive_add_eq_xor [OF int_and_high_low, of b n a] by (simp add: push_bit_eq_mult)

lemma shift_pack_eq:
  assumes "- 32768 \<le> d" "d < 32768" "0 \<le> b" "b < 16384" "0 \<le> s" "s < 4"
  shows "shift_pack d b s = d * 65536 + b * 4 + s"
proof -
  have b: "push_bit 2 b = b * 4" by (simp add: push_bit_eq_mult)
  have "push_bit 16 d XOR push_bit 2 b = push_bit 2 (push_bit 14 d + b)"
    using xor_high_low [of "push_bit 2 b" 16 d] assms by (simp add: push_bit_eq_mult)
  moreover have "\<dots> XOR s = push_bit 14 d * 4 + b * 4 + s"
    using xor_high_low [of s 2 "push_bit 14 d + b"] assms by simp
  ultimately show ?thesis
    using assms by (simp add: shift_pack_def i32_id push_bit_eq_mult)
qed

lemma shift_fields:
  assumes "sh = d * 65536 + b * 4 + s" "0 \<le> b" "b < 16384" "0 \<le> s" "s < (4::int)"
  shows "sh AND 0xffff = b * 4 + s" "drop_bit 16 sh = d" "sh AND 1 = s mod 2" "(sh AND 2 = 0) = (s < 2)"
    "drop_bit 2 (sh AND 0xffff) = b"
proof -
  have "sh AND 0xffff = take_bit 16 sh" by (simp add: take_bit_eq_mask mask_eq_exp_minus_1)
  then have "sh AND 0xffff = sh mod 65536" by (simp add: take_bit_eq_mod)
  also have "\<dots> = b * 4 + s" using assms by (intro int_mod_pos_eq [where q = d]) auto
  finally show l: "sh AND 0xffff = b * 4 + s" .
  show "drop_bit 16 sh = d"
    unfolding drop_bit_eq_div using assms by (intro int_div_pos_eq [where r = "b * 4 + s"]) auto
  show "sh AND 1 = s mod 2" using assms by (simp add: and_one_eq mod_simps) presburger
  have "sh AND 2 = 0 \<longleftrightarrow> even (sh div 2)"
    using and_exp_eq_0_iff_not_bit [of sh 1] by (simp add: bit_iff_odd)
  moreover have "sh div 2 = 2 * (d * 16384 + b) + s div 2" using assms(1) by simp
  ultimately show "(sh AND 2 = 0) = (s < 2)" using assms(4,5) by (simp, presburger)
  show "drop_bit 2 (sh AND 0xffff) = b"
    unfolding l drop_bit_eq_div using assms by (intro int_div_pos_eq [where r = s]) auto
qed

section \<open>The relations of ranges\<close>

lemma inst_u_inj:
  assumes "inst_bits x" "inst_bits y" "inst_u x = inst_u y"
  shows "x = y"
proof -
  note e0 = assms(3) [unfolded inst_u_def]
  have b: "i_m x \<in> {0..<256}" "i_m y \<in> {0..<256}" "i_d x \<in> {0..<256}" "i_d y \<in> {0..<256}"
    "i_H x \<in> {0..<256}" "i_H y \<in> {0..<256}" "i_M x \<in> {0..<256}" "i_M y \<in> {0..<256}"
    "i_S x \<in> {0..<64}" "i_S y \<in> {0..<64}" "i_ms x \<in> {0..<1024}" "i_ms y \<in> {0..<1024}"
    using assms by (simp_all add: inst_bits_def)
  note ms = radix_inj [OF e0] note S = radix_inj [OF conjunct1 [OF ms]]
  note M = radix_inj [OF conjunct1 [OF S]] note H = radix_inj [OF conjunct1 [OF M]]
  note d = radix_inj [OF conjunct1 [OF H]] note m = radix_inj [OF conjunct1 [OF d]]
  have "i_y x = i_y y \<and> i_m x = i_m y" by (rule m) (use b in auto)
  moreover have "i_d x = i_d y" by (rule conjunct2 [OF d]) (use b in auto)
  moreover have "i_H x = i_H y" by (rule conjunct2 [OF H]) (use b in auto)
  moreover have "i_M x = i_M y" by (rule conjunct2 [OF M]) (use b in auto)
  moreover have "i_S x = i_S y" by (rule conjunct2 [OF S]) (use b in auto)
  moreover have "i_ms x = i_ms y" by (rule conjunct2 [OF ms]) (use b in auto)
  ultimately show ?thesis by simp
qed

lemma inst_up_bits: "inst_bits x \<Longrightarrow> inst_bits (inst_up x)"
  by (simp add: inst_bits_def inst_up_def)

lemma succ_mod_inj:
  fixes a b n :: int
  assumes "(a + 1) mod n = (b + 1) mod n" "0 \<le> a" "a < n" "0 \<le> b" "b < n"
  shows "a = b"
proof -
  have "a = (a + 1 - 1) mod n" using assms by simp
  also have "\<dots> = ((a + 1) mod n - 1) mod n" by (simp only: mod_diff_left_eq)
  also have "\<dots> = (b + 1 - 1) mod n" unfolding assms(1) by (simp only: mod_diff_left_eq)
  finally show ?thesis using assms by simp
qed

lemma inst_lt_total:
  assumes "inst_bits x" "inst_bits y"
  shows "\<not> echs_instant_lt_p x y \<longleftrightarrow> echs_instant_lt_p y x \<or> echs_instant_eq_p y x"
proof -
  have "x = y" if "inst_u (inst_up x) = inst_u (inst_up y)"
  proof -
    have "inst_up x = inst_up y" using inst_u_inj inst_up_bits assms that by blast
    then show "x = y"
      using assms succ_mod_inj [of "i_H x" 256 "i_H y"] succ_mod_inj [of "i_ms x" 1024 "i_ms y"]
      by (cases x; cases y) (auto simp: inst_up_def inst_bits_def)
  qed
  then have "inst_u (inst_up x) = inst_u (inst_up y) \<longleftrightarrow> x = y" by auto
  moreover have "inst_u y = inst_u x \<longleftrightarrow> x = y" using inst_u_inj [of x y] assms by auto
  ultimately show ?thesis
    using linorder_less_linear [of "inst_u (inst_up x)" "inst_u (inst_up y)"]
    by (auto simp: echs_instant_lt_p_def echs_instant_eq_p_def)
qed

text \<open>
  Two ranges overlap exactly when neither precedes and neither meets the other, for all values
  their instants can hold.
\<close>
theorem range_overlap_relations:
  assumes "inst_bits (r_beg a)" "inst_bits (r_end a)" "inst_bits (r_beg b)" "inst_bits (r_end b)"
  shows "echs_range_overlaps_p a b \<longleftrightarrow>
    \<not> echs_range_precedes_p a b \<and> \<not> echs_range_meets_p a b \<and>
    \<not> echs_range_precedes_p b a \<and> \<not> echs_range_meets_p b a"
  using inst_lt_total [OF assms(1,4)] inst_lt_total [OF assms(3,2)]
  by (auto simp: echs_range_overlaps_p_def echs_range_precedes_p_def echs_range_meets_p_def)

theorem range_overlap_relations_witness:
  "\<not> echs_range_overlaps_p echs_nul_range echs_nul_range"
proof -
  have b: "inst_bits (r_beg echs_nul_range)" "inst_bits (r_end echs_nul_range)"
    by (simp_all add: echs_nul_range_def echs_nul_instant_def inst_bits_def)
  have m: "echs_range_meets_p echs_nul_range echs_nul_range"
    by (simp add: echs_range_meets_p_def echs_nul_range_def echs_instant_eq_p_def)
  show ?thesis unfolding range_overlap_relations [OF b b] using m by simp
qed

section \<open>Shifts through their text form\<close>

definition shift_sem :: "int \<Rightarrow> bool \<Rightarrow> int" where
  "shift_sem b iv = (if b < 0 then 1 else 0) + (if iv \<or> b = 0 then 2 else 0)"

lemma shift_fin_eq:
  assumes "- 32768 \<le> d" "d < 32768" "\<bar>b\<bar> < 16384"
  shows "shift_fin d b (if iv then 2 else 0) = d * 65536 + \<bar>b\<bar> * 4 + shift_sem b iv"
proof -
  let ?s = "(if iv then 2 else 0) OR (if b < 0 then 1 else 0) OR (if b = 0 then 2 else 0) :: int"
  have "?s = shift_sem b iv" by (simp add: shift_sem_def)
  moreover have "(if 0 \<le> b then b else - b) = \<bar>b\<bar>" by simp
  moreover have "0 \<le> shift_sem b iv" "shift_sem b iv < 4" by (simp_all add: shift_sem_def)
  ultimately show ?thesis
    using shift_pack_eq [of d "\<bar>b\<bar>" "shift_sem b iv"] assms
    by (simp add: shift_fin_def Let_def or.assoc)
qed

lemma shift_views:
  fixes d b :: int and iv :: bool
  assumes "- 32768 \<le> d" "d < 32768" "\<bar>b\<bar> < 16384"
  defines "sh \<equiv> shift_fin d b (if iv then 2 else 0)"
  shows "echs_shift_dvalue sh = d" "echs_shift_bvalue sh = b" "echs_shift_absval sh = \<bar>b\<bar>"
    "echs_shift_neg_p sh \<longleftrightarrow> b < 0" "echs_shift_inv_p sh \<longleftrightarrow> iv \<or> b = 0" "echs_shift_bday_p sh"
proof -
  let ?s = "shift_sem b iv"
  have s: "0 \<le> ?s" "?s < 4" "?s mod 2 = (if b < 0 then 1 else 0)" "?s < 2 \<longleftrightarrow> \<not> (iv \<or> b = 0)"
    by (auto simp: shift_sem_def)
  have "sh = d * 65536 + \<bar>b\<bar> * 4 + ?s" unfolding sh_def using assms by (intro shift_fin_eq)
  note f = shift_fields [OF this _ _ s(1,2)]
  show "echs_shift_dvalue sh = d" using f assms by (simp add: echs_shift_dvalue_def)
  show "echs_shift_absval sh = \<bar>b\<bar>" using f assms by (simp add: echs_shift_absval_def)
  show "echs_shift_bvalue sh = b" using f assms s by (simp add: echs_shift_bvalue_def)
  show "echs_shift_neg_p sh \<longleftrightarrow> b < 0" using f assms s by (simp add: echs_shift_neg_p_def)
  show "echs_shift_inv_p sh \<longleftrightarrow> iv \<or> b = 0" using f assms s by (simp add: echs_shift_inv_p_def)
  show "echs_shift_bday_p sh" using f assms s by (auto simp: echs_shift_bday_p_def shift_sem_def)
qed

definition ends_field :: "string \<Rightarrow> bool" where
  "ends_field s \<longleftrightarrow> deref s = CHR 0x00 \<or> deref s = CHR '';''"

lemma ends_field_stops: "ends_field s \<Longrightarrow> stops s"
  by (auto simp: ends_field_def stops_def)

lemma shift_again_end: "ends_field s \<Longrightarrow> shift_again sem b tmp s = Final sem (i32 (b + tmp))"
  by (cases s) (auto simp: ends_field_def)

lemma shift_more_days:
  assumes "- 32768 \<le> d" "d < 32768" "ends_field s"
  shows "shift_more sem b 0 (show_int d @ s) = shift_pack d b sem"
    "shift_more sem b 0 (show_int d @ '','' @ s') = shift_more sem b d s'"
proof -
  have "strtol (show_int d @ s) = (d, s)" "strtol (show_int d @ '','' @ s') = (d, '','' @ s')"
    using assms strtol_show_int [of d s] strtol_show_int [of d "'','' @ s'"] ends_field_stops [of s]
    by (simp_all add: LONG_MAX_def)
  then show "shift_more sem b 0 (show_int d @ s) = shift_pack d b sem"
    "shift_more sem b 0 (show_int d @ '','' @ s') = shift_more sem b d s'"
    using assms by (subst shift_more.simps; cases s; auto simp: i32_id ends_field_def)+
qed

lemma strtol_end:
  assumes "ends_field s"
  shows "strtol s = (0, s)"
proof -
  have "dropWhile is_space s = s" "\<not> is_digit (deref s)"
    using assms by (cases s; auto simp: ends_field_def is_space_def ord_def)+
  moreover have "deref s \<noteq> CHR ''-''" "deref s \<noteq> CHR ''+''" using assms by (auto simp: ends_field_def)
  ultimately show ?thesis by (simp add: strtol_def)
qed

text \<open>What the business-day part of the text reads as.\<close>

lemma shift_more_bdays:
  assumes "\<bar>b\<bar> < 16384" "ends_field s"
  shows "shift_more 0 0 d ((if b < 0 then ''-'' else ''+'') @ show_int \<bar>b\<bar> @ ''B'' @
      (if iv then (if b < 0 then ''-'' else ''+'') else []) @ s) =
    shift_fin d b (if iv then 2 else 0)"
proof -
  let ?t = "''B'' @ (if iv then (if b < 0 then ''-'' else ''+'') else []) @ s"
  have "strtol ((if b < 0 then ''-'' else ''+'') @ show_int \<bar>b\<bar> @ ?t) = (b, ?t)"
  proof (cases "b < 0")
    case True
    then show ?thesis using strtol_show_pos(3) [of "- b" ?t] assms(1) by (simp add: show_int_def LONG_MAX_def)
  next
    case False
    then show ?thesis using strtol_show_pos(2) [of b ?t] assms(1) by (simp add: show_int_def LONG_MAX_def)
  qed
  then show ?thesis
    using assms by (subst shift_more.simps) (simp add: shift_again_end i32_id)
qed

text \<open>
  A shift survives its text form: for a day movement of 16 bits and fewer than 16384 business
  days of either sign, with or without the inverted semantics, the accessors read the components of
  the packed shift, and what is printed into a recurrence rule parses back to the same shift.
\<close>
theorem shift_text_roundtrip:
  assumes "- 32768 \<le> d" "d < 32768" "\<bar>b\<bar> < 16384" "ends_field s"
  shows "let sh = shift_fin d b (if iv then 2 else 0); pure = shift_pack d 0 0 in
    echs_shift_dvalue sh = d \<and> echs_shift_bvalue sh = b \<and> echs_shift_absval sh = \<bar>b\<bar> \<and>
    (echs_shift_neg_p sh \<longleftrightarrow> b < 0) \<and> (echs_shift_inv_p sh \<longleftrightarrow> iv \<or> b = 0) \<and>
    snarf_shift (send_shift sh @ s) = sh \<and>
    echs_shift_dvalue pure = d \<and> \<not> echs_shift_bday_p pure \<and> snarf_shift (send_shift pure @ s) = pure"
proof -
  let ?sh = "shift_fin d b (if iv then 2 else 0)" and ?p = "shift_pack d 0 0"
  note v = shift_views [OF assms(1-3), of iv]
  have iv: "shift_fin d 0 2 = shift_fin d 0 0" by (simp add: shift_fin_def)
  let ?g = "if b < 0 then ''-'' else ''+''"
  let ?B = "?g @ show_int \<bar>b\<bar> @ ''B'' @ (if iv \<and> b \<noteq> 0 then ?g else []) @ s"
  have j: "((iv \<or> b = 0) \<and> \<bar>b\<bar> \<noteq> 0) = (iv \<and> b \<noteq> 0)" by auto
  have "shift_fin d b (if iv \<and> b \<noteq> 0 then 2 else 0) = ?sh" by (auto simp: shift_fin_def)
  then have B: "shift_more 0 0 d ?B = ?sh"
    using shift_more_bdays [OF assms(3,4), of d "iv \<and> b \<noteq> 0"] by argo
  have send: "send_shift ?sh @ s = (if d \<noteq> 0 then show_int d @ '','' else []) @ ?B"
    unfolding send_shift_def v(3-5) if_P [OF v(6)] echs_shift_dvalue_def [symmetric] v(1) j by simp
  have "snarf_shift (send_shift ?sh @ s) = ?sh"
  proof (cases "d = 0")
    case True
    then show ?thesis using B unfolding snarf_shift_def send by simp
  next
    case False
    then show ?thesis
      using B shift_more_days(2) [OF assms(1,2,4), of 0 0 ?B] unfolding snarf_shift_def send by simp
  qed
  moreover
  have p: "?p = d * 65536" using shift_pack_eq [OF assms(1,2), of 0 0] by simp
  have pv: "echs_shift_dvalue ?p = d" "\<not> echs_shift_bday_p ?p"
    using shift_fields [of ?p d 0 0] p by (simp_all add: echs_shift_dvalue_def echs_shift_bday_p_def)
  have "snarf_shift (send_shift ?p @ s) = ?p"
  proof (cases "d = 0")
    case True
    have "shift_more 0 0 0 s = shift_pack 0 0 0"
      using strtol_end [OF assms(4)] assms(4)
      by (subst shift_more.simps) (cases s; auto simp: i32_id ends_field_def)
    with True pv show ?thesis by (simp add: snarf_shift_def send_shift_def)
  next
    case False
    then show ?thesis
      using pv shift_more_days(1) [OF assms(1,2,4), of 0 0]
      by (simp add: snarf_shift_def send_shift_def echs_shift_dvalue_def)
  qed
  ultimately show ?thesis using v pv by (simp add: Let_def)
qed

theorem shift_text_roundtrip_witness:
  "snarf_shift (send_shift (shift_fin (- 3) (- 5) 2) @ '';COUNT=2'') = shift_fin (- 3) (- 5) 2"
  using shift_text_roundtrip [of "- 3" "- 5" "'';COUNT=2''" True] by (simp add: Let_def ends_field_def)

end
