(* ===== verification/Rrule.thy ===== *)
theory Rrule
  imports BitInt BitIntN DateConv RangeShift
begin

text \<open>
  The recurrence rules of \<^verbatim>\<open>src/src/evrrul.h\<close> and the day sets of
  \<^verbatim>\<open>src/src/evrrul.c\<close>: every BY part fills a set of candidate days of a year (a
  \<open>bitint383\<close> of \<open>pack_cand\<close> values), BYSETPOS picks from it, SHIFT moves what is left.
  A loop over a degrading set is a fold over the list its iterator delivers.
\<close>

section \<open>Rules\<close>

datatype echs_freq = FREQ_NONE | FREQ_YEARLY | FREQ_MONTHLY | FREQ_WEEKLY | FREQ_DAILY
  | FREQ_HOURLY | FREQ_MINUTELY | FREQ_SECONDLY

record rrulsp =
  rr_freq :: echs_freq
  rr_scale :: echs_scale
  rr_count :: int
  rr_inter :: int
  rr_until :: instant
  rr_shift :: echs_shift
  rr_dom :: bitint31
  rr_doy :: bitintn
  rr_dow :: bitintn
  rr_mon :: bituint31
  rr_wk :: bitint63
  rr_H :: bituint31
  rr_M :: bituint63
  rr_S :: bituint63
  rr_pos :: bitintn
  rr_easter :: bitintn

text \<open>The rule that parsing starts from.\<close>

definition nul_rule :: rrulsp where
  "nul_rule = \<lparr>rr_freq = FREQ_NONE, rr_scale = SCALE_GREGORIAN, rr_count = - 1, rr_inter = 1,
     rr_until = echs_max_instant, rr_shift = 0, rr_dom = bi_empty, rr_doy = bin_empty 12, rr_dow = bin_empty 14,
     rr_mon = 0, rr_wk = bi_empty, rr_H = 0, rr_M = 0, rr_S = 0, rr_pos = bin_empty 12, rr_easter = bin_empty 12\<rparr>"

definition GRP_CCH_OFF :: nat where "GRP_CCH_OFF = 64"

type_synonym wd_mask = "8 word"

definition md_match_p :: "md \<Rightarrow> bituint31 \<Rightarrow> bitint31 \<Rightarrow> bool" where
  "md_match_p md m d =
     (let mp = bui31_has_bits_p m; dp = bi31_has_bits_p d
      in if \<not> mp \<and> \<not> dp then True
         else if mp \<and> dp then bui31_has_bit_p m (nat (fst md)) \<and> bi31_has_bit_p d (snd md)
         else if mp then bui31_has_bit_p m (nat (fst md))
         else if dp then bi31_has_bit_p d (snd md)
         else False)"

text \<open>A packed candidate is handed to the \<open>int\<close> argument of \<open>ass_bi383\<close>.\<close>

definition add_cand :: "bitintn \<Rightarrow> int \<Rightarrow> int \<Rightarrow> bitintn" where
  "add_cand c m d = ass_bi383 c (i32 (pack_cand m d))"

text \<open>\<open>wd_mask >> 1U\<close> and \<open>(wd_mask >> w) & 0b1U\<close>.\<close>

definition wd_any :: "wd_mask \<Rightarrow> bool" where
  "wd_any wd \<longleftrightarrow> drop_bit 1 wd \<noteq> 0"

definition wd_has :: "wd_mask \<Rightarrow> int \<Rightarrow> bool" where
  "wd_has wd w \<longleftrightarrow> bit wd (nat w)"

definition add_wd :: "wd_mask \<Rightarrow> int \<Rightarrow> wd_mask" where
  "add_wd wd tmp = (if MON \<le> tmp \<and> tmp \<le> SUN then wd OR push_bit (nat tmp) 1 else wd OR 1)"

definition wd_mask_of :: "bitintn \<Rightarrow> wd_mask" where
  "wd_mask_of dow = foldl add_wd 0 (bi447_list dow)"

section \<open>Filling the candidates\<close>

definition fill_yly_ywd :: "bitintn \<Rightarrow> int \<Rightarrow> bitint63 \<Rightarrow> bitintn \<Rightarrow> bitintn" where
  "fill_yly_ywd cand y woy dow =
     foldl (\<lambda>c wk. foldl (\<lambda>c dc.
         if dc \<le> MIR \<or> SUN < dc then c
         else case ywd_to_md y wk dc of (m, d) \<Rightarrow> if m = 0 then c else add_cand c m d)
       c (bi447_list dow)) cand (bi63_list woy)"

definition fill_mly_ymcw :: "bitintn \<Rightarrow> int \<Rightarrow> int \<Rightarrow> bitintn \<Rightarrow> bitintn" where
  "fill_mly_ymcw cand y m dow =
     foldl (\<lambda>c tmp. case unpack_cd tmp of (cnt, w) \<Rightarrow>
         if cnt = 0 \<or> ymcw_get_dom y m cnt w = 0 then c else add_cand c m (ymcw_get_dom y m cnt w))
       cand (bi447_list dow)"

definition fill_yly_ymcw :: "bitintn \<Rightarrow> int \<Rightarrow> bitintn \<Rightarrow> int list \<Rightarrow> bitintn" where
  "fill_yly_ymcw cand y dow ms = foldl (\<lambda>c m. fill_mly_ymcw c y m dow) cand ms"

definition fill_yly_ycw :: "bitintn \<Rightarrow> int \<Rightarrow> bitintn \<Rightarrow> bitintn" where
  "fill_yly_ycw cand y dow =
     foldl (\<lambda>c tmp. case unpack_cd tmp of (cnt, w) \<Rightarrow>
         let yd = ycw_get_yday y cnt w
         in if cnt = 0 \<or> yd = 0 then c
            else case yd_to_md y (i32 yd) of (m, d) \<Rightarrow> if m = 0 then c else add_cand c m d)
       cand (bi447_list dow)"

definition fill_yly_yd :: "bitintn \<Rightarrow> int \<Rightarrow> bitintn \<Rightarrow> wd_mask \<Rightarrow> bitintn" where
  "fill_yly_yd cand y doys wd =
     foldl (\<lambda>c yd.
         if wd_any wd \<and> \<not> wd_has wd (yd_get_wday y (u32 yd)) then c
         else case yd_to_md y yd of (m, d) \<Rightarrow> if m = 0 then c else add_cand c m d)
       cand (bi383_list doys)"

definition fill_yly_yd_all :: "bitintn \<Rightarrow> int \<Rightarrow> wd_mask \<Rightarrow> bitintn" where
  "fill_yly_yd_all cand y wd =
     (if \<not> wd_any wd then cand
      else fst (foldl (\<lambda>(c, w, md) yd.
             (if wd_has wd w then add_cand c (fst md) (snd md) else c, inc_wd w, inc_md md y))
           (cand, ymd_get_wday y 1 1, (1, 1)) [1..if y mod 4 \<noteq> 0 then 365 else 366]))"

definition md_all :: "echs_scale \<Rightarrow> int \<Rightarrow> wd_mask \<Rightarrow> bitintn \<Rightarrow> int \<Rightarrow> bitintn" where
  "md_all s y wd cand m =
     fst (foldl (\<lambda>(c, w) d. (if wd_has wd w then add_cand c m d else c, inc_wd w))
       (cand, ymd_get_wday y m 1) [1..echs_scale_ndim s y m])"

definition fill_yly_md_all :: "bitintn \<Rightarrow> echs_scale \<Rightarrow> int \<Rightarrow> int list \<Rightarrow> wd_mask \<Rightarrow> bitintn" where
  "fill_yly_md_all cand s y ms wd =
     (if \<not> wd_any wd then cand else foldl (md_all s y wd) cand ms)"

definition fill_yly_eastr ::
  "bitintn \<Rightarrow> int \<Rightarrow> bitintn \<Rightarrow> bituint31 \<Rightarrow> bitint31 \<Rightarrow> wd_mask \<Rightarrow> bitintn" where
  "fill_yly_eastr cand y s ms ds wd =
     foldl (\<lambda>c offs.
         if wd_any wd \<and> (0 \<le> offs \<and> \<not> wd_has wd (offs mod 7) \<or>
              offs < 0 \<and> \<not> wd_has wd (7 - (- offs) mod 7)) then c
         else
           let yd = easter_get_yday y; yd' = u32 (yd + offs)
           in if yd = 0 \<or> yd' = 0 \<or> 366 < yd' then c
              else case yd_to_md y yd' of (m, d) \<Rightarrow>
                if m = 0 \<or> \<not> md_match_p (m, d) ms ds then c else add_cand c m d)
       cand (bi383_list s)"

text \<open>
  The day of a month a BYMONTHDAY value stands for; the test of a negative one is unsigned.
\<close>

definition dom_pick :: "int \<Rightarrow> int \<Rightarrow> int option" where
  "dom_pick ndim dd =
     (if 0 < dd \<and> dd \<le> ndim then Some dd
      else if dd < 0 \<and> 0 < u32 (ndim + 1 + dd) then Some (i32 (dd + (ndim + 1)))
      else None)"

definition fill_mly_ymd ::
  "bitintn \<Rightarrow> echs_scale \<Rightarrow> int \<Rightarrow> int \<Rightarrow> int list \<Rightarrow> wd_mask \<Rightarrow> bitintn" where
  "fill_mly_ymd cand s y mo ds wd =
     foldl (\<lambda>c dd. case dom_pick (echs_scale_ndim s y mo) dd of
           None \<Rightarrow> c
         | Some dd \<Rightarrow>
             if wd_any wd \<and> \<not> wd_has wd (echs_scale_wday s y mo (u32 dd)) then c
             else add_cand c mo (u32 dd))
       cand ds"

definition fill_yly_ymd ::
  "bitintn \<Rightarrow> echs_scale \<Rightarrow> int \<Rightarrow> int list \<Rightarrow> int list \<Rightarrow> wd_mask \<Rightarrow> bitintn" where
  "fill_yly_ymd cand s y ms ds wd = foldl (\<lambda>c m. fill_mly_ymd c s y m ds wd) cand ms"

definition fill_yly_ymd_all_m ::
  "bitintn \<Rightarrow> echs_scale \<Rightarrow> int \<Rightarrow> int list \<Rightarrow> wd_mask \<Rightarrow> bitintn" where
  "fill_yly_ymd_all_m cand s y ds wd =
     foldl (\<lambda>c m. foldl (\<lambda>c dd. case dom_pick (echs_scale_ndim s y m) dd of
           None \<Rightarrow> c
         | Some dd \<Rightarrow>
             if wd \<noteq> 0 \<and> \<not> wd_has wd (echs_scale_wday s y m (u32 dd)) then c
             else add_cand c m (u32 dd))
       c ds) cand [1..12]"

definition fill_mly_ymd_all_d :: "bitintn \<Rightarrow> echs_scale \<Rightarrow> int \<Rightarrow> int \<Rightarrow> wd_mask \<Rightarrow> bitintn" where
  "fill_mly_ymd_all_d cand s y mo wd =
     fst (foldl (\<lambda>(c, w) dd. (if wd \<noteq> 0 \<and> \<not> wd_has wd w then c else add_cand c mo dd, inc_wd w))
       (cand, echs_scale_wday s y mo 1) [1..echs_scale_ndim s y mo])"

definition fill_yly_ymd_all_d ::
  "bitintn \<Rightarrow> echs_scale \<Rightarrow> int \<Rightarrow> int list \<Rightarrow> wd_mask \<Rightarrow> bitintn" where
  "fill_yly_ymd_all_d cand s y ms wd = foldl (\<lambda>c m. fill_mly_ymd_all_d c s y m wd) cand ms"

section \<open>BYSETPOS\<close>

text \<open>The loop \<open>for (p = pos - prev; p > 0 && (c = next(&ci, cand), ci); p--)\<close>.\<close>

fun next_nth :: "bitintn \<Rightarrow> nat \<Rightarrow> int \<Rightarrow> nat \<Rightarrow> int \<times> nat" where
  "next_nth cand 0 c ci = (c, ci)"
| "next_nth cand (Suc p) c ci =
     (case bi383_next ci cand of (c, ci) \<Rightarrow> if ci = 0 then (c, ci) else next_nth cand p c ci)"

definition clr_step :: "bitintn \<Rightarrow> bitintn \<times> nat \<times> int \<Rightarrow> int \<Rightarrow> bitintn \<times> nat \<times> int" where
  "clr_step cand st pos =
     (case st of (res, ci, prev) \<Rightarrow>
        let pos = (if pos < 0 then i32 (int (length (bi383_list cand)) + pos + 1) else pos);
            (ci, prev) = (if pos < prev then (0, 0) else (ci, prev));
            (c, ci) = next_nth cand (nat (pos - prev)) 0 ci
        in (if 0 < c then ass_bi383 res c else res, ci, pos))"

definition clr_poss :: "bitintn \<Rightarrow> bitintn \<Rightarrow> bitintn" where
  "clr_poss cand poss =
     (if \<not> bi383_has_bits_p poss then cand
      else fst (foldl (clr_step cand) (bin_empty 12, 0, 0) (bi383_list poss)))"

section \<open>SHIFT\<close>

text \<open>The labels \<open>reassess\<close>: move a day number that has left its month to the right month.\<close>

function reassess :: "int \<Rightarrow> int \<Rightarrow> int \<Rightarrow> int \<times> int \<times> int" where
  "reassess y m d =
     (if d \<le> 0 then
        let (y, m) = (if m - 1 \<le> 0 then (u32 (y - 1), m - 1 + 12) else (y, m - 1))
        in reassess y m (d + get_ndom y m)
      else if get_ndom y m < d then
        let d = d - get_ndom y m; (y, m) = (if 12 < m + 1 then (u32 (y + 1), m + 1 - 12) else (y, m + 1))
        in reassess y m d
      else (y, m, d))"
  by pat_completeness auto

termination
proof (relation "measures [\<lambda>(y, m, d). nat (m - 12), \<lambda>(y, m, d). nat (1 - m),
    \<lambda>(y, m, d). if d \<le> 0 then nat (1 - d) + 1000 else nat d]", goal_cases)
  case 1
  show ?case by simp
next
  case (2 y m d x y' m')
  show ?case
  proof (cases "1 \<le> m \<and> m \<le> 12")
    case True
    with 2 have "1 \<le> m'" "m' \<le> 12" by (auto split: if_splits)
    with get_mdays_range [of m' y'] 2 True show ?thesis by (auto simp: get_ndom_mdays)
  qed (use 2 in \<open>auto split: if_splits\<close>)
next
  case (3 y m d d' x y' m')
  show ?case
  proof (cases "1 \<le> m \<and> m \<le> 12")
    case True
    with get_mdays_range [of m y] 3 show ?thesis by (auto simp: get_ndom_mdays split: if_splits)
  qed (use 3 in \<open>auto split: if_splits\<close>)
qed

declare reassess.simps [simp del]

type_synonym cands = "bitintn \<times> bitintn \<times> bitintn"

definition no_cands :: cands where
  "no_cands = (bin_empty 12, bin_empty 12, bin_empty 12)"

text \<open>\<open>res[(nu_y != y) << (nu_y > y)]\<close>: this year, the year before, the year after.\<close>

definition ass_res :: "int \<Rightarrow> cands \<Rightarrow> int \<times> int \<times> int \<Rightarrow> cands" where
  "ass_res y res ymd =
     (case res of (a, b, c) \<Rightarrow> case ymd of (nu_y, m, d) \<Rightarrow>
        if nu_y = y then (add_cand a m d, b, c)
        else if nu_y < y then (a, add_cand b m d, c)
        else (a, b, add_cand c m d))"

definition bi_xor :: "bitintn \<Rightarrow> bitintn \<Rightarrow> bitintn" where
  "bi_xor a b = \<lparr>npos = map2 (XOR) (npos a) (npos b), nneg = map2 (XOR) (nneg a) (nneg b)\<rparr>"

definition shift_days :: "bitintn \<Rightarrow> int \<Rightarrow> int \<Rightarrow> cands" where
  "shift_days cand y d =
     foldl (\<lambda>res c. case unpack_cand (u32 c) of (m, dd) \<Rightarrow>
         ass_res y res (reassess y m (i32 (dd + d))))
       no_cands (bi383_list cand)"

text \<open>
  The day number \<open>b\<close> business days from day \<open>d\<close>, which falls on weekday \<open>w\<close>; it may lie outside
  the month.
\<close>

definition bday_move :: "bool \<Rightarrow> bool \<Rightarrow> int \<Rightarrow> echs_wday \<Rightarrow> int \<Rightarrow> int" where
  "bday_move ng iv b w d =
     (let (d, w, nu_b) =
            (if SAT \<le> w then
               (if \<not> ng then (d + (8 - w), MON, b - (if b \<noteq> 0 \<and> \<not> iv then 1 else 0))
                else (d - (w - 5), FRI, b + (if b \<noteq> 0 \<and> \<not> iv then 1 else 0)))
             else (d, w, b));
          u5 = u32 (w + 384 + nu_b) mod 5;
          nu_b = nu_b sdiv 5 * 7 + nu_b smod 5;
          u7 = u32 (w + 384 + nu_b) mod 7
      in d + nu_b + (u5 - u7) + (if 0 < nu_b \<and> u5 < u7 then 7 else 0))"

definition shift_bdays :: "bitintn \<Rightarrow> int \<Rightarrow> echs_shift \<Rightarrow> cands" where
  "shift_bdays cand y sh =
     foldl (\<lambda>res c. case unpack_cand (u32 c) of (m, d) \<Rightarrow>
         ass_res y res (reassess y m
           (bday_move (echs_shift_neg_p sh) (echs_shift_inv_p sh) (echs_shift_bvalue sh)
             (ymd_get_wday y m d) d)))
       no_cands (bi383_list cand)"

definition shift :: "cands \<Rightarrow> int \<Rightarrow> echs_shift \<Rightarrow> cands" where
  "shift cand y sh =
     (if sh = 0 then cand
      else
        let cand = (if echs_shift_dvalue sh \<noteq> 0 then shift_days (fst cand) y (echs_shift_dvalue sh) else cand)
        in if echs_shift_bday_p sh then
             let cand = (if echs_shift_dvalue sh \<noteq> 0
                         then (case cand of (a, b, c) \<Rightarrow> (bi_xor (bi_xor a b) c, b, c)) else cand)
             in shift_bdays (fst cand) y sh
           else cand)"

section \<open>Times of day\<close>

text \<open>\<open>make_enum\<close>: hours, minutes and seconds, the proto instant's where the rule says nothing.\<close>

record enum =
  en_H :: "int list"
  en_M :: "int list"
  en_S :: "int list"

definition make_enum :: "instant \<Rightarrow> rrulsp \<Rightarrow> enum" where
  "make_enum proto rr =
     (let dflt = (\<lambda>xs x. if xs = [] then [x] else xs);
          u8 = map (\<lambda>n. int n mod 256)
      in \<lparr>en_H = dflt (u8 (bui31_list (rr_H rr))) (i_H proto mod 256),
          en_M = dflt (u8 (bui63_list (rr_M rr))) (i_M proto mod 256),
          en_S = dflt (u8 (bui63_list (rr_S rr))) (i_S proto mod 256)\<rparr>)"

text \<open>The \<open>ENUM\<close> loops: seconds run fastest, then minutes, then hours.\<close>

definition enum_S :: "enum \<Rightarrow> int \<Rightarrow> int \<Rightarrow> (int \<times> int \<times> int) list" where
  "enum_S e H M = map (\<lambda>S. (H, M, S)) (en_S e)"

definition enum_MS :: "enum \<Rightarrow> int \<Rightarrow> (int \<times> int \<times> int) list" where
  "enum_MS e H = concat (map (enum_S e H) (en_M e))"

definition enum_HMS :: "enum \<Rightarrow> (int \<times> int \<times> int) list" where
  "enum_HMS e = concat (map (enum_MS e) (en_H e))"

text \<open>An instant literal: the fields are truncated to their bit fields.\<close>

definition mk_inst :: "int \<Rightarrow> int \<Rightarrow> int \<Rightarrow> int \<Rightarrow> int \<Rightarrow> int \<Rightarrow> int \<Rightarrow> instant" where
  "mk_inst y m d H M S ms =
     \<lparr>i_y = y mod 65536, i_m = m mod 256, i_d = d mod 256, i_H = H mod 256, i_M = M mod 256,
      i_S = S mod 64, i_ms = ms mod 1024\<rparr>"

end
