(* ===== verification/RruleDays.thy ===== *)
theory RruleDays
  imports Rrule
begin

text \<open>
  What the fillers of candidate days compute: the days on given weekdays, the days of the month,
  the picks of BYSETPOS and the moves of SHIFT, each against its calendar meaning.
\<close>

section \<open>Adding candidates\<close>

definition good_md :: "int \<Rightarrow> int \<Rightarrow> bool" where
  "good_md m d \<longleftrightarrow> 1 \<le> m \<and> m \<le> 12 \<and> 1 \<le> d \<and> d \<le> 31"

lemma valid_good: "valid_ymd y m d \<Longrightarrow> good_md m d"
  using get_mdays_range [of m y] by (auto simp: valid_ymd_def good_md_def)

lemma pack_cand_eq: "good_md m d \<Longrightarrow> pack_cand m d = (m - 1) * 32 + d"
  by (simp add: pack_cand_def good_md_def u32_id)

lemma pack_cand_range: "good_md m d \<Longrightarrow> 1 \<le> pack_cand m d" "good_md m d \<Longrightarrow> pack_cand m d \<le> 383"
proof -
  assume g: "good_md m d"
  then have b: "1 \<le> m" "m \<le> 12" "1 \<le> d" "d \<le> 31" by (simp_all add: good_md_def)
  show "1 \<le> pack_cand m d" unfolding pack_cand_eq [OF g] using b by simp
  show "pack_cand m d \<le> 383" unfolding pack_cand_eq [OF g] using b by simp
qed

lemma pack_cand_inj:
  assumes "good_md m d" "good_md m' d'" "pack_cand m d = pack_cand m' d'"
  shows "m = m' \<and> d = d'"
proof -
  have "unpack_cand (pack_cand m d) = (m, d)" "unpack_cand (pack_cand m' d') = (m', d')"
    using assms(1,2) by (simp_all add: pack_unpack_cand good_md_def)
  then have "(m, d) = (m', d')" unfolding assms(3) by metis
  then show ?thesis by simp
qed

lemma add_cand_elems:
  assumes "bin_wf 12 c" "good_md m d"
  shows "bin_elems (add_cand c m d) = insert (pack_cand m d) (bin_elems c)" "bin_wf 12 (add_cand c m d)"
proof -
  have "i32 (pack_cand m d) = pack_cand m d" using pack_cand_range [OF assms(2)] by (simp add: i32_id)
  then show "bin_elems (add_cand c m d) = insert (pack_cand m d) (bin_elems c)" "bin_wf 12 (add_cand c m d)"
    using ass_bin_elems [OF assms(1), of "pack_cand m d"] pack_cand_range [OF assms(2)]
    by (simp_all add: add_cand_def ass_bi383_def)
qed

text \<open>A fold that adds at most one day per element.\<close>

lemma foldl_add_cand:
  assumes "bin_wf 12 c" "\<forall>x \<in> set xs. \<forall>c. f c x = (case g x of None \<Rightarrow> c | Some (m, d) \<Rightarrow> add_cand c m d)"
    "\<forall>x \<in> set xs. \<forall>m d. g x = Some (m, d) \<longrightarrow> good_md m d"
  shows "bin_wf 12 (foldl f c xs)"
    "bin_elems (foldl f c xs) = bin_elems c \<union> {pack_cand m d |m d. \<exists>x \<in> set xs. g x = Some (m, d)}"
  using assms
proof (induction xs arbitrary: c)
  case (Cons x xs)
  {
    case 1
    show ?case
    proof (cases "g x")
      case (Some md)
      then show ?thesis using 1 Cons.IH(1) [of "f c x"] add_cand_elems by (cases md) auto
    qed (use 1 Cons.IH(1) [of c] in auto)
  next
    case 2
    show ?case
    proof (cases "g x")
      case None
      then show ?thesis using 2 Cons.IH(2) [of c] by auto
    next
      case (Some md)
      obtain m d where md: "md = (m, d)" by (cases md)
      then have "f c x = add_cand c m d" "good_md m d" using 2 Some by auto
      then show ?thesis
        using 2 Cons.IH(2) [of "f c x"] add_cand_elems [OF \<open>bin_wf 12 c\<close> \<open>good_md m d\<close>] Some md by auto
    qed
  }
qed simp_all

section \<open>Walking the weekdays\<close>

lemma inc_wd_mod:
  assumes "0 \<le> (x :: int)"
  shows "inc_wd (x mod 7 + 1) = (x + 1) mod 7 + 1"
proof -
  define r where "r = x mod 7"
  have "r \<in> {0, 1, 2, 3, 4, 5, 6}" using pos_mod_bound [of 7 x] pos_mod_sign [of 7 x] by (auto simp: r_def)
  moreover have "(x + 1) mod 7 = (r + 1) mod 7" by (simp add: r_def mod_add_left_eq)
  ultimately show ?thesis by (auto simp: inc_wd_def r_def [symmetric])
qed

lemma upto_Suc_set:
  assumes "0 \<le> (n :: int)"
  shows "{d. 1 \<le> d \<and> d \<le> n + 1 \<and> P d} = {d. 1 \<le> d \<and> d \<le> n \<and> P d} \<union> (if P (n + 1) then {n + 1} else {})"
proof -
  have "1 \<le> d \<and> d \<le> n + 1 \<longleftrightarrow> 1 \<le> d \<and> d \<le> n \<or> d = n + 1" for d using assms by auto
  then show ?thesis by auto
qed

lemma wd_run:
  assumes "bin_wf 12 c" "1 \<le> w" "w \<le> 7" "1 \<le> m" "m \<le> 12" "n \<le> 31"
    "\<And>c w d. f (c, w) d = (if Q w then add_cand c m d else c, inc_wd w)"
  shows "bin_wf 12 (fst (foldl f (c, w) [1..n])) \<and>
    bin_elems (fst (foldl f (c, w) [1..n])) =
      bin_elems c \<union> {pack_cand m d |d. 1 \<le> d \<and> d \<le> n \<and> Q ((w - 1 + (d - 1)) mod 7 + 1)} \<and>
    (0 \<le> n \<longrightarrow> snd (foldl f (c, w) [1..n]) = (w - 1 + n) mod 7 + 1)"
proof (cases "0 \<le> n")
  case True
  then show ?thesis using assms(6)
  proof (induction n rule: int_ge_induct)
    case base
    then show ?case using assms by auto
  next
    case (step n)
    let ?r = "foldl f (c, w) [1..n]"
    have IH: "bin_wf 12 (fst ?r)" "snd ?r = (w - 1 + n) mod 7 + 1"
      "bin_elems (fst ?r) = bin_elems c \<union> {pack_cand m d |d. 1 \<le> d \<and> d \<le> n \<and> Q ((w - 1 + (d - 1)) mod 7 + 1)}"
      using step by auto
    have "[1..n + 1] = [1..n] @ [n + 1]" using step by (simp add: upto_rec2)
    then have r: "foldl f (c, w) [1..n + 1] = (if Q (snd ?r) then add_cand (fst ?r) m (n + 1) else fst ?r, inc_wd (snd ?r))"
      using assms(7) [of "fst ?r" "snd ?r"] by simp
    have g: "good_md m (n + 1)" using assms step by (simp add: good_md_def)
    have "inc_wd (snd ?r) = (w - 1 + (n + 1)) mod 7 + 1"
      using IH inc_wd_mod [of "w - 1 + n"] step assms by (simp add: add.assoc)
    moreover have "{pack_cand m d |d. 1 \<le> d \<and> d \<le> n + 1 \<and> Q ((w - 1 + (d - 1)) mod 7 + 1)} =
      {pack_cand m d |d. 1 \<le> d \<and> d \<le> n \<and> Q ((w - 1 + (d - 1)) mod 7 + 1)} \<union>
      (if Q (snd ?r) then {pack_cand m (n + 1)} else {})"
      unfolding IH(2) setcompr_eq_image upto_Suc_set [OF step(1)] by auto
    ultimately show ?case using r IH add_cand_elems [OF IH(1) g] by auto
  qed
next
  case False
  then show ?thesis using assms by auto
qed

section \<open>Days on given weekdays\<close>

lemma wday_range: "1 \<le> ymd_get_wday y m d" "ymd_get_wday y m d \<le> 7"
  using wday_greg_range [of y m d] by (simp_all add: ymd_get_wday_greg)

lemma ndim_greg_mdays: "echs_scale_ndim SCALE_GREGORIAN y m = get_mdays y m"
  by (simp add: echs_scale_ndim_def ndim_greg_def get_mdays_def mdays_def)

text \<open>The days of a month whose weekday satisfies \<open>Q\<close>, by walking the weekdays along.\<close>

lemma wd_run_month:
  assumes "bin_wf 12 c" "1 \<le> m" "m \<le> 12" "1901 \<le> y" "y \<le> 2099"
    "\<And>c w d. f (c, w) d = (if Q w then add_cand c m d else c, inc_wd w)"
  shows "bin_wf 12 (fst (foldl f (c, ymd_get_wday y m 1) [1..get_mdays y m])) \<and>
    bin_elems (fst (foldl f (c, ymd_get_wday y m 1) [1..get_mdays y m])) =
      bin_elems c \<union> {pack_cand m d |d. valid_ymd y m d \<and> Q (ymd_get_wday y m d)}"
proof -
  have n: "get_mdays y m \<le> 31" using get_mdays_range [OF assms(2,3), of y] by simp
  have "1 \<le> d \<and> d \<le> get_mdays y m \<and> Q ((ymd_get_wday y m 1 - 1 + (d - 1)) mod 7 + 1) \<longleftrightarrow>
    valid_ymd y m d \<and> Q (ymd_get_wday y m d)" for d
  proof (cases "valid_ymd y m d")
    case True
    then show ?thesis using weekday_of_month [OF True assms(4,5)] by (simp add: valid_ymd_def)
  qed (use assms in \<open>auto simp: valid_ymd_def\<close>)
  then show ?thesis
    using wd_run [OF assms(1) wday_range [of y m 1] assms(2,3) n, of f Q] assms(6) by simp
qed

lemma md_all_elems:
  assumes "bin_wf 12 c" "1 \<le> m" "m \<le> 12" "1901 \<le> y" "y \<le> 2099"
  shows "bin_wf 12 (md_all SCALE_GREGORIAN y wd c m) \<and>
    bin_elems (md_all SCALE_GREGORIAN y wd c m) =
      bin_elems c \<union> {pack_cand m d |d. valid_ymd y m d \<and> wd_has wd (ymd_get_wday y m d)}"
  unfolding md_all_def ndim_greg_mdays by (rule wd_run_month [OF assms]) simp

lemma fill_mly_ymd_all_d_elems:
  assumes "bin_wf 12 c" "1 \<le> m" "m \<le> 12" "1901 \<le> y" "y \<le> 2099"
  shows "bin_wf 12 (fill_mly_ymd_all_d c SCALE_GREGORIAN y m wd) \<and>
    bin_elems (fill_mly_ymd_all_d c SCALE_GREGORIAN y m wd) =
      bin_elems c \<union> {pack_cand m d |d. valid_ymd y m d \<and> (wd = 0 \<or> wd_has wd (ymd_get_wday y m d))}"
proof -
  have "echs_scale_wday SCALE_GREGORIAN y m 1 = ymd_get_wday y m 1"
    by (simp add: echs_scale_wday_def ymd_get_wday_greg)
  then show ?thesis
    using wd_run_month [OF assms, of "\<lambda>(c, w) dd. (if wd \<noteq> 0 \<and> \<not> wd_has wd w then c else add_cand c m dd, inc_wd w)"
        "\<lambda>w. wd = 0 \<or> wd_has wd w"]
    by (simp add: fill_mly_ymd_all_d_def ndim_greg_mdays)
qed

text \<open>Folds over months.\<close>

lemma foldl_months:
  assumes "bin_wf 12 c" "\<forall>m \<in> set ms. \<forall>c. bin_wf 12 c \<longrightarrow> bin_wf 12 (f c m) \<and> bin_elems (f c m) = bin_elems c \<union> A m"
  shows "bin_wf 12 (foldl f c ms) \<and> bin_elems (foldl f c ms) = bin_elems c \<union> (\<Union>m \<in> set ms. A m)"
  using assms
proof (induction ms arbitrary: c)
  case (Cons m ms)
  then show ?case using Cons.IH [of "f c m"] by auto
qed simp

lemma fill_yly_md_all_elems:
  assumes "bin_wf 12 c" "set ms \<subseteq> {1..12}" "1901 \<le> y" "y \<le> 2099" "wd_any wd"
  shows "bin_wf 12 (fill_yly_md_all c SCALE_GREGORIAN y ms wd) \<and>
    bin_elems (fill_yly_md_all c SCALE_GREGORIAN y ms wd) =
      bin_elems c \<union> {pack_cand m d |m d. m \<in> set ms \<and> valid_ymd y m d \<and> wd_has wd (ymd_get_wday y m d)}"
proof -
  let ?A = "\<lambda>m. {pack_cand m d |d. valid_ymd y m d \<and> wd_has wd (ymd_get_wday y m d)}"
  have "\<forall>m \<in> set ms. \<forall>c. bin_wf 12 c \<longrightarrow> bin_wf 12 (md_all SCALE_GREGORIAN y wd c m) \<and>
      bin_elems (md_all SCALE_GREGORIAN y wd c m) = bin_elems c \<union> ?A m"
    using md_all_elems assms by force
  from foldl_months [OF assms(1) this] show ?thesis using assms(5) by (auto simp: fill_yly_md_all_def)
qed

text \<open>The walk through a whole year: the state after \<open>k\<close> days.\<close>

lemma inc_md_yd:
  assumes "valid_ymd y m d" "ymd_get_yd y m d < year_len y" "inc_md (m, d) y = (m', d')"
  shows "valid_ymd y m' d' \<and> ymd_get_yd y m' d' = ymd_get_yd y m d + 1"
proof -
  have "1 \<le> m" "m \<le> 12" using assms(1) by (auto simp: valid_ymd_def)
  then show ?thesis
    using assms
    by (cases m rule: month_cases)
      (auto simp: valid_ymd_def inc_md_def get_ndom_mdays get_mdays_def mdays_def ymd_get_yd_def mon_yday_def
        year_len_def split: if_splits)
qed

lemma ymd_get_yd_inj:
  assumes "valid_ymd y m d" "valid_ymd y m' d'" "ymd_get_yd y m d = ymd_get_yd y m' d'"
  shows "m = m' \<and> d = d'"
proof -
  have "dayno y m d = dayno y m' d'"
    using assms ymd_get_yd_dayno [of m y d] ymd_get_yd_dayno [of m' y d'] by (simp add: valid_ymd_def)
  then show ?thesis using dayno_inj assms(1,2) by blast
qed

lemma ymd_get_yd_range: "valid_ymd y m d \<Longrightarrow> 1 \<le> ymd_get_yd y m d \<and> ymd_get_yd y m d \<le> year_len y"
proof -
  assume a: "valid_ymd y m d"
  then have "1 \<le> m" "m \<le> 12" by (auto simp: valid_ymd_def)
  then show ?thesis using a
    by (cases m rule: month_cases)
      (auto simp: valid_ymd_def get_mdays_def mdays_def ymd_get_yd_def mon_yday_def year_len_def split: if_splits)
qed

definition yd_step :: "int \<Rightarrow> wd_mask \<Rightarrow> bitintn \<times> echs_wday \<times> md \<Rightarrow> int \<Rightarrow> bitintn \<times> echs_wday \<times> md" where
  "yd_step y wd = (\<lambda>(c, w, md) yd.
     (if wd_has wd w then add_cand c (fst md) (snd md) else c, inc_wd w, inc_md md y))"

lemma yd_run:
  assumes "bin_wf 12 c" "1901 \<le> y" "y \<le> 2099" "0 \<le> n" "n \<le> year_len y"
  shows "case foldl (yd_step y wd) (c, ymd_get_wday y 1 1, (1, 1)) [1..n] of (c', w, md) \<Rightarrow>
    bin_wf 12 c' \<and> w = (ymd_get_wday y 1 1 - 1 + n) mod 7 + 1 \<and>
    bin_elems c' = bin_elems c \<union>
      {pack_cand m d |m d. valid_ymd y m d \<and> ymd_get_yd y m d \<le> n \<and> wd_has wd (ymd_get_wday y m d)} \<and>
    (n < year_len y \<longrightarrow> valid_ymd y (fst md) (snd md) \<and> ymd_get_yd y (fst md) (snd md) = n + 1)"
  using assms(4,5)
proof (induction n rule: int_ge_induct)
  case base
  have "ymd_get_yd y 1 1 = 1" by (simp add: ymd_get_yd_def mon_yday_def)
  moreover have "\<not> ymd_get_yd y m d \<le> 0" if "valid_ymd y m d" for m d using ymd_get_yd_range [OF that] by simp
  ultimately show ?case using assms(1) jan01_range [of y] jan01_valid by auto
next
  case (step n)
  obtain c' w m d where r: "foldl (yd_step y wd) (c, ymd_get_wday y 1 1, (1, 1)) [1..n] = (c', w, (m, d))"
    by (metis surj_pair)
  have IH: "bin_wf 12 c'" "w = (ymd_get_wday y 1 1 - 1 + n) mod 7 + 1" "valid_ymd y m d" "ymd_get_yd y m d = n + 1"
    "bin_elems c' = bin_elems c \<union>
      {pack_cand m d |m d. valid_ymd y m d \<and> ymd_get_yd y m d \<le> n \<and> wd_has wd (ymd_get_wday y m d)}"
    using step r by auto
  have w: "w = ymd_get_wday y m d" using wday_yday [OF IH(3) assms(2,3)] IH by simp
  have "[1..n + 1] = [1..n] @ [n + 1]" using step by (simp add: upto_rec2)
  then have e: "foldl (yd_step y wd) (c, ymd_get_wday y 1 1, (1, 1)) [1..n + 1] =
      (if wd_has wd w then add_cand c' m d else c', inc_wd w, inc_md (m, d) y)"
    by (simp only: foldl_append foldl.simps r) (simp add: yd_step_def)
  have "inc_wd w = (ymd_get_wday y 1 1 - 1 + (n + 1)) mod 7 + 1"
    using inc_wd_mod [of "ymd_get_wday y 1 1 - 1 + n"] IH(2) step jan01_range [of y] by (simp add: add.assoc)
  moreover have "valid_ymd y m' d' \<and> ymd_get_yd y m' d' \<le> n + 1 \<longleftrightarrow>
      valid_ymd y m' d' \<and> ymd_get_yd y m' d' \<le> n \<or> m' = m \<and> d' = d" for m' d'
    using ymd_get_yd_inj [OF IH(3), of m' d'] IH(3,4) zle_add1_eq_le [of "ymd_get_yd y m' d'" n]
    by (cases "ymd_get_yd y m' d' = n + 1") auto
  then have "{pack_cand m d |m d. valid_ymd y m d \<and> ymd_get_yd y m d \<le> n + 1 \<and> wd_has wd (ymd_get_wday y m d)} =
      {pack_cand m d |m d. valid_ymd y m d \<and> ymd_get_yd y m d \<le> n \<and> wd_has wd (ymd_get_wday y m d)} \<union>
      (if wd_has wd w then {pack_cand m d} else {})"
    unfolding w by (auto; blast)
  moreover have "n + 1 < year_len y \<longrightarrow> valid_ymd y (fst (inc_md (m, d) y)) (snd (inc_md (m, d) y)) \<and>
      ymd_get_yd y (fst (inc_md (m, d) y)) (snd (inc_md (m, d) y)) = n + 1 + 1"
    using inc_md_yd [OF IH(3), of "fst (inc_md (m, d) y)" "snd (inc_md (m, d) y)"] IH(4) by simp
  ultimately show ?case
    unfolding e using IH(1,5) add_cand_elems [OF IH(1) valid_good [OF IH(3)]] by simp
qed

lemma fill_yly_yd_all_elems:
  assumes "bin_wf 12 c" "1901 \<le> y" "y \<le> 2099" "wd_any wd"
  shows "bin_wf 12 (fill_yly_yd_all c y wd) \<and>
    bin_elems (fill_yly_yd_all c y wd) =
      bin_elems c \<union> {pack_cand m d |m d. valid_ymd y m d \<and> wd_has wd (ymd_get_wday y m d)}"
proof -
  have "fill_yly_yd_all c y wd = fst (foldl (yd_step y wd) (c, ymd_get_wday y 1 1, (1, 1)) [1..year_len y])"
    using assms(4) by (simp add: fill_yly_yd_all_def yd_step_def year_len_def)
  moreover have "{pack_cand m d |m d. valid_ymd y m d \<and> ymd_get_yd y m d \<le> year_len y \<and> wd_has wd (ymd_get_wday y m d)} =
      {pack_cand m d |m d. valid_ymd y m d \<and> wd_has wd (ymd_get_wday y m d)}"
    using ymd_get_yd_range by blast
  ultimately show ?thesis
    using yd_run [OF assms(1-3), of "year_len y" wd] year_len_range [of y] by (auto split: prod.splits)
qed

text \<open>
  Filling in all days on given weekdays, by one walk through the year or through chosen months
  with the weekday counted along, adds exactly the days of the Gregorian calendar that fall on them,
  for every year from 1901 to 2099 and every mask that holds a weekday; the monthly variant takes
  every day of the month when the mask is empty.
\<close>
theorem weekday_fill:
  assumes "bin_wf 12 c" "1901 \<le> y" "y \<le> 2099" "wd_any wd" "set ms \<subseteq> {1..12}" "1 \<le> m" "m \<le> 12"
  shows "bin_elems (fill_yly_yd_all c y wd) =
      bin_elems c \<union> {pack_cand m d |m d. valid_ymd y m d \<and> wd_has wd (ymd_get_wday y m d)} \<and>
    bin_elems (fill_yly_md_all c SCALE_GREGORIAN y ms wd) =
      bin_elems c \<union> {pack_cand m d |m d. m \<in> set ms \<and> valid_ymd y m d \<and> wd_has wd (ymd_get_wday y m d)} \<and>
    bin_elems (fill_mly_ymd_all_d c SCALE_GREGORIAN y m 0) =
      bin_elems c \<union> {pack_cand m d |d. valid_ymd y m d}"
  using fill_yly_yd_all_elems [OF assms(1-4)] fill_yly_md_all_elems [OF assms(1,5,2,3,4)]
    fill_mly_ymd_all_d_elems [OF assms(1,6,7,2,3), of 0]
  by simp

theorem weekday_fill_witness:
  "pack_cand 2 29 \<in> bin_elems (fill_yly_md_all (bin_empty 12) SCALE_GREGORIAN 2024 [2] 16) \<and>
   pack_cand 2 28 \<notin> bin_elems (fill_yly_md_all (bin_empty 12) SCALE_GREGORIAN 2024 [2] 16)"
proof -
  have wd: "wd_any 16" by code_simp
  have f: "ymd_get_wday 2024 2 29 = 4" "ymd_get_wday 2024 2 28 = 3" by code_simp+
  have b: "wd_has 16 4" "\<not> wd_has 16 3" by code_simp+
  have v: "valid_ymd 2024 2 29" by code_simp
  have i: "pack_cand m d = pack_cand 2 28 \<longrightarrow> m = 2 \<and> d = 28" if "valid_ymd 2024 m d" for m d
    using pack_cand_inj [OF valid_good [OF that], of 2 28] by (simp add: good_md_def)
  have "bin_elems (fill_yly_md_all (bin_empty 12) SCALE_GREGORIAN 2024 [2] 16) =
      {pack_cand m d |m d. m \<in> set [2] \<and> valid_ymd 2024 m d \<and> wd_has 16 (ymd_get_wday 2024 m d)}"
    using weekday_fill [OF bin_empty_wf, of 2024 16 "[2]" 2] wd by (simp add: bin_empty_elems)
  then show ?thesis using f b v i by force
qed

section \<open>Days of the month\<close>

lemma scale_wday_greg: "echs_scale_wday SCALE_GREGORIAN y m d = ymd_get_wday y m d"
  by (simp add: echs_scale_wday_def ymd_get_wday_greg)

lemma dom_pick_spec:
  assumes "28 \<le> n" "n \<le> 31" "- 29 \<le> dd" "dd \<le> 31"
  shows "dom_pick n dd = Some d \<longleftrightarrow> 1 \<le> d \<and> d \<le> n \<and> (dd = d \<or> dd = d - n - 1)"
proof -
  consider "0 < dd" | "dd = 0" | "dd < 0" by linarith
  then show ?thesis
  proof cases
    case 3
    then have "u32 (n + 1 + dd) = n + 1 + dd" "i32 (dd + (n + 1)) = n + 1 + dd"
      using assms by (simp_all add: u32_id i32_id)
    with 3 assms show ?thesis by (auto simp: dom_pick_def)
  qed (use assms in \<open>auto simp: dom_pick_def\<close>)
qed

definition dom_days :: "int \<Rightarrow> int \<Rightarrow> int list \<Rightarrow> (int \<Rightarrow> bool) \<Rightarrow> int set" where
  "dom_days y m ds Q =
     {d. valid_ymd y m d \<and> (d \<in> set ds \<or> d - get_ndom y m - 1 \<in> set ds) \<and> Q (ymd_get_wday y m d)}"

lemma fill_dom_elems:
  assumes "bin_wf 12 c" "1 \<le> m" "m \<le> 12" "\<forall>d \<in> set ds. - 29 \<le> d \<and> d \<le> 31"
    "f = (\<lambda>c dd. case dom_pick (echs_scale_ndim SCALE_GREGORIAN y m) dd of
           None \<Rightarrow> c
         | Some dd \<Rightarrow> if \<not> Q (echs_scale_wday SCALE_GREGORIAN y m (u32 dd)) then c else add_cand c m (u32 dd))"
  shows "bin_wf 12 (foldl f c ds) \<and>
    bin_elems (foldl f c ds) = bin_elems c \<union> {pack_cand m d |d. d \<in> dom_days y m ds Q}"
proof -
  define n where "n = get_mdays y m"
  have n: "28 \<le> n" "n \<le> 31" using get_mdays_range [OF assms(2,3), of y] by (simp_all add: n_def)
  define g where "g dd = (case dom_pick n dd of None \<Rightarrow> None
      | Some d \<Rightarrow> if Q (ymd_get_wday y m d) then Some (m, d) else None)" for dd
  have pick: "dom_pick n dd = Some d \<longleftrightarrow> valid_ymd y m d \<and> (dd = d \<or> dd = d - n - 1)" if "dd \<in> set ds" for dd d
    using dom_pick_spec [OF n, of dd d] assms(2,3,4) that by (auto simp: valid_ymd_def n_def)
  have u: "u32 d = d" if "valid_ymd y m d" for d
    using that n by (intro u32_id) (auto simp: valid_ymd_def n_def)
  have f: "\<forall>x \<in> set ds. \<forall>c. f c x = (case g x of None \<Rightarrow> c | Some (m, d) \<Rightarrow> add_cand c m d)"
  proof (intro ballI allI)
    fix x c
    assume x: "x \<in> set ds"
    show "f c x = (case g x of None \<Rightarrow> c | Some (m, d) \<Rightarrow> add_cand c m d)"
    proof (cases "dom_pick n x")
      case (Some a)
      then have "u32 a = a" using pick [OF x, of a] u by simp
      with Some show ?thesis
        unfolding assms(5) ndim_greg_mdays n_def [symmetric] scale_wday_greg g_def by simp
    qed (simp add: assms(5) ndim_greg_mdays n_def [symmetric] g_def)
  qed
  have "\<forall>x \<in> set ds. \<forall>m' d. g x = Some (m', d) \<longrightarrow> good_md m' d"
    using pick valid_good by (auto simp: g_def split: option.splits if_splits)
  note r = foldl_add_cand [OF assms(1) f this]
  have "(\<exists>x \<in> set ds. g x = Some (m', d)) \<longleftrightarrow> m' = m \<and> d \<in> dom_days y m ds Q" for m' d
  proof -
    have "(\<exists>x \<in> set ds. g x = Some (m', d)) \<longleftrightarrow>
        m' = m \<and> Q (ymd_get_wday y m d) \<and> (\<exists>x \<in> set ds. dom_pick n x = Some d)"
      by (auto simp: g_def split: option.splits if_splits)
    also have "(\<exists>x \<in> set ds. dom_pick n x = Some d) \<longleftrightarrow> valid_ymd y m d \<and> (d \<in> set ds \<or> d - n - 1 \<in> set ds)"
    proof -
      have "(\<exists>x \<in> set ds. dom_pick n x = Some d) \<longleftrightarrow> (\<exists>x \<in> set ds. valid_ymd y m d \<and> (x = d \<or> x = d - n - 1))"
        using pick [of _ d] by (intro bex_cong) simp_all
      then show ?thesis by auto
    qed
    finally show ?thesis by (auto simp: dom_days_def n_def get_ndom_mdays)
  qed
  with r show ?thesis by simp
qed

lemma Union_md: "(\<Union>m \<in> M. {pack_cand m d |d. P m d}) = {pack_cand m d |m d. m \<in> M \<and> P m d}"
  by blast

lemma monthday_sets:
  assumes "bin_wf 12 c" "set ms \<subseteq> {1..12}" "\<forall>d \<in> set ds. - 29 \<le> d \<and> d \<le> 31"
  shows "bin_elems (fill_yly_ymd c SCALE_GREGORIAN y ms ds wd) =
      bin_elems c \<union> {pack_cand m d |m d. m \<in> set ms \<and> d \<in> dom_days y m ds (\<lambda>w. wd_any wd \<longrightarrow> wd_has wd w)} \<and>
    bin_elems (fill_yly_ymd_all_m c SCALE_GREGORIAN y ds wd) =
      bin_elems c \<union> {pack_cand m d |m d. m \<in> {1..12} \<and> d \<in> dom_days y m ds (\<lambda>w. wd \<noteq> 0 \<longrightarrow> wd_has wd w)}"
proof
  let ?A = "\<lambda>Q m. {pack_cand m d |d. d \<in> dom_days y m ds Q}"
  have "\<forall>m \<in> set ms. \<forall>c. bin_wf 12 c \<longrightarrow> bin_wf 12 (fill_mly_ymd c SCALE_GREGORIAN y m ds wd) \<and>
      bin_elems (fill_mly_ymd c SCALE_GREGORIAN y m ds wd) = bin_elems c \<union> ?A (\<lambda>w. wd_any wd \<longrightarrow> wd_has wd w) m"
  proof (intro ballI allI impI)
    fix m c
    assume "m \<in> set ms" "bin_wf 12 c"
    then have "bin_wf 12 c" "1 \<le> m" "m \<le> 12" using assms(2) by auto
    from fill_dom_elems [OF this assms(3) refl, where y = y and Q = "\<lambda>w. wd_any wd \<longrightarrow> wd_has wd w", unfolded not_imp]
    show "bin_wf 12 (fill_mly_ymd c SCALE_GREGORIAN y m ds wd) \<and>
      bin_elems (fill_mly_ymd c SCALE_GREGORIAN y m ds wd) = bin_elems c \<union> ?A (\<lambda>w. wd_any wd \<longrightarrow> wd_has wd w) m"
      unfolding fill_mly_ymd_def .
  qed
  from foldl_months [OF assms(1) this]
  show "bin_elems (fill_yly_ymd c SCALE_GREGORIAN y ms ds wd) =
      bin_elems c \<union> {pack_cand m d |m d. m \<in> set ms \<and> d \<in> dom_days y m ds (\<lambda>w. wd_any wd \<longrightarrow> wd_has wd w)}"
    unfolding fill_yly_ymd_def Union_md by (rule conjunct2)
next
  let ?A = "\<lambda>Q m. {pack_cand m d |d. d \<in> dom_days y m ds Q}"
  let ?f = "\<lambda>c m. foldl (\<lambda>c dd. case dom_pick (echs_scale_ndim SCALE_GREGORIAN y m) dd of
           None \<Rightarrow> c
         | Some dd \<Rightarrow> if wd \<noteq> 0 \<and> \<not> wd_has wd (echs_scale_wday SCALE_GREGORIAN y m (u32 dd))
             then c else add_cand c m (u32 dd)) c ds"
  have "\<forall>m \<in> set [1..12]. \<forall>c. bin_wf 12 c \<longrightarrow> bin_wf 12 (?f c m) \<and>
      bin_elems (?f c m) = bin_elems c \<union> ?A (\<lambda>w. wd \<noteq> 0 \<longrightarrow> wd_has wd w) m"
  proof (intro ballI allI impI)
    fix m c
    assume "m \<in> set [1..12]" "bin_wf 12 c"
    then have "bin_wf 12 c" "1 \<le> m" "m \<le> 12" by auto
    from fill_dom_elems [OF this assms(3) refl, where y = y and Q = "\<lambda>w. wd \<noteq> 0 \<longrightarrow> wd_has wd w", unfolded not_imp]
    show "bin_wf 12 (?f c m) \<and> bin_elems (?f c m) = bin_elems c \<union> ?A (\<lambda>w. wd \<noteq> 0 \<longrightarrow> wd_has wd w) m" .
  qed
  from foldl_months [OF assms(1) this]
  show "bin_elems (fill_yly_ymd_all_m c SCALE_GREGORIAN y ds wd) =
      bin_elems c \<union> {pack_cand m d |m d. m \<in> {1..12} \<and> d \<in> dom_days y m ds (\<lambda>w. wd \<noteq> 0 \<longrightarrow> wd_has wd w)}"
    unfolding fill_yly_ymd_all_m_def Union_md set_upto by (rule conjunct2)
qed

text \<open>
  C34: BYMONTHDAY: filling in given days of given Gregorian months, negative ones counted from the end
  of the month, with or without a mask of weekdays, adds exactly the existing days of these months
  that are listed and not masked out; the values may be as low as -29.
\<close>
theorem monthday_fill:
  assumes "bin_wf 12 c" "set ms \<subseteq> {1..12}" "\<forall>d \<in> set ds. - 29 \<le> d \<and> d \<le> 31"
  shows "bin_elems (fill_yly_ymd c SCALE_GREGORIAN y ms ds wd) =
      bin_elems c \<union> {pack_cand m d |m d. m \<in> set ms \<and> d \<in> dom_days y m ds (\<lambda>w. wd_any wd \<longrightarrow> wd_has wd w)} \<and>
    bin_elems (fill_yly_ymd_all_m c SCALE_GREGORIAN y ds wd) =
      bin_elems c \<union> {pack_cand m d |m d. m \<in> {1..12} \<and> d \<in> dom_days y m ds (\<lambda>w. wd \<noteq> 0 \<longrightarrow> wd_has wd w)}"
  by (rule monthday_sets [OF assms])

theorem monthday_fill_witness:
  "bin_elems (fill_yly_ymd (bin_empty 12) SCALE_GREGORIAN 2015 [2] [- 1, 30] 0) = {pack_cand 2 28}"
proof -
  have "\<not> wd_any 0" by code_simp
  then have "dom_days 2015 2 [- 1, 30] (\<lambda>w. wd_any 0 \<longrightarrow> wd_has 0 w) = {28}"
    by (auto simp: dom_days_def valid_ymd_def get_ndom_mdays get_mdays_def mdays_def)
  then show ?thesis
    using monthday_fill [OF bin_empty_wf, of "[2]" "[- 1, 30]" 2015 0] by (simp add: bin_empty_elems)
qed

text \<open>Below -29 the unsigned test lets a day through that the month does not have: 31 January.\<close>

lemma monthday_wrap:
  "bin_elems (fill_mly_ymd (bin_empty 12) SCALE_GREGORIAN 2015 2 [- 30] 0) = {pack_cand 1 31}"
proof -
  have "fill_mly_ymd (bin_empty 12) SCALE_GREGORIAN 2015 2 [- 30] 0 = add_cand (bin_empty 12) 1 31"
    by code_simp
  then show ?thesis using add_cand_elems [OF bin_empty_wf, of 1 31] by (simp add: good_md_def bin_empty_elems)
qed

section \<open>BYSETPOS\<close>

text \<open>Advancing the iterator \<open>p\<close> times from where \<open>rest\<close> is still to come.\<close>

lemma next_nth_rest:
  assumes "bin_wf 12 cand" "p \<le> length (bin_rest ci cand)" "0 < p"
  shows "\<exists>ci'. next_nth cand p c ci = (bin_rest ci cand ! (p - 1), ci') \<and>
    bin_rest ci' cand = drop p (bin_rest ci cand)"
  using assms(2,3)
proof (induction p arbitrary: c ci)
  case (Suc p)
  then obtain x xs where r: "bin_rest ci cand = x # xs" by (cases "bin_rest ci cand") auto
  have "bin_wf (length (npos cand)) cand" using assms(1) by (simp add: bin_wf_def)
  from bin_next_rest [OF this, of ci] r obtain ci' where
    n: "bi383_next ci cand = (x, ci')" "ci' \<noteq> 0" "bin_rest ci' cand = xs"
    by (auto simp: bi383_next_def)
  show ?case
  proof (cases p)
    case 0
    then show ?thesis using n r by simp
  next
    case (Suc q)
    then show ?thesis using Suc.IH [of ci' x] Suc.prems n r by auto
  qed
qed simp

definition pos_index :: "nat \<Rightarrow> int \<Rightarrow> int" where
  "pos_index n p = (if p < 0 then int n + p + 1 else p)"

lemma clr_step_inv:
  assumes "bin_wf 12 cand" "bin_wf 12 res" "L = bi383_list cand" "\<forall>c \<in> set L. 0 < c \<and> c < 384"
    "bin_rest ci cand = drop (nat prev) L" "0 \<le> prev" "prev \<le> int (length L)"
    "0 < prev \<longrightarrow> L ! nat (prev - 1) \<in> bin_elems res"
    "1 \<le> \<bar>pos\<bar>" "\<bar>pos\<bar> \<le> int (length L)" "length L < 400"
    "clr_step cand (res, ci, prev) pos = (res', ci', prev')"
  shows "bin_wf 12 res' \<and> bin_rest ci' cand = drop (nat prev') L \<and> prev' = pos_index (length L) pos \<and>
    bin_elems res' = insert (L ! nat (prev' - 1)) (bin_elems res)"
proof -
  define q where "q = pos_index (length L) pos"
  have q: "1 \<le> q" "q \<le> int (length L)" using assms(9,10) by (auto simp: q_def pos_index_def)
  have L: "bin_rest 0 cand = L" using bi383_list_rest [OF assms(1)] assms(3) by simp
  have qe: "(if pos < 0 then i32 (int (length (bi383_list cand)) + pos + 1) else pos) = q"
    using q assms(3,11) by (auto simp: q_def pos_index_def i32_id)
  define cp where "cp = (if q < prev then (0, 0) else (ci, prev))"
  obtain ci0 p0 where cp: "cp = (ci0, p0)" by (cases cp)
  have r0: "bin_rest ci0 cand = drop (nat p0) L" "0 \<le> p0" "p0 \<le> q" "0 < p0 \<longrightarrow> p0 = prev"
    using cp assms(5,6) L q by (auto simp: cp_def split: if_splits)
  obtain c ci1 where nn: "next_nth cand (nat (q - p0)) 0 ci0 = (c, ci1)" by (cases "next_nth cand (nat (q - p0)) 0 ci0")
  have st: "res' = (if 0 < c then ass_bi383 res c else res)" "ci' = ci1" "prev' = q"
    using assms(12) unfolding clr_step_def prod.case Let_def qe cp_def [symmetric] cp nn by auto
  show ?thesis
  proof (cases "q = p0")
    case True
    then have "c = 0" "ci1 = ci0" using nn by auto
    moreover have "q = prev" using True q(1) r0(4) by auto
    ultimately show ?thesis using st r0 True q assms(2,8) by (auto simp: q_def [symmetric] insert_absorb)
  next
    case False
    then have p: "0 < nat (q - p0)" "nat (q - p0) \<le> length (bin_rest ci0 cand)" using r0 q by auto
    from next_nth_rest [OF assms(1) p(2,1), of 0] nn
    have c: "c = drop (nat p0) L ! (nat (q - p0) - 1)" "bin_rest ci1 cand = drop (nat (q - p0)) (drop (nat p0) L)"
      by (auto simp: r0)
    have i: "nat p0 + (nat (q - p0) - 1) = nat (q - 1)" using r0 False by auto
    have "c = L ! nat (q - 1)" unfolding c(1) using q r0 False i by (subst nth_drop) auto
    moreover have "bin_rest ci1 cand = drop (nat q) L" using c(2) r0 False by (simp add: nat_diff_distrib)
    moreover have "L ! nat (q - 1) \<in> set L" using q by auto
    ultimately show ?thesis
      using st assms(4) ass_bin_elems [OF assms(2), of c] by (auto simp: ass_bi383_def q_def [symmetric])
  qed
qed

lemma clr_fold:
  assumes "bin_wf 12 cand" "L = bi383_list cand" "\<forall>c \<in> set L. 0 < c \<and> c < 384" "length L < 400"
    "\<forall>p \<in> set ps. 1 \<le> \<bar>p\<bar> \<and> \<bar>p\<bar> \<le> int (length L)"
    "bin_wf 12 res" "bin_rest ci cand = drop (nat prev) L" "0 \<le> prev" "prev \<le> int (length L)"
    "0 < prev \<longrightarrow> L ! nat (prev - 1) \<in> bin_elems res"
  shows "bin_elems (fst (foldl (clr_step cand) (res, ci, prev) ps)) =
    bin_elems res \<union> (\<lambda>p. L ! nat (pos_index (length L) p - 1)) ` set ps"
  using assms(5-)
proof (induction ps arbitrary: res ci prev)
  case (Cons p ps)
  obtain res' ci' prev' where st: "clr_step cand (res, ci, prev) p = (res', ci', prev')" by (metis surj_pair)
  have p: "1 \<le> \<bar>p\<bar>" "\<bar>p\<bar> \<le> int (length L)" using Cons.prems(1) by auto
  note i = clr_step_inv [OF assms(1) Cons.prems(2) assms(2,3) Cons.prems(3-6) p assms(4) st]
  have r: "0 \<le> prev'" "prev' \<le> int (length L)" using i p by (auto simp: pos_index_def)
  have "bin_elems (fst (foldl (clr_step cand) (res', ci', prev') ps)) =
      bin_elems res' \<union> (\<lambda>p. L ! nat (pos_index (length L) p - 1)) ` set ps"
    by (rule Cons.IH) (use Cons.prems i r in auto)
  with i st show ?case by auto
qed simp

text \<open>
  C35: BYSETPOS: when every position, counted from the front or (negative) from the back, exists in
  the list of candidates, exactly the candidates at these positions are kept.
\<close>
theorem setpos_picks:
  assumes "bin_wf 12 cand" "\<forall>c \<in> bin_elems cand. 0 < c \<and> c < 384" "bin_wf 12 poss" "bi383_has_bits_p poss"
    "\<forall>p \<in> bin_elems poss. 1 \<le> \<bar>p\<bar> \<and> \<bar>p\<bar> \<le> int (length (bi383_list cand))" "383 \<notin> bin_elems poss"
    "length (bi383_list cand) < 400"
  shows "bin_elems (clr_poss cand poss) =
    (\<lambda>p. bi383_list cand ! nat (pos_index (length (bi383_list cand)) p - 1)) ` bin_elems poss"
proof -
  have w: "bin_wf (length (npos cand)) cand" "bin_wf (length (npos poss)) poss" "length (npos poss) = 12"
    using assms(1,3) by (auto simp: bin_wf_def)
  have "set (bi383_list cand) \<subseteq> bin_elems cand"
    using bin_rest_set [OF w(1)] bi383_list_rest [OF assms(1)] by auto
  then have L: "\<forall>c \<in> set (bi383_list cand). 0 < c \<and> c < 384" using assms(2) by blast
  have "\<not> (bit (npos poss ! 0) 0 \<and> abit (npos poss) 383)"
  proof
    assume a: "bit (npos poss ! 0) 0 \<and> abit (npos poss) 383"
    then have "int 383 \<in> bin_elems poss" unfolding bin_elems_def by (simp only: if_True) (rule UnI1, rule imageI, simp)
    then show False using assms(6) by simp
  qed
  then have P: "set (bi383_list poss) = bin_elems poss"
    using bin_rest_set [OF w(2)] bi383_list_rest [OF assms(3)] w(3) by auto
  have e: "bin_elems (bin_empty 12) = {}" "bin_wf 12 (bin_empty 12)"
    using bin_empty_elems [of 12] bin_empty_wf [of 12] by simp_all
  have "bin_elems (fst (foldl (clr_step cand) (bin_empty 12, 0, 0) (bi383_list poss))) =
      {} \<union> (\<lambda>p. bi383_list cand ! nat (pos_index (length (bi383_list cand)) p - 1)) ` set (bi383_list poss)"
    unfolding e(1) [symmetric]
    by (rule clr_fold [OF assms(1) refl L assms(7)]) (use assms(5) P e(2) bi383_list_rest [OF assms(1)] in auto)
  then show ?thesis using assms(4) P by (simp add: clr_poss_def)
qed

lemma setpos_sample:
  "bi383_list (foldl ass_bi383 (bin_empty 12) [5, 9, 300]) = [5, 9, 300]"
  "bi383_list (foldl ass_bi383 (bin_empty 12) [1, - 1]) = [1, - 1]"
  "bi383_has_bits_p (foldl ass_bi383 (bin_empty 12) [1, - 1])"
  by code_simp+

theorem setpos_picks_witness:
  "bin_elems (clr_poss (foldl ass_bi383 (bin_empty 12) [5, 9, 300]) (foldl ass_bi383 (bin_empty 12) [1, - 1])) = {5, 300}"
proof -
  have e: "bin_wf 12 (foldl ass_bi383 (bin_empty 12) xs) \<and> bin_elems (foldl ass_bi383 (bin_empty 12) xs) = set xs"
    if "\<forall>x \<in> set xs. \<bar>x\<bar> < 384" for xs
    using foldl_ass_bin [OF bin_empty_wf, of 12 xs] that bin_empty_elems [of 12]
    by (simp add: ass_bi383_def [abs_def])
  show ?thesis
    using setpos_picks [of "foldl ass_bi383 (bin_empty 12) [5, 9, 300]" "foldl ass_bi383 (bin_empty 12) [1, - 1]"]
      e [of "[5, 9, 300]"] e [of "[1, - 1]"] setpos_sample
    by (simp add: pos_index_def)
qed

text \<open>
  When a position does not exist the iterator starts over, so a further position picks a wrong
  candidate: of two candidates, BYSETPOS=5,7 keeps the second.
\<close>

lemma setpos_restart:
  "bi383_list (clr_poss (foldl ass_bi383 (bin_empty 12) [40, 41]) (foldl ass_bi383 (bin_empty 12) [5, 7])) = [41]"
  by code_simp

section \<open>SHIFT\<close>

lemma dayno_lower: "1 \<le> m \<Longrightarrow> m \<le> 12 \<Longrightarrow> 365 * y + (y + 3) div 4 + d \<le> dayno y m d"
  by (cases m rule: month_cases) (simp_all add: dayno_def doy_def)

lemma reassess_dayno:
  "1 \<le> m \<Longrightarrow> m \<le> 12 \<Longrightarrow> 0 \<le> y \<Longrightarrow> y < 4294967296 \<Longrightarrow> 0 < dayno y m d \<Longrightarrow> dayno y m d < 365 * 4000000000 \<Longrightarrow>
   reassess y m d = (y', m', d') \<Longrightarrow> valid_ymd y' m' d' \<and> dayno y' m' d' = dayno y m d"
proof (induction y m d rule: reassess.induct)
  case (1 y m d)
  consider "d \<le> 0" | "0 < d" "get_mdays y m < d" | "0 < d" "d \<le> get_mdays y m" by linarith
  then show ?case
  proof cases
    case 1
    have y: "1 \<le> y" if "m = 1"
      using "1.prems"(3,5) that 1 by (cases "y = 0") (simp_all add: dayno_def doy_def)
    define ym where "ym = (if m - 1 \<le> 0 then (u32 (y - 1), m - 1 + 12) else (y, m - 1))"
    obtain py pm where p: "ym = (py, pm)" by (cases ym)
    have pe: "py = (if m = 1 then y - 1 else y)" "pm = (if m = 1 then 12 else m - 1)"
      using p "1.prems"(1,3,4) y by (auto simp: ym_def u32_id split: if_splits)
    have day: "dayno py pm (d + get_mdays py pm) = dayno y m d"
      using pe "1.prems"(1,2) dayno_next_year [of "y - 1" d] dayno_next_month [of "m - 1" y d] by (cases "m = 1") auto
    have r: "reassess py pm (d + get_ndom py pm) = (y', m', d')"
    proof -
      have "reassess y m d = (case ym of (y, m) \<Rightarrow> reassess y m (d + get_ndom y m))"
        unfolding ym_def by (subst reassess.simps) (simp only: 1 if_True Let_def)
      with "1.prems"(7) p show ?thesis by simp
    qed
    have "valid_ymd y' m' d' \<and> dayno y' m' d' = dayno py pm (d + get_ndom py pm)"
      by (rule "1.IH"(1) [OF 1, of ym, unfolded p])
        (use ym_def p pe "1.prems" day r y in \<open>auto simp: get_ndom_mdays\<close>)
    then show ?thesis using day by (simp add: get_ndom_mdays)
  next
    case 2
    define ym where "ym = (if 12 < m + 1 then (u32 (y + 1), m + 1 - 12) else (y, m + 1))"
    obtain py pm where p: "ym = (py, pm)" by (cases ym)
    have "365 * y < 365 * 4000000000"
      using dayno_lower [OF "1.prems"(1,2), of y d] "1.prems"(3,6) 2(1) by linarith
    then have y: "y < 4000000000" by simp
    have pe: "py = (if m = 12 then y + 1 else y)" "pm = (if m = 12 then 1 else m + 1)"
      using p "1.prems"(2,3) y by (auto simp: ym_def u32_id split: if_splits)
    have day: "dayno py pm (d - get_mdays y m) = dayno y m d"
      using pe "1.prems"(1,2) dayno_next_year [of y "d - get_mdays y 12"] dayno_next_month [of m y "d - get_mdays y m"]
      by (cases "m = 12") auto
    have r: "reassess py pm (d - get_ndom y m) = (y', m', d')"
    proof -
      have "\<not> d \<le> 0" "get_ndom y m < d" using 2 by (simp_all add: get_ndom_mdays)
      then have "reassess y m d = (case ym of (y', m') \<Rightarrow> reassess y' m' (d - get_ndom y m))"
        unfolding ym_def by (subst reassess.simps) (simp only: if_True if_False Let_def)
      with "1.prems"(7) p show ?thesis by simp
    qed
    have "valid_ymd y' m' d' \<and> dayno y' m' d' = dayno py pm (d - get_ndom y m)"
      by (rule "1.IH"(2) [OF _ _ refl, of ym, unfolded p])
        (use ym_def p pe 2 "1.prems" day r y in \<open>auto simp: get_ndom_mdays\<close>)
    then show ?thesis using day by (simp add: get_ndom_mdays)
  next
    case 3
    then show ?thesis using "1.prems" by (subst (asm) reassess.simps) (simp add: get_ndom_mdays valid_ymd_def)
  qed
qed

text \<open>The days of year \<open>y'\<close> that days of \<open>E\<close> in year \<open>y\<close> land on when each moves by \<open>\<delta>\<close>.\<close>

definition moved :: "int \<Rightarrow> int set \<Rightarrow> (int \<Rightarrow> int \<Rightarrow> int) \<Rightarrow> int \<Rightarrow> int set" where
  "moved y E \<delta> y' = {pack_cand m' d' |m' d'. valid_ymd y' m' d' \<and>
     (\<exists>m d. valid_ymd y m d \<and> pack_cand m d \<in> E \<and> dayno y' m' d' = dayno y m d + \<delta> m d)}"

lemma moved_Un: "moved y (A \<union> B) \<delta> y' = moved y A \<delta> y' \<union> moved y B \<delta> y'"
  unfolding moved_def by blast

lemma moved_single:
  assumes "valid_ymd y m d" "valid_ymd y' m' d'" "dayno y' m' d' = dayno y m d + \<delta> m d"
  shows "moved y {pack_cand m d} \<delta> y'' = (if y'' = y' then {pack_cand m' d'} else {})"
proof -
  have "(\<exists>n e. valid_ymd y n e \<and> pack_cand n e \<in> {pack_cand m d} \<and> D = dayno y n e + \<delta> n e) \<longleftrightarrow>
      D = dayno y m d + \<delta> m d" for D
  proof
    assume "\<exists>n e. valid_ymd y n e \<and> pack_cand n e \<in> {pack_cand m d} \<and> D = dayno y n e + \<delta> n e"
    then obtain n e where n: "valid_ymd y n e" "pack_cand n e = pack_cand m d" "D = dayno y n e + \<delta> n e" by blast
    from pack_cand_inj [OF valid_good [OF n(1)] valid_good [OF assms(1)] n(2)] n(3)
    show "D = dayno y m d + \<delta> m d" by simp
  qed (use assms(1) in blast)
  then have "moved y {pack_cand m d} \<delta> y'' = {pack_cand n e |n e. valid_ymd y'' n e \<and> dayno y'' n e = dayno y' m' d'}"
    unfolding moved_def assms(3) by simp
  also have "\<dots> = (if y'' = y' then {pack_cand m' d'} else {})"
  proof (cases "y'' = y'")
    case True
    then show ?thesis using dayno_inj [OF _ assms(2), of y''] assms(2) by auto
  next
    case False
    then show ?thesis using dayno_inj [OF _ assms(2), of y''] by auto
  qed
  finally show ?thesis .
qed

lemma year_near:
  assumes "valid_ymd y m d" "valid_ymd y' m' d'" "dayno y' m' d' = dayno y m d + k" "\<bar>k\<bar> \<le> 365"
  shows "y - 1 \<le> y'" "y' \<le> y + 1"
proof -
  note b = dayno_year_bounds [OF assms(1)] dayno_year_bounds [OF assms(2)]
  have k: "- 365 \<le> k" "k \<le> 365" using assms(4) by auto
  show "y - 1 \<le> y'"
  proof (rule ccontr)
    assume "\<not> y - 1 \<le> y'"
    then have "365 * (y' + 1) \<le> 365 * y - 365" "(y' + 4) div 4 \<le> (y + 3) div 4" by (auto intro: zdiv_mono1)
    then show False using b(1,4) assms(3) k by linarith
  qed
  show "y' \<le> y + 1"
  proof (rule ccontr)
    assume "\<not> y' \<le> y + 1"
    then have "365 * (y + 1) + 365 \<le> 365 * y'" "(y + 4) div 4 \<le> (y' + 3) div 4" by (auto intro: zdiv_mono1)
    then show False using b(2,3) assms(3) k by linarith
  qed
qed

definition cands_wf :: "cands \<Rightarrow> bool" where
  "cands_wf r \<longleftrightarrow> (case r of (a, b, c) \<Rightarrow> bin_wf 12 a \<and> bin_wf 12 b \<and> bin_wf 12 c)"

definition cands_elems :: "cands \<Rightarrow> int set \<times> int set \<times> int set" where
  "cands_elems r = (case r of (a, b, c) \<Rightarrow> (bin_elems a, bin_elems b, bin_elems c))"

lemma shift_fold:
  assumes "\<forall>c \<in> set cs. \<exists>m d. c = pack_cand m d \<and> valid_ymd y m d"
    "\<And>m d. valid_ymd y m d \<Longrightarrow> h m d = d + \<delta> m d \<and> \<bar>\<delta> m d\<bar> \<le> 365" "2 \<le> y" "y < 100000"
    "cands_wf r" "cands_elems r = (A, B, C)"
    "f = (\<lambda>res c. case unpack_cand (u32 c) of (m, d) \<Rightarrow> ass_res y res (reassess y m (h m d)))"
  shows "cands_wf (foldl f r cs) \<and> cands_elems (foldl f r cs) =
    (A \<union> moved y (set cs) \<delta> y, B \<union> moved y (set cs) \<delta> (y - 1), C \<union> moved y (set cs) \<delta> (y + 1))"
  using assms(1,5,6)
proof (induction cs arbitrary: r A B C)
  case Nil
  then show ?case by (simp add: moved_def)
next
  case (Cons x cs)
  then obtain m d where x: "x = pack_cand m d" "valid_ymd y m d" by auto
  have g: "good_md m d" using valid_good [OF x(2)] .
  have u: "unpack_cand (u32 x) = (m, d)"
    using pack_cand_range [OF g] g x(1) pack_unpack_cand [of m d] by (simp add: u32_id good_md_def)
  have h: "h m d = d + \<delta> m d" "\<bar>\<delta> m d\<bar> \<le> 365" using assms(2) x(2) by auto
  obtain y' m' d' where re: "reassess y m (h m d) = (y', m', d')" by (metis surj_pair)
  have "(y + 3) div 4 \<le> 25000 + 1" "0 \<le> (y + 3) div 4" "(y + 4) div 4 \<le> 25000 + 1" using assms(3,4) by auto
  moreover have dd: "dayno y m (h m d) = dayno y m d + \<delta> m d" using h by (simp add: dayno_def)
  moreover have "- 365 \<le> \<delta> m d" "\<delta> m d \<le> 365" "730 \<le> 365 * y" "365 * (y + 1) \<le> 36500000"
    using h(2) assms(3,4) by auto
  ultimately have "0 < dayno y m (h m d)" "dayno y m (h m d) < 365 * 4000000000"
    using dayno_year_bounds [OF x(2)] by linarith+
  then have v: "valid_ymd y' m' d'" "dayno y' m' d' = dayno y m d + \<delta> m d"
    using reassess_dayno [OF _ _ _ _ _ _ re] x(2) assms(3,4) dd by (auto simp: valid_ymd_def)
  have near: "y - 1 \<le> y'" "y' \<le> y + 1" using year_near [OF x(2) v h(2)] by auto
  obtain a b c where r: "r = (a, b, c)" "bin_elems a = A" "bin_elems b = B" "bin_elems c = C"
    "bin_wf 12 a" "bin_wf 12 b" "bin_wf 12 c"
    using Cons.prems by (cases r) (auto simp: cands_wf_def cands_elems_def)
  have fx: "f r x = ass_res y (a, b, c) (y', m', d')" unfolding assms(7) u prod.case re r(1) ..
  note add = add_cand_elems [OF _ valid_good [OF v(1)]]
  note one = moved_single [of y m d y' m' d' \<delta>, OF x(2) v]
  have s: "cands_wf (f r x) \<and> cands_elems (f r x) =
    (A \<union> moved y {x} \<delta> y, B \<union> moved y {x} \<delta> (y - 1), C \<union> moved y {x} \<delta> (y + 1))"
    using add [OF r(5)] add [OF r(6)] add [OF r(7)] r(2-7) near
    unfolding fx unfolding x(1) one ass_res_def prod.case cands_wf_def cands_elems_def
    by (cases "y' = y"; cases "y' < y") auto
  have t: "moved y (set (x # cs)) \<delta> y'' = moved y {x} \<delta> y'' \<union> moved y (set cs) \<delta> y''" for y''
    unfolding moved_Un [symmetric] by simp
  have "\<forall>c \<in> set cs. \<exists>m d. c = pack_cand m d \<and> valid_ymd y m d" using Cons.prems(1) by simp
  from Cons.IH [OF this conjunct1 [OF s] conjunct2 [OF s]] show ?case
    unfolding t foldl.simps by (simp only: Un_assoc)
qed

lemma no_cands_elems: "cands_wf no_cands \<and> cands_elems no_cands = ({}, {}, {})"
  using bin_empty_elems [of 12] bin_empty_wf [of 12] by (simp add: cands_wf_def cands_elems_def no_cands_def)

lemma cand_list_set:
  assumes "bin_wf 12 c" "\<forall>x \<in> bin_elems c. 0 < x"
  shows "set (bi383_list c) = bin_elems c"
proof -
  have "bin_wf (length (npos c)) c" using assms(1) by (simp add: bin_wf_def)
  from bin_rest_set [OF this] bi383_list_rest [OF assms(1)] show ?thesis
    using assms(2) by (auto split: if_splits intro: less_imp_le)
qed

definition year_cands :: "int \<Rightarrow> int set \<Rightarrow> bool" where
  "year_cands y E \<longleftrightarrow> (\<forall>c \<in> E. \<exists>m d. c = pack_cand m d \<and> valid_ymd y m d)"

lemma year_cands_pos: "year_cands y E \<Longrightarrow> \<forall>x \<in> E. 0 < x"
  using pack_cand_range(1) [OF valid_good] by (fastforce simp: year_cands_def)

text \<open>
  C36: SHIFT by days: every candidate day of the year moves by exactly the given number of days (at
  most 365 either way); the candidates come out sorted into the year, the year before and the year
  after, and nothing is lost or added.
\<close>
theorem shift_days_moves:
  assumes "bin_wf 12 cand" "year_cands y (bin_elems cand)" "2 \<le> y" "y < 100000" "- 365 \<le> k" "k \<le> 365"
  shows "cands_elems (shift_days cand y k) =
    (moved y (bin_elems cand) (\<lambda>m d. k) y, moved y (bin_elems cand) (\<lambda>m d. k) (y - 1),
     moved y (bin_elems cand) (\<lambda>m d. k) (y + 1))"
proof -
  have l: "set (bi383_list cand) = bin_elems cand"
    using cand_list_set [OF assms(1) year_cands_pos [OF assms(2)]] .
  have h: "i32 (d + k) = d + k \<and> \<bar>k\<bar> \<le> 365" if "valid_ymd y m d" for m d
    using valid_good [OF that] assms(5,6) by (auto simp: good_md_def i32_id)
  have c: "\<forall>c \<in> set (bi383_list cand). \<exists>m d. c = pack_cand m d \<and> valid_ymd y m d"
    using assms(2) unfolding l year_cands_def .
  show ?thesis
    using shift_fold [where \<delta> = "\<lambda>m d. k" and h = "\<lambda>m d. i32 (d + k)", OF c h assms(3,4)
        conjunct1 [OF no_cands_elems] conjunct2 [OF no_cands_elems] refl]
    unfolding shift_days_def l by simp
qed

section \<open>Business days\<close>

text \<open>
  Days counted from a Monday: \<open>bizno\<close> is the number of business days before day \<open>t\<close>, for a
  business day \<open>t\<close>.
\<close>

definition bizno :: "int \<Rightarrow> int" where
  "bizno t = 5 * (t div 7) + t mod 7"

lemma bizno_eq: "0 \<le> r \<Longrightarrow> r < 5 \<Longrightarrow> (7 * q + r) mod 7 < 5 \<and> bizno (7 * q + r) = 5 * q + r"
  by (simp add: bizno_def)

text \<open>The core of the computation: from weekday \<open>a + 1\<close>, by \<open>b\<close> business days.\<close>

definition bday_core :: "int \<Rightarrow> int \<Rightarrow> int" where
  "bday_core w b =
     (let u5 = u32 (w + 384 + b) mod 5; b = b sdiv 5 * 7 + b smod 5; u7 = u32 (w + 384 + b) mod 7
      in b + (u5 - u7) + (if 0 < b \<and> u5 < u7 then 7 else 0))"

lemma sdiv_neg: "a < 0 \<Longrightarrow> a sdiv 5 = - (- a div 5)" and smod_neg: "a < 0 \<Longrightarrow> a smod 5 = - (- a mod 5)" for a :: int
  by (simp_all add: signed_divide_int_def signed_modulo_int_def)

lemma bday_core_eq:
  assumes "0 \<le> a" "a < 5" "- 270 \<le> b" "b < 20000"
  shows "bday_core (a + 1) b =
    (if 0 \<le> b then 7 * (b div 5) + b mod 5 + (if a + b mod 5 < 5 then 0 else 2)
     else - (7 * (- b div 5) + - b mod 5 + (if - b mod 5 \<le> a then 0 else 2)))"
proof (cases "0 \<le> b")
  case True
  define q r where "q = b div 5" and "r = b mod 5"
  have b: "b = 5 * q + r" "0 \<le> q" "0 \<le> r" "r < 5" using True by (auto simp: q_def r_def pos_imp_zdiv_nonneg_iff)
  have s: "b sdiv 5 * 7 + b smod 5 = 7 * q + r" using True by (simp add: q_def r_def sdiv_nonneg smod_nonneg)
  have "u32 (a + 1 + 384 + b) = 5 * (q + 77) + (a + r)" "u32 (a + 1 + 384 + (7 * q + r)) = 7 * (q + 55) + (a + r)"
    using assms b by (simp_all add: u32_id)
  then have u: "u32 (a + 1 + 384 + b) mod 5 = (a + r) mod 5" "u32 (a + 1 + 384 + (7 * q + r)) mod 7 = (a + r) mod 7"
    by (simp_all only: mod_mult_self4)
  have "(a + r) mod 5 = (if a + r < 5 then a + r else a + r - 5)"
    using assms b int_mod_pos_eq [of "a + r" 5 1 "a + r - 5"] by auto
  moreover have "(a + r) mod 7 = (if a + r < 7 then a + r else a + r - 7)"
    using assms b int_mod_pos_eq [of "a + r" 7 1 "a + r - 7"] by auto
  ultimately show ?thesis
    unfolding bday_core_def Let_def s u q_def [symmetric] r_def [symmetric] using True assms b by auto
next
  case False
  define q r where "q = - b div 5" and "r = - b mod 5"
  have b: "b = - (5 * q + r)" "0 \<le> q" "0 \<le> r" "r < 5" "q \<le> 54"
    using False assms by (auto simp: q_def r_def pos_imp_zdiv_nonneg_iff)
  have s: "b sdiv 5 * 7 + b smod 5 = - (7 * q + r)" using False by (simp add: q_def r_def sdiv_neg smod_neg)
  have "u32 (a + 1 + 384 + b) = 5 * (77 - q) + (a - r)" "u32 (a + 1 + 384 + - (7 * q + r)) = 7 * (55 - q) + (a - r)"
    using assms b by (simp_all add: u32_id)
  then have u: "u32 (a + 1 + 384 + b) mod 5 = (a - r) mod 5" "u32 (a + 1 + 384 + - (7 * q + r)) mod 7 = (a - r) mod 7"
    by (simp_all only: mod_mult_self4)
  have "(a - r) mod 5 = (if r \<le> a then a - r else a - r + 5)"
    using assms b int_mod_pos_eq [of "a - r" 5 "- 1" "a - r + 5"] by auto
  moreover have "(a - r) mod 7 = (if r \<le> a then a - r else a - r + 7)"
    using assms b int_mod_pos_eq [of "a - r" 7 "- 1" "a - r + 7"] by auto
  ultimately show ?thesis
    unfolding bday_core_def Let_def s u q_def [symmetric] r_def [symmetric] using False assms b by auto
qed

lemma bday_core_bizno:
  assumes "0 \<le> a" "a < 5" "- 270 \<le> b" "b < 20000"
  shows "(a + bday_core (a + 1) b) mod 7 < 5 \<and> bizno (a + bday_core (a + 1) b) = a + b"
proof (cases "0 \<le> b")
  case True
  define q r where "q = b div 5" and "r = b mod 5"
  have b: "b = 5 * q + r" "0 \<le> r" "r < 5" by (auto simp: q_def r_def)
  obtain c where c: "bday_core (a + 1) b = c" by simp
  then have "c = 7 * q + r + (if a + r < 5 then 0 else 2)"
    using bday_core_eq [OF assms] True by (simp add: q_def r_def)
  then have e: "a + c = (if a + r < 5 then 7 * q + (a + r) else 7 * (q + 1) + (a + r - 5))" by simp
  show ?thesis
    unfolding c e using bizno_eq [of "a + r" q] bizno_eq [of "a + r - 5" "q + 1"] b assms
    by (cases "a + r < 5") simp_all
next
  case False
  define q r where "q = - b div 5" and "r = - b mod 5"
  have b: "b = - (5 * q + r)" "0 \<le> r" "r < 5" by (auto simp: q_def r_def)
  obtain c where c: "bday_core (a + 1) b = c" by simp
  then have "c = - (7 * q + r + (if r \<le> a then 0 else 2))"
    using bday_core_eq [OF assms] False by (simp add: q_def r_def)
  then have e: "a + c = (if r \<le> a then 7 * - q + (a - r) else 7 * (- q - 1) + (a - r + 5))" by simp
  show ?thesis
    unfolding c e using bizno_eq [of "a - r" "- q"] bizno_eq [of "a - r + 5" "- q - 1"] b assms
    by (cases "r \<le> a") simp_all
qed

text \<open>Where counting starts: on a weekend the Monday after or the Friday before.\<close>

definition biz_start :: "bool \<Rightarrow> bool \<Rightarrow> int \<Rightarrow> echs_wday \<Rightarrow> int \<times> int" where
  "biz_start ng iv b w =
     (let k = (if b \<noteq> 0 \<and> \<not> iv then 1 else 0)
      in if w < SAT then (w - 1, b) else if \<not> ng then (7, b - k) else (4, b + k))"

lemma bday_move_core:
  assumes "1 \<le> w" "w \<le> 7" "biz_start ng iv b w = (t0, b0)"
  shows "bday_move ng iv b w d = d + (t0 - (w - 1)) + bday_core (t0 mod 7 + 1) b0"
proof -
  have "w \<in> {1, 2, 3, 4, 5, 6, 7}" using assms by auto
  then show ?thesis
    using assms(3) unfolding bday_move_def bday_core_def biz_start_def Let_def
    by (cases "SAT \<le> w"; cases ng) (auto split: if_splits)
qed

text \<open>
  C37: SHIFT by business days: from a weekday the result is the weekday exactly \<open>b\<close> business days
  later (earlier when negative); from a Saturday or Sunday counting starts at the next Monday or the
  previous Friday, which itself counts as the first step unless the shift is inverted.  Counts below
  -270 are out of the range in which the unsigned remainders agree with the signed ones.
\<close>
theorem bday_move_counts:
  assumes "1 \<le> w" "w \<le> 7" "- 270 \<le> b" "b < 16384" "biz_start ng iv b w = (t0, b0)"
    "ng \<longleftrightarrow> b < 0"
  shows "let t = w - 1 + (bday_move ng iv b w d - d) in t mod 7 < 5 \<and> bizno t = bizno t0 + b0"
proof -
  define a where "a = t0 mod 7"
  have t0: "0 \<le> a" "a < 5" "t0 = a \<or> t0 = a + 7 \<and> t0 = 7" "- 270 \<le> b0" "b0 < 20000"
    using assms by (auto simp: biz_start_def Let_def a_def split: if_splits)
  have t: "w - 1 + (bday_move ng iv b w d - d) = t0 + bday_core (a + 1) b0"
    using bday_move_core [OF assms(1,2,5)] by (simp add: a_def)
  note c = bday_core_bizno [OF t0(1,2,4,5)]
  show ?thesis
  proof (cases "t0 = a")
    case True
    then have "bizno t0 = a" using t0 by (simp add: bizno_def)
    then show ?thesis using c True unfolding Let_def t by simp
  next
    case False
    then have z: "t0 = 7" "a = 0" using t0(3) by auto
    have "(7 + x) mod 7 = x mod 7 \<and> bizno (7 + x) = 5 + bizno x" for x
      using div_add_self1 [of 7 x] by (simp add: bizno_def)
    then show ?thesis using c unfolding Let_def t z by (simp add: bizno_def [of 7])
  qed
qed

theorem bday_move_counts_witness:
  "bday_move False False 1 5 10 = 13 \<and> bizno 7 = bizno 4 + 1"
proof -
  have e: "bday_move False False 1 5 10 = 13" by code_simp
  show ?thesis
    using bday_move_counts [of 5 1 False False 4 1 10] e by (simp add: biz_start_def Let_def)
qed

theorem shift_days_moves_witness:
  "cands_elems (shift_days (add_cand (bin_empty 12) 12 31) 2015 1) = ({}, {}, {pack_cand 1 1})"
proof -
  have v: "valid_ymd 2015 12 31" "valid_ymd 2016 1 1" by code_simp+
  have d: "dayno 2016 1 1 = dayno 2015 12 31 + 1" by code_simp
  have e: "bin_elems (add_cand (bin_empty 12) 12 31) = {pack_cand 12 31}" "bin_wf 12 (add_cand (bin_empty 12) 12 31)"
    using add_cand_elems [OF bin_empty_wf, of 12 31] by (simp_all add: good_md_def bin_empty_elems)
  have y: "year_cands 2015 (bin_elems (add_cand (bin_empty 12) 12 31))" using v e by (auto simp: year_cands_def)
  show ?thesis
    using shift_days_moves [OF e(2) y, of 1] moved_single [of 2015 12 31 2016 1 1 "\<lambda>m d. 1", OF v d] by (simp add: e)
qed

text \<open>Below the range the wrap shows: 400 business days before a Monday is a Monday, 560 days earlier.\<close>

lemma bday_wrap: "bday_move True False (- 400) 1 0 = - 563"
  by code_simp

end
