(* ===== verification/RruleFill.thy ===== *)
theory RruleFill
  imports Rrule
begin

text \<open>
  The yearly and monthly expanders of \<^verbatim>\<open>src/src/evrrul.c\<close>.  The array \<open>tgt\<close> is filled
  from the front; what a call leaves there is a list of pairs: \<open>tgt[k]\<close> and, when the call writes
  it, \<open>tgt[k + GRP_CCH_OFF]\<close>.
\<close>

type_synonym fill = "(instant \<times> instant option) list"

section \<open>Emitting instants\<close>

record fill_env =
  f_rr :: rrulsp
  f_proto :: instant
  f_times :: "(int \<times> int \<times> int) list"

text \<open>One candidate day: all its times; the flag tells that the rule's UNTIL was passed.\<close>

fun emit_times :: "fill_env \<Rightarrow> int \<Rightarrow> int \<Rightarrow> instant \<Rightarrow> (int \<times> int \<times> int) list \<Rightarrow> fill \<times> bool" where
  "emit_times e y yd grp [] = ([], False)"
| "emit_times e y yd grp ((H, M, S) # ts) =
     (let x = mk_inst y (u32 yd div 32 + 1) (u32 yd mod 32) H M S (i_ms (f_proto e))
      in if echs_instant_lt_p (rr_until (f_rr e)) x then ([], True)
         else if echs_instant_lt_p x (f_proto e) then emit_times e y yd grp ts
         else case emit_times e y yd grp ts of
                (r, fin) \<Rightarrow> ((echs_instant_attach_scale x (rr_scale (f_rr e)), Some grp) # r, fin))"

text \<open>The days of one candidate set, as long as there is room before the day is begun.\<close>

fun emit_days :: "fill_env \<Rightarrow> nat \<Rightarrow> int \<Rightarrow> instant \<Rightarrow> int list \<Rightarrow> fill \<times> bool" where
  "emit_days e room y grp [] = ([], False)"
| "emit_days e room y grp (yd # yds) =
     (if room = 0 then ([], False)
      else case emit_times e y yd grp (f_times e) of
             (r, True) \<Rightarrow> (r, True)
           | (r, False) \<Rightarrow>
               (case emit_days e (room - length r) y grp yds of (r', fin) \<Rightarrow> (r @ r', fin)))"

text \<open>The three sets of a period: the year before, the year itself, the year after.\<close>

definition emit_cands :: "fill_env \<Rightarrow> nat \<Rightarrow> int \<Rightarrow> instant \<Rightarrow> cands \<Rightarrow> fill \<times> bool" where
  "emit_cands e room y grp cand =
     (case cand of (c0, c1, c2) \<Rightarrow>
        (case emit_days e room (u32 (y - 1)) grp (bi383_list c1) of
           (r, True) \<Rightarrow> (r, True)
         | (r, False) \<Rightarrow>
             (case emit_days e (room - length r) y grp (bi383_list c0) of
                (r', True) \<Rightarrow> (r @ r', True)
              | (r', False) \<Rightarrow>
                  (case emit_days e (room - length (r @ r')) (u32 (y + 1)) grp (bi383_list c2) of
                     (r'', fin) \<Rightarrow> (r @ r' @ r'', fin)))))"

text \<open>COUNT limits the number of slots; no slot means an early return.\<close>

definition clip_nti :: "rrulsp \<Rightarrow> nat \<Rightarrow> nat" where
  "clip_nti rr nti = (if u32 (rr_count rr) < int nti then nat (u32 (rr_count rr)) else nti)"

definition the_proto :: "instant \<Rightarrow> rrulsp \<Rightarrow> instant" where
  "the_proto tgt rr = echs_instant_detach_scale (echs_instant_rescale tgt (rr_scale rr))"

section \<open>Yearly\<close>

definition yly_cand :: "rrulsp \<Rightarrow> int list \<Rightarrow> int list \<Rightarrow> wd_mask \<Rightarrow> int \<Rightarrow> bitintn" where
  "yly_cand rr ms ds wd y =
     (let sca = rr_scale rr; c = bin_empty 12;
          c = (if wd \<noteq> 0 \<and> (ds \<noteq> [] \<or> bi383_has_bits_p (rr_doy rr)) then c
               else if wd \<noteq> 0 \<and> bi63_has_bits_p (rr_wk rr) \<and> sca = SCALE_GREGORIAN
                 then fill_yly_ywd c y (rr_wk rr) (rr_dow rr)
               else if wd \<noteq> 0 \<and> ms \<noteq> [] then
                 fill_yly_md_all
                   (if wd_has wd 0 \<and> sca = SCALE_GREGORIAN then fill_yly_ymcw c y (rr_dow rr) ms else c)
                   sca y ms wd
               else if wd \<noteq> 0 \<and> sca = SCALE_GREGORIAN then
                 fill_yly_yd_all (if wd_has wd 0 then fill_yly_ycw c y (rr_dow rr) else c) y wd
               else c);
          c = (if sca = SCALE_GREGORIAN then fill_yly_yd c y (rr_doy rr) wd else c);
          c = (if sca = SCALE_GREGORIAN \<and> bi383_has_bits_p (rr_easter rr)
                 then fill_yly_eastr c y (rr_easter rr) (rr_mon rr) (rr_dom rr) wd
               else if ms = [] \<and> ds = [] then c
               else if ms = [] then fill_yly_ymd_all_m c sca y ds wd
               else if ds = [] then fill_yly_ymd_all_d c sca y ms wd
               else fill_yly_ymd c sca y ms ds wd)
      in clr_poss c (rr_pos rr))"

definition yly_year :: "fill_env \<Rightarrow> int list \<Rightarrow> int list \<Rightarrow> wd_mask \<Rightarrow> int \<Rightarrow> nat \<Rightarrow> fill \<times> bool" where
  "yly_year e ms ds wd y room =
     (let rr = f_rr e;
          cand = shift (yly_cand rr ms ds wd y, bin_empty 12, bin_empty 12) y (rr_shift rr)
      in emit_cands e room y (mk_inst y 0 0 0 0 0 0) cand)"

function yly_loop :: "(int \<Rightarrow> nat \<Rightarrow> fill \<times> bool) \<Rightarrow> int \<Rightarrow> nat \<Rightarrow> int \<Rightarrow> nat \<Rightarrow> fill \<Rightarrow> fill" where
  "yly_loop year iv nti y tries acc =
     (if length acc < nti \<and> 1 < tries then
        case year y (nti - length acc) of (r, fin) \<Rightarrow>
          if fin then acc @ r
          else yly_loop year iv nti (u32 (y + iv)) (if r = [] then tries - 1 else 64) (acc @ r)
      else acc)"
  by pat_completeness auto
termination
  by (relation "measures [\<lambda>(_, _, nti, _, _, acc). nti - length acc, \<lambda>(_, _, _, _, tries, _). tries]")
    (auto simp flip: length_greater_0_conv)

declare yly_loop.simps [simp del]

definition ymd_only :: "rrulsp \<Rightarrow> bool" where
  "ymd_only rr \<longleftrightarrow> \<not> bi63_has_bits_p (rr_wk rr) \<and> \<not> bi447_has_bits_p (rr_dow rr) \<and>
     \<not> bi383_has_bits_p (rr_doy rr) \<and> \<not> bi383_has_bits_p (rr_easter rr) \<and> \<not> bi31_has_bits_p (rr_dom rr)"

definition yly_months :: "rrulsp \<Rightarrow> instant \<Rightarrow> int list" where
  "yly_months rr proto =
     (let ms = map int (take 12 (bui31_list (rr_mon rr)))
      in if ms = [] \<and> ymd_only rr \<and> i_m proto \<noteq> 0 then [i_m proto] else ms)"

definition yly_days :: "rrulsp \<Rightarrow> instant \<Rightarrow> nat \<Rightarrow> bool \<Rightarrow> int list" where
  "yly_days rr proto nti ymdp =
     (let ds = take nti (bi31_list (rr_dom rr))
      in if ds = [] \<and> ymdp \<and> i_d proto \<noteq> 0 then [i_d proto] else ds)"

definition mk_env :: "rrulsp \<Rightarrow> instant \<Rightarrow> fill_env" where
  "mk_env rr proto = \<lparr>f_rr = rr, f_proto = proto, f_times = enum_HMS (make_enum proto rr)\<rparr>"

definition rrul_fill_yly :: "instant \<Rightarrow> nat \<Rightarrow> rrulsp \<Rightarrow> fill" where
  "rrul_fill_yly tgt nti rr =
     (let proto = the_proto tgt rr; nti = clip_nti rr nti;
          ms = yly_months rr proto; ds = yly_days rr proto nti (ymd_only rr); wd = wd_mask_of (rr_dow rr);
          sh = rr_shift rr;
          y = u32 (i_y proto -
                (if 0 < echs_shift_dvalue sh \<or> echs_shift_bday_p sh \<and> \<not> echs_shift_neg_p sh then 1 else 0))
      in yly_loop (yly_year (mk_env rr proto) ms ds wd) (rr_inter rr) nti y 64 [])"

section \<open>Monthly\<close>

text \<open>Some BYMONTH month must be congruent to the first month modulo the interval.\<close>

fun mon_congr :: "nat \<Rightarrow> bituint31 \<Rightarrow> int \<Rightarrow> int \<Rightarrow> nat \<Rightarrow> nat" where
  "mon_congr 0 mon m iv bm = 0"
| "mon_congr (Suc n) mon m iv bm =
     (case bui31_next bm mon of (v, bm) \<Rightarrow>
        if v \<noteq> 0 \<and> ((m + 12 - (int bm - 1)) mod 2 ^ 64) mod iv \<noteq> 0 then mon_congr n mon m iv bm else bm)"

definition step_month :: "int \<Rightarrow> int \<times> int \<Rightarrow> int \<times> int" where
  "step_month iv ym =
     (case ym of (y, m) \<Rightarrow>
        let m = i32 (m + iv)
        in if 12 < m then (u32 (y + (m - 1) div 12), (m - 1) mod 12 + 1) else (y, m))"

text \<open>The loops that look for a month of the rule; they may run for ever, so they carry fuel.\<close>

fun find_month :: "nat \<Rightarrow> bituint31 \<Rightarrow> int \<Rightarrow> int \<times> int \<Rightarrow> (int \<times> int) option" where
  "find_month 0 mon iv ym = None"
| "find_month (Suc n) mon iv ym =
     (if bui31_has_bit_p mon (nat (snd ym)) then Some ym else find_month n mon iv (step_month iv ym))"

definition next_month :: "nat \<Rightarrow> bituint31 \<Rightarrow> int \<Rightarrow> int \<times> int \<Rightarrow> (int \<times> int) option" where
  "next_month n mon iv ym =
     (if bui31_has_bits_p mon then find_month n mon iv (step_month iv ym)
      else Some (step_month iv ym))"

definition mly_cand :: "rrulsp \<Rightarrow> int list \<Rightarrow> wd_mask \<Rightarrow> int \<Rightarrow> int \<Rightarrow> bitintn" where
  "mly_cand rr ds wd y m =
     (let sca = rr_scale rr; c = bin_empty 12;
          c = (if wd \<noteq> 0 \<and> ds \<noteq> [] then c
               else if wd \<noteq> 0 then
                 fill_mly_ymd_all_d
                   (if wd_has wd 0 \<and> sca = SCALE_GREGORIAN then fill_mly_ymcw c y m (rr_dow rr) else c)
                   sca y m wd
               else c);
          c = (if ds \<noteq> [] then fill_mly_ymd c sca y m ds wd else c)
      in clr_poss c (rr_pos rr))"

definition mly_month :: "fill_env \<Rightarrow> int list \<Rightarrow> wd_mask \<Rightarrow> int \<times> int \<Rightarrow> nat \<Rightarrow> fill \<times> bool" where
  "mly_month e ds wd ym room =
     (case ym of (y, m) \<Rightarrow>
        let rr = f_rr e;
            cand = shift (mly_cand rr ds wd y m, bin_empty 12, bin_empty 12) y (rr_shift rr)
        in emit_cands e room y (mk_inst y m 0 0 0 0 0) cand)"

function mly_loop :: "(int \<times> int \<Rightarrow> nat \<Rightarrow> fill \<times> bool) \<Rightarrow> (int \<times> int \<Rightarrow> (int \<times> int) option) \<Rightarrow>
    nat \<Rightarrow> int \<times> int \<Rightarrow> nat \<Rightarrow> fill \<Rightarrow> fill option" where
  "mly_loop month nxt nti ym tries acc =
     (if length acc < nti \<and> 1 < tries then
        case month ym (nti - length acc) of (r, fin) \<Rightarrow>
          if fin then Some (acc @ r)
          else (case nxt ym of
                  None \<Rightarrow> None
                | Some ym \<Rightarrow> mly_loop month nxt nti ym (if r = [] then tries - 1 else 64) (acc @ r))
      else Some acc)"
  by pat_completeness auto
termination
  by (relation "measures [\<lambda>(_, _, nti, _, _, acc). nti - length acc, \<lambda>(_, _, _, _, tries, _). tries]")
    (auto simp flip: length_greater_0_conv)

declare mly_loop.simps [simp del]

text \<open>Going back far enough for a forward shift to reach the first month.\<close>

definition mly_start :: "rrulsp \<Rightarrow> instant \<Rightarrow> int \<times> int" where
  "mly_start rr proto =
     (let y = i_y proto; m = i_m proto;
          tmp = echs_shift_dvalue (rr_shift rr) + (echs_shift_bvalue (rr_shift rr) * 7) sdiv 5;
          m = m - (if 0 < tmp then 1 else 0); tmp = tmp - 1;
          m = m - tmp sdiv 30;
          y = u32 (y - (if m \<le> 0 then 1 else 0));
          m = m + (if 0 < m then 0 else 12);
          m = (if 0 < m then m else 1)
      in (y, m))"

definition rrul_fill_mly :: "nat \<Rightarrow> instant \<Rightarrow> nat \<Rightarrow> rrulsp \<Rightarrow> fill option" where
  "rrul_fill_mly fuel tgt nti rr =
     (let proto = the_proto tgt rr; nti = clip_nti rr nti
      in if nti = 0 \<or> i_m proto = 0 \<or> 12 < i_m proto then Some []
         else
           let ymdp = \<not> bi447_has_bits_p (rr_dow rr) \<and> \<not> bi31_has_bits_p (rr_dom rr);
               ds = yly_days rr proto nti ymdp; wd = wd_mask_of (rr_dow rr);
               ym = mly_start rr proto; iv = rr_inter rr; mon = rr_mon rr;
               run = (\<lambda>ym. mly_loop (mly_month (mk_env rr proto) ds wd) (next_month fuel mon iv) nti ym 64 [])
           in if bui31_has_bits_p mon then
                if mon_congr 64 mon (snd ym) iv 0 = 0 then Some []
                else (case find_month fuel mon iv ym of None \<Rightarrow> None | Some ym \<Rightarrow> run ym)
              else run ym)"

end
