(* ===== verification/RruleYearly.thy ===== *)
theory RruleYearly
  imports RruleFill RruleDays
begin

text \<open>
  The yearly and monthly expanders against their contract: the candidate days of a rule, the window
  and the number of what is emitted, and when the search for a month comes to an end.
\<close>

section \<open>Candidate days of a rule\<close>

definition plain_days :: "wd_mask \<Rightarrow> bool" where
  "plain_days wd \<longleftrightarrow> \<not> wd_has wd 0"

lemma plain_any: "plain_days wd \<Longrightarrow> wd_any wd \<longleftrightarrow> wd \<noteq> 0"
proof -
  assume p: "plain_days wd"
  have "wd = 0" if "drop_bit 1 wd = 0"
  proof (rule bit_eqI)
    fix n
    have "\<not> bit (drop_bit 1 wd) k" for k using that by simp
    then have "\<not> bit wd (Suc k)" for k by (simp add: bit_drop_bit_eq)
    then show "bit wd n \<longleftrightarrow> bit (0 :: 8 word) n" using p by (cases n) (simp_all add: plain_days_def wd_has_def)
  qed
  then show ?thesis by (auto simp: wd_any_def)
qed

text \<open>What a rule of plain BYMONTH, BYMONTHDAY and BYDAY parts asks for, by RFC 5545.\<close>

definition rule_days :: "int list \<Rightarrow> int list \<Rightarrow> wd_mask \<Rightarrow> int \<Rightarrow> (int \<times> int) set" where
  "rule_days ms ds wd y =
     {(m, d). valid_ymd y m d \<and> (ms = [] \<or> m \<in> set ms) \<and>
        (ds = [] \<or> d \<in> set ds \<or> d - get_ndom y m - 1 \<in> set ds) \<and>
        (wd = 0 \<or> wd_has wd (ymd_get_wday y m d))}"

lemma month_in_range: "valid_ymd y m d \<Longrightarrow> m \<in> {1..12}"
  by (auto simp: valid_ymd_def)

lemma fill_yly_ymd_all_d_elems:
  assumes "bin_wf 12 c" "set ms \<subseteq> {1..12}" "1901 \<le> y" "y \<le> 2099"
  shows "bin_elems (fill_yly_ymd_all_d c SCALE_GREGORIAN y ms wd) =
    bin_elems c \<union> {pack_cand m d |m d. m \<in> set ms \<and> valid_ymd y m d \<and> (wd = 0 \<or> wd_has wd (ymd_get_wday y m d))}"
proof -
  let ?A = "\<lambda>m. {pack_cand m d |d. valid_ymd y m d \<and> (wd = 0 \<or> wd_has wd (ymd_get_wday y m d))}"
  have "\<forall>m \<in> set ms. \<forall>c. bin_wf 12 c \<longrightarrow> bin_wf 12 (fill_mly_ymd_all_d c SCALE_GREGORIAN y m wd) \<and>
      bin_elems (fill_mly_ymd_all_d c SCALE_GREGORIAN y m wd) = bin_elems c \<union> ?A m"
    using fill_mly_ymd_all_d_elems assms by force
  from foldl_months [OF assms(1) this] show ?thesis unfolding fill_yly_ymd_all_d_def Union_md by (rule conjunct2)
qed

definition pack_days :: "(int \<times> int) set \<Rightarrow> int set" where
  "pack_days D = {pack_cand m d |m d. (m, d) \<in> D}"

lemma no_bits_list: "\<not> bi383_has_bits_p c \<Longrightarrow> bi383_list c = []"
proof -
  assume "\<not> bi383_has_bits_p c"
  then have "bi383_next 0 c = (0, 0)"
    by (simp add: bi383_has_bits_p_def bi383_next_def bin_next_def bi_count_def)
  moreover have "(800 :: nat) = Suc 799" by simp
  ultimately show ?thesis unfolding bi383_list_def \<open>800 = Suc 799\<close> bi_collect.simps by simp
qed



section \<open>What is emitted\<close>

text \<open>Inside the rule's window: not before the first instant and not after UNTIL.\<close>

definition in_window :: "fill_env \<Rightarrow> instant \<times> instant option \<Rightarrow> bool" where
  "in_window e p \<longleftrightarrow> (\<exists>x. fst p = echs_instant_attach_scale x (rr_scale (f_rr e)) \<and>
     \<not> echs_instant_lt_p x (f_proto e) \<and> \<not> echs_instant_lt_p (rr_until (f_rr e)) x)"

text \<open>
  The contract of one period (a year, a month) of an expander: what it emits is good, and it only
  begins another day while there is room.
\<close>

locale period_filler =
  fixes emit :: "'p \<Rightarrow> nat \<Rightarrow> fill \<times> bool"
    and good :: "instant \<times> instant option \<Rightarrow> bool"
    and per_day :: nat
  assumes emit_good: "emit p room = (r, fin) \<Longrightarrow> x \<in> set r \<Longrightarrow> good x"
    and emit_room: "0 < room \<Longrightarrow> emit p room = (r, fin) \<Longrightarrow> length r + 1 \<le> room + per_day"
begin

lemma mly_loop_contract:
  "(\<forall>x \<in> set acc. good x) \<Longrightarrow> length acc + 1 \<le> nti + per_day \<Longrightarrow>
   mly_loop (\<lambda>ym. emit (g ym)) nxt nti ym tries acc = Some r \<Longrightarrow>
   (\<forall>x \<in> set r. good x) \<and> length r + 1 \<le> nti + per_day"
proof (induction "\<lambda>ym. emit (g ym)" nxt nti ym tries acc rule: mly_loop.induct)
  case (1 nxt nti ym tries acc)
  show ?case
  proof (cases "length acc < nti \<and> 1 < tries")
    case False
    with 1(4) have "r = acc" by (subst (asm) mly_loop.simps) auto
    with 1(2,3) show ?thesis by simp
  next
    case True
    obtain r0 fin where e: "emit (g ym) (nti - length acc) = (r0, fin)" by (metis surj_pair)
    have g: "\<forall>x \<in> set (acc @ r0). good x" using 1(2) emit_good [OF e] by auto
    have l: "length (acc @ r0) + 1 \<le> nti + per_day" using emit_room [OF _ e] True by simp
    show ?thesis
    proof (cases fin)
      case True': True
      with 1(4) True e have "r = acc @ r0" by (subst (asm) mly_loop.simps) simp
      with g l show ?thesis by simp
    next
      case False
      with 1(4) True e obtain ym' where n: "nxt ym = Some ym'"
        "mly_loop (\<lambda>ym. emit (g ym)) nxt nti ym' (if r0 = [] then tries - 1 else 64) (acc @ r0) = Some r"
        by (subst (asm) mly_loop.simps) (auto split: option.splits)
      show ?thesis by (rule 1(1) [OF True e [symmetric] False n(1) g l n(2)])
    qed
  qed
qed

lemma yly_loop_contract:
  "(\<forall>x \<in> set acc. good x) \<Longrightarrow> length acc + 1 \<le> nti + per_day \<Longrightarrow>
   (\<forall>x \<in> set (yly_loop (\<lambda>y. emit (g y)) iv nti y tries acc). good x) \<and>
   length (yly_loop (\<lambda>y. emit (g y)) iv nti y tries acc) + 1 \<le> nti + per_day"
proof (induction "\<lambda>y. emit (g y)" iv nti y tries acc rule: yly_loop.induct)
  case (1 iv nti y tries acc)
  show ?case
  proof (cases "length acc < nti \<and> 1 < tries")
    case False
    then have "yly_loop (\<lambda>y. emit (g y)) iv nti y tries acc = acc" by (subst yly_loop.simps) auto
    with 1(2,3) show ?thesis by simp
  next
    case True
    obtain r0 fin where e: "emit (g y) (nti - length acc) = (r0, fin)" by (metis surj_pair)
    have gd: "\<forall>x \<in> set (acc @ r0). good x" using 1(2) emit_good [OF e] by auto
    have l: "length (acc @ r0) + 1 \<le> nti + per_day" using emit_room [OF _ e] True by simp
    show ?thesis
    proof (cases fin)
      case True': True
      then have "yly_loop (\<lambda>y. emit (g y)) iv nti y tries acc = acc @ r0"
        using True e by (subst yly_loop.simps) simp
      with gd l show ?thesis by simp
    next
      case False
      then have "yly_loop (\<lambda>y. emit (g y)) iv nti y tries acc =
          yly_loop (\<lambda>y. emit (g y)) iv nti (u32 (y + iv)) (if r0 = [] then tries - 1 else 64) (acc @ r0)"
        using True e by (subst yly_loop.simps) simp
      with 1(1) [OF True e [symmetric] False gd l] show ?thesis by simp
    qed
  qed
qed

end

lemma emit_times_window:
  "emit_times e y yd grp ts = (r, fin) \<Longrightarrow> (\<forall>x \<in> set r. in_window e x) \<and> length r \<le> length ts"
proof (induction ts arbitrary: r fin)
  case (Cons t ts)
  obtain H M S where t: "t = (H, M, S)" by (cases t)
  obtain r0 f0 where r0: "emit_times e y yd grp ts = (r0, f0)" by (metis surj_pair)
  define x where "x = mk_inst y (u32 yd div 32 + 1) (u32 yd mod 32) H M S (i_ms (f_proto e))"
  have "in_window e (echs_instant_attach_scale x (rr_scale (f_rr e)), Some grp)"
    if "\<not> echs_instant_lt_p (rr_until (f_rr e)) x" "\<not> echs_instant_lt_p x (f_proto e)"
    using that unfolding in_window_def by auto
  with Cons.IH [OF r0] Cons.prems show ?case
    unfolding t emit_times.simps Let_def r0 x_def [symmetric] by (auto split: if_splits)
qed simp

lemma emit_days_window:
  "emit_days e room y grp ds = (r, fin) \<Longrightarrow>
   (\<forall>x \<in> set r. in_window e x) \<and> length r \<le> (if room = 0 then 0 else room - 1 + length (f_times e))"
proof (induction ds arbitrary: room r fin)
  case (Cons d ds)
  show ?case
  proof (cases "room = 0")
    case False
    obtain r0 f0 where r0: "emit_times e y d grp (f_times e) = (r0, f0)" by (metis surj_pair)
    obtain r1 f1 where r1: "emit_days e (room - length r0) y grp ds = (r1, f1)" by (metis surj_pair)
    have w: "\<forall>x \<in> set r0. in_window e x" "length r0 \<le> length (f_times e)" using emit_times_window [OF r0] by auto
    have "r = (if f0 then r0 else r0 @ r1)"
      using Cons.prems False r0 r1 by (cases f0) auto
    with Cons.IH [OF r1] w False show ?thesis by (auto split: if_splits)
  qed (use Cons.prems in auto)
qed simp

lemma emit_cands_window:
  assumes "emit_cands e room y grp cand = (r, fin)"
  shows "(\<forall>x \<in> set r. in_window e x) \<and> length r \<le> (if room = 0 then 0 else room - 1 + length (f_times e))"
proof -
  obtain a b c where cand: "cand = (a, b, c)" by (cases cand)
  obtain r0 f0 where 0: "emit_days e room (u32 (y - 1)) grp (bi383_list b) = (r0, f0)" by (metis surj_pair)
  obtain r1 f1 where 1: "emit_days e (room - length r0) y grp (bi383_list a) = (r1, f1)" by (metis surj_pair)
  obtain r2 f2 where 2: "emit_days e (room - length (r0 @ r1)) (u32 (y + 1)) grp (bi383_list c) = (r2, f2)"
    by (metis surj_pair)
  have "r = (if f0 then r0 else if f1 then r0 @ r1 else r0 @ r1 @ r2)"
    using assms unfolding emit_cands_def cand prod.case 0 by (cases f0; cases f1; simp add: 1 2 [simplified])
  with emit_days_window [OF 0] emit_days_window [OF 1] emit_days_window [OF 2] show ?thesis
    by (auto split: if_splits)
qed

interpretation yearly: period_filler "yly_year e ms ds wd" "in_window e" "length (f_times e)" for e ms ds wd
proof
  fix y room r fin x
  assume "yly_year e ms ds wd y room = (r, fin)"
  then have w: "(\<forall>x \<in> set r. in_window e x) \<and> length r \<le> (if room = 0 then 0 else room - 1 + length (f_times e))"
    unfolding yly_year_def Let_def by (rule emit_cands_window)
  show "x \<in> set r \<Longrightarrow> in_window e x" using w by blast
  show "0 < room \<Longrightarrow> length r + 1 \<le> room + length (f_times e)" using conjunct2 [OF w] by simp
qed

interpretation monthly: period_filler "mly_month e ds wd" "in_window e" "length (f_times e)" for e ds wd
proof
  fix ym room r fin x
  assume "mly_month e ds wd ym room = (r, fin)"
  then have w: "(\<forall>x \<in> set r. in_window e x) \<and> length r \<le> (if room = 0 then 0 else room - 1 + length (f_times e))"
    unfolding mly_month_def Let_def by (cases ym) (auto dest: emit_cands_window)
  show "x \<in> set r \<Longrightarrow> in_window e x" using w by blast
  show "0 < room \<Longrightarrow> length r + 1 \<le> room + length (f_times e)" using conjunct2 [OF w] by simp
qed

text \<open>
  C16: Whatever the rule, every instant the yearly and the monthly expander emit (before the scale is
  attached) is not before the first instant and not after UNTIL, nothing is emitted when no slot is
  left, and otherwise their number stays below the slots asked for (COUNT included) plus the number of
  times of day: with one time of day, never more than COUNT or the slots.
\<close>
theorem fill_window:
  assumes "r = rrul_fill_yly tgt nti rr \<or> rrul_fill_mly fuel tgt nti rr = Some r"
  defines "e \<equiv> mk_env rr (the_proto tgt rr)"
  shows "(\<forall>x \<in> set r. in_window e x) \<and> (clip_nti rr nti = 0 \<longrightarrow> r = []) \<and>
    (0 < clip_nti rr nti \<longrightarrow> length r + 1 \<le> clip_nti rr nti + length (f_times e))"
proof -
  let ?n = "clip_nti rr nti"
  have y: "(\<forall>x \<in> set r. in_window e x) \<and> length r + 1 \<le> ?n + length (f_times e)"
    if "r = rrul_fill_yly tgt nti rr" "0 < ?n"
    using yearly.yly_loop_contract [where g = "\<lambda>y. y" and acc = "[]" and nti = ?n and e = e] that(2)
    unfolding that(1) rrul_fill_yly_def Let_def e_def by simp
  have m: "(\<forall>x \<in> set r. in_window e x) \<and> length r + 1 \<le> ?n + length (f_times e)"
    if f: "rrul_fill_mly fuel tgt nti rr = Some r" and n: "0 < ?n"
  proof (cases "r = []")
    case False
    with f n obtain nxt ym ds where
      "mly_loop (mly_month e ds (wd_mask_of (rr_dow rr))) nxt ?n ym 64 [] = Some r"
      unfolding rrul_fill_mly_def Let_def e_def [symmetric]
      by (auto split: if_splits option.splits)
    from monthly.mly_loop_contract [where g = "\<lambda>y. y", OF _ _ this] n show ?thesis by simp
  qed (use n in simp)
  have z: "r = []" if "?n = 0"
    using assms(1) that by (auto simp: rrul_fill_yly_def rrul_fill_mly_def Let_def yly_loop.simps)
  show ?thesis
  proof (cases "?n = 0")
    case False
    with assms(1) y m show ?thesis by auto
  qed (use z in simp)
qed

text \<open>The number may exceed COUNT, by the times of the last day: here COUNT=1;BYHOUR=1,2.\<close>

definition count_rule :: rrulsp where
  "count_rule = nul_rule\<lparr>rr_count := 1, rr_mon := ass_bui31 0 1, rr_dom := ass_bi31 bi_empty 1,
     rr_H := foldl ass_bui31 0 [1, 2]\<rparr>"

lemma count_overrun:
  "map fst (rrul_fill_yly (mk_inst 2015 1 1 0 0 0 0) 64 count_rule) =
    [mk_inst 2015 1 1 1 0 0 0, mk_inst 2015 1 1 2 0 0 0]"
  by code_simp

theorem fill_window_witness:
  "length (rrul_fill_yly (mk_inst 2015 1 1 0 0 0 0) 64 count_rule) + 1 \<le> 1 + (2 :: nat)"
proof -
  have "clip_nti count_rule 64 = 1"
    "length (f_times (mk_env count_rule (the_proto (mk_inst 2015 1 1 0 0 0 0) count_rule))) = 2"
    by code_simp+
  then show ?thesis using fill_window [OF disjI1 [OF refl], of "mk_inst 2015 1 1 0 0 0 0" 64 count_rule] by simp
qed

text \<open>
  BYYEARDAY=366 in a common year yields a month 13; and COUNT also limits how many BYMONTHDAY values
  are looked at, so COUNT=1;BYMONTHDAY=15,20 from 18 January misses the 20th.
\<close>

lemma yearday_month_13:
  "map fst (rrul_fill_yly (mk_inst 2015 1 1 0 0 0 0) 64
     (nul_rule\<lparr>rr_count := 1, rr_doy := ass_bi383 (bin_empty 12) 366\<rparr>)) = [mk_inst 2015 13 1 0 0 0 0]"
  by code_simp

lemma count_drops_days:
  "map fst (rrul_fill_yly (mk_inst 2015 1 18 0 0 0 0) 64
     (nul_rule\<lparr>rr_count := 1, rr_dom := foldl ass_bi31 bi_empty [15, 20]\<rparr>)) = [mk_inst 2015 2 15 0 0 0 0]"
  by code_simp

section \<open>Looking for a month\<close>

definition month_after :: "int \<Rightarrow> int \<Rightarrow> nat \<Rightarrow> int" where
  "month_after iv m k = (m - 1 + int k * iv) mod 12 + 1"

definition month_reach :: "bituint31 \<Rightarrow> int \<Rightarrow> int \<Rightarrow> bool" where
  "month_reach mon iv m \<longleftrightarrow> (\<exists>k \<in> set [0..<12]. bui31_has_bit_p mon (nat (month_after iv m k)))"

lemma month_after_range: "1 \<le> month_after iv m k" "month_after iv m k \<le> 12"
  by (simp_all add: month_after_def)

lemma month_after_step: "month_after iv (month_after iv m j) k = month_after iv m (j + k)"
proof -
  have "(a mod 12 + 1 - 1 + x) mod 12 = (a + x) mod 12" for a x :: int by (simp add: mod_add_left_eq)
  then show ?thesis by (simp add: month_after_def algebra_simps)
qed

lemma month_after_12: "1 \<le> m \<Longrightarrow> m \<le> 12 \<Longrightarrow> month_after iv m 12 = m"
  by (simp add: month_after_def mod_mult_self2)

lemma month_after_mod: "month_after iv m (k mod 12) = month_after iv m k"
proof -
  have k: "int k = int (k mod 12) + 12 * int (k div 12)"
    by (metis of_nat_add of_nat_mult of_nat_numeral mod_mult_div_eq)
  have "m - 1 + int k * iv = (m - 1 + int (k mod 12) * iv) + 12 * (int (k div 12) * iv)"
    by (subst k) (simp add: algebra_simps)
  then show ?thesis unfolding month_after_def by (metis mod_mult_self2)
qed

lemma step_month_after:
  assumes "1 \<le> m" "m \<le> 12" "1 \<le> iv" "iv < 2147483600"
  shows "snd (step_month iv (y, m)) = month_after iv m 1"
proof -
  have "i32 (m + iv) = m + iv" using assms by (intro i32_id) auto
  moreover have "(m + iv - 1) mod 12 + 1 = m + iv" if "m + iv \<le> 12" using that assms by simp
  ultimately show ?thesis by (auto simp: step_month_def Let_def month_after_def algebra_simps)
qed

lemma find_month_some:
  assumes "1 \<le> m" "m \<le> 12" "1 \<le> iv" "iv < 2147483600"
  shows "find_month n mon iv (y, m) \<noteq> None \<longleftrightarrow> (\<exists>k < n. bui31_has_bit_p mon (nat (month_after iv m k)))"
    "find_month n mon iv (y, m) = Some (y', m') \<Longrightarrow> 1 \<le> m' \<and> m' \<le> 12 \<and> bui31_has_bit_p mon (nat m')"
  using assms(1,2)
proof (induction n arbitrary: y m)
  case (Suc n)
  {
    case 1
    obtain y1 where st: "step_month iv (y, m) = (y1, month_after iv m 1)"
      using step_month_after [OF 1 assms(3,4), of y] by (metis prod.collapse)
    have "month_after iv m 0 = m" using 1 by (simp add: month_after_def)
    moreover have "find_month n mon iv (y1, month_after iv m 1) \<noteq> None \<longleftrightarrow>
        (\<exists>k < n. bui31_has_bit_p mon (nat (month_after iv m (Suc k))))"
      using Suc.IH(1) [OF month_after_range, of y1 iv m 1] by (simp add: month_after_step)
    ultimately show ?case using st by (simp add: Ex_less_Suc2 del: not_None_eq)
  next
    case 2
    obtain y1 where st: "step_month iv (y, m) = (y1, month_after iv m 1)"
      using step_month_after [OF 2(2,3) assms(3,4), of y] by (metis prod.collapse)
    then show ?case
      using Suc.IH(2) [OF _ month_after_range, of y1 iv m 1] 2 by (auto split: if_splits)
  }
qed simp_all

lemma month_reach_some:
  assumes "1 \<le> m" "m \<le> 12" "1 \<le> iv" "iv < 2147483600" "12 \<le> n"
  shows "find_month n mon iv (y, m) = None \<longleftrightarrow> \<not> month_reach mon iv m"
proof -
  have "(\<exists>k < n. bui31_has_bit_p mon (nat (month_after iv m k))) \<longleftrightarrow> month_reach mon iv m"
    unfolding month_reach_def
  proof
    assume "\<exists>k < n. bui31_has_bit_p mon (nat (month_after iv m k))"
    then obtain k where "bui31_has_bit_p mon (nat (month_after iv m k))" by blast
    then show "\<exists>k \<in> set [0..<12]. bui31_has_bit_p mon (nat (month_after iv m k))"
      by (intro bexI [of _ "k mod 12"]) (simp_all add: month_after_mod)
  next
    assume "\<exists>k \<in> set [0..<12]. bui31_has_bit_p mon (nat (month_after iv m k))"
    then obtain k where "k < 12" "bui31_has_bit_p mon (nat (month_after iv m k))" by auto
    with assms(5) show "\<exists>k < n. bui31_has_bit_p mon (nat (month_after iv m k))"
      by (intro exI [of _ k]) simp
  qed
  then show ?thesis using find_month_some(1) [OF assms(1-4), of n mon y] by blast
qed

lemma mly_loop_total:
  "(\<And>ym. P ym \<Longrightarrow> \<exists>ym'. nxt ym = Some ym' \<and> P ym') \<Longrightarrow> P ym \<Longrightarrow> mly_loop mo nxt nti ym tries acc \<noteq> None"
proof (induction mo nxt nti ym tries acc rule: mly_loop.induct)
  case (1 mo nxt nti ym tries acc)
  show ?case
  proof (cases "length acc < nti \<and> 1 < tries")
    case True
    obtain r fin where r: "mo ym (nti - length acc) = (r, fin)" by (metis surj_pair)
    obtain ym' where n: "nxt ym = Some ym'" "P ym'" using 1(2,3) by blast
    show ?thesis
      using True r n 1(1) [OF True r [symmetric] _ n(1) 1(2) n(2)]
      by (subst mly_loop.simps) (cases fin; simp)
  next
    case False
    then have "mly_loop mo nxt nti ym tries acc = Some acc" by (subst mly_loop.simps) (simp only: if_False)
    then show ?thesis by simp
  qed
qed

definition month_ok :: "bituint31 \<Rightarrow> int \<times> int \<Rightarrow> bool" where
  "month_ok mon ym \<longleftrightarrow> 1 \<le> snd ym \<and> snd ym \<le> 12 \<and> (bui31_has_bits_p mon \<longrightarrow> bui31_has_bit_p mon (nat (snd ym)))"

text \<open>From a month of the rule the next one is never more than twelve steps away.\<close>

lemma next_month_ok:
  assumes "month_ok mon ym" "1 \<le> iv" "iv < 2147483600" "12 \<le> n"
  shows "\<exists>ym'. next_month n mon iv ym = Some ym' \<and> month_ok mon ym'"
proof -
  obtain y m where ym: "ym = (y, m)" by (cases ym)
  have m: "1 \<le> m" "m \<le> 12" using assms(1) by (simp_all add: month_ok_def ym)
  obtain y1 where st: "step_month iv (y, m) = (y1, month_after iv m 1)"
    using step_month_after [OF m assms(2,3), of y] by (metis prod.collapse)
  show ?thesis
  proof (cases "bui31_has_bits_p mon")
    case False
    then show ?thesis using month_after_range [of iv m 1] by (simp add: next_month_def ym st month_ok_def)
  next
    case True
    then have "bui31_has_bit_p mon (nat (month_after iv (month_after iv m 1) 11))"
      using assms(1) m month_after_12 [OF m, of iv] by (simp add: month_after_step month_ok_def ym)
    then have "month_reach mon iv (month_after iv m 1)" unfolding month_reach_def by (intro bexI [of _ 11]) simp_all
    with month_reach_some [OF month_after_range assms(2-4), of mon y1 iv m 1] obtain y' m' where
      f: "find_month n mon iv (y1, month_after iv m 1) = Some (y', m')" by auto
    from find_month_some(2) [OF month_after_range assms(2,3) f] f True
    show ?thesis by (simp add: next_month_def ym st month_ok_def)
  qed
qed

text \<open>
  C17: The monthly expander of a rule without a shift comes to an end, with fuel 12 for each search of
  a month, except in one case, in which it runs for ever whatever the fuel: there are BYMONTH months,
  one passes the congruence check, but none is ever reached from the first month in steps of the
  interval.
\<close>
theorem mly_terminates_iff:
  assumes "rr_shift rr = 0" "1 \<le> rr_inter rr" "rr_inter rr < 2147483600" "12 \<le> fuel"
    and m_def: "m = i_m (the_proto tgt rr)" and "0 \<le> m"
  shows "rrul_fill_mly fuel tgt nti rr = None \<longleftrightarrow>
    clip_nti rr nti \<noteq> 0 \<and> 1 \<le> m \<and> m \<le> 12 \<and> bui31_has_bits_p (rr_mon rr) \<and>
    mon_congr 64 (rr_mon rr) m (rr_inter rr) 0 \<noteq> 0 \<and> \<not> month_reach (rr_mon rr) (rr_inter rr) m"
proof (cases "clip_nti rr nti = 0 \<or> m = 0 \<or> 12 < m")
  case True
  then show ?thesis by (auto simp: rrul_fill_mly_def Let_def m_def)
next
  case False
  let ?mon = "rr_mon rr" and ?iv = "rr_inter rr" and ?n = "clip_nti rr nti"
  let ?e = "mk_env rr (the_proto tgt rr)"
  have m: "1 \<le> m" "m \<le> 12" using False assms(6) by auto
  have z: "(- 1) sdiv (30 :: int) = 0" by code_simp
  obtain y where st: "mly_start rr (the_proto tgt rr) = (y, m)"
    using m assms(1) z by (auto simp: mly_start_def Let_def echs_shift_dvalue_def echs_shift_bvalue_def m_def)
  have run: "mly_loop mo (next_month fuel ?mon ?iv) ?n ym 64 [] \<noteq> None" if "month_ok ?mon ym" for mo ym
    using mly_loop_total [of "month_ok ?mon"] next_month_ok [OF _ assms(2,3,4)] that by blast
  show ?thesis
  proof (cases "bui31_has_bits_p ?mon \<and> mon_congr 64 ?mon m ?iv 0 \<noteq> 0")
    case False': False
    have "month_ok ?mon (y, m)" if "\<not> bui31_has_bits_p ?mon" using that m by (simp add: month_ok_def)
    then show ?thesis
      using False False' run [of "(y, m)"] unfolding rrul_fill_mly_def Let_def m_def [symmetric] st
      by (auto simp del: not_None_eq)
  next
    case True
    show ?thesis
    proof (cases "find_month fuel ?mon ?iv (y, m)")
      case None
      then show ?thesis
        using True False m month_reach_some [OF m assms(2-4), of ?mon y]
        unfolding rrul_fill_mly_def Let_def m_def [symmetric] st by auto
    next
      case (Some ym)
      then have "month_ok ?mon ym"
        using find_month_some(2) [OF m assms(2,3)] by (cases ym) (auto simp: month_ok_def)
      then show ?thesis
        using True False Some run [of ym] month_reach_some [OF m assms(2-4), of ?mon y]
        unfolding rrul_fill_mly_def Let_def m_def [symmetric] st by (auto simp del: not_None_eq)
    qed
  qed
qed

text \<open>
  With a single BYMONTH month the iterator value is off by one in the congruence check:
  INTERVAL=2;BYMONTH=3 hangs when begun in April and finds nothing when begun in March.
\<close>

definition march_rule :: rrulsp where
  "march_rule = nul_rule\<lparr>rr_inter := 2, rr_mon := ass_bui31 0 3, rr_dom := ass_bi31 bi_empty 1\<rparr>"

theorem mly_terminates_iff_witness:
  "\<forall>k. rrul_fill_mly (12 + k) (mk_inst 2015 4 1 0 0 0 0) 64 march_rule = None"
proof
  fix k
  have r: "rr_shift march_rule = 0" "rr_inter march_rule = 2" "rr_mon march_rule = ass_bui31 0 3"
    by (simp_all add: march_rule_def nul_rule_def)
  have p: "i_m (the_proto (mk_inst 2015 4 1 0 0 0 0) march_rule) = 4" by code_simp
  have c: "clip_nti march_rule 64 \<noteq> 0" "bui31_has_bits_p (ass_bui31 0 3)" "mon_congr 64 (ass_bui31 0 3) 4 2 0 \<noteq> 0"
    "\<not> month_reach (ass_bui31 0 3) 2 4"
    by code_simp+
  show "rrul_fill_mly (12 + k) (mk_inst 2015 4 1 0 0 0 0) 64 march_rule = None"
    using mly_terminates_iff [of march_rule "12 + k" 4 "mk_inst 2015 4 1 0 0 0 0" 64] r p c by simp
qed

lemma mly_march_empty: "rrul_fill_mly 12 (mk_inst 2015 3 1 0 0 0 0) 64 march_rule = Some []"
  by code_simp

end
