(* ===== verification/RruleTick.thy ===== *)
theory RruleTick
  imports RruleFill
begin

text \<open>
  The weekly, daily, hourly, minutely and secondly expanders of \<^verbatim>\<open>src/src/evrrul.c\<close>.
  They tick through time and filter; nothing bounds how long they search, so the loops carry fuel:
  \<open>None\<close> means that the call has not come back yet.
\<close>

section \<open>Ticking\<close>

fun run :: "nat \<Rightarrow> ('s \<Rightarrow> 's + 'r) \<Rightarrow> 's \<Rightarrow> 'r option" where
  "run 0 f s = None"
| "run (Suc n) f s = (case f s of Inl s' \<Rightarrow> run n f s' | Inr r \<Rightarrow> Some r)"

text \<open>
  The locals of the loops.  \<open>c_yd\<close> and \<open>c_maxy\<close> are used by the hourly loop only; a local a loop does
  not have stays as it was initialised.
\<close>

record clock =
  c_y :: int
  c_m :: int
  c_d :: int
  c_H :: int
  c_M :: int
  c_S :: int
  c_w :: echs_wday
  c_maxd :: int
  c_yd :: int
  c_maxy :: int

text \<open>\<open>while (d > maxd) { d--, d %= maxd, d++; ... }\<close>; a \<open>maxd\<close> of 0 would divide by zero.\<close>

definition next_mon :: "(int \<Rightarrow> int \<Rightarrow> int) \<Rightarrow> clock \<Rightarrow> clock" where
  "next_mon ndim c =
     (let c = c\<lparr>c_d := (c_d c - 1) mod c_maxd c + 1\<rparr>;
          c = (if 12 < c_m c + 1
               then c\<lparr>c_y := u32 (c_y c + 1), c_m := 1, c_yd := u32 (c_yd c - (c_maxy c - 1)),
                  c_maxy := (if u32 (c_y c + 1) mod 4 \<noteq> 0 then 365 else 366)\<rparr>
               else c\<lparr>c_m := c_m c + 1\<rparr>)
      in c\<lparr>c_maxd := ndim (c_y c) (c_m c)\<rparr>)"

lemma next_mon_d: "c_d (next_mon ndim c) = (c_d c - 1) mod c_maxd c + 1"
  by (simp add: next_mon_def Let_def)

function day_wrap :: "(int \<Rightarrow> int \<Rightarrow> int) \<Rightarrow> clock \<Rightarrow> clock" where
  "day_wrap ndim c = (if 0 < c_maxd c \<and> c_maxd c < c_d c then day_wrap ndim (next_mon ndim c) else c)"
  by pat_completeness auto
termination
proof (relation "measure (\<lambda>(_, c). nat (c_d c))", goal_cases)
  case (2 ndim c)
  then have "0 < c_maxd c" "c_maxd c < c_d c" by auto
  moreover from this have "(c_d c - 1) mod c_maxd c < c_maxd c" by (intro pos_mod_bound)
  ultimately have "(c_d c - 1) mod c_maxd c + 1 < c_d c" "0 < c_d c" by linarith+
  then show ?case by (simp add: next_mon_d)
qed simp

declare day_wrap.simps [simp del]

definition add_days :: "(int \<Rightarrow> int \<Rightarrow> int) \<Rightarrow> int \<Rightarrow> clock \<Rightarrow> clock" where
  "add_days ndim k c =
     (let w = u32 (c_w c + k)
      in day_wrap ndim (c\<lparr>c_d := u32 (c_d c + k), c_w := (if SUN < w then (if w mod 7 = 0 then SUN else w mod 7) else w),
           c_yd := u32 (c_yd c + k)\<rparr>))"

definition adv_H :: "int \<Rightarrow> clock \<Rightarrow> clock" where
  "adv_H k c =
     (let H = u32 (c_H c + k)
      in if 24 \<le> H then add_days get_ndom (H div 24) (c\<lparr>c_H := H mod 24\<rparr>) else c\<lparr>c_H := H\<rparr>)"

definition adv_M :: "int \<Rightarrow> clock \<Rightarrow> clock" where
  "adv_M k c =
     (let M = u32 (c_M c + k)
      in if 60 \<le> M then adv_H (M div 60) (c\<lparr>c_M := M mod 60\<rparr>) else c\<lparr>c_M := M\<rparr>)"

definition adv_S :: "int \<Rightarrow> clock \<Rightarrow> clock" where
  "adv_S k c =
     (let S = u32 (c_S c + k)
      in if 60 \<le> S then adv_M (S div 60) (c\<lparr>c_S := S mod 60\<rparr>) else c\<lparr>c_S := S\<rparr>)"

text \<open>The daily loop writes the weekday's wrap differently.\<close>

definition adv_d :: "echs_scale \<Rightarrow> int \<Rightarrow> clock \<Rightarrow> clock" where
  "adv_d s k c =
     (let w = u32 (c_w c + k)
      in day_wrap (echs_scale_ndim s)
           (c\<lparr>c_d := u32 (c_d c + k), c_w := (if SUN < w then (w - 1) mod 7 + 1 else w)\<rparr>))"

section \<open>Masks\<close>

definition wd_sub_mask :: "wd_mask \<Rightarrow> wd_mask" where
  "wd_sub_mask wd = (if \<not> wd_any wd then wd OR 0xFE else wd)"

definition m_mask :: "bituint31 \<Rightarrow> 32 word" where
  "m_mask mon = (let k = foldl (\<lambda>k tmp. k OR push_bit tmp 1) 0 (bui31_list mon) in if k = 0 then 0x1FFE else k)"

definition posd_mask :: "int list \<Rightarrow> 64 word" where
  "posd_mask ds = foldl (\<lambda>k tmp. if 0 < tmp then k OR ucast (push_bit (nat tmp) 1 :: 32 word) else k) 0 ds"

definition negd_mask :: "int list \<Rightarrow> 64 word" where
  "negd_mask ds = foldl (\<lambda>k tmp. if tmp < 0 then k OR ucast (push_bit (nat (- (tmp + 1))) 1 :: 32 word) else k) 0 ds"

definition d_masks :: "bitint31 \<Rightarrow> 64 word \<times> 64 word" where
  "d_masks ds =
     (let p = posd_mask (bi31_list ds); n = negd_mask (bi31_list ds)
      in if p = 0 \<and> n = 0 then (0xFFFFFFFF, 0xFFFFFFFF) else (p, n))"

definition H_mask :: "bituint31 \<Rightarrow> 64 word" where
  "H_mask Hs = (let k = foldl (\<lambda>k tmp. k OR ucast (push_bit tmp 1 :: 32 word)) 0 (bui31_list Hs)
                in if k = 0 then NOT k else k)"

definition MS_mask :: "bituint63 \<Rightarrow> 64 word" where
  "MS_mask Ms = (let k = foldl (\<lambda>k tmp. k OR push_bit tmp 1) 0 (bui63_list Ms) in if k = 0 then NOT k else k)"

text \<open>The three checks the subtractive loops begin with.\<close>

definition day_ok :: "rrulsp \<Rightarrow> clock \<Rightarrow> bool" where
  "day_ok rr c \<longleftrightarrow>
     bit (wd_sub_mask (wd_mask_of (rr_dow rr))) (nat (c_w c)) \<and> bit (m_mask (rr_mon rr)) (nat (c_m c)) \<and>
     (bit (fst (d_masks (rr_dom rr))) (nat (c_d c)) \<or>
      bit (snd (d_masks (rr_dom rr))) (nat (c_maxd c - c_d c)))"

section \<open>The loop\<close>

fun emit_sub :: "instant \<Rightarrow> instant \<Rightarrow> instant list \<Rightarrow> instant list \<times> bool" where
  "emit_sub till proto [] = ([], False)"
| "emit_sub till proto (x # xs) =
     (if echs_instant_lt_p x proto then emit_sub till proto xs
      else if echs_instant_lt_p till x then ([], True)
      else case emit_sub till proto xs of (r, fin) \<Rightarrow> (x # r, fin))"

definition tick_step ::
  "(clock \<Rightarrow> bool) \<Rightarrow> (clock \<Rightarrow> instant list \<times> bool) \<Rightarrow> (clock \<Rightarrow> clock) \<Rightarrow> nat \<Rightarrow>
   clock \<times> instant list \<Rightarrow> clock \<times> instant list + instant list" where
  "tick_step keep emit adv nti st =
     (case st of (c, acc) \<Rightarrow>
        if nti \<le> length acc then Inr acc
        else if \<not> keep c then Inl (adv c, acc)
        else case emit c of (r, fin) \<Rightarrow> if fin then Inr (acc @ r) else Inl (adv c, acc @ r))"

definition clock_inst :: "instant \<Rightarrow> clock \<Rightarrow> int \<times> int \<times> int \<Rightarrow> instant" where
  "clock_inst proto c hms = (case hms of (H, M, S) \<Rightarrow> mk_inst (c_y c) (c_m c) (c_d c) H M S (i_ms proto))"

section \<open>Daily, hourly, minutely, secondly\<close>

definition dly_emit :: "instant \<Rightarrow> rrulsp \<Rightarrow> clock \<Rightarrow> instant list \<times> bool" where
  "dly_emit proto rr c =
     emit_sub (rr_until rr) proto (map (clock_inst proto c) (enum_HMS (make_enum proto rr)))"

definition Hly_emit :: "instant \<Rightarrow> rrulsp \<Rightarrow> clock \<Rightarrow> instant list \<times> bool" where
  "Hly_emit proto rr c =
     emit_sub (rr_until rr) proto (map (clock_inst proto c) (enum_MS (make_enum proto rr) (c_H c)))"

definition Mly_emit :: "instant \<Rightarrow> rrulsp \<Rightarrow> clock \<Rightarrow> instant list \<times> bool" where
  "Mly_emit proto rr c =
     emit_sub (rr_until rr) proto (map (clock_inst proto c) (enum_S (make_enum proto rr) (c_H c) (c_M c)))"

text \<open>BYYEARDAY in the hourly loop: iterated by hand.\<close>

definition yd_ok :: "rrulsp \<Rightarrow> clock \<Rightarrow> bool" where
  "yd_ok rr c \<longleftrightarrow>
     (bi383_has_bits_p (rr_doy rr) \<longrightarrow>
        (\<exists>tmp \<in> set (bi383_list (rr_doy rr)). 0 < tmp \<and> tmp = c_yd c \<or> tmp < 0 \<and> u32 (c_maxy c - (tmp + 1)) = c_yd c))"

definition Hly_keep :: "rrulsp \<Rightarrow> clock \<Rightarrow> bool" where
  "Hly_keep rr c \<longleftrightarrow> day_ok rr c \<and> bit (H_mask (rr_H rr)) (nat (c_H c)) \<and> yd_ok rr c"

definition Mly_keep :: "rrulsp \<Rightarrow> clock \<Rightarrow> bool" where
  "Mly_keep rr c \<longleftrightarrow> day_ok rr c \<and> bit (H_mask (rr_H rr)) (nat (c_H c)) \<and> bit (MS_mask (rr_M rr)) (nat (c_M c))"

definition Sly_keep :: "rrulsp \<Rightarrow> clock \<Rightarrow> bool" where
  "Sly_keep rr c \<longleftrightarrow> Mly_keep rr c \<and> bit (MS_mask (rr_S rr)) (nat (c_S c))"

definition mk_clock :: "(int \<Rightarrow> int \<Rightarrow> int) \<Rightarrow> echs_wday \<Rightarrow> instant \<Rightarrow> int \<Rightarrow> int \<Rightarrow> int \<Rightarrow> clock" where
  "mk_clock ndim w i H M S =
     \<lparr>c_y = i_y i, c_m = i_m i, c_d = i_d i, c_H = H, c_M = M, c_S = S, c_w = w,
      c_maxd = ndim (i_y i) (i_m i), c_yd = ymd_get_yd (i_y i) (i_m i) (i_d i),
      c_maxy = (if i_y i mod 4 \<noteq> 0 then 365 else 366)\<rparr>"

definition bad_md :: "instant \<Rightarrow> bool" where
  "bad_md i \<longleftrightarrow> i_m i = 0 \<or> 12 < i_m i \<or> i_d i = 0 \<or> 31 < i_d i"

text \<open>The scale is only looked at when COUNT does not limit the slots.\<close>

definition sub_refused :: "instant \<Rightarrow> nat \<Rightarrow> rrulsp \<Rightarrow> bool" where
  "sub_refused tgt nti rr \<longleftrightarrow>
     (if u32 (rr_count rr) < int nti then u32 (rr_count rr) = 0 else rr_scale rr \<noteq> SCALE_GREGORIAN) \<or>
     i_y tgt < 1600 \<or> bad_md tgt"

definition rrul_fill_Hly :: "nat \<Rightarrow> instant \<Rightarrow> nat \<Rightarrow> rrulsp \<Rightarrow> instant list option" where
  "rrul_fill_Hly fuel proto nti rr =
     (if sub_refused proto nti rr then Some []
      else run fuel (tick_step (Hly_keep rr) (Hly_emit proto rr) (adv_H (rr_inter rr)) (clip_nti rr nti))
        (mk_clock get_ndom (ymd_get_wday (i_y proto) (i_m proto) (i_d proto)) proto
           (if i_H proto = ECHS_ALL_DAY then 0 else i_H proto) 0 0, []))"

definition rrul_fill_Mly :: "nat \<Rightarrow> instant \<Rightarrow> nat \<Rightarrow> rrulsp \<Rightarrow> instant list option" where
  "rrul_fill_Mly fuel proto nti rr =
     (if sub_refused proto nti rr then Some []
      else run fuel (tick_step (Mly_keep rr) (Mly_emit proto rr) (adv_M (rr_inter rr)) (clip_nti rr nti))
        (case (if i_H proto = ECHS_ALL_DAY then (0, 0) else (i_H proto, i_M proto)) of (H, M) \<Rightarrow>
           mk_clock get_ndom (ymd_get_wday (i_y proto) (i_m proto) (i_d proto)) proto H M 0, []))"

text \<open>The secondly loop writes into the slot it is at, keeping the milliseconds it holds.\<close>

definition Sly_emit :: "instant list \<Rightarrow> rrulsp \<Rightarrow> nat \<Rightarrow> clock \<Rightarrow> instant list \<times> bool" where
  "Sly_emit tgt rr k c =
     (let x = mk_inst (c_y c) (c_m c) (c_d c) (c_H c) (c_M c) (c_S c) (i_ms (tgt ! k))
      in if echs_instant_lt_p (rr_until rr) x then ([], True) else ([x], False))"

definition rrul_fill_Sly :: "nat \<Rightarrow> instant list \<Rightarrow> nat \<Rightarrow> rrulsp \<Rightarrow> instant list option" where
  "rrul_fill_Sly fuel tgt nti rr =
     (let proto = tgt ! 0
      in if sub_refused proto nti rr then Some []
         else run fuel
           (\<lambda>st. tick_step (Sly_keep rr) (Sly_emit tgt rr (length (snd st))) (adv_S (rr_inter rr)) (clip_nti rr nti) st)
           (case (if i_H proto = ECHS_ALL_DAY then (0, 0, 0) else (i_H proto, i_M proto, i_S proto)) of (H, M, S) \<Rightarrow>
              mk_clock get_ndom (ymd_get_wday (i_y proto) (i_m proto) (i_d proto)) proto H M S, []))"

section \<open>Weekly\<close>

definition wly_mask :: "bitintn \<Rightarrow> 32 word" where
  "wly_mask dow = foldl (\<lambda>k tmp. if MON \<le> tmp \<and> tmp \<le> SUN then k OR push_bit (nat tmp) 1 else k) 0 (bi447_list dow)"

text \<open>The mask rotated to the first weekday, and its gaps packed in nibbles.\<close>

definition wly_rot :: "32 word \<Rightarrow> echs_wday \<Rightarrow> 32 word" where
  "wly_rot wd w = drop_bit (nat w) (wd OR push_bit 7 wd) AND 0x7F"

fun wly_incs_from :: "nat \<Rightarrow> 32 word \<Rightarrow> int \<Rightarrow> nat \<Rightarrow> int \<Rightarrow> int" where
  "wly_incs_from 0 wd i j incs = incs"
| "wly_incs_from (Suc n) wd i j incs =
     (if wd = 0 then incs
      else if bit wd 0 then wly_incs_from n (drop_bit 1 wd) 1 (j + 4) (incs OR push_bit j (i AND 0xF))
      else wly_incs_from n (drop_bit 1 wd) (i + 1) j incs)"

definition wly_incs :: "bitintn \<Rightarrow> echs_wday \<Rightarrow> int" where
  "wly_incs dow w = (let wd = wly_mask dow in if wd = 0 then 0 else wly_incs_from 8 (wly_rot wd w) 0 0 0)"

datatype wly_end = Done | Skip | Fin

fun wly_times :: "fill_env \<Rightarrow> clock \<Rightarrow> (int \<times> int \<times> int) list \<Rightarrow> instant list \<times> wly_end" where
  "wly_times e c [] = ([], Done)"
| "wly_times e c (t # ts) =
     (let x = clock_inst (f_proto e) c t
      in if echs_instant_lt_p x (f_proto e) then wly_times e c ts
         else if echs_instant_lt_p (rr_until (f_rr e)) x then ([], Fin)
         else if \<not> bit (m_mask (rr_mon (f_rr e))) (nat (c_m c)) then ([], Skip)
         else case wly_times e c ts of (r, q) \<Rightarrow> (echs_instant_attach_scale x (rr_scale (f_rr e)) # r, q))"

function wly_week :: "fill_env \<Rightarrow> int \<Rightarrow> clock \<Rightarrow> nat \<Rightarrow> instant list \<times> bool" where
  "wly_week e incs c room =
     (let c = day_wrap (echs_scale_ndim (rr_scale (f_rr e))) (c\<lparr>c_d := u32 (c_d c + incs mod 16)\<rparr>)
      in case wly_times e c (f_times e) of
           (r, Fin) \<Rightarrow> (r, True)
         | (r, Skip) \<Rightarrow> (r, False)
         | (r, Done) \<Rightarrow>
             if 0 < incs div 16 \<and> length r < room
             then (case wly_week e (incs div 16) c (room - length r) of (r', fin) \<Rightarrow> (r @ r', fin))
             else (r, False))"
  by pat_completeness auto
termination
  by (relation "measure (\<lambda>(_, incs, _, _). nat incs)") auto

declare wly_week.simps [simp del]

definition wly_step :: "fill_env \<Rightarrow> int \<Rightarrow> nat \<Rightarrow> clock \<times> instant list \<Rightarrow> clock \<times> instant list + instant list" where
  "wly_step e incs nti st =
     (case st of (c, acc) \<Rightarrow>
        if nti \<le> length acc then Inr acc
        else case wly_week e incs c (nti - length acc) of
               (r, fin) \<Rightarrow>
                 if fin then Inr (acc @ r)
                 else Inl (day_wrap (echs_scale_ndim (rr_scale (f_rr e))) (c\<lparr>c_d := u32 (c_d c + u32 (rr_inter (f_rr e) * 7))\<rparr>),
                        acc @ r))"

definition rrul_fill_wly :: "nat \<Rightarrow> instant \<Rightarrow> nat \<Rightarrow> rrulsp \<Rightarrow> instant list option" where
  "rrul_fill_wly fuel tgt nti rr =
     (let proto = the_proto tgt rr; s = rr_scale rr; nti = clip_nti rr nti
      in if nti = 0 \<or> bad_md proto then Some []
         else
           let w = echs_scale_wday s (i_y proto) (i_m proto) (i_d proto)
           in run fuel (wly_step (mk_env rr proto) (wly_incs (rr_dow rr) w) nti)
                (mk_clock (echs_scale_ndim s) w proto 0 0 0, []))"

definition rrul_fill_dly :: "nat \<Rightarrow> instant \<Rightarrow> nat \<Rightarrow> rrulsp \<Rightarrow> instant list option" where
  "rrul_fill_dly fuel tgt nti rr =
     (let proto = the_proto tgt rr; s = rr_scale rr; nti' = clip_nti rr nti
      in if nti' = 0 \<or> bad_md proto then Some []
         else if wd_any (wd_mask_of (rr_dow rr)) \<and> rr_inter rr = 1 then rrul_fill_wly fuel tgt nti' rr
         else
           map_option (map (\<lambda>x. echs_instant_attach_scale x s))
             (run fuel (tick_step (day_ok rr) (dly_emit proto rr) (adv_d s (rr_inter rr)) nti')
               (mk_clock (echs_scale_ndim s) (echs_scale_wday s (i_y proto) (i_m proto) (i_d proto)) proto 0 0 0, [])))"

end
