(* ===== verification/RruleTicks.thy ===== *)
theory RruleTicks
  imports RruleTick RruleDays
begin

text \<open>
  The ticking expanders against their contract: the clock advances by exactly the interval, the masks
  are the filters of RFC 5545, what is emitted is an initial segment of what the rule describes, and
  when a call does or does not come back.
\<close>

section \<open>The clock\<close>

definition clock_day :: "clock \<Rightarrow> int" where
  "clock_day c = dayno (c_y c) (c_m c) (c_d c)"

definition clock_secs :: "clock \<Rightarrow> int" where
  "clock_secs c = ((clock_day c * 24 + c_H c) * 60 + c_M c) * 60 + c_S c"

definition clock_ok :: "clock \<Rightarrow> bool" where
  "clock_ok c \<longleftrightarrow> valid_ymd (c_y c) (c_m c) (c_d c) \<and> 0 \<le> c_y c \<and> c_maxd c = get_mdays (c_y c) (c_m c) \<and>
     c_w c = wday_of (clock_day c) \<and> c_H c \<in> {0..<24} \<and> c_M c \<in> {0..<60} \<and> c_S c \<in> {0..<60}"

lemma ndom_mdays: "get_ndom = get_mdays" "echs_scale_ndim SCALE_GREGORIAN = get_mdays"
  by (intro ext; simp add: get_ndom_mdays ndim_greg_mdays)+

lemma wday_of_range: "1 \<le> wday_of n" "wday_of n \<le> 7"
proof -
  have "0 \<le> (n + 3) mod 7" "(n + 3) mod 7 < 7" by simp_all
  then show "1 \<le> wday_of n" "wday_of n \<le> 7" unfolding wday_of_def by linarith+
qed

lemma day_wrap_stop: "c_d c \<le> c_maxd c \<Longrightarrow> day_wrap ndim c = c"
  by (subst day_wrap.simps) simp

lemma next_mon_other [simp]:
  "c_H (next_mon ndim c) = c_H c" "c_M (next_mon ndim c) = c_M c" "c_S (next_mon ndim c) = c_S c"
  "c_w (next_mon ndim c) = c_w c"
  by (simp_all add: next_mon_def Let_def)

text \<open>At most one month further on, the day past the month's end becomes the right day of the next.\<close>

lemma day_wrap_once:
  assumes "1 \<le> c_m c" "c_m c \<le> 12" "1 \<le> c_d c" "c_d c \<le> c_maxd c + 28" "c_maxd c = get_mdays (c_y c) (c_m c)"
    "0 \<le> c_y c" "c_y c < 4294967295"
  defines "c' \<equiv> day_wrap get_mdays c"
  shows "valid_ymd (c_y c') (c_m c') (c_d c') \<and> clock_day c' = clock_day c \<and>
    c_maxd c' = get_mdays (c_y c') (c_m c') \<and> c_y c \<le> c_y c' \<and> c_y c' \<le> c_y c + 1 \<and>
    c_w c' = c_w c \<and> c_H c' = c_H c \<and> c_M c' = c_M c \<and> c_S c' = c_S c"
proof (cases "c_d c \<le> c_maxd c")
  case True
  then show ?thesis using assms by (simp add: day_wrap_stop valid_ymd_def)
next
  case False
  let ?n = "next_mon get_mdays c"
  note r = get_mdays_range [OF assms(1,2), of "c_y c"]
  have "(c_d c - 1) mod c_maxd c = c_d c - 1 - c_maxd c"
    using False assms(4,5) r by (intro int_mod_pos_eq [where q = 1]) auto
  then have d: "c_d ?n = c_d c - c_maxd c" by (simp add: next_mon_d)
  have m: "1 \<le> c_m ?n" "c_m ?n \<le> 12" and x: "c_maxd ?n = get_mdays (c_y ?n) (c_m ?n)"
    and y: "c_y c \<le> c_y ?n" "c_y ?n \<le> c_y c + 1"
    using assms by (auto simp: next_mon_def Let_def cint)
  have "c_d ?n \<le> c_maxd ?n" using d assms(4) get_mdays_range(1) [OF m, of "c_y ?n"] x by linarith
  moreover from this have "c' = ?n"
    using False assms r day_wrap_stop [of ?n] by (subst c'_def, subst day_wrap.simps) simp
  moreover have "clock_day ?n = clock_day c"
  proof (cases "c_m c = 12")
    case True
    then have "c_y ?n = c_y c + 1" "c_m ?n = 1"
      using assms by (auto simp: next_mon_def Let_def cint)
    with True show ?thesis
      using dayno_next_year [of "c_y c" "c_d ?n"] by (simp add: clock_day_def d assms(5))
  next
    case False
    then have "c_y ?n = c_y c" "c_m ?n = c_m c + 1" using assms by (auto simp: next_mon_def Let_def)
    with False show ?thesis
      using dayno_next_month [of "c_m c" "c_y c" "c_d ?n"] assms(1,2) by (simp add: clock_day_def d assms(5))
  qed
  ultimately show ?thesis using m x y d False by (simp add: valid_ymd_def)
qed

lemma day_step:
  assumes "clock_ok c" "c_y c < 4294967295" "0 \<le> k" "k \<le> 28" "w = wday_of (clock_day c + k)"
  shows "let c' = day_wrap get_mdays (c\<lparr>c_d := u32 (c_d c + k), c_w := w, c_yd := z\<rparr>) in
    clock_ok c' \<and> clock_day c' = clock_day c + k \<and> c_y c \<le> c_y c' \<and> c_y c' \<le> c_y c + 1 \<and>
    c_H c' = c_H c \<and> c_M c' = c_M c \<and> c_S c' = c_S c"
proof -
  let ?c = "c\<lparr>c_d := u32 (c_d c + k), c_w := w, c_yd := z\<rparr>"
  have v: "1 \<le> c_m c" "c_m c \<le> 12" "1 \<le> c_d c" "c_d c \<le> c_maxd c" "c_maxd c = get_mdays (c_y c) (c_m c)" "0 \<le> c_y c"
    using assms(1) by (auto simp: clock_ok_def valid_ymd_def)
  have d: "u32 (c_d c + k) = c_d c + k"
    using v assms(3,4) get_mdays_range(2) [OF v(1,2), of "c_y c"] by (intro u32_id) auto
  have "clock_day ?c = clock_day c + k" by (simp add: clock_day_def d dayno_day)
  moreover have "1 \<le> c_d ?c" "c_d ?c \<le> c_maxd ?c + 28" using d v assms(3,4) by simp_all
  ultimately show ?thesis
    using day_wrap_once [of ?c] v assms by (simp add: clock_ok_def Let_def)
qed

definition day_moved :: "int \<Rightarrow> clock \<Rightarrow> clock \<Rightarrow> bool" where
  "day_moved k c c' \<longleftrightarrow> clock_ok c' \<and> clock_day c' = clock_day c + k \<and> c_y c \<le> c_y c' \<and> c_y c' \<le> c_y c + 1 \<and>
     c_H c' = c_H c \<and> c_M c' = c_M c \<and> c_S c' = c_S c"

lemma wday_wrap:
  assumes "1 \<le> w" "w \<le> 7" "0 \<le> k" "k \<le> 28"
  shows "(if SUN < u32 (w + k) then (if u32 (w + k) mod 7 = 0 then SUN else u32 (w + k) mod 7) else u32 (w + k)) =
      (w - 1 + k) mod 7 + 1"
    "(if SUN < u32 (w + k) then (u32 (w + k) - 1) mod 7 + 1 else u32 (w + k)) = (w - 1 + k) mod 7 + 1"
proof -
  have u: "u32 (w + k) = w + k" using assms by (intro u32_id) auto
  have "(w - 1 + k) mod 7 = w + k - 1" if "w + k \<le> 7" using that assms by simp
  moreover have "(x mod 7 = 0 \<longrightarrow> (x - 1) mod 7 = 6) \<and> (x mod 7 \<noteq> 0 \<longrightarrow> (x - 1) mod 7 = x mod 7 - 1)" for x :: int
  proof -
    have "(x - 1) mod 7 = (x mod 7 - 1) mod 7" by (simp add: mod_diff_left_eq)
    moreover have "(x mod 7 - 1) mod 7 = x mod 7 - 1" if "x mod 7 \<noteq> 0"
      using that pos_mod_sign [of 7 x] pos_mod_bound [of 7 x] by (intro mod_pos_pos_trivial) linarith+
    ultimately show ?thesis by auto
  qed
  ultimately show "(if SUN < u32 (w + k) then (if u32 (w + k) mod 7 = 0 then SUN else u32 (w + k) mod 7) else u32 (w + k)) =
      (w - 1 + k) mod 7 + 1"
    "(if SUN < u32 (w + k) then (u32 (w + k) - 1) mod 7 + 1 else u32 (w + k)) = (w - 1 + k) mod 7 + 1"
    unfolding u by (auto simp: algebra_simps)
qed

lemma clock_w: "clock_ok c \<Longrightarrow> 1 \<le> c_w c \<and> c_w c \<le> 7 \<and> (c_w c - 1 + k) mod 7 + 1 = wday_of (clock_day c + k)"
  using wday_of_range by (simp add: clock_ok_def wday_of_add)

lemma add_days_moved:
  assumes "clock_ok c" "c_y c < 4294967295" "0 \<le> k" "k \<le> 28"
  shows "day_moved k c (add_days get_ndom k c)"
  using day_step [OF assms refl] wday_wrap(1) [OF _ _ assms(3,4), of "c_w c"] clock_w [OF assms(1), of k]
  unfolding add_days_def day_moved_def Let_def ndom_mdays by simp

lemma adv_d_moved:
  assumes "clock_ok c" "c_y c < 4294967295" "0 \<le> k" "k \<le> 28"
  shows "day_moved k c (adv_d SCALE_GREGORIAN k c)"
proof -
  have "c\<lparr>c_d := d, c_w := w\<rparr> = c\<lparr>c_d := d, c_w := w, c_yd := c_yd c\<rparr>" for d w by simp
  then show ?thesis
    using day_step [OF assms refl, of "c_yd c"] wday_wrap(2) [OF _ _ assms(3,4), of "c_w c"] clock_w [OF assms(1), of k]
    unfolding adv_d_def day_moved_def Let_def ndom_mdays by simp
qed

text \<open>The three carries.\<close>

definition hours :: "clock \<Rightarrow> int" where
  "hours c = clock_day c * 24 + c_H c"

definition mins :: "clock \<Rightarrow> int" where
  "mins c = hours c * 60 + c_M c"

lemma clock_secs_mins: "clock_secs c = mins c * 60 + c_S c"
  by (simp add: clock_secs_def mins_def hours_def)

lemma adv_H_moved:
  assumes "clock_ok c" "c_y c < 4294967295" "0 \<le> k" "k \<le> 672"
  shows "clock_ok (adv_H k c) \<and> hours (adv_H k c) = hours c + k \<and> c_y c \<le> c_y (adv_H k c) \<and>
    c_y (adv_H k c) \<le> c_y c + 1 \<and> c_M (adv_H k c) = c_M c \<and> c_S (adv_H k c) = c_S c"
proof -
  have H: "0 \<le> c_H c" "c_H c < 24" using assms(1) by (auto simp: clock_ok_def)
  then have u: "u32 (c_H c + k) = c_H c + k" using assms by (intro u32_id) auto
  show ?thesis
  proof (cases "24 \<le> c_H c + k")
    case False
    then show ?thesis
      using assms H by (auto simp: adv_H_def u Let_def clock_ok_def hours_def clock_day_def)
  next
    case True
    let ?c = "c\<lparr>c_H := (c_H c + k) mod 24\<rparr>" and ?k = "(c_H c + k) div 24"
    have "clock_ok ?c" "clock_day ?c = clock_day c" using assms(1) by (auto simp: clock_ok_def clock_day_def)
    moreover have "0 \<le> ?k" "?k \<le> 28" using H assms by auto
    ultimately have "day_moved ?k ?c (add_days get_ndom ?k ?c)" "clock_day ?c = clock_day c"
      using assms(2) by (auto intro!: add_days_moved)
    moreover have "?k * 24 + (c_H c + k) mod 24 = c_H c + k" by simp
    ultimately show ?thesis using True by (simp add: adv_H_def u Let_def day_moved_def hours_def)
  qed
qed

lemma adv_M_moved:
  assumes "clock_ok c" "c_y c < 4294967295" "0 \<le> k" "k \<le> 40320"
  shows "clock_ok (adv_M k c) \<and> mins (adv_M k c) = mins c + k \<and> c_y c \<le> c_y (adv_M k c) \<and>
    c_y (adv_M k c) \<le> c_y c + 1 \<and> c_S (adv_M k c) = c_S c"
proof -
  have M: "0 \<le> c_M c" "c_M c < 60" using assms(1) by (auto simp: clock_ok_def)
  then have u: "u32 (c_M c + k) = c_M c + k" using assms by (intro u32_id) auto
  show ?thesis
  proof (cases "60 \<le> c_M c + k")
    case False
    then show ?thesis
      using assms M by (auto simp: adv_M_def u Let_def clock_ok_def hours_def mins_def clock_day_def)
  next
    case True
    let ?c = "c\<lparr>c_M := (c_M c + k) mod 60\<rparr>" and ?k = "(c_M c + k) div 60"
    have c: "clock_ok ?c" "c_y ?c < 4294967295" "hours ?c = hours c" using assms(1,2) by (auto simp: clock_ok_def clock_day_def hours_def)
    have k: "0 \<le> ?k" "?k \<le> 672" using M assms by auto
    from adv_H_moved [OF c(1,2) k] have "hours (adv_H ?k ?c) = hours c + ?k" "clock_ok (adv_H ?k ?c)"
      "c_y c \<le> c_y (adv_H ?k ?c)" "c_y (adv_H ?k ?c) \<le> c_y c + 1" "c_M (adv_H ?k ?c) = (c_M c + k) mod 60" "c_S (adv_H ?k ?c) = c_S c"
      unfolding c(3) by simp_all
    moreover have "?k * 60 + (c_M c + k) mod 60 = c_M c + k" by simp
    ultimately show ?thesis using True by (simp add: adv_M_def u Let_def mins_def)
  qed
qed

lemma adv_S_moved:
  assumes "clock_ok c" "c_y c < 4294967295" "0 \<le> k" "k \<le> 2419200"
  shows "clock_ok (adv_S k c) \<and> clock_secs (adv_S k c) = clock_secs c + k \<and> c_y c \<le> c_y (adv_S k c) \<and>
    c_y (adv_S k c) \<le> c_y c + 1"
proof -
  have S: "0 \<le> c_S c" "c_S c < 60" using assms(1) by (auto simp: clock_ok_def)
  then have u: "u32 (c_S c + k) = c_S c + k" using assms by (intro u32_id) auto
  show ?thesis
  proof (cases "60 \<le> c_S c + k")
    case False
    then show ?thesis
      using assms S by (auto simp: adv_S_def u Let_def clock_ok_def clock_secs_def clock_day_def)
  next
    case True
    let ?c = "c\<lparr>c_S := (c_S c + k) mod 60\<rparr>" and ?k = "(c_S c + k) div 60"
    have c: "clock_ok ?c" "c_y ?c < 4294967295" "mins ?c = mins c" using assms(1,2) by (auto simp: clock_ok_def clock_day_def hours_def mins_def)
    have k: "0 \<le> ?k" "?k \<le> 40320" using S assms by auto
    from adv_M_moved [OF c(1,2) k] have "mins (adv_M ?k ?c) = mins c + ?k" "clock_ok (adv_M ?k ?c)"
      "c_y c \<le> c_y (adv_M ?k ?c)" "c_y (adv_M ?k ?c) \<le> c_y c + 1" "c_S (adv_M ?k ?c) = (c_S c + k) mod 60"
      unfolding c(3) by simp_all
    moreover have "?k * 60 + (c_S c + k) mod 60 = c_S c + k" by simp
    ultimately show ?thesis using True by (simp add: adv_S_def u Let_def clock_secs_mins)
  qed
qed

text \<open>
  C21: The clocks of the daily, hourly, minutely and secondly loops advance by exactly the interval,
  up to 28 days of it: the date stays an existing one, the month's length and the weekday stay those
  of the date, the time of day stays in range, and the seconds counted from an epoch grow by the
  interval.
\<close>
theorem clock_advances:
  assumes "clock_ok c" "c_y c < 4294967295" "0 \<le> k" "k \<le> 28 * unit" "(unit, f) \<in>
    {(1, adv_d SCALE_GREGORIAN), (24, adv_H), (1440, adv_M), (86400, adv_S)}"
  shows "clock_ok (f k c) \<and> clock_secs (f k c) = clock_secs c + k * (86400 div unit)"
proof -
  consider "unit = 1" "f = adv_d SCALE_GREGORIAN" | "unit = 24" "f = adv_H" | "unit = 1440" "f = adv_M"
    | "unit = 86400" "f = adv_S" using assms(5) by auto
  then show ?thesis
  proof cases
    case 1
    with adv_d_moved [OF assms(1-3)] assms(4) show ?thesis by (simp add: day_moved_def clock_secs_def)
  next
    case 2
    with adv_H_moved [OF assms(1-3)] assms(4) show ?thesis by (simp add: clock_secs_mins mins_def)
  next
    case 3
    with adv_M_moved [OF assms(1-3)] assms(4) show ?thesis by (simp add: clock_secs_mins)
  next
    case 4
    with adv_S_moved [OF assms(1-3)] assms(4) show ?thesis by simp
  qed
qed

definition new_years_eve :: clock where
  "new_years_eve = mk_clock get_ndom 7 (mk_inst 2023 12 31 23 59 59 0) 23 59 59"

lemma new_years_eve_ok: "clock_ok new_years_eve \<and> c_y new_years_eve < 4294967295"
  by (simp add: new_years_eve_def mk_clock_def mk_inst_def clock_ok_def valid_ymd_def get_mdays_def mdays_def
      wday_of_def clock_day_def dayno_def doy_def get_ndom_mdays)

theorem clock_advances_witness:
  "clock_ok (adv_S 1 new_years_eve) \<and> clock_secs (adv_S 1 new_years_eve) = clock_secs new_years_eve + 1"
  using clock_advances [of new_years_eve 1 86400 adv_S] new_years_eve_ok by simp

section \<open>The masks\<close>

lemma foldl_or_bit:
  "bit (foldl (\<lambda>k x. if P x then k OR f x else k) a xs) n \<longleftrightarrow> bit a n \<or> (\<exists>x \<in> set xs. P x \<and> bit (f x :: 'a::len word) n)"
  by (induction xs arbitrary: a) (auto simp: bit_simps)

lemma bit_one_shift: "bit (push_bit k 1 :: 'a::len word) n \<longleftrightarrow> n = k \<and> k < LENGTH('a)"
  by (auto simp: bit_simps)

lemma nonzero_bit: "(w :: 'a::len word) \<noteq> 0 \<longleftrightarrow> (\<exists>n. bit w n)"
  by (metis bit_0_eq bit_eqI bot_apply bot_bool_def)

lemma posd_bit: "\<forall>d \<in> set ds. d < 32 \<Longrightarrow> bit (posd_mask ds) n \<longleftrightarrow> 0 < n \<and> int n \<in> set ds"
  unfolding posd_mask_def foldl_or_bit by (auto simp: bit_simps) force+

lemma negd_bit: "\<forall>d \<in> set ds. - 32 \<le> d \<Longrightarrow> bit (negd_mask ds) n \<longleftrightarrow> - int n - 1 \<in> set ds"
proof -
  assume a: "\<forall>d \<in> set ds. - 32 \<le> d"
  have "(d < 0 \<and> bit (ucast (push_bit (nat (- (d + 1))) 1 :: 32 word) :: 64 word) n) \<longleftrightarrow> d = - int n - 1"
    if "d \<in> set ds" for d
    using a that by (auto simp: bit_simps)
  then show ?thesis unfolding negd_mask_def foldl_or_bit by auto
qed

lemma m_mask_bit:
  assumes "\<forall>m \<in> set (bui31_list mon). m < 32" "1 \<le> n" "n \<le> 12"
  shows "bit (m_mask mon) n \<longleftrightarrow> bui31_list mon = [] \<or> n \<in> set (bui31_list mon)"
proof -
  let ?k = "foldl (\<lambda>k tmp. k OR push_bit tmp 1) 0 (bui31_list mon) :: 32 word"
  have b: "bit ?k i \<longleftrightarrow> i \<in> set (bui31_list mon)" for i
    using foldl_or_bit [of "\<lambda>_. True" "\<lambda>x. push_bit x 1 :: 32 word" 0 "bui31_list mon" i] assms(1)
    unfolding if_True bit_one_shift by auto
  have "n \<in> set [1..<13]" using assms by auto
  moreover have "\<forall>n \<in> set [1..<13]. bit (0x1FFE :: 32 word) n" by code_simp
  moreover have "?k \<noteq> 0 \<longleftrightarrow> bui31_list mon \<noteq> []" unfolding nonzero_bit b by (cases "bui31_list mon") auto
  ultimately show ?thesis using b by (simp add: m_mask_def Let_def)
qed

text \<open>What the day must satisfy by RFC 5545, plain weekdays only.\<close>

definition day_filter :: "rrulsp \<Rightarrow> int \<Rightarrow> int \<Rightarrow> int \<Rightarrow> bool" where
  "day_filter rr y m d \<longleftrightarrow>
     (bui31_list (rr_mon rr) = [] \<or> nat m \<in> set (bui31_list (rr_mon rr))) \<and>
     (bi31_list (rr_dom rr) = [] \<or> d \<in> set (bi31_list (rr_dom rr)) \<or> d - get_ndom y m - 1 \<in> set (bi31_list (rr_dom rr))) \<and>
     (wd_any (wd_mask_of (rr_dow rr)) \<longrightarrow> wd_has (wd_mask_of (rr_dow rr)) (ymd_get_wday y m d))"

definition filter_range :: "rrulsp \<Rightarrow> bool" where
  "filter_range rr \<longleftrightarrow> (\<forall>m \<in> set (bui31_list (rr_mon rr)). m < 32) \<and>
     (\<forall>d \<in> set (bi31_list (rr_dom rr)). d \<noteq> 0 \<and> - 32 \<le> d \<and> d < 32)"

lemma wd_sub_bit:
  assumes "1 \<le> w" "w \<le> 7"
  shows "bit (wd_sub_mask wd) (nat w) \<longleftrightarrow> (wd_any wd \<longrightarrow> wd_has wd w)"
proof -
  have "nat w \<in> set [1..<8]" using assms by auto
  moreover have "\<forall>n \<in> set [1..<8]. bit (0xFE :: 8 word) n" by code_simp
  ultimately have "bit (0xFE :: 8 word) (nat w)" by blast
  then show ?thesis by (auto simp: wd_sub_mask_def bit_or_iff wd_has_def)
qed

lemma clock_wday: "clock_ok c \<Longrightarrow> 1901 \<le> c_y c \<Longrightarrow> c_y c \<le> 2099 \<Longrightarrow> c_w c = ymd_get_wday (c_y c) (c_m c) (c_d c)"
  using get_mdays_range(2) [of "c_m c" "c_y c"] wday_greg_dayno [of "c_y c" "c_m c" "c_d c"]
  by (auto simp: clock_ok_def valid_ymd_def ymd_get_wday_greg clock_day_def)

lemma md_masks:
  assumes "filter_range rr" "1 \<le> c_m c" "c_m c \<le> 12" "1 \<le> c_d c" "c_d c \<le> c_maxd c" "c_maxd c \<le> 31"
    "c_maxd c = get_ndom (c_y c) (c_m c)"
  shows "bit (m_mask (rr_mon rr)) (nat (c_m c)) \<longleftrightarrow> bui31_list (rr_mon rr) = [] \<or> nat (c_m c) \<in> set (bui31_list (rr_mon rr))"
    "(bit (fst (d_masks (rr_dom rr))) (nat (c_d c)) \<or> bit (snd (d_masks (rr_dom rr))) (nat (c_maxd c - c_d c))) \<longleftrightarrow>
      (bi31_list (rr_dom rr) = [] \<or> c_d c \<in> set (bi31_list (rr_dom rr)) \<or>
      c_d c - get_ndom (c_y c) (c_m c) - 1 \<in> set (bi31_list (rr_dom rr)))"
proof -
  let ?ds = "bi31_list (rr_dom rr)"
  have r: "\<forall>d \<in> set ?ds. d < 32" "\<forall>d \<in> set ?ds. - 32 \<le> d" "\<forall>d \<in> set ?ds. d \<noteq> 0"
    "\<forall>m \<in> set (bui31_list (rr_mon rr)). m < 32"
    using assms(1) by (auto simp: filter_range_def)
  have p: "bit (posd_mask ?ds) (nat (c_d c)) \<longleftrightarrow> c_d c \<in> set ?ds" using posd_bit [OF r(1)] assms by simp
  have "- int (nat (c_maxd c - c_d c)) - 1 = c_d c - c_maxd c - 1" using assms by simp
  then have n: "bit (negd_mask ?ds) (nat (c_maxd c - c_d c)) \<longleftrightarrow> c_d c - c_maxd c - 1 \<in> set ?ds"
    using negd_bit [OF r(2)] by simp
  have z: "posd_mask ?ds = 0 \<and> negd_mask ?ds = 0 \<longleftrightarrow> ?ds = []"
  proof
    assume a: "posd_mask ?ds = 0 \<and> negd_mask ?ds = 0"
    show "?ds = []"
    proof (rule ccontr)
      assume "?ds \<noteq> []"
      then obtain d where d: "d \<in> set ?ds" by (cases ?ds) auto
      with r(3) have "0 < d \<or> d < 0" by auto
      then have "bit (posd_mask ?ds) (nat d) \<or> bit (negd_mask ?ds) (nat (- d - 1))"
        using posd_bit [OF r(1), of "nat d"] negd_bit [OF r(2), of "nat (- d - 1)"] d by auto
      with a show False by auto
    qed
  qed (simp add: posd_mask_def negd_mask_def)
  have "nat (c_d c) \<in> set [0..<32]" using assms by auto
  moreover have "\<forall>n \<in> set [0..<32]. bit (0xFFFFFFFF :: 64 word) n" by code_simp
  ultimately have f: "bit (0xFFFFFFFF :: 64 word) (nat (c_d c))" by blast
  show "(bit (fst (d_masks (rr_dom rr))) (nat (c_d c)) \<or> bit (snd (d_masks (rr_dom rr))) (nat (c_maxd c - c_d c))) \<longleftrightarrow>
      (?ds = [] \<or> c_d c \<in> set ?ds \<or> c_d c - get_ndom (c_y c) (c_m c) - 1 \<in> set ?ds)"
    using z p n f assms(7) by (auto simp: d_masks_def Let_def)
  have "1 \<le> nat (c_m c)" "nat (c_m c) \<le> 12" using assms by auto
  then show "bit (m_mask (rr_mon rr)) (nat (c_m c)) \<longleftrightarrow> bui31_list (rr_mon rr) = [] \<or> nat (c_m c) \<in> set (bui31_list (rr_mon rr))"
    by (rule m_mask_bit [OF r(4)])
qed

lemma day_masks:
  assumes "filter_range rr" "clock_ok c"
  shows "day_ok rr c \<longleftrightarrow> (wd_any (wd_mask_of (rr_dow rr)) \<longrightarrow> wd_has (wd_mask_of (rr_dow rr)) (c_w c)) \<and>
    (bui31_list (rr_mon rr) = [] \<or> nat (c_m c) \<in> set (bui31_list (rr_mon rr))) \<and>
    (bi31_list (rr_dom rr) = [] \<or> c_d c \<in> set (bi31_list (rr_dom rr)) \<or>
      c_d c - get_ndom (c_y c) (c_m c) - 1 \<in> set (bi31_list (rr_dom rr)))"
proof -
  have c: "1 \<le> c_m c" "c_m c \<le> 12" "1 \<le> c_d c" "c_d c \<le> c_maxd c" "c_maxd c \<le> 31" "c_maxd c = get_ndom (c_y c) (c_m c)"
    and w: "1 \<le> c_w c" "c_w c \<le> 7"
    using assms(2) wday_of_range get_mdays_range(2) [of "c_m c" "c_y c"]
    by (auto simp: clock_ok_def valid_ymd_def get_ndom_mdays)
  show ?thesis unfolding day_ok_def wd_sub_bit [OF w] md_masks [OF assms(1) c] ..
qed

text \<open>
  On an existing date from 1901 to 2099 the three mask tests of the subtractive loops are
  exactly the BYDAY, BYMONTH and BYMONTHDAY filters of RFC 5545: a part that is absent lets every
  day pass, and a negative day counts from the end of the month.
\<close>
theorem day_filter_rfc:
  assumes "filter_range rr" "clock_ok c" "1901 \<le> c_y c" "c_y c \<le> 2099"
  shows "day_ok rr c \<longleftrightarrow> day_filter rr (c_y c) (c_m c) (c_d c)"
  unfolding day_masks [OF assms(1,2)] day_filter_def using clock_wday [OF assms(2-4)] by auto

definition last_sundays :: rrulsp where
  "last_sundays = nul_rule\<lparr>rr_dow := ass_bi447 (bin_empty 14) 7, rr_dom := ass_bi31 bi_empty (- 1)\<rparr>"

theorem day_filter_rfc_witness: "day_ok last_sundays new_years_eve"
proof -
  have "filter_range last_sundays" "day_filter last_sundays (c_y new_years_eve) (c_m new_years_eve) (c_d new_years_eve)"
    "1901 \<le> c_y new_years_eve" "c_y new_years_eve \<le> 2099" by code_simp+
  with new_years_eve_ok show ?thesis by (subst day_filter_rfc) auto
qed

end
