(* ===== verification/RruleSegment.thy ===== *)
theory RruleSegment
  imports RruleTicks
begin

text \<open>
  What the ticking expanders return, against an abstract specification: an initial segment, in
  ascending order, of the instants that the rule describes.
\<close>

section \<open>Initial segments\<close>

text \<open>
  \<open>r\<close> lists members of \<open>W\<close> in ascending order and none is skipped; all of them are there unless the
  \<open>nti\<close> slots are used up.
\<close>

definition segment :: "nat \<Rightarrow> instant set \<Rightarrow> instant list \<Rightarrow> bool" where
  "segment nti W r \<longleftrightarrow> sorted_wrt echs_instant_lt_p r \<and> set r \<subseteq> W \<and>
     (\<forall>x \<in> W. x \<in> set r \<or> nti \<le> length r \<and> (\<forall>y \<in> set r. echs_instant_lt_p y x))"

lemma lt_trans: "echs_instant_lt_p x y \<Longrightarrow> echs_instant_lt_p y z \<Longrightarrow> echs_instant_lt_p x z"
  by (simp add: echs_instant_lt_p_def)

lemma lt_asym: "echs_instant_lt_p x y \<Longrightarrow> \<not> echs_instant_lt_p y x"
  by (simp add: echs_instant_lt_p_def)

lemma lt_not_trans: "\<not> echs_instant_lt_p x p \<Longrightarrow> echs_instant_lt_p x y \<Longrightarrow> \<not> echs_instant_lt_p y p"
  by (simp add: echs_instant_lt_p_def)

lemma sorted_wrt_concat_map:
  "\<forall>x \<in> set xs. sorted_wrt P (f x) \<Longrightarrow> sorted_wrt (\<lambda>x y. \<forall>a \<in> set (f x). \<forall>b \<in> set (f y). P a b) xs \<Longrightarrow>
   sorted_wrt P (concat (map f xs))"
  by (induction xs) (auto simp: sorted_wrt_append)

lemma emit_sub_filter:
  "sorted_wrt echs_instant_lt_p xs \<Longrightarrow> emit_sub till proto xs =
     (filter (\<lambda>x. \<not> echs_instant_lt_p x proto \<and> \<not> echs_instant_lt_p till x) xs,
      \<exists>x \<in> set xs. \<not> echs_instant_lt_p x proto \<and> echs_instant_lt_p till x)"
proof (induction xs)
  case (Cons x xs)
  have "filter (\<lambda>x. \<not> echs_instant_lt_p x proto \<and> \<not> echs_instant_lt_p till x) xs = []"
    if "echs_instant_lt_p till x" using Cons.prems that lt_trans by (auto simp: filter_empty_conv)
  with Cons show ?case by auto
qed simp

section \<open>Ticks\<close>

definition tick_emit :: "(clock \<Rightarrow> bool) \<Rightarrow> (clock \<Rightarrow> 'a list) \<Rightarrow> clock \<Rightarrow> 'a list" where
  "tick_emit keep out c = (if keep c then out c else [])"

lemma tick_step_at:
  "tick_step keep emit adv nti (c, acc) =
     (if nti \<le> length acc then Inr acc
      else if keep c \<and> snd (emit c) then Inr (acc @ fst (emit c))
      else Inl (adv c, acc @ tick_emit keep (fst \<circ> emit) c))"
  by (simp add: tick_step_def tick_emit_def split: prod.splits)

lemma run_ticks:
  assumes "run fuel (tick_step keep emit adv nti) (c, acc) = Some r"
  shows "\<exists>n \<le> fuel. r = acc @ concat (map (\<lambda>i. tick_emit keep (fst \<circ> emit) ((adv ^^ i) c)) [0..<n]) \<and>
    (nti \<le> length r \<or> (\<exists>i. n = Suc i \<and> keep ((adv ^^ i) c) \<and> snd (emit ((adv ^^ i) c))))"
  using assms
proof (induction fuel arbitrary: c acc)
  case (Suc fuel)
  have later: "\<exists>n \<le> Suc fuel. r = acc @ concat (map (\<lambda>i. tick_emit keep (fst \<circ> emit) ((adv ^^ i) c)) [0..<n]) \<and>
    (nti \<le> length r \<or> (\<exists>i. n = Suc i \<and> keep ((adv ^^ i) c) \<and> snd (emit ((adv ^^ i) c))))"
    if "run fuel (tick_step keep emit adv nti) (adv c, acc @ tick_emit keep (fst \<circ> emit) c) = Some r"
  proof -
    from Suc.IH [OF that] obtain n where n: "n \<le> fuel"
      "r = (acc @ tick_emit keep (fst \<circ> emit) c) @ concat (map (\<lambda>i. tick_emit keep (fst \<circ> emit) ((adv ^^ i) (adv c))) [0..<n])"
      "nti \<le> length r \<or> (\<exists>i. n = Suc i \<and> keep ((adv ^^ i) (adv c)) \<and> snd (emit ((adv ^^ i) (adv c))))" by blast
    have s: "(adv ^^ i) (adv c) = (adv ^^ Suc i) c" for i by (simp add: funpow_swap1)
    have "map (\<lambda>i. tick_emit keep (fst \<circ> emit) ((adv ^^ i) c)) [0..<Suc n] = tick_emit keep (fst \<circ> emit) c #
        map (\<lambda>i. tick_emit keep (fst \<circ> emit) ((adv ^^ i) (adv c))) [0..<n]"
      unfolding map_upt_Suc s by simp
    then show ?thesis using n unfolding s by (intro exI [of _ "Suc n"]) auto
  qed
  consider "nti \<le> length acc" | "\<not> nti \<le> length acc" "\<not> keep c" | "\<not> nti \<le> length acc" "keep c" "\<not> snd (emit c)"
    | "\<not> nti \<le> length acc" "keep c" "snd (emit c)" by blast
  then show ?case
  proof cases
    case 1
    with Suc.prems show ?thesis by (intro exI [of _ 0]) (simp add: tick_step_at)
  next
    case 2
    with Suc.prems show ?thesis by (intro later) (simp add: tick_step_at)
  next
    case 3
    with Suc.prems show ?thesis
      by (intro later) (simp add: tick_step_at)
  next
    case 4
    with Suc.prems show ?thesis
      by (intro exI [of _ 1]) (simp add: tick_step_at tick_emit_def)
  qed
qed simp

text \<open>
  The contract of one ticking expander: as long as the clock is in range, the stamps of one tick
  ascend and those of a later tick come after them.
\<close>

locale ticker =
  fixes stamps :: "clock \<Rightarrow> instant list"
    and adv :: "clock \<Rightarrow> clock"
    and in_range :: "clock \<Rightarrow> nat \<Rightarrow> bool"
  assumes tick_sorted: "in_range c N \<Longrightarrow> i < N \<Longrightarrow> sorted_wrt echs_instant_lt_p (stamps ((adv ^^ i) c))"
    and ticks_sorted: "in_range c N \<Longrightarrow> i < j \<Longrightarrow> j < N \<Longrightarrow> x \<in> set (stamps ((adv ^^ i) c)) \<Longrightarrow>
      y \<in> set (stamps ((adv ^^ j) c)) \<Longrightarrow> echs_instant_lt_p x y"
begin

definition described :: "(clock \<Rightarrow> bool) \<Rightarrow> instant \<Rightarrow> instant \<Rightarrow> clock \<Rightarrow> nat \<Rightarrow> instant set" where
  "described keep proto till c N = {x. \<exists>i < N. keep ((adv ^^ i) c) \<and> x \<in> set (stamps ((adv ^^ i) c)) \<and>
     \<not> echs_instant_lt_p x proto \<and> \<not> echs_instant_lt_p till x}"

lemma run_segment:
  assumes "in_range c N" "fuel \<le> N"
    "run fuel (tick_step keep (\<lambda>c. emit_sub till proto (stamps c)) adv nti) (c, []) = Some r"
  shows "segment nti (described keep proto till c N) r"
proof -
  let ?t = "\<lambda>i. (adv ^^ i) c" and ?P = "\<lambda>x. \<not> echs_instant_lt_p x proto \<and> \<not> echs_instant_lt_p till x"
  let ?emit = "\<lambda>c. emit_sub till proto (stamps c)"
  let ?E = "\<lambda>i. tick_emit keep (fst \<circ> ?emit) (?t i)"
  from run_ticks [OF assms(3)] obtain n where n: "n \<le> fuel" "r = concat (map ?E [0..<n])"
    "nti \<le> length r \<or> (\<exists>i. n = Suc i \<and> keep (?t i) \<and> snd (?emit (?t i)))" by auto
  have E: "?E i = (if keep (?t i) then filter ?P (stamps (?t i)) else [])" if "i < N" for i
    using emit_sub_filter [OF tick_sorted [OF assms(1) that]] by (simp add: tick_emit_def)
  have nN: "n \<le> N" using n(1) assms(2) by simp
  have later: "\<forall>a \<in> set (?E i). \<forall>b \<in> set (stamps (?t j)). echs_instant_lt_p a b" if "i < j" "j < N" for i j
    using ticks_sorted [OF assms(1) that] E [of i] that by auto
  have "sorted_wrt echs_instant_lt_p (?E i)" if "i < N" for i
    using tick_sorted [OF assms(1) that] unfolding E [OF that] by (simp add: sorted_wrt_filter)
  moreover have "sorted_wrt (\<lambda>i j. \<forall>a \<in> set (?E i). \<forall>b \<in> set (?E j). echs_instant_lt_p a b) [0..<n]"
  proof (rule sorted_wrt_mono_rel [OF _ sorted_wrt_upt])
    fix i j assume "i \<in> set [0..<n]" "j \<in> set [0..<n]" "i < j"
    then have "j < N" using nN by simp
    then have "set (?E j) \<subseteq> set (stamps (?t j))" by (auto simp: E)
    with later [OF \<open>i < j\<close> \<open>j < N\<close>] show "\<forall>a \<in> set (?E i). \<forall>b \<in> set (?E j). echs_instant_lt_p a b" by blast
  qed
  ultimately have "sorted_wrt echs_instant_lt_p r"
    unfolding n(2) using nN by (intro sorted_wrt_concat_map) auto
  moreover have "set r \<subseteq> described keep proto till c N"
  proof
    fix x assume "x \<in> set r"
    then obtain i where i: "i < n" "x \<in> set (?E i)" unfolding n(2) by auto
    then have "i < N" using nN by simp
    from i(2) [unfolded E [OF this]] this show "x \<in> described keep proto till c N"
      unfolding described_def by (auto split: if_splits)
  qed
  moreover have "x \<in> set r \<or> nti \<le> length r \<and> (\<forall>y \<in> set r. echs_instant_lt_p y x)"
    if "x \<in> described keep proto till c N" for x
  proof -
    from that obtain i where i: "i < N" "keep (?t i)" "x \<in> set (stamps (?t i))" "?P x"
      unfolding described_def by blast
    show ?thesis
    proof (cases "i < n")
      case True
      then have "x \<in> set (?E i)" using i E [OF i(1)] by auto
      with True show ?thesis unfolding n(2) by auto
    next
      case False
      have "\<not> (\<exists>k. n = Suc k \<and> keep (?t k) \<and> snd (?emit (?t k)))"
      proof
        assume "\<exists>k. n = Suc k \<and> keep (?t k) \<and> snd (?emit (?t k))"
        then obtain k where k: "n = Suc k" "snd (?emit (?t k))" by blast
        then have "k < i" "k < N" using False nN by auto
        from k(2) emit_sub_filter [OF tick_sorted [OF assms(1) this(2)]] obtain z where
          "z \<in> set (stamps (?t k))" "echs_instant_lt_p till z" by auto
        with ticks_sorted [OF assms(1) \<open>k < i\<close> i(1) _ i(3)] lt_trans i(4) show False by blast
      qed
      with n(3) have "nti \<le> length r" by blast
      moreover have "echs_instant_lt_p y x" if "y \<in> set r" for y
      proof -
        from that obtain j where "j < n" "y \<in> set (?E j)" unfolding n(2) by auto
        with later [of j i] i(1,3) False show ?thesis by auto
      qed
      ultimately show ?thesis by blast
    qed
  qed
  ultimately show ?thesis unfolding segment_def by blast
qed

end

section \<open>Stamps of a clock\<close>

fun tod_num :: "int \<times> int \<times> int \<Rightarrow> int" where
  "tod_num (H, M, S) = (((H + 1) mod 256) * 256 + M mod 256) * 64 + S mod 64"

lemma stamp_less:
  assumes "clock_ok c" "clock_ok c'" "c_y c < 65536" "c_y c' < 65536"
  shows "echs_instant_lt_p (clock_inst p c t) (clock_inst p c' t') \<longleftrightarrow>
    clock_day c < clock_day c' \<or> clock_day c = clock_day c' \<and> tod_num t < tod_num t'"
proof -
  obtain H M S H' M' S' where t: "t = (H, M, S)" "t' = (H', M', S')" by (metis prod_cases3)
  have v: "valid_ymd (c_y c) (c_m c) (c_d c)" "valid_ymd (c_y c') (c_m c') (c_d c')"
    and y: "0 \<le> c_y c" "0 \<le> c_y c'" using assms by (auto simp: clock_ok_def)
  have md: "c_m c \<in> {0..<256}" "c_d c \<in> {0..<256}" "c_m c' \<in> {0..<256}" "c_d c' \<in> {0..<256}"
    using v get_mdays_range(2) [of "c_m c" "c_y c"] get_mdays_range(2) [of "c_m c'" "c_y c'"]
    by (auto simp: valid_ymd_def)
  have h: "(H mod 256 + 1) mod 256 = (H + 1) mod 256" for H :: int by (simp add: mod_add_left_eq)
  have lex: "(a * 256 + b) * 64 + e < (a' * 256 + b') * 64 + e' \<longleftrightarrow> a < a' \<or> a = a' \<and> (b < b' \<or> b = b' \<and> e < e')"
    if "0 \<le> b" "b < 256" "0 \<le> e" "e < 64" "0 \<le> b'" "b' < 256" "0 \<le> e'" "e' < 64" for a b e a' b' e' :: int
    using that by auto
  have tod: "tod_num (H, M, S) < tod_num (H', M', S') \<longleftrightarrow> (H + 1) mod 256 < (H' + 1) mod 256 \<or>
      (H + 1) mod 256 = (H' + 1) mod 256 \<and> (M mod 256 < M' mod 256 \<or> M mod 256 = M' mod 256 \<and> S mod 64 < S' mod 64)"
    unfolding tod_num.simps by (rule lex) simp_all
  have ymd: "c_y c mod 65536 = c_y c" "c_m c mod 256 = c_m c" "c_d c mod 256 = c_d c"
    "c_y c' mod 65536 = c_y c'" "c_m c' mod 256 = c_m c'" "c_d c' mod 256 = c_d c'"
    using md y assms by simp_all
  have "echs_instant_lt_p (clock_inst p c t) (clock_inst p c' t') \<longleftrightarrow>
      c_y c < c_y c' \<or> c_y c = c_y c' \<and> (c_m c < c_m c' \<or> c_m c = c_m c' \<and> (c_d c < c_d c' \<or> c_d c = c_d c' \<and>
        tod_num t < tod_num t'))"
    unfolding echs_instant_lt_p_def inst_up_def inst_u_def clock_inst_def t prod.case mk_inst_def
      instant.simps ymd h tod
    by (subst inst_u_less) (use md in auto)
  moreover have "clock_day c < clock_day c' \<longleftrightarrow> c_y c < c_y c' \<or> c_y c = c_y c' \<and> (c_m c < c_m c' \<or>
      c_m c = c_m c' \<and> c_d c < c_d c')"
    unfolding clock_day_def by (rule dayno_less_iff [OF v])
  moreover have "clock_day c = clock_day c' \<longleftrightarrow> c_y c = c_y c' \<and> c_m c = c_m c' \<and> c_d c = c_d c'"
    using dayno_inj [OF v] by (auto simp: clock_day_def)
  ultimately show ?thesis by blast
qed

text \<open>The times of day of a rule ascend.\<close>

lemma single_or_sorted:
  assumes "sorted_wrt (<) (xs :: nat list)" "\<forall>n \<in> set xs. n < b \<or> xs = [n]" "b \<le> 64"
  shows "sorted_wrt (<) (map (\<lambda>n. int n mod 256) xs) \<and> (length xs \<le> 1 \<or> (\<forall>n \<in> set xs. n < b))"
proof (cases "length xs \<le> 1")
  case True
  then show ?thesis by (cases xs) auto
next
  case False
  then have "\<forall>n \<in> set xs. n < b" using assms(2) by auto
  moreover from this have "map (\<lambda>n. int n mod 256) xs = map int xs" using assms(3) by auto
  moreover have "sorted_wrt (<) (map int xs)" using assms(1) by (simp add: sorted_wrt_map)
  ultimately show ?thesis by (intro conjI disjI2) (simp_all only:)
qed

lemma bui_rest_small: "n \<in> set (bui_rest 0 bi) \<Longrightarrow> n < LENGTH('a) - 1 \<or> bui_rest 0 bi = [n]" for bi :: "'a::len word"
  by (auto simp: bui_rest_def split: if_splits)

definition spread :: "int \<Rightarrow> int list \<Rightarrow> bool" where
  "spread b xs \<longleftrightarrow> (\<exists>x. xs = [x]) \<or> sorted_wrt (<) xs \<and> (\<forall>x \<in> set xs. 0 \<le> x \<and> x < b)"

lemma dflt_spread:
  assumes "xs = bui_rest 0 (bi :: 'a::len word)" "LENGTH('a) \<le> 64"
  shows "spread 64 (if map (\<lambda>n. int n mod 256) xs = [] then [x] else map (\<lambda>n. int n mod 256) xs)"
proof (cases "xs = []")
  case False
  have "\<forall>n \<in> set xs. n < 63 \<or> xs = [n]" using bui_rest_small [of _ bi] assms by fastforce
  from single_or_sorted [OF _ this] bui_rest_sorted [of bi] assms(1)
  have s: "sorted_wrt (<) (map (\<lambda>n. int n mod 256) xs)" "length xs \<le> 1 \<or> (\<forall>n \<in> set xs. n < 63)" by simp_all
  from s(2) show ?thesis
  proof
    assume "length xs \<le> 1"
    with False have "\<exists>n. xs = [n]" by (cases xs) auto
    then show ?thesis by (auto simp: spread_def)
  next
    assume "\<forall>n \<in> set xs. n < 63"
    with s(1) False show ?thesis by (auto simp: spread_def)
  qed
qed (simp add: spread_def)

lemma make_enum_spread:
  "spread 64 (en_H (make_enum proto rr))" "spread 64 (en_M (make_enum proto rr))" "spread 64 (en_S (make_enum proto rr))"
  unfolding make_enum_def Let_def enum.simps bui31_list_rest bui63_list_rest
  using dflt_spread [OF refl, of "rr_H rr"] dflt_spread [OF refl, of "rr_M rr"] dflt_spread [OF refl, of "rr_S rr"]
  by simp_all

lemma spread_sorted:
  assumes "spread 64 xs" "\<And>x y. 0 \<le> x \<Longrightarrow> x < y \<Longrightarrow> y < 64 \<Longrightarrow> P x y"
  shows "sorted_wrt P xs"
proof (cases "\<exists>x. xs = [x]")
  case False
  with assms(1) have "sorted_wrt (<) xs" "\<forall>x \<in> set xs. 0 \<le> x \<and> x < 64" by (simp_all add: spread_def)
  then show ?thesis by (intro sorted_wrt_mono_rel [of xs "(<)" P] assms(2)) simp_all
qed auto

lemma mod_64_range: "0 \<le> S mod 64 \<and> S mod 64 < 64" "0 \<le> S mod 256 \<and> S mod 256 < 256" for S :: int
  by simp_all

lemma enum_S_sorted: "sorted_wrt (\<lambda>s t. tod_num s < tod_num t) (enum_S (make_enum proto rr) H M)"
  unfolding enum_S_def sorted_wrt_map by (rule spread_sorted [OF make_enum_spread(3)]) simp

lemma enum_MS_sorted: "sorted_wrt (\<lambda>s t. tod_num s < tod_num t) (enum_MS (make_enum proto rr) H)"
proof -
  have "tod_num (H, M, S) < tod_num (H, M', S')" if "0 \<le> M" "M < M'" "M' < 64" for M M' S S'
    using that mod_64_range(1) [of S] mod_64_range(1) [of S'] by simp
  then show ?thesis unfolding enum_MS_def
    using enum_S_sorted by (intro sorted_wrt_concat_map spread_sorted [OF make_enum_spread(2)])
      (auto simp: enum_S_def)
qed

lemma enum_HMS_sorted: "sorted_wrt (\<lambda>s t. tod_num s < tod_num t) (enum_HMS (make_enum proto rr))"
proof -
  have "tod_num (H, M, S) < tod_num (H', M', S')" if "0 \<le> H" "H < H'" "H' < 64" for H H' M M' S S'
    using that mod_64_range(1) [of S] mod_64_range(1) [of S'] mod_64_range(2) [of M] mod_64_range(2) [of M']
    by simp
  then show ?thesis unfolding enum_HMS_def
    using enum_MS_sorted by (intro sorted_wrt_concat_map spread_sorted [OF make_enum_spread(1)])
      (auto simp: enum_MS_def enum_S_def)
qed

section \<open>The clocks in range\<close>

abbreviation last_day :: int where
  "last_day \<equiv> dayno 2099 12 31"

text \<open>\<open>u\<close> reads the clock in units of which a day has \<open>p\<close>; the first \<open>N\<close> ticks end by 2099.\<close>

definition clock_range :: "(clock \<Rightarrow> int) \<Rightarrow> int \<Rightarrow> int \<Rightarrow> clock \<Rightarrow> nat \<Rightarrow> bool" where
  "clock_range u p k c N \<longleftrightarrow> clock_ok c \<and> 1901 \<le> c_y c \<and> 1 \<le> k \<and> k \<le> 28 * p \<and> (\<forall>i < N. u c + int i * k < p * (last_day + 1))"

definition range_ticks :: "int \<Rightarrow> int \<Rightarrow> int \<Rightarrow> nat" where
  "range_ticks u0 p k = nat ((p * (last_day + 1) - 1 - u0) div k + 1)"

lemma less_range_ticks: "1 \<le> k \<Longrightarrow> i < range_ticks u0 p k \<longleftrightarrow> u0 + int i * k < p * (last_day + 1)"
proof -
  assume k: "1 \<le> k"
  let ?m = "p * (last_day + 1) - 1 - u0"
  have "i < range_ticks u0 p k \<longleftrightarrow> int i \<le> ?m div k" unfolding range_ticks_def by linarith
  also have "\<dots> \<longleftrightarrow> int i * k \<le> ?m"
  proof
    assume "int i \<le> ?m div k"
    then have "int i * k \<le> ?m div k * k" using k by (intro mult_right_mono) auto
    then show "int i * k \<le> ?m" using k minus_mod_eq_div_mult [of ?m k] pos_mod_sign [of k ?m] by linarith
  next
    assume "int i * k \<le> ?m"
    from zdiv_mono1 [OF this, of k] k show "int i \<le> ?m div k" by simp
  qed
  finally show ?thesis by linarith
qed

lemma clock_year_le: "clock_ok c \<Longrightarrow> clock_day c \<le> last_day \<longleftrightarrow> c_y c \<le> 2099"
proof -
  assume c: "clock_ok c"
  then have v: "valid_ymd (c_y c) (c_m c) (c_d c)" by (simp add: clock_ok_def)
  have l: "valid_ymd 2099 12 31" by (simp add: valid_ymd_def get_mdays_def mdays_def)
  have "c_d c \<le> 31" "c_m c \<le> 12" using v get_mdays_range(2) [of "c_m c" "c_y c"] by (auto simp: valid_ymd_def)
  then show ?thesis using dayno_less_iff [OF l v] unfolding clock_day_def by linarith
qed

lemma clock_year_mono:
  assumes "clock_ok c" "clock_ok c'" "clock_day c \<le> clock_day c'"
  shows "c_y c \<le> c_y c'"
proof -
  have "valid_ymd (c_y c) (c_m c) (c_d c)" "valid_ymd (c_y c') (c_m c') (c_d c')"
    using assms by (simp_all add: clock_ok_def)
  from dayno_less_iff [OF this(2,1)] assms(3) show ?thesis unfolding clock_day_def by linarith
qed

lemma clock_ticks:
  assumes step: "\<And>c. clock_ok c \<Longrightarrow> c_y c < 4294967295 \<Longrightarrow> clock_ok (adv c) \<and> u (adv c) = u c + k"
    and u: "\<And>c. clock_ok c \<Longrightarrow> u c div p = clock_day c" and "0 < p" and r: "clock_range u p k c N" and "i < N"
  shows "clock_ok ((adv ^^ i) c) \<and> u ((adv ^^ i) c) = u c + int i * k \<and> 1901 \<le> c_y ((adv ^^ i) c) \<and>
    c_y ((adv ^^ i) c) \<le> 2099"
proof -
  have k: "1 \<le> k" and c: "clock_ok c" "1901 \<le> c_y c" using r by (auto simp: clock_range_def)
  have lim: "c_y c' \<le> 2099" if "clock_ok c'" "u c' = u c + int j * k" "j < N" for c' j
  proof -
    have "u c' < p * (last_day + 1)" using r that(2,3) by (auto simp: clock_range_def)
    moreover have "p * (last_day + 1) \<le> p * (u c' div p)" if "last_day + 1 \<le> u c' div p"
      using that \<open>0 < p\<close> by (intro mult_left_mono) simp_all
    ultimately have "u c' div p < last_day + 1"
      using mult_div_mod_eq [of p "u c'"] pos_mod_sign [OF \<open>0 < p\<close>, of "u c'"] by linarith
    then show ?thesis unfolding u [OF that(1)] using clock_year_le [OF that(1)] by linarith
  qed
  from \<open>i < N\<close> show ?thesis
  proof (induction i)
    case 0
    have "c_y c \<le> 2099" using lim [of c 0] c(1) 0 by simp
    with c show ?case by simp
  next
    case (Suc i)
    let ?c = "(adv ^^ i) c" and ?c' = "(adv ^^ Suc i) c"
    have ih: "clock_ok ?c" "u ?c = u c + int i * k" "1901 \<le> c_y ?c" "c_y ?c \<le> 2099" using Suc by simp_all
    then have "clock_ok (adv ?c)" "u (adv ?c) = u ?c + k" using step [OF ih(1)] by linarith+
    then have s: "clock_ok ?c'" "u ?c' = u c + int (Suc i) * k" "u ?c \<le> u ?c'"
      using ih(2) k by (simp_all add: algebra_simps)
    from zdiv_mono1 [OF s(3) \<open>0 < p\<close>] have "clock_day ?c \<le> clock_day ?c'" unfolding u [OF ih(1)] u [OF s(1)] .
    from clock_year_mono [OF ih(1) s(1) this] ih(3) s(1,2) lim [OF s(1,2) Suc.prems] show ?case by linarith
  qed
qed

lemma units:
  assumes "clock_ok c"
  shows "clock_day c div 1 = clock_day c" "hours c div 24 = clock_day c" "mins c div 1440 = clock_day c"
    "clock_secs c div 86400 = clock_day c"
  using assms by (auto simp: hours_def mins_def clock_secs_def clock_ok_def)

section \<open>The expanders as tickers\<close>

definition daily_stamps :: "instant \<Rightarrow> rrulsp \<Rightarrow> clock \<Rightarrow> instant list" where
  "daily_stamps proto rr c = map (clock_inst proto c) (enum_HMS (make_enum proto rr))"

definition hourly_stamps :: "instant \<Rightarrow> rrulsp \<Rightarrow> clock \<Rightarrow> instant list" where
  "hourly_stamps proto rr c = map (clock_inst proto c) (enum_MS (make_enum proto rr) (c_H c))"

definition minutely_stamps :: "instant \<Rightarrow> rrulsp \<Rightarrow> clock \<Rightarrow> instant list" where
  "minutely_stamps proto rr c = map (clock_inst proto c) (enum_S (make_enum proto rr) (c_H c) (c_M c))"

lemma stamps_sorted:
  assumes "clock_ok c" "c_y c \<le> 2099" "sorted_wrt (\<lambda>s t. tod_num s < tod_num t) ts"
  shows "sorted_wrt echs_instant_lt_p (map (clock_inst proto c) ts)"
  using assms stamp_less [OF assms(1,1), of proto] by (simp add: sorted_wrt_map)

lemma daily_ticks:
  assumes r: "clock_range clock_day 1 k c N" "i < N"
  shows "clock_ok ((adv_d SCALE_GREGORIAN k ^^ i) c) \<and> clock_day ((adv_d SCALE_GREGORIAN k ^^ i) c) = clock_day c + int i * k \<and> 1901 \<le> c_y ((adv_d SCALE_GREGORIAN k ^^ i) c) \<and>
    c_y ((adv_d SCALE_GREGORIAN k ^^ i) c) \<le> 2099"
proof (rule clock_ticks [OF _ units(1) _ r])
  have "0 \<le> k" "k \<le> 28" using r(1) by (auto simp: clock_range_def)
  then show "clock_ok c \<Longrightarrow> c_y c < 4294967295 \<Longrightarrow> clock_ok (adv_d SCALE_GREGORIAN k c) \<and> clock_day (adv_d SCALE_GREGORIAN k c) = clock_day c + k" for c
    using adv_d_moved [of c k] by (simp add: day_moved_def)
qed simp_all

lemma hourly_ticks:
  assumes r: "clock_range hours 24 k c N" "i < N"
  shows "clock_ok ((adv_H k ^^ i) c) \<and> hours ((adv_H k ^^ i) c) = hours c + int i * k \<and> 1901 \<le> c_y ((adv_H k ^^ i) c) \<and>
    c_y ((adv_H k ^^ i) c) \<le> 2099"
proof (rule clock_ticks [OF _ units(2) _ r])
  have "0 \<le> k" "k \<le> 672" using r(1) by (auto simp: clock_range_def)
  then show "clock_ok c \<Longrightarrow> c_y c < 4294967295 \<Longrightarrow> clock_ok (adv_H k c) \<and> hours (adv_H k c) = hours c + k" for c
    using adv_H_moved [of c k] by (simp)
qed simp_all

lemma minutely_ticks:
  assumes r: "clock_range mins 1440 k c N" "i < N"
  shows "clock_ok ((adv_M k ^^ i) c) \<and> mins ((adv_M k ^^ i) c) = mins c + int i * k \<and> 1901 \<le> c_y ((adv_M k ^^ i) c) \<and>
    c_y ((adv_M k ^^ i) c) \<le> 2099"
proof (rule clock_ticks [OF _ units(3) _ r])
  have "0 \<le> k" "k \<le> 40320" using r(1) by (auto simp: clock_range_def)
  then show "clock_ok c \<Longrightarrow> c_y c < 4294967295 \<Longrightarrow> clock_ok (adv_M k c) \<and> mins (adv_M k c) = mins c + k" for c
    using adv_M_moved [of c k] by (simp)
qed simp_all

lemma tick_grows: "i < j \<Longrightarrow> 1 \<le> k \<Longrightarrow> u + int i * k < u + int j * k"
  by simp

interpretation daily: ticker "daily_stamps proto rr" "adv_d SCALE_GREGORIAN k" "clock_range clock_day 1 k" for proto rr k
proof
  fix c N i
  assume r: "clock_range clock_day 1 k c N" "i < N"
  then show "sorted_wrt echs_instant_lt_p (daily_stamps proto rr ((adv_d SCALE_GREGORIAN k ^^ i) c))"
    unfolding daily_stamps_def using daily_ticks [OF r] by (intro stamps_sorted enum_HMS_sorted) auto
next
  fix c N i j x y
  let ?t = "\<lambda>i. (adv_d SCALE_GREGORIAN k ^^ i) c"
  assume r: "clock_range clock_day 1 k c N" "i < j" "j < N"
    and x: "x \<in> set (daily_stamps proto rr (?t i))" and y: "y \<in> set (daily_stamps proto rr (?t j))"
  then have i: "i < N" and k: "1 \<le> k" by (auto simp: clock_range_def)
  note t = daily_ticks [OF r(1) i] daily_ticks [OF r(1,3)]
  from x y obtain s s' where "x = clock_inst proto (?t i) s" "y = clock_inst proto (?t j) s'"
    by (auto simp: daily_stamps_def)
  moreover have "clock_day (?t i) < clock_day (?t j)" using t tick_grows [OF r(2) k] by metis
  ultimately show "echs_instant_lt_p x y" using t stamp_less [of "?t i" "?t j" proto s s'] by auto
qed

lemma hours_less:
  assumes "clock_ok c" "clock_ok c'" "hours c < hours c'"
  shows "clock_day c < clock_day c' \<or> clock_day c = clock_day c' \<and> c_H c < c_H c'"
  using assms by (auto simp: clock_ok_def hours_def)

lemma tod_num_hour: "0 \<le> H \<Longrightarrow> H < H' \<Longrightarrow> H' < 24 \<Longrightarrow> tod_num (H, M, S) < tod_num (H', M', S')"
  using mod_64_range(1) [of S] mod_64_range(1) [of S'] mod_64_range(2) [of M] mod_64_range(2) [of M'] by simp

interpretation hourly: ticker "hourly_stamps proto rr" "adv_H k" "clock_range hours 24 k" for proto rr k
proof
  fix c N i
  assume r: "clock_range hours 24 k c N" "i < N"
  then show "sorted_wrt echs_instant_lt_p (hourly_stamps proto rr ((adv_H k ^^ i) c))"
    unfolding hourly_stamps_def using hourly_ticks [OF r] by (intro stamps_sorted enum_MS_sorted) auto
next
  fix c N i j x y
  let ?t = "\<lambda>i. (adv_H k ^^ i) c"
  assume r: "clock_range hours 24 k c N" "i < j" "j < N"
    and x: "x \<in> set (hourly_stamps proto rr (?t i))" and y: "y \<in> set (hourly_stamps proto rr (?t j))"
  then have i: "i < N" and k: "1 \<le> k" by (auto simp: clock_range_def)
  note t = hourly_ticks [OF r(1) i] hourly_ticks [OF r(1,3)]
  from x y obtain M S M' S' where "x = clock_inst proto (?t i) (c_H (?t i), M, S)" "y = clock_inst proto (?t j) (c_H (?t j), M', S')"
    by (auto simp: hourly_stamps_def enum_MS_def enum_S_def)
  moreover have "hours (?t i) < hours (?t j)" using t tick_grows [OF r(2) k] by metis
  then have "clock_day (?t i) < clock_day (?t j) \<or> clock_day (?t i) = clock_day (?t j) \<and> c_H (?t i) < c_H (?t j)"
    using t hours_less by blast
  then have "clock_day (?t i) < clock_day (?t j) \<or> clock_day (?t i) = clock_day (?t j) \<and>
      tod_num (c_H (?t i), M, S) < tod_num (c_H (?t j), M', S')"
    using t tod_num_hour [of "c_H (?t i)" "c_H (?t j)" M S M' S'] by (auto simp: clock_ok_def simp del: tod_num.simps)
  ultimately show "echs_instant_lt_p x y"
    using t stamp_less [of "?t i" "?t j" proto "(c_H (?t i), M, S)" "(c_H (?t j), M', S')"] by (auto simp del: tod_num.simps)
qed

lemma mins_less:
  assumes "clock_ok c" "clock_ok c'" "mins c < mins c'"
  shows "clock_day c < clock_day c' \<or> clock_day c = clock_day c' \<and> (c_H c < c_H c' \<or> c_H c = c_H c' \<and> c_M c < c_M c')"
  using assms by (auto simp: clock_ok_def hours_def mins_def)

lemma tod_num_minute: "0 \<le> M \<Longrightarrow> M < M' \<Longrightarrow> M' < 60 \<Longrightarrow> tod_num (H, M, S) < tod_num (H, M', S')"
  using mod_64_range(1) [of S] mod_64_range(1) [of S'] by simp

interpretation minutely: ticker "minutely_stamps proto rr" "adv_M k" "clock_range mins 1440 k" for proto rr k
proof
  fix c N i
  assume r: "clock_range mins 1440 k c N" "i < N"
  then show "sorted_wrt echs_instant_lt_p (minutely_stamps proto rr ((adv_M k ^^ i) c))"
    unfolding minutely_stamps_def using minutely_ticks [OF r] by (intro stamps_sorted enum_S_sorted) auto
next
  fix c N i j x y
  let ?t = "\<lambda>i. (adv_M k ^^ i) c"
  assume r: "clock_range mins 1440 k c N" "i < j" "j < N"
    and x: "x \<in> set (minutely_stamps proto rr (?t i))" and y: "y \<in> set (minutely_stamps proto rr (?t j))"
  then have i: "i < N" and k: "1 \<le> k" by (auto simp: clock_range_def)
  note t = minutely_ticks [OF r(1) i] minutely_ticks [OF r(1,3)]
  define s s' where "s = (\<lambda>S. (c_H (?t i), c_M (?t i), S :: int))" and "s' = (\<lambda>S. (c_H (?t j), c_M (?t j), S :: int))"
  from x y obtain S S' where xy: "x = clock_inst proto (?t i) (s S)" "y = clock_inst proto (?t j) (s' S')"
    by (auto simp: minutely_stamps_def enum_S_def s_def s'_def)
  have "mins (?t i) < mins (?t j)" using t tick_grows [OF r(2) k] by metis
  then have "clock_day (?t i) < clock_day (?t j) \<or> clock_day (?t i) = clock_day (?t j) \<and> (c_H (?t i) < c_H (?t j) \<or>
      c_H (?t i) = c_H (?t j) \<and> c_M (?t i) < c_M (?t j))"
    using t mins_less by blast
  then have "clock_day (?t i) < clock_day (?t j) \<or> clock_day (?t i) = clock_day (?t j) \<and> tod_num (s S) < tod_num (s' S')"
    using t tod_num_hour [of "c_H (?t i)" "c_H (?t j)" "c_M (?t i)" S "c_M (?t j)" S']
      tod_num_minute [of "c_M (?t i)" "c_M (?t j)" "c_H (?t i)" S S']
    by (auto simp: clock_ok_def s_def s'_def simp del: tod_num.simps)
  then show "echs_instant_lt_p x y"
    unfolding xy using t stamp_less [of "?t i" "?t j" proto "s S" "s' S'"] by auto
qed

section \<open>What a rule describes\<close>

definition date_inst :: "instant \<Rightarrow> int \<Rightarrow> int \<Rightarrow> int \<Rightarrow> int \<times> int \<times> int \<Rightarrow> instant" where
  "date_inst p y m d t = (case t of (H, M, S) \<Rightarrow> mk_inst y m d H M S (i_ms p))"

definition inst_day :: "instant \<Rightarrow> int" where
  "inst_day p = dayno (i_y p) (i_m p) (i_d p)"

definition window :: "rrulsp \<Rightarrow> instant \<Rightarrow> instant \<Rightarrow> bool" where
  "window rr p x \<longleftrightarrow> \<not> echs_instant_lt_p x p \<and> \<not> echs_instant_lt_p (rr_until rr) x"

text \<open>
  DAILY: the existing days up to 2099 that are a multiple of the interval after the first and pass
  the filters, at all times of day of the rule.
\<close>

definition daily_set :: "rrulsp \<Rightarrow> instant \<Rightarrow> instant set" where
  "daily_set rr p = {date_inst p y m d t |y m d t. valid_ymd y m d \<and> y \<le> 2099 \<and>
     (\<exists>i. dayno y m d = inst_day p + int i * rr_inter rr) \<and> day_filter rr y m d \<and>
     t \<in> set (enum_HMS (make_enum p rr)) \<and> window rr p (date_inst p y m d t)}"

lemma clock_inst_date: "clock_inst p c t = date_inst p (c_y c) (c_m c) (c_d c) t"
  by (simp add: clock_inst_def date_inst_def)

definition the_clock :: "int \<Rightarrow> int \<Rightarrow> int \<Rightarrow> int \<Rightarrow> int \<Rightarrow> clock" where
  "the_clock y m d H M =
     \<lparr>c_y = y, c_m = m, c_d = d, c_H = H, c_M = M, c_S = 0, c_w = wday_of (dayno y m d), c_maxd = get_mdays y m,
      c_yd = 0, c_maxy = 0\<rparr>"

definition date_ok :: "int \<Rightarrow> int \<Rightarrow> int \<Rightarrow> int \<Rightarrow> int \<Rightarrow> bool" where
  "date_ok y m d H M \<longleftrightarrow> valid_ymd y m d \<and> 0 \<le> y \<and> y \<le> 2099 \<and> 0 \<le> H \<and> H < 24 \<and> 0 \<le> M \<and> M < 60"

lemma the_clock_ok: "date_ok y m d H M \<Longrightarrow> clock_ok (the_clock y m d H M)"
  by (simp add: date_ok_def clock_ok_def the_clock_def clock_day_def)

lemma the_clock_units [simp]:
  "clock_day (the_clock y m d H M) = dayno y m d" "hours (the_clock y m d H M) = dayno y m d * 24 + H"
  "mins (the_clock y m d H M) = (dayno y m d * 24 + H) * 60 + M"
  "c_y (the_clock y m d H M) = y" "c_m (the_clock y m d H M) = m" "c_d (the_clock y m d H M) = d"
  "c_H (the_clock y m d H M) = H" "c_M (the_clock y m d H M) = M"
  by (simp_all add: the_clock_def clock_day_def hours_def mins_def)

text \<open>The ticks of a clock are the dates a multiple of the interval after the first.\<close>

lemma ticks_dates:
  assumes t: "\<And>i. i < N \<Longrightarrow> clock_ok (t i) \<and> u (t i) = u c + int i * k \<and> 1901 \<le> c_y (t i) \<and> c_y (t i) \<le> 2099"
    and N: "N = range_ticks (u c) p k" and k: "1 \<le> k" and "0 < p"
    and u: "\<And>c. clock_ok c \<Longrightarrow> u c div p = clock_day c"
    and v: "\<And>c. u c = u (the_clock (c_y c) (c_m c) (c_d c) (c_H c) (c_M c))"
    and same: "\<And>c c'. clock_ok c \<Longrightarrow> clock_ok c' \<Longrightarrow> u c = u c' \<Longrightarrow> P c \<longleftrightarrow> P c'"
  shows "(\<exists>i < N. P (t i)) \<longleftrightarrow> (\<exists>y m d H M. date_ok y m d H M \<and>
    (\<exists>i. u (the_clock y m d H M) = u c + int i * k) \<and> P (the_clock y m d H M))"
proof
  assume "\<exists>i < N. P (t i)"
  then obtain i where i: "i < N" "P (t i)" by blast
  let ?c = "the_clock (c_y (t i)) (c_m (t i)) (c_d (t i)) (c_H (t i)) (c_M (t i))"
  have d: "date_ok (c_y (t i)) (c_m (t i)) (c_d (t i)) (c_H (t i)) (c_M (t i))"
    using t [OF i(1)] by (auto simp: date_ok_def clock_ok_def)
  moreover have "P ?c" using same [OF _ the_clock_ok [OF d] v] t [OF i(1)] i(2) by blast
  moreover have "u ?c = u c + int i * k" using t [OF i(1)] v [of "t i"] by simp
  ultimately show "\<exists>y m d H M. date_ok y m d H M \<and> (\<exists>i. u (the_clock y m d H M) = u c + int i * k) \<and>
    P (the_clock y m d H M)" by blast
next
  assume "\<exists>y m d H M. date_ok y m d H M \<and> (\<exists>i. u (the_clock y m d H M) = u c + int i * k) \<and> P (the_clock y m d H M)"
  then obtain y m d H M i where x: "date_ok y m d H M" "u (the_clock y m d H M) = u c + int i * k" "P (the_clock y m d H M)"
    by blast
  let ?c = "the_clock y m d H M"
  note ok = the_clock_ok [OF x(1)]
  have "clock_day ?c \<le> last_day" using clock_year_le [OF ok] x(1) by (simp add: date_ok_def)
  then have "p * (u ?c div p) \<le> p * last_day" unfolding u [OF ok] using \<open>0 < p\<close> by (intro mult_left_mono) simp_all
  then have "u ?c < p * (last_day + 1)"
    using mult_div_mod_eq [of p "u ?c"] pos_mod_bound [OF \<open>0 < p\<close>, of "u ?c"] unfolding distrib_left mult_1_right by linarith
  then have i: "i < N" unfolding N less_range_ticks [OF k] x(2) .
  have "P (t i)" using same [OF _ ok, of "t i"] t [OF i] x(2,3) by auto
  with i show "\<exists>i < N. P (t i)" by blast
qed

lemma same_day:
  assumes "clock_ok c" "clock_ok c'" "clock_day c = clock_day c'"
  shows "c_y c = c_y c'" "c_m c = c_m c'" "c_d c = c_d c'"
  using assms dayno_inj [of "c_y c" "c_m c" "c_d c" "c_y c'" "c_m c'" "c_d c'"] by (auto simp: clock_ok_def clock_day_def)

lemma day_ok_same:
  assumes "clock_ok c" "clock_ok c'" "clock_day c = clock_day c'"
  shows "day_ok rr c \<longleftrightarrow> day_ok rr c'"
proof -
  note e = same_day [OF assms]
  have "c_w c = c_w c'" using assms by (simp add: clock_ok_def)
  moreover have "c_maxd c = c_maxd c'" using assms(1,2) e by (simp add: clock_ok_def)
  ultimately show ?thesis unfolding day_ok_def e by simp
qed

lemma day_ok_filter:
  "filter_range rr \<Longrightarrow> date_ok y m d H M \<Longrightarrow> 1901 \<le> y \<Longrightarrow> day_ok rr (the_clock y m d H M) \<longleftrightarrow> day_filter rr y m d"
  using the_clock_ok [of y m d H M] clock_wday [of "the_clock y m d H M"] unfolding day_filter_def
  by (subst day_masks) (auto simp: date_ok_def)

lemma later_year:
  assumes "valid_ymd y m d" "valid_ymd (i_y p) (i_m p) (i_d p)" "dayno (i_y p) (i_m p) (i_d p) \<le> dayno y m d"
  shows "i_y p \<le> y"
  using dayno_less_iff [OF assms(1,2)] assms(3) by linarith

text \<open>A first instant the Gregorian expanders leave as it is.\<close>

definition plain_start :: "instant \<Rightarrow> bool" where
  "plain_start p \<longleftrightarrow> valid_ymd (i_y p) (i_m p) (i_d p) \<and> 1901 \<le> i_y p \<and> i_y p \<le> 2099 \<and> inst_bits p"

lemma plain_start_facts:
  assumes "plain_start p"
  shows "\<not> bad_md p" "rr_scale rr = SCALE_GREGORIAN \<Longrightarrow> the_proto p rr = p"
    "0 \<le> H \<Longrightarrow> H < 24 \<Longrightarrow> 0 \<le> M \<Longrightarrow> M < 60 \<Longrightarrow> clock_ok (mk_clock get_mdays (wday_greg (i_y p) (i_m p) (i_d p)) p H M 0)"
proof -
  have v: "1 \<le> i_m p" "i_m p \<le> 12" "1 \<le> i_d p" "i_d p \<le> get_mdays (i_y p) (i_m p)" "1901 \<le> i_y p" "i_y p \<le> 2099" "inst_bits p"
    using assms by (auto simp: plain_start_def valid_ymd_def)
  then have d: "i_d p \<le> 31" using get_mdays_range(2) [OF v(1,2), of "i_y p"] by simp
  then show "\<not> bad_md p" using v by (auto simp: bad_md_def)
  have "echs_instant_scale p = SCALE_GREGORIAN" using inst_bits_scale [OF v(7)] v(5,6) by simp
  then show "the_proto p rr = p" if "rr_scale rr = SCALE_GREGORIAN"
    using v d that by (simp add: the_proto_def echs_instant_rescale_def echs_instant_detach_scale_def
        echs_instant_detach_tzob_def echs_instant_attach_tzob_def echs_instant_attach_scale_def echs_instant_tzob_def
        scale_mux_def Let_def)
  show "clock_ok (mk_clock get_mdays (wday_greg (i_y p) (i_m p) (i_d p)) p H M 0)"
    if "0 \<le> H" "H < 24" "0 \<le> M" "M < 60"
    using that v d wday_greg_dayno [of "i_y p" "i_m p" "i_d p"]
    by (simp add: clock_ok_def mk_clock_def valid_ymd_def clock_day_def)
qed

lemma valid_start: "plain_start p \<Longrightarrow> valid_ymd (i_y p) (i_m p) (i_d p) \<and> 1901 \<le> i_y p"
  by (simp add: plain_start_def)

lemma described_daily:
  assumes "filter_range rr" "plain_start p" and r: "clock_range clock_day 1 (rr_inter rr) c N"
    and N: "N = range_ticks (clock_day c) 1 (rr_inter rr)" and c: "clock_day c = inst_day p"
  shows "ticker.described (daily_stamps p rr) (adv_d SCALE_GREGORIAN (rr_inter rr)) (day_ok rr) p (rr_until rr) c N =
    daily_set rr p"
proof (rule set_eqI)
  fix x
  let ?k = "rr_inter rr"
  let ?P = "\<lambda>c. day_ok rr c \<and> x \<in> set (daily_stamps p rr c) \<and> window rr p x"
  have k: "1 \<le> ?k" using r by (simp add: clock_range_def)
  have same: "?P c \<longleftrightarrow> ?P c'" if "clock_ok c" "clock_ok c'" "clock_day c = clock_day c'" for c c'
    using day_ok_same [OF that] same_day [OF that] by (simp add: daily_stamps_def clock_inst_date [abs_def])
  have "x \<in> ticker.described (daily_stamps p rr) (adv_d SCALE_GREGORIAN ?k) (day_ok rr) p (rr_until rr) c N \<longleftrightarrow>
      (\<exists>y m d H M. date_ok y m d H M \<and> (\<exists>i. clock_day (the_clock y m d H M) = clock_day c + int i * ?k) \<and>
        ?P (the_clock y m d H M))"
    unfolding daily.described_def mem_Collect_eq window_def [symmetric]
    by (rule ticks_dates [where P = ?P and u = clock_day and p = 1, OF daily_ticks [OF r] N k _ units(1) _ same])
      (simp_all add: clock_day_def)
  also have "\<dots> \<longleftrightarrow> x \<in> daily_set rr p"
  proof
    assume "\<exists>y m d H M. date_ok y m d H M \<and> (\<exists>i. clock_day (the_clock y m d H M) = clock_day c + int i * ?k) \<and>
        ?P (the_clock y m d H M)"
    then obtain y m d H M i where x: "date_ok y m d H M" "dayno y m d = inst_day p + int i * ?k" "day_ok rr (the_clock y m d H M)"
      "x \<in> set (daily_stamps p rr (the_clock y m d H M))" "window rr p x" unfolding c by auto
    have v: "valid_ymd y m d" "y \<le> 2099" using x(1) by (auto simp: date_ok_def)
    have "i_y p \<le> y" using later_year [OF v(1), of p] valid_start [OF assms(2)] x(2) k by (simp add: inst_day_def)
    then have "day_filter rr y m d" using day_ok_filter [OF assms(1) x(1)] x(3) valid_start [OF assms(2)] by simp
    moreover obtain t where "t \<in> set (enum_HMS (make_enum p rr))" "x = date_inst p y m d t"
      using x(4) unfolding daily_stamps_def clock_inst_date [abs_def] the_clock_units by fastforce
    ultimately show "x \<in> daily_set rr p" unfolding daily_set_def using v x(2,5) by blast
  next
    assume "x \<in> daily_set rr p"
    then obtain y m d t i where x: "x = date_inst p y m d t" "valid_ymd y m d" "y \<le> 2099" "dayno y m d = inst_day p + int i * ?k"
      "day_filter rr y m d" "t \<in> set (enum_HMS (make_enum p rr))" "window rr p x" unfolding daily_set_def by blast
    have y: "i_y p \<le> y" using later_year [OF x(2), of p] valid_start [OF assms(2)] x(4) k by (simp add: inst_day_def)
    then have d: "date_ok y m d 0 0" using x(2,3) valid_start [OF assms(2)] by (simp add: date_ok_def)
    have "?P (the_clock y m d 0 0)"
      using day_ok_filter [OF assms(1) d] valid_start [OF assms(2)] y x by (simp add: daily_stamps_def clock_inst_date)
    with d x(4) show "\<exists>y m d H M. date_ok y m d H M \<and> (\<exists>i. clock_day (the_clock y m d H M) = clock_day c + int i * ?k) \<and>
        ?P (the_clock y m d H M)" unfolding c by (intro exI [of _ y] exI [of _ m] exI [of _ d] exI [of _ 0]) auto
  qed
  finally show "x \<in> ticker.described (daily_stamps p rr) (adv_d SCALE_GREGORIAN ?k) (day_ok rr) p (rr_until rr) c N \<longleftrightarrow>
      x \<in> daily_set rr p" .
qed

lemma segment_attach:
  assumes "segment n W r" "\<And>x. x \<in> W \<Longrightarrow> i_y x < 4096 \<and> 0 \<le> i_y x"
  shows "map (\<lambda>x. echs_instant_attach_scale x SCALE_GREGORIAN) r = r"
proof (rule map_idI)
  fix x assume "x \<in> set r"
  then have "x \<in> W" using assms(1) by (auto simp: segment_def)
  from assms(2) [OF this] show "echs_instant_attach_scale x SCALE_GREGORIAN = x"
    by (simp add: echs_instant_attach_scale_def echs_instant_detach_scale_def scale_mux_def Let_def)
qed

lemma daily_set_year: "plain_start p \<Longrightarrow> 1 \<le> rr_inter rr \<Longrightarrow> x \<in> daily_set rr p \<Longrightarrow> 0 \<le> i_y x \<and> i_y x < 4096"
proof -
  assume p: "plain_start p" and k: "1 \<le> rr_inter rr" and "x \<in> daily_set rr p"
  then obtain y m d t i where x: "x = date_inst p y m d t" "valid_ymd y m d" "y \<le> 2099"
    "dayno y m d = inst_day p + int i * rr_inter rr" unfolding daily_set_def by blast
  have "valid_ymd (i_y p) (i_m p) (i_d p)" using p by (simp add: plain_start_def)
  moreover have "0 \<le> int i * rr_inter rr" using k by simp
  ultimately have "i_y p \<le> y" using later_year [OF x(2), of p] x(4) by (simp add: inst_day_def)
  with p x(1,3) show ?thesis by (cases t) (simp add: plain_start_def date_inst_def mk_inst_def)
qed



text \<open>HOURLY and MINUTELY filter hours and minutes too.\<close>

definition hour_filter :: "rrulsp \<Rightarrow> int \<Rightarrow> bool" where
  "hour_filter rr H \<longleftrightarrow> bui31_list (rr_H rr) = [] \<or> nat H \<in> set (bui31_list (rr_H rr))"

definition minute_filter :: "rrulsp \<Rightarrow> int \<Rightarrow> bool" where
  "minute_filter rr M \<longleftrightarrow> bui63_list (rr_M rr) = [] \<or> nat M \<in> set (bui63_list (rr_M rr))"

definition time_range :: "rrulsp \<Rightarrow> bool" where
  "time_range rr \<longleftrightarrow> (\<forall>H \<in> set (bui31_list (rr_H rr)). H < 24) \<and> (\<forall>M \<in> set (bui63_list (rr_M rr)). M < 60)"

lemma H_mask_bit:
  assumes "time_range rr" "0 \<le> H" "H < 24"
  shows "bit (H_mask (rr_H rr)) (nat H) \<longleftrightarrow> hour_filter rr H"
proof -
  let ?k = "foldl (\<lambda>k tmp. k OR ucast (push_bit tmp 1 :: 32 word)) 0 (bui31_list (rr_H rr)) :: 64 word"
  have b: "bit ?k i \<longleftrightarrow> i \<in> set (bui31_list (rr_H rr))" for i
    using foldl_or_bit [of "\<lambda>_. True" "\<lambda>x. ucast (push_bit x 1 :: 32 word) :: 64 word" 0 "bui31_list (rr_H rr)" i] assms(1)
    unfolding if_True by (force simp: bit_simps time_range_def)
  have "?k \<noteq> 0 \<longleftrightarrow> bui31_list (rr_H rr) \<noteq> []" unfolding nonzero_bit b by (cases "bui31_list (rr_H rr)") auto
  moreover have "bit (NOT 0 :: 64 word) (nat H)" using assms(2,3) by (simp add: bit_not_iff)
  ultimately show ?thesis using b unfolding H_mask_def Let_def hour_filter_def by auto
qed

lemma M_mask_bit:
  assumes "time_range rr" "0 \<le> M" "M < 60"
  shows "bit (MS_mask (rr_M rr)) (nat M) \<longleftrightarrow> minute_filter rr M"
proof -
  let ?k = "foldl (\<lambda>k tmp. k OR push_bit tmp 1) 0 (bui63_list (rr_M rr)) :: 64 word"
  have b: "bit ?k i \<longleftrightarrow> i \<in> set (bui63_list (rr_M rr))" for i
    using foldl_or_bit [of "\<lambda>_. True" "\<lambda>x. push_bit x 1 :: 64 word" 0 "bui63_list (rr_M rr)" i] assms(1)
    unfolding if_True bit_one_shift by (force simp: time_range_def)
  have "?k \<noteq> 0 \<longleftrightarrow> bui63_list (rr_M rr) \<noteq> []" unfolding nonzero_bit b by (cases "bui63_list (rr_M rr)") auto
  moreover have "bit (NOT 0 :: 64 word) (nat M)" using assms(2,3) by (simp add: bit_not_iff)
  ultimately show ?thesis using b unfolding MS_mask_def Let_def minute_filter_def by auto
qed

definition start_H :: "instant \<Rightarrow> int" where
  "start_H p = (if i_H p = ECHS_ALL_DAY then 0 else i_H p)"

definition start_M :: "instant \<Rightarrow> int" where
  "start_M p = (if i_H p = ECHS_ALL_DAY then 0 else i_M p)"

definition hourly_set :: "rrulsp \<Rightarrow> instant \<Rightarrow> instant set" where
  "hourly_set rr p = {date_inst p y m d (H, M, S) |y m d H M S. valid_ymd y m d \<and> y \<le> 2099 \<and> 0 \<le> H \<and> H < 24 \<and>
     (\<exists>i. dayno y m d * 24 + H = inst_day p * 24 + start_H p + int i * rr_inter rr) \<and> day_filter rr y m d \<and>
     hour_filter rr H \<and> (H, M, S) \<in> set (enum_MS (make_enum p rr) H) \<and> window rr p (date_inst p y m d (H, M, S))}"

definition minutely_set :: "rrulsp \<Rightarrow> instant \<Rightarrow> instant set" where
  "minutely_set rr p = {date_inst p y m d (H, M, S) |y m d H M S. date_ok y m d H M \<and>
     (\<exists>i. (dayno y m d * 24 + H) * 60 + M = (inst_day p * 24 + start_H p) * 60 + start_M p + int i * rr_inter rr) \<and>
     day_filter rr y m d \<and> hour_filter rr H \<and> minute_filter rr M \<and> S \<in> set (en_S (make_enum p rr)) \<and>
     window rr p (date_inst p y m d (H, M, S))}"

lemma digit_inj:
  fixes a b x :: int
  assumes "0 \<le> x" "x < b" "0 \<le> x'" "x' < b" "a * b + x = a' * b + x'"
  shows "a = a' \<and> x = x'"
proof -
  have "(a * b + x) div b = a" "(a' * b + x') div b = a'" using assms(1-4) by simp_all
  then have "a = a'" using assms(5) by metis
  with assms(5) show ?thesis by simp
qed

lemma same_hour:
  assumes "clock_ok c" "clock_ok c'" "hours c = hours c'"
  shows "clock_day c = clock_day c'" "c_H c = c_H c'"
proof -
  have "0 \<le> c_H c" "c_H c < 24" "0 \<le> c_H c'" "c_H c' < 24" using assms(1,2) by (auto simp: clock_ok_def)
  from digit_inj [OF this assms(3) [unfolded hours_def]] show "clock_day c = clock_day c'" "c_H c = c_H c'" by simp_all
qed

lemma same_minute:
  assumes "clock_ok c" "clock_ok c'" "mins c = mins c'"
  shows "hours c = hours c'" "c_M c = c_M c'"
proof -
  have "0 \<le> c_M c" "c_M c < 60" "0 \<le> c_M c'" "c_M c' < 60" using assms(1,2) by (auto simp: clock_ok_def)
  from digit_inj [OF this assms(3) [unfolded mins_def]] show "hours c = hours c'" "c_M c = c_M c'" by simp_all
qed

lemma yd_ok_none: "\<not> bi383_has_bits_p (rr_doy rr) \<Longrightarrow> yd_ok rr c"
  by (simp add: yd_ok_def)

lemma Hly_keep_same:
  assumes "clock_ok c" "clock_ok c'" "hours c = hours c'" "\<not> bi383_has_bits_p (rr_doy rr)"
  shows "Hly_keep rr c \<longleftrightarrow> Hly_keep rr c'"
  using day_ok_same [OF assms(1,2) same_hour(1) [OF assms(1-3)]] same_hour(2) [OF assms(1-3)] assms(4)
  by (simp add: Hly_keep_def yd_ok_none)

lemma Mly_keep_same:
  assumes "clock_ok c" "clock_ok c'" "mins c = mins c'"
  shows "Mly_keep rr c \<longleftrightarrow> Mly_keep rr c'"
proof -
  note h = same_minute [OF assms]
  show ?thesis
    using day_ok_same [OF assms(1,2) same_hour(1) [OF assms(1,2) h(1)]] same_hour(2) [OF assms(1,2) h(1)] h(2)
    by (simp add: Mly_keep_def)
qed

lemma described_hourly:
  assumes "filter_range rr" "time_range rr" "\<not> bi383_has_bits_p (rr_doy rr)" "plain_start p"
    and r: "clock_range hours 24 (rr_inter rr) c N" and N: "N = range_ticks (hours c) 24 (rr_inter rr)"
    and c: "hours c = inst_day p * 24 + start_H p" and H0: "0 \<le> start_H p"
  shows "ticker.described (hourly_stamps p rr) (adv_H (rr_inter rr)) (Hly_keep rr) p (rr_until rr) c N = hourly_set rr p"
proof (rule set_eqI)
  fix x
  let ?k = "rr_inter rr"
  let ?P = "\<lambda>c. Hly_keep rr c \<and> x \<in> set (hourly_stamps p rr c) \<and> window rr p x"
  have k: "1 \<le> ?k" using r by (simp add: clock_range_def)
  have same: "?P c \<longleftrightarrow> ?P c'" if "clock_ok c" "clock_ok c'" "hours c = hours c'" for c c'
    using Hly_keep_same [OF that assms(3)] same_hour [OF that] same_day [OF that(1,2) same_hour(1) [OF that]]
    by (simp add: hourly_stamps_def clock_inst_date [abs_def])
  have keep: "Hly_keep rr (the_clock y m d H M) \<longleftrightarrow> day_filter rr y m d \<and> hour_filter rr H"
    if "date_ok y m d H M" "dayno y m d * 24 + H = hours c + int i * ?k" for y m d H M i
  proof -
    have "0 \<le> int i * ?k" using k by simp
    then have "inst_day p \<le> dayno y m d" using that c H0 by (simp add: date_ok_def)
    then have "i_y p \<le> y" using later_year [of y m d p] valid_start [OF assms(4)] that(1) by (simp add: inst_day_def date_ok_def)
    then have "day_ok rr (the_clock y m d H M) = day_filter rr y m d"
      using day_ok_filter [OF assms(1) that(1)] valid_start [OF assms(4)] by simp
    then show ?thesis using H_mask_bit [OF assms(2)] that(1) assms(3) by (simp add: Hly_keep_def yd_ok_none date_ok_def)
  qed
  have st: "x \<in> set (hourly_stamps p rr (the_clock y m d H M)) \<longleftrightarrow>
      (\<exists>M S. (H, M, S) \<in> set (enum_MS (make_enum p rr) H) \<and> x = date_inst p y m d (H, M, S))" for y m d H M
    unfolding hourly_stamps_def clock_inst_date [abs_def] the_clock_units by (auto simp: enum_MS_def enum_S_def)
  have "x \<in> ticker.described (hourly_stamps p rr) (adv_H ?k) (Hly_keep rr) p (rr_until rr) c N \<longleftrightarrow>
      (\<exists>y m d H M. date_ok y m d H M \<and> (\<exists>i. hours (the_clock y m d H M) = hours c + int i * ?k) \<and> ?P (the_clock y m d H M))"
    unfolding hourly.described_def mem_Collect_eq window_def [symmetric]
    by (rule ticks_dates [where P = ?P and u = hours and p = 24, OF hourly_ticks [OF r] N k _ units(2) _ same])
      (simp_all add: hours_def clock_day_def)
  also have "\<dots> \<longleftrightarrow> x \<in> hourly_set rr p"
  proof
    assume "\<exists>y m d H M. date_ok y m d H M \<and> (\<exists>i. hours (the_clock y m d H M) = hours c + int i * ?k) \<and> ?P (the_clock y m d H M)"
    then obtain y m d H M i where x: "date_ok y m d H M" "dayno y m d * 24 + H = hours c + int i * ?k"
      "Hly_keep rr (the_clock y m d H M)" "x \<in> set (hourly_stamps p rr (the_clock y m d H M))" "window rr p x" by auto
    from x(4) obtain M' S where "(H, M', S) \<in> set (enum_MS (make_enum p rr) H)" "x = date_inst p y m d (H, M', S)" unfolding st by blast
    with x(1,2,5) x(3) [unfolded keep [OF x(1,2)]] show "x \<in> hourly_set rr p"
      unfolding hourly_set_def c date_ok_def by blast
  next
    assume "x \<in> hourly_set rr p"
    then obtain y m d H M S i where x: "x = date_inst p y m d (H, M, S)" "valid_ymd y m d" "y \<le> 2099" "0 \<le> H" "H < 24"
      "dayno y m d * 24 + H = hours c + int i * ?k" "day_filter rr y m d" "hour_filter rr H"
      "(H, M, S) \<in> set (enum_MS (make_enum p rr) H)" "window rr p x" unfolding hourly_set_def c by blast
    have "0 \<le> int i * ?k" using k by simp
    then have "inst_day p \<le> dayno y m d" using x(4-6) c H0 by simp
    then have "0 \<le> y" using later_year [OF x(2), of p] valid_start [OF assms(4)] by (simp add: inst_day_def)
    then have d: "date_ok y m d H 0" using x(2-5) by (simp add: date_ok_def)
    have "?P (the_clock y m d H 0)" unfolding st keep [OF d x(6)] using x by blast
    moreover have "hours (the_clock y m d H 0) = hours c + int i * ?k" using x(6) by simp
    ultimately show "\<exists>y m d H M. date_ok y m d H M \<and> (\<exists>i. hours (the_clock y m d H M) = hours c + int i * ?k) \<and>
        ?P (the_clock y m d H M)" using d by blast
  qed
  finally show "x \<in> ticker.described (hourly_stamps p rr) (adv_H ?k) (Hly_keep rr) p (rr_until rr) c N \<longleftrightarrow>
      x \<in> hourly_set rr p" .
qed

lemma described_minutely:
  assumes "filter_range rr" "time_range rr" "plain_start p"
    and r: "clock_range mins 1440 (rr_inter rr) c N" and N: "N = range_ticks (mins c) 1440 (rr_inter rr)"
    and c: "mins c = (inst_day p * 24 + start_H p) * 60 + start_M p" and H0: "0 \<le> start_H p" "0 \<le> start_M p"
  shows "ticker.described (minutely_stamps p rr) (adv_M (rr_inter rr)) (Mly_keep rr) p (rr_until rr) c N = minutely_set rr p"
proof (rule set_eqI)
  fix x
  let ?k = "rr_inter rr"
  let ?P = "\<lambda>c. Mly_keep rr c \<and> x \<in> set (minutely_stamps p rr c) \<and> window rr p x"
  have k: "1 \<le> ?k" using r by (simp add: clock_range_def)
  have same: "?P c \<longleftrightarrow> ?P c'" if "clock_ok c" "clock_ok c'" "mins c = mins c'" for c c'
  proof -
    note h = same_minute [OF that]
    show ?thesis
      using Mly_keep_same [OF that] h same_hour [OF that(1,2) h(1)] same_day [OF that(1,2) same_hour(1) [OF that(1,2) h(1)]]
      by (simp add: minutely_stamps_def clock_inst_date [abs_def])
  qed
  have keep: "Mly_keep rr (the_clock y m d H M) \<longleftrightarrow> day_filter rr y m d \<and> hour_filter rr H \<and> minute_filter rr M"
    if "date_ok y m d H M" "(dayno y m d * 24 + H) * 60 + M = mins c + int i * ?k" for y m d H M i
  proof -
    have "0 \<le> int i * ?k" using k by simp
    then have "inst_day p \<le> dayno y m d" using that c H0 by (simp add: date_ok_def)
    then have "i_y p \<le> y" using later_year [of y m d p] valid_start [OF assms(3)] that(1) by (simp add: inst_day_def date_ok_def)
    then have "day_ok rr (the_clock y m d H M) = day_filter rr y m d"
      using day_ok_filter [OF assms(1) that(1)] valid_start [OF assms(3)] by simp
    then show ?thesis
      using H_mask_bit [OF assms(2)] M_mask_bit [OF assms(2)] that(1) by (simp add: Mly_keep_def date_ok_def)
  qed
  have st: "x \<in> set (minutely_stamps p rr (the_clock y m d H M)) \<longleftrightarrow>
      (\<exists>S \<in> set (en_S (make_enum p rr)). x = date_inst p y m d (H, M, S))" for y m d H M
    unfolding minutely_stamps_def clock_inst_date [abs_def] the_clock_units by (auto simp: enum_S_def)
  have "x \<in> ticker.described (minutely_stamps p rr) (adv_M ?k) (Mly_keep rr) p (rr_until rr) c N \<longleftrightarrow>
      (\<exists>y m d H M. date_ok y m d H M \<and> (\<exists>i. mins (the_clock y m d H M) = mins c + int i * ?k) \<and> ?P (the_clock y m d H M))"
    unfolding minutely.described_def mem_Collect_eq window_def [symmetric]
    by (rule ticks_dates [where P = ?P and u = mins and p = 1440, OF minutely_ticks [OF r] N k _ units(3) _ same])
      (simp_all add: mins_def hours_def clock_day_def)
  also have "\<dots> \<longleftrightarrow> (\<exists>y m d H M. date_ok y m d H M \<and> (\<exists>i. (dayno y m d * 24 + H) * 60 + M = mins c + int i * ?k) \<and>
      (day_filter rr y m d \<and> hour_filter rr H \<and> minute_filter rr M) \<and>
      (\<exists>S \<in> set (en_S (make_enum p rr)). x = date_inst p y m d (H, M, S)) \<and> window rr p x)"
    unfolding st the_clock_units using keep by blast
  also have "\<dots> \<longleftrightarrow> x \<in> minutely_set rr p" unfolding minutely_set_def c by blast
  finally show "x \<in> ticker.described (minutely_stamps p rr) (adv_M ?k) (Mly_keep rr) p (rr_until rr) c N \<longleftrightarrow>
      x \<in> minutely_set rr p" .
qed

end
