(* ===== verification/RruleSub.thy ===== *)
theory RruleSub
  imports RruleSegment
begin

text \<open>
  The subtractive expanders of \<^verbatim>\<open>src/src/evrrul.c\<close> as a whole: what the hourly and minutely
  ones return, and when a call comes back.
\<close>

section \<open>Hourly and minutely\<close>

lemma refused_empty: "sub_refused p nti rr \<Longrightarrow> rr_scale rr = SCALE_GREGORIAN \<Longrightarrow> plain_start p \<Longrightarrow> clip_nti rr nti = 0"
  using plain_start_facts(1) [of p] by (auto simp: sub_refused_def clip_nti_def plain_start_def split: if_splits)



definition office_hours :: rrulsp where
  "office_hours = nul_rule\<lparr>rr_inter := 90, rr_H := foldl ass_bui31 0 [9, 10, 11]\<rparr>"

definition nov_start :: instant where
  "nov_start = mk_inst 2024 11 30 9 15 0 0"

lemma nov_start_plain: "plain_start nov_start"
  by (simp add: nov_start_def plain_start_def mk_inst_def inst_bits_def valid_ymd_def get_mdays_def mdays_def)



section \<open>Calls that do not come back\<close>

definition clock_valid :: "clock \<Rightarrow> bool" where
  "clock_valid c \<longleftrightarrow> valid_ymd (c_y c) (c_m c) (c_d c) \<and> c_maxd c = get_mdays (c_y c) (c_m c)"

lemma day_wrap_valid:
  "1 \<le> c_m c \<Longrightarrow> c_m c \<le> 12 \<Longrightarrow> 1 \<le> c_d c \<Longrightarrow> c_maxd c = get_mdays (c_y c) (c_m c) \<Longrightarrow> clock_valid (day_wrap get_mdays c)"
proof (induction get_mdays c rule: day_wrap.induct)
  case (1 c)
  show ?case
  proof (cases "0 < c_maxd c \<and> c_maxd c < c_d c")
    case True
    let ?n = "next_mon get_mdays c"
    have "1 \<le> c_m ?n" "c_m ?n \<le> 12" "c_maxd ?n = get_mdays (c_y ?n) (c_m ?n)"
      using 1(2,3) by (auto simp: next_mon_def Let_def)
    moreover have "1 \<le> c_d ?n" unfolding next_mon_d using True by simp
    ultimately have "clock_valid (day_wrap get_mdays ?n)" by (intro 1(1) [OF True])
    with True show ?thesis by (subst day_wrap.simps) simp
  next
    case False
    moreover have "0 < c_maxd c" using get_mdays_range(1) [OF 1(2,3), of "c_y c"] 1(5) by simp
    ultimately have "day_wrap get_mdays c = c" "c_d c \<le> c_maxd c" by (simp_all add: day_wrap_stop)
    with 1(2-5) show ?thesis by (simp add: clock_valid_def valid_ymd_def)
  qed
qed

lemma clock_valid_step:
  assumes "clock_valid c" "0 \<le> k" "k < 4294967264" "c_m c' = c_m c" "c_y c' = c_y c" "c_maxd c' = c_maxd c"
    "c_d c' = u32 (c_d c + k)"
  shows "clock_valid (day_wrap get_mdays c')"
proof -
  have v: "1 \<le> c_m c" "c_m c \<le> 12" "1 \<le> c_d c" "c_d c \<le> 31"
    using assms(1) get_mdays_range(2) [of "c_m c" "c_y c"] by (auto simp: clock_valid_def valid_ymd_def)
  then have "u32 (c_d c + k) = c_d c + k" using assms(2,3) by (intro u32_id) auto
  then show ?thesis using v assms by (intro day_wrap_valid) (auto simp: clock_valid_def)
qed

lemma clock_valid_adv:
  assumes "clock_valid c" "0 \<le> k" "k < 4294967264"
  shows "clock_valid (adv_d SCALE_GREGORIAN k c)" "clock_valid (adv_H k c)" "clock_valid (adv_M k c)"
proof -
  have hour: "clock_valid (adv_H j c)" if "clock_valid c" for j c
  proof -
    have "u32 (c_H c + j) div 24 \<le> 4294967295 div 24"
      using u32_range(2) [of "c_H c + j"] by (intro zdiv_mono1) linarith+
    then have "u32 (c_H c + j) div 24 < 4294967264" by simp
    moreover have "0 \<le> u32 (c_H c + j) div 24" by (simp add: pos_imp_zdiv_nonneg_iff)
    ultimately have "clock_valid (add_days get_ndom (u32 (c_H c + j) div 24) (c\<lparr>c_H := H\<rparr>))" for H
      using that unfolding add_days_def Let_def ndom_mdays by (intro clock_valid_step [of c]) simp_all
    moreover have "clock_valid (c\<lparr>c_H := H\<rparr>)" for H using that by (simp add: clock_valid_def)
    ultimately show ?thesis by (simp add: adv_H_def Let_def)
  qed
  show "clock_valid (adv_d SCALE_GREGORIAN k c)"
    using clock_valid_step [OF assms] by (simp add: adv_d_def Let_def ndom_mdays)
  show "clock_valid (adv_H k c)" by (rule hour [OF assms(1)])
  have "clock_valid (c\<lparr>c_M := M\<rparr>)" for M using assms(1) by (simp add: clock_valid_def)
  with hour show "clock_valid (adv_M k c)" by (simp add: adv_M_def Let_def)
qed

lemma run_hangs:
  "P c \<Longrightarrow> (\<And>c. P c \<Longrightarrow> P (adv c) \<and> \<not> keep c) \<Longrightarrow> length acc < nti \<Longrightarrow>
   run fuel (tick_step keep emit adv nti) (c, acc) = None"
  by (induction fuel arbitrary: c) (simp_all add: tick_step_at tick_emit_def)

text \<open>No month of the rule has, in any year, one of the rule's days.\<close>

definition no_such_day :: "rrulsp \<Rightarrow> bool" where
  "no_such_day rr \<longleftrightarrow> bi31_list (rr_dom rr) \<noteq> [] \<and>
     (\<forall>m \<in> set [1..12]. bui31_list (rr_mon rr) = [] \<or> nat m \<in> set (bui31_list (rr_mon rr)) \<longrightarrow>
        (\<forall>d \<in> set (bi31_list (rr_dom rr)). get_ndom 0 m < \<bar>d\<bar>))"

lemma get_mdays_leap: "get_mdays y m \<le> get_mdays 0 m"
  by (simp add: get_mdays_def)

lemma no_such_day_clock:
  assumes "no_such_day rr" "filter_range rr" "clock_valid c"
  shows "\<not> day_ok rr c"
proof
  assume "day_ok rr c"
  have c: "1 \<le> c_m c" "c_m c \<le> 12" "1 \<le> c_d c" "c_d c \<le> c_maxd c" "c_maxd c \<le> 31" "c_maxd c = get_ndom (c_y c) (c_m c)"
    using assms(3) get_mdays_range(2) [of "c_m c" "c_y c"] by (auto simp: clock_valid_def valid_ymd_def get_ndom_mdays)
  from \<open>day_ok rr c\<close> have d: "bui31_list (rr_mon rr) = [] \<or> nat (c_m c) \<in> set (bui31_list (rr_mon rr))"
    "bi31_list (rr_dom rr) = [] \<or> c_d c \<in> set (bi31_list (rr_dom rr)) \<or>
      c_d c - get_ndom (c_y c) (c_m c) - 1 \<in> set (bi31_list (rr_dom rr))"
    unfolding day_ok_def md_masks [OF assms(2) c] by auto
  have "c_m c \<in> set [1..12]" using c by auto
  with assms(1) d(1) have n: "\<forall>d \<in> set (bi31_list (rr_dom rr)). get_ndom 0 (c_m c) < \<bar>d\<bar>" "bi31_list (rr_dom rr) \<noteq> []"
    unfolding no_such_day_def by blast+
  have "get_ndom (c_y c) (c_m c) \<le> get_ndom 0 (c_m c)" using get_mdays_leap by (simp add: get_ndom_mdays)
  with n d(2) c show False by fastforce
qed


definition feb_30 :: rrulsp where
  "feb_30 = nul_rule\<lparr>rr_mon := ass_bui31 0 2, rr_dom := ass_bi31 bi_empty 30\<rparr>"


section \<open>Calls that do\<close>

lemma run_returns:
  "\<forall>i < fuel. keep ((adv ^^ i) c) \<and> (snd (emit ((adv ^^ i) c)) \<or> fst (emit ((adv ^^ i) c)) \<noteq> []) \<Longrightarrow>
   nti - length acc < fuel \<Longrightarrow> run fuel (tick_step keep emit adv nti) (c, acc) \<noteq> None"
proof (induction fuel arbitrary: c acc)
  case (Suc fuel)
  have s: "(adv ^^ i) (adv c) = (adv ^^ Suc i) c" for i by (simp add: funpow_swap1)
  have "run fuel (tick_step keep emit adv nti) (adv c, acc @ fst (emit c)) \<noteq> None"
    if "fst (emit c) \<noteq> []" "length acc < nti"
  proof (rule Suc.IH)
    show "nti - length (acc @ fst (emit c)) < fuel" using Suc.prems(2) that by (cases "fst (emit c)") auto
  qed (use Suc.prems(1) s in auto)
  moreover have "keep c \<and> (snd (emit c) \<or> fst (emit c) \<noteq> [])" using Suc.prems(1) by (auto dest: spec [of _ 0])
  ultimately show ?case by (auto simp: tick_step_at tick_emit_def)
qed simp

lemma make_enum_nonempty: "enum_HMS (make_enum p rr) \<noteq> []"
  by (auto simp: make_enum_def Let_def enum_HMS_def enum_MS_def enum_S_def)

lemma emit_sub_progress: "xs \<noteq> [] \<Longrightarrow> \<forall>x \<in> set xs. \<not> echs_instant_lt_p x p \<Longrightarrow> snd (emit_sub till p xs) \<or> fst (emit_sub till p xs) \<noteq> []"
  by (cases xs) (auto split: prod.splits)

lemma plain_start_inst:
  assumes "plain_start p" "c = mk_clock get_mdays w p H M 0"
  shows "clock_inst p c (i_H p, i_M p, i_S p) = p"
  using assms by (simp add: clock_inst_def mk_clock_def mk_inst_def plain_start_def inst_bits_def)

text \<open>
  A daily Gregorian rule without month, day and weekday parts returns within two ticks more than
  the slots asked for (COUNT included), as long as these end by 2099, whatever times of day and UNTIL
  it has.
\<close>
theorem plain_daily_returns:
  assumes "rr_scale rr = SCALE_GREGORIAN" "plain_start p" "1 \<le> rr_inter rr" "rr_inter rr \<le> 28"
    "bui31_list (rr_mon rr) = []" "bi31_list (rr_dom rr) = []" "\<not> wd_any (wd_mask_of (rr_dow rr))"
    "clip_nti rr nti + 2 \<le> range_ticks (inst_day p) 1 (rr_inter rr)"
  shows "rrul_fill_dly (clip_nti rr nti + 2) p nti rr \<noteq> None"
proof -
  let ?k = "rr_inter rr" and ?n = "clip_nti rr nti"
  let ?c = "mk_clock get_mdays (wday_greg (i_y p) (i_m p) (i_d p)) p 0 0 0"
  let ?N = "range_ticks (clock_day ?c) 1 ?k" and ?t = "\<lambda>i. (adv_d SCALE_GREGORIAN ?k ^^ i) ?c"
  let ?step = "tick_step (day_ok rr) (dly_emit p rr) (adv_d SCALE_GREGORIAN ?k) ?n"
  note f = plain_start_facts [OF assms(2)]
  have day: "clock_day ?c = inst_day p" by (simp add: clock_day_def mk_clock_def inst_day_def)
  have ok: "clock_ok ?c" by (rule f(3)) simp_all
  then have rng: "clock_range clock_day 1 ?k ?c ?N"
    using assms(2-4) less_range_ticks [OF assms(3)] by (simp add: clock_range_def plain_start_def mk_clock_def)
  have keep: "day_ok rr (?t i)" if "i < ?N" for i
    using daily_ticks [OF rng that] assms(5-7) by (subst day_masks) (auto simp: filter_range_def)
  have prog: "snd (dly_emit p rr (?t i)) \<or> fst (dly_emit p rr (?t i)) \<noteq> []" if "0 < i" "i < ?N" for i
    unfolding dly_emit_def
  proof (rule emit_sub_progress)
    have "clock_day ?c < clock_day (?t i)" using daily_ticks [OF rng that(2)] that(1) assms(3) by simp
    then have "echs_instant_lt_p p (clock_inst p (?t i) t)" for t
      using stamp_less [OF ok, of "?t i" p "(i_H p, i_M p, i_S p)" t] daily_ticks [OF rng that(2)] assms(2)
      unfolding plain_start_inst [OF assms(2) refl] by (simp add: mk_clock_def plain_start_def)
    then show "\<forall>x \<in> set (map (clock_inst p (?t i)) (enum_HMS (make_enum p rr))). \<not> echs_instant_lt_p x p"
      using lt_asym by auto
  qed (simp add: make_enum_nonempty)
  have "run (?n + 1) ?step (adv_d SCALE_GREGORIAN ?k ?c, acc) \<noteq> None" for acc
  proof (rule run_returns)
    show "\<forall>i < ?n + 1. day_ok rr ((adv_d SCALE_GREGORIAN ?k ^^ i) (adv_d SCALE_GREGORIAN ?k ?c)) \<and>
        (snd (dly_emit p rr ((adv_d SCALE_GREGORIAN ?k ^^ i) (adv_d SCALE_GREGORIAN ?k ?c))) \<or>
         fst (dly_emit p rr ((adv_d SCALE_GREGORIAN ?k ^^ i) (adv_d SCALE_GREGORIAN ?k ?c))) \<noteq> [])"
      using keep [of "Suc _"] prog [of "Suc _"] assms(8) day by (simp add: funpow_swap1)
  qed simp
  then have "run (?n + 2) ?step (?c, []) \<noteq> None"
    by (simp add: numeral_2_eq_2 tick_step_at split: sum.split)
  then show ?thesis
    using assms(7) f(1) unfolding rrul_fill_dly_def Let_def f(2) [OF assms(1)] assms(1) ndom_mdays echs_scale_wday_def by auto
qed

theorem plain_daily_returns_witness: "rrul_fill_dly 66 nov_start 64 nul_rule \<noteq> None"
proof -
  have "rr_scale nul_rule = SCALE_GREGORIAN" "bui31_list (rr_mon nul_rule) = []" "bi31_list (rr_dom nul_rule) = []"
    "\<not> wd_any (wd_mask_of (rr_dow nul_rule))" "clip_nti nul_rule 64 = 64" "(1 :: int) \<le> rr_inter nul_rule" "rr_inter nul_rule \<le> 28"
    by code_simp+
  moreover have "66 \<le> range_ticks (inst_day nov_start) 1 (rr_inter nul_rule)"
    by (simp add: range_ticks_def inst_day_def nov_start_def mk_inst_def nul_rule_def dayno_def doy_def)
  ultimately show ?thesis using plain_daily_returns [OF _ nov_start_plain, of nul_rule 64] by simp
qed

section \<open>The days of a week\<close>

text \<open>The offsets that the packed increments of the weekly loop add up to.\<close>

fun nib_sums :: "nat \<Rightarrow> int \<Rightarrow> int \<Rightarrow> int list" where
  "nib_sums 0 s incs = []"
| "nib_sums (Suc n) s incs =
     (s + incs mod 16) # (if 0 < incs div 16 then nib_sums n (s + incs mod 16) (incs div 16) else [])"

definition week_offsets :: "32 word \<Rightarrow> int \<Rightarrow> int list" where
  "week_offsets wd w = filter (\<lambda>k. bit wd (nat ((w - 1 + k) mod 7 + 1))) [0..6]"

text \<open>The gaps between the days of the week, and how the loop packs them.\<close>

fun gaps :: "nat \<Rightarrow> 32 word \<Rightarrow> int \<Rightarrow> int list" where
  "gaps 0 wd i = []"
| "gaps (Suc n) wd i =
     (if wd = 0 then [] else if bit wd 0 then i # gaps n (drop_bit 1 wd) 1 else gaps n (drop_bit 1 wd) (i + 1))"

fun nib_pack :: "int list \<Rightarrow> int" where
  "nib_pack [] = 0"
| "nib_pack (g # gs) = g + 16 * nib_pack gs"

fun cumul :: "int \<Rightarrow> int list \<Rightarrow> int list" where
  "cumul s [] = []"
| "cumul s (g # gs) = (s + g) # cumul (s + g) gs"

lemma or_push: "0 \<le> a \<Longrightarrow> a < 2 ^ j \<Longrightarrow> a OR push_bit j b = a + b * 2 ^ j" for a b :: int
proof -
  assume a: "0 \<le> a" "a < 2 ^ j"
  then have "take_bit j a = a" by (simp add: take_bit_int_eq_self)
  then have "\<not> bit a n" if "j \<le> n" for n using that by (metis bit_take_bit_iff linorder_not_less)
  then have "a AND push_bit j b = 0" by (auto simp: bit_eq_iff bit_simps)
  then show ?thesis by (simp add: disjunctive_add_eq_or push_bit_eq_mult flip: disjunctive_add)
qed

lemma nibble: "0 \<le> i \<Longrightarrow> i < 16 \<Longrightarrow> i AND 0xF = i" for i :: int
proof -
  assume "0 \<le> i" "i < 16"
  moreover have "(0xF :: int) = mask 4" by (simp add: mask_eq_exp_minus_1)
  ultimately show ?thesis by (simp only: take_bit_eq_mask [symmetric] take_bit_eq_mod) simp
qed

lemma incs_pack:
  "0 \<le> incs \<Longrightarrow> incs < 2 ^ j \<Longrightarrow> 0 \<le> i \<Longrightarrow> i + int n \<le> 16 \<Longrightarrow> n \<le> 15 \<Longrightarrow>
   wly_incs_from n wd i j incs = incs + 2 ^ j * nib_pack (gaps n wd i)"
proof (induction n arbitrary: wd i j incs)
  case (Suc n)
  show ?case
  proof (cases "wd \<noteq> 0 \<and> bit wd 0")
    case True
    have o: "incs OR push_bit j (i AND 0xF) = incs + i * 2 ^ j"
      using Suc.prems or_push [of incs j i] nibble [of i] by simp
    have "incs + i * 2 ^ j < 2 ^ (j + 4)"
    proof -
      have "i * 2 ^ j \<le> 15 * 2 ^ j" using Suc.prems by (intro mult_right_mono) simp_all
      with Suc.prems(2) have "incs + i * 2 ^ j < 16 * 2 ^ j" by linarith
      then show ?thesis by (simp add: power_add)
    qed
    with True Suc.prems o show ?thesis
      using Suc.IH [of "incs + i * 2 ^ j" "j + 4" 1 "drop_bit 1 wd"] by (simp add: power_add algebra_simps)
  next
    case False
    then show ?thesis using Suc.prems Suc.IH [of incs j "i + 1" "drop_bit 1 wd"] by auto
  qed
qed simp

lemma gaps_range: "0 \<le> i \<Longrightarrow> i + int n \<le> 16 \<Longrightarrow> n \<le> 15 \<Longrightarrow> length (gaps n wd i) \<le> n \<and>
    (\<forall>g \<in> set (gaps n wd i). i \<le> g \<and> g < 16 \<or> 1 \<le> g \<and> g < 16) \<and> (\<forall>g \<in> set (tl (gaps n wd i)). 1 \<le> g \<and> g < 16)"
proof (induction n arbitrary: wd i)
  case (Suc n)
  from Suc.IH [of 1 "drop_bit 1 wd"] Suc.IH [of "i + 1" "drop_bit 1 wd"] Suc.prems show ?case by auto
qed simp

lemma nib_pack_pos: "gs \<noteq> [] \<Longrightarrow> \<forall>g \<in> set gs. 1 \<le> g \<Longrightarrow> 0 < nib_pack gs"
proof (induction gs)
  case (Cons g gs)
  then show ?case by (cases gs) auto
qed simp

lemma nib_sums_pack:
  "gs \<noteq> [] \<Longrightarrow> length gs \<le> n \<Longrightarrow> \<forall>g \<in> set gs. 0 \<le> g \<and> g < 16 \<Longrightarrow> \<forall>g \<in> set (tl gs). 1 \<le> g \<Longrightarrow>
   nib_sums n s (nib_pack gs) = cumul s gs"
proof (induction n arbitrary: s gs)
  case (Suc n)
  then obtain g gs' where gs: "gs = g # gs'" by (cases gs) auto
  have m: "nib_pack gs mod 16 = g" "nib_pack gs div 16 = nib_pack gs'" using Suc.prems(3) by (simp_all add: gs)
  show ?case
  proof (cases "gs' = []")
    case False
    then have "0 < nib_pack gs'" using Suc.prems(4) by (intro nib_pack_pos) (auto simp: gs)
    moreover have "nib_sums n (s + g) (nib_pack gs') = cumul (s + g) gs'"
      using False Suc.prems by (intro Suc.IH) (auto simp: gs dest: list.set_sel(2))
    ultimately show ?thesis using m by (simp add: gs)
  qed (use m in \<open>simp add: gs\<close>)
qed simp

lemma cumul_gaps: "cumul s (gaps n wd i) = map (\<lambda>k. s + i + int k) (filter (bit wd) [0..<n])"
proof (induction n arbitrary: s wd i)
  case (Suc n)
  have f: "filter (bit wd) [0..<Suc n] = (if bit wd 0 then [0] else []) @ map Suc (filter (bit (drop_bit 1 wd)) [0..<n])"
    unfolding upt_conv_Cons [OF zero_less_Suc] map_Suc_upt [symmetric]
    by (simp add: filter_map comp_def bit_drop_bit_eq del: map_Suc_upt)
  have "filter (bit wd) [0..<Suc n] = []" if "wd = 0" using that by simp
  then show ?case using Suc.IH unfolding f by (auto simp: comp_def algebra_simps)
qed simp

lemma rot_bit:
  assumes "\<And>n. bit wd n \<Longrightarrow> n \<in> {1..7}" "1 \<le> w" "w \<le> 7" "k < 7"
  shows "bit (wly_rot wd w) k \<longleftrightarrow> bit wd (nat ((w - 1 + int k) mod 7 + 1))"
proof -
  have "k \<in> set [0..<7]" using assms(4) by simp
  moreover have "\<forall>k \<in> set [0..<7]. bit (0x7F :: 32 word) k" by code_simp
  ultimately have k: "bit (0x7F :: 32 word) k" by blast
  have "bit (wly_rot wd w) k \<longleftrightarrow> bit wd (nat w + k) \<or> 7 \<le> nat w + k \<and> bit wd (nat w + k - 7)"
    using assms(2-4) k by (auto simp: wly_rot_def bit_simps)
  moreover have "bit wd (nat w + k) = bit wd (nat ((w - 1 + int k) mod 7 + 1))"
    "\<not> (7 \<le> nat w + k \<and> bit wd (nat w + k - 7))" if "nat w + k \<le> 7"
  proof -
    have "(w - 1 + int k) mod 7 + 1 = w + int k" using that assms(2) by simp
    then show "bit wd (nat w + k) = bit wd (nat ((w - 1 + int k) mod 7 + 1))"
      using assms(2) by (simp add: nat_add_distrib)
    show "\<not> (7 \<le> nat w + k \<and> bit wd (nat w + k - 7))" using that assms(1) [of "nat w + k - 7"] by auto
  qed
  moreover have "bit wd (nat w + k - 7) = bit wd (nat ((w - 1 + int k) mod 7 + 1))" "\<not> bit wd (nat w + k)"
    if "\<not> nat w + k \<le> 7"
  proof -
    have "(w - 1 + int k) mod 7 = w - 1 + int k - 7"
      using that assms(2-4) by (intro int_mod_pos_eq [where q = 1]) auto
    then have "nat ((w - 1 + int k) mod 7 + 1) = nat w + k - 7" using that assms(2) by simp
    then show "bit wd (nat w + k - 7) = bit wd (nat ((w - 1 + int k) mod 7 + 1))" by simp
    show "\<not> bit wd (nat w + k)" using that assms(1) [of "nat w + k"] by auto
  qed
  ultimately show ?thesis by (cases "nat w + k \<le> 7") auto
qed

text \<open>
  The packed increments with which the weekly loop walks through a week visit, from a first day of
  weekday \<open>w\<close>, exactly the offsets from 0 to 6 whose weekday BYDAY names, in ascending order; only the
  first day when BYDAY names none.
\<close>
theorem weekly_offsets:
  assumes "1 \<le> w" "w \<le> 7"
  shows "nib_sums 8 0 (wly_incs dow w) = (if wly_mask dow = 0 then [0] else week_offsets (wly_mask dow) w)"
proof (cases "wly_mask dow = 0")
  case True
  then show ?thesis by (simp add: wly_incs_def numeral_eq_Suc)
next
  case False
  let ?wd = "wly_mask dow" and ?r = "wly_rot (wly_mask dow) w"
  have b: "bit ?wd n \<Longrightarrow> n \<in> {1..7}" for n unfolding wly_mask_def foldl_or_bit by (auto simp: bit_simps)
  have "wly_incs dow w = wly_incs_from 8 ?r 0 0 0" using False by (simp add: wly_incs_def Let_def)
  also have "\<dots> = nib_pack (gaps 8 ?r 0)" by (subst incs_pack) simp_all
  finally have p: "wly_incs dow w = nib_pack (gaps 8 ?r 0)" .
  have "\<not> bit ?r 7" by (simp add: wly_rot_def bit_simps)
  then have c: "cumul 0 (gaps 8 ?r 0) = week_offsets ?wd w"
    unfolding cumul_gaps week_offsets_def using rot_bit [OF b assms]
    by (simp add: upt_rec upto_rec1 numeral_eq_Suc)
  obtain n where n: "bit ?wd n" using False by (auto simp: nonzero_bit)
  have "(int n - w) mod 7 \<in> set [0..6]" by auto
  moreover have "(w - 1 + (int n - w) mod 7) mod 7 + 1 = int n"
    using b [OF n] by (simp add: mod_simps)
  ultimately have "\<exists>k \<in> set [0..6]. bit ?wd (nat ((w - 1 + k) mod 7 + 1))"
    using n by (intro bexI [of _ "(int n - w) mod 7"]) simp_all
  then have "week_offsets ?wd w \<noteq> []" unfolding week_offsets_def filter_empty_conv by blast
  then have "gaps 8 ?r 0 \<noteq> []" using c by auto
  then show ?thesis unfolding p
    using nib_sums_pack [of "gaps 8 ?r 0" 8 0] gaps_range [of 0 8 ?r] c False by force
qed

theorem weekly_offsets_witness: "nib_sums 8 0 (wly_incs (foldl ass_bi447 (bin_empty 14) [1, 3]) 3) = [0, 5]"
proof -
  have "wly_mask (foldl ass_bi447 (bin_empty 14) [1, 3]) = 0xA" by code_simp
  moreover have "week_offsets 0xA 3 = [0, 5]" by code_simp
  ultimately show ?thesis using weekly_offsets [of 3 "foldl ass_bi447 (bin_empty 14) [1, 3]"] by simp
qed

section \<open>Where the loops leave RFC 5545\<close>

text \<open>
  DAILY;INTERVAL=40 from 31 January lands on 9 February: a step past the end of the next month is
  reduced by the first month's length and moves on by one month only.
\<close>

lemma daily_interval_40:
  "rrul_fill_dly 8 (mk_inst 2024 1 31 9 0 0 0) 2 (nul_rule\<lparr>rr_inter := 40\<rparr>) =
     Some [mk_inst 2024 1 31 9 0 0 0, mk_inst 2024 2 9 9 0 0 0]"
  by code_simp

text \<open>
  WEEKLY;INTERVAL=2;BYDAY=MO,WE from Wednesday 3 January yields Monday 8 January: weeks are counted
  from the first instant, not from WKST.
\<close>

lemma weekly_interval_2:
  "rrul_fill_wly 8 (mk_inst 2024 1 3 9 0 0 0) 3
     (nul_rule\<lparr>rr_inter := 2, rr_dow := foldl ass_bi447 (bin_empty 14) [1, 3]\<rparr>) =
     Some [mk_inst 2024 1 3 9 0 0 0, mk_inst 2024 1 8 9 0 0 0, mk_inst 2024 1 17 9 0 0 0]"
  by code_simp

text \<open>
  WEEKLY;BYMONTH=5;BYDAY=MO,FR from Monday 29 April misses Friday 3 May: a day in a month that is
  filtered drops the rest of its week.
\<close>

lemma weekly_month_skip:
  "rrul_fill_wly 8 (mk_inst 2024 4 29 9 0 0 0) 2
     (nul_rule\<lparr>rr_mon := ass_bui31 0 5, rr_dow := foldl ass_bi447 (bin_empty 14) [1, 5]\<rparr>) =
     Some [mk_inst 2024 5 6 9 0 0 0, mk_inst 2024 5 10 9 0 0 0]"
  by code_simp

text \<open>
  HOURLY;BYYEARDAY=2 from New Year's Eve yields 1 January: the day of the year is off by one after the
  turn of the year.
\<close>

lemma hourly_yearday_off:
  "rrul_fill_Hly 32 (mk_inst 2023 12 31 22 0 0 0) 1 (nul_rule\<lparr>rr_doy := ass_bi383 (bin_empty 12) 2\<rparr>) =
     Some [mk_inst 2024 1 1 0 0 0 0]"
  by code_simp

end
