(* ===== verification/Event.thy ===== *)
theory Event
  imports RangeShift "HOL-Library.Monad_Syntax"
begin

text \<open>
  Events and the interface of event streams: \<^verbatim>\<open>src/src/event.h\<close>, \<^verbatim>\<open>src/src/oid.h\<close>, the class of
  \<^verbatim>\<open>src/src/evstrm.h\<close>, and the stream over an array of events of \<^verbatim>\<open>src/src/evical.c\<close>.

  A stream class is a record of function pointers; its \<open>next\<close> method, the only one that changes
  the stream, is modelled as a function \<open>'s \<Rightarrow> bool \<Rightarrow> (event \<times> 's) option\<close> on the class's own state,
  \<open>None\<close> for a call that does not return.  The contract every client relies on is the locale
  \<open>evstrm\<close>: the events still to come are a list, peeking shows the first and keeps the list,
  popping shows the first and drops it, and an exhausted stream yields the null event.
\<close>

section \<open>Events\<close>

record event =
  ev_from :: instant
  ev_grp :: instant
  ev_dur :: int
  ev_oid :: "64 word"
  ev_sts :: "64 word"

definition echs_oid_eq_p :: "64 word \<Rightarrow> 64 word \<Rightarrow> bool" where
  "echs_oid_eq_p o1 o2 \<longleftrightarrow> o1 = o2"

definition echs_event_0_p :: "event \<Rightarrow> bool" where
  "echs_event_0_p e \<longleftrightarrow> echs_instant_0_p (ev_from e)"

definition echs_event_lt_p :: "event \<Rightarrow> event \<Rightarrow> bool" where
  "echs_event_lt_p e1 e2 \<longleftrightarrow> echs_instant_lt_p (ev_from e1) (ev_from e2)"

definition echs_event_eq_p :: "event \<Rightarrow> event \<Rightarrow> bool" where
  "echs_event_eq_p e1 e2 \<longleftrightarrow>
     echs_oid_eq_p (ev_oid e1) (ev_oid e2) \<and> echs_instant_eq_p (ev_from e1) (ev_from e2)"

definition echs_event_le_p :: "event \<Rightarrow> event \<Rightarrow> bool" where
  "echs_event_le_p e1 e2 \<longleftrightarrow> echs_instant_lt_p (ev_from e1) (ev_from e2) \<or> echs_event_eq_p e1 e2"

definition echs_nul_event :: event where
  "echs_nul_event =
     \<lparr>ev_from = echs_nul_instant, ev_grp = echs_nul_instant, ev_dur = 0, ev_oid = 0, ev_sts = 0\<rparr>"

definition echs_nul_event_p :: "event \<Rightarrow> bool" where
  "echs_nul_event_p e \<longleftrightarrow> echs_nul_instant_p (ev_from e)"

definition echs_event_range :: "event \<Rightarrow> range" where
  "echs_event_range e = \<lparr>r_beg = ev_from e, r_end = echs_instant_add (ev_from e) (ev_dur e)\<rparr>"

text \<open>\<open>echs_event_sort\<close> is WikiSort, a stable sort, with \<open>echs_event_lt_p\<close>.\<close>

definition ev_key :: "event \<Rightarrow> int" where
  "ev_key e = inst_u (inst_up (ev_from e))"

definition echs_event_sort :: "event list \<Rightarrow> event list" where
  "echs_event_sort es = sort_key ev_key es"

lemma event_lt_key: "echs_event_lt_p a b \<longleftrightarrow> ev_key a < ev_key b"
  by (simp add: echs_event_lt_p_def echs_instant_lt_p_def ev_key_def)

lemma event_eq_key:
  assumes "inst_bits (ev_from a)" "inst_bits (ev_from b)" "echs_event_eq_p a b"
  shows "ev_key a = ev_key b"
  using assms inst_u_inj [of "ev_from a" "ev_from b"]
  by (auto simp: echs_event_eq_p_def echs_instant_eq_p_def ev_key_def)

lemma event_eq_refl: "echs_event_eq_p a a"
  by (simp add: echs_event_eq_p_def echs_oid_eq_p_def echs_instant_eq_p_def)

lemma event_eq_sym: "echs_event_eq_p a b \<longleftrightarrow> echs_event_eq_p b a"
  by (auto simp: echs_event_eq_p_def echs_oid_eq_p_def echs_instant_eq_p_def)

lemma event_eq_trans: "echs_event_eq_p a b \<Longrightarrow> echs_event_eq_p b c \<Longrightarrow> echs_event_eq_p a c"
  by (simp add: echs_event_eq_p_def echs_oid_eq_p_def echs_instant_eq_p_def)

lemma nul_event_0: "echs_nul_event_p e \<longleftrightarrow> echs_event_0_p e"
  by (simp add: echs_nul_event_p_def echs_event_0_p_def echs_nul_instant_p_def echs_instant_0_p_def)

lemma nul_event_nul [simp]: "echs_nul_event_p echs_nul_event" "echs_event_0_p echs_nul_event"
  by (simp_all add: nul_event_0 echs_event_0_p_def echs_instant_0_p_def echs_nul_event_def
      echs_nul_instant_def inst_u_def)

section \<open>The interface of streams\<close>

text \<open>\<open>echs_evstrm_pop\<close> and \<open>echs_evstrm_next\<close> of the header, over the class's \<open>next\<close>.\<close>

definition echs_evstrm_pop :: "('s \<Rightarrow> bool \<Rightarrow> (event \<times> 's) option) \<Rightarrow> 's \<Rightarrow> (event \<times> 's) option" where
  "echs_evstrm_pop nxt s = nxt s True"

definition echs_evstrm_next :: "('s \<Rightarrow> bool \<Rightarrow> (event \<times> 's) option) \<Rightarrow> 's \<Rightarrow> (event \<times> 's) option" where
  "echs_evstrm_next nxt s = nxt s False"

text \<open>The event at the front of a list of pending events.\<close>

definition front :: "event list \<Rightarrow> event" where
  "front es = (case es of [] \<Rightarrow> echs_nul_event | e # _ \<Rightarrow> e)"

lemma front_simps [simp]: "front [] = echs_nul_event" "front (e # es) = e"
  by (simp_all add: front_def)

definition live :: "event list \<Rightarrow> bool" where
  "live es \<longleftrightarrow> list_all (\<lambda>e. \<not> echs_nul_event_p e) es"

lemma live_simps [simp]: "live []" "live (e # es) \<longleftrightarrow> \<not> echs_nul_event_p e \<and> live es"
  by (simp_all add: live_def)

lemma live_tl [intro]: "live es \<Longrightarrow> live (tl es)"
  by (cases es) auto

lemma live_front: "live es \<Longrightarrow> echs_nul_event_p (front es) \<longleftrightarrow> es = []"
  by (cases es) auto

lemma live_drop [intro]: "live es \<Longrightarrow> live (drop n es)"
  unfolding live_def list_all_iff using set_drop_subset by fastforce

text \<open>
  The client's loop: pop until the null event comes, at most \<open>n\<close> times, collecting the events.
\<close>

fun drain :: "('s \<Rightarrow> bool \<Rightarrow> (event \<times> 's) option) \<Rightarrow> nat \<Rightarrow> 's \<Rightarrow> event list option" where
  "drain nxt 0 s = None"
| "drain nxt (Suc n) s =
     do { (e, s) \<leftarrow> echs_evstrm_pop nxt s;
          if echs_nul_event_p e then Some []
          else do { es \<leftarrow> drain nxt n s; Some (e # es) } }"

text \<open>Fast-forwarding: pop events as long as the first one satisfies a condition; the first that does not.\<close>

partial_function (option) unwind ::
  "('s \<Rightarrow> bool \<Rightarrow> (event \<times> 's) option) \<Rightarrow> (event \<Rightarrow> bool) \<Rightarrow> 's \<Rightarrow> (event \<times> 's) option" where
  "unwind nxt P s =
     do { (e, s) \<leftarrow> echs_evstrm_next nxt s;
          if \<not> echs_event_0_p e \<and> P e
          then do { (_, s) \<leftarrow> echs_evstrm_pop nxt s; unwind nxt P s }
          else Some (e, s) }"

declare unwind.simps [code]

text \<open>Any sequence of peeks and pops, and what it shows of a list of pending events.\<close>

fun calls :: "('s \<Rightarrow> bool \<Rightarrow> (event \<times> 's) option) \<Rightarrow> bool list \<Rightarrow> 's \<Rightarrow> event list option" where
  "calls nxt [] s = Some []"
| "calls nxt (p # ps) s = do { (e, s) \<leftarrow> nxt s p; es \<leftarrow> calls nxt ps s; Some (e # es) }"

fun shown :: "bool list \<Rightarrow> event list \<Rightarrow> event list" where
  "shown [] es = []"
| "shown (p # ps) es = front es # shown ps (if p then tl es else es)"

locale evstrm =
  fixes nxt :: "'s \<Rightarrow> bool \<Rightarrow> (event \<times> 's) option"
    and pend :: "'s \<Rightarrow> event list"
    and good :: "'s \<Rightarrow> bool"
  assumes step: "good s \<Longrightarrow> \<exists>s'. nxt s p = Some (front (pend s), s') \<and> good s' \<and>
      pend s' = (if p then tl (pend s) else pend s)"
    and live: "good s \<Longrightarrow> live (pend s)"
begin

lemma pop:
  assumes "good s"
  obtains s' where "echs_evstrm_pop nxt s = Some (front (pend s), s')" "good s'" "pend s' = tl (pend s)"
  using step [OF assms, of True] by (auto simp: echs_evstrm_pop_def)

lemma peek:
  assumes "good s"
  obtains s' where "echs_evstrm_next nxt s = Some (front (pend s), s')" "good s'" "pend s' = pend s"
  using step [OF assms, of False] by (auto simp: echs_evstrm_next_def)

lemma called: "good s \<Longrightarrow> calls nxt ps s = Some (shown ps (pend s))"
proof (induction ps arbitrary: s)
  case (Cons p ps)
  obtain s' where "nxt s p = Some (front (pend s), s')" "good s'"
    "pend s' = (if p then tl (pend s) else pend s)" using step [OF Cons.prems, of p] by blast
  with Cons.IH [of s'] show ?case by simp
qed simp

lemma unwound:
  "good s \<Longrightarrow> \<exists>s'. unwind nxt P s = Some (front (dropWhile P (pend s)), s') \<and> good s' \<and> pend s' = dropWhile P (pend s)"
proof (induction "length (pend s)" arbitrary: s)
  case 0
  obtain s' where s': "echs_evstrm_next nxt s = Some (front (pend s), s')" "good s'" "pend s' = pend s"
    by (rule peek [OF "0.prems"])
  with 0 show ?case by (subst unwind.simps) simp
next
  case (Suc n)
  then obtain e es where es: "pend s = e # es" by (cases "pend s") auto
  obtain s' where s': "echs_evstrm_next nxt s = Some (e, s')" "good s'" "pend s' = e # es"
    using peek [OF Suc.prems] es by auto
  obtain s2 where s2: "echs_evstrm_pop nxt s' = Some (e, s2)" "good s2" "pend s2 = es"
    using pop [OF s'(2)] s'(3) by auto
  have e: "\<not> echs_event_0_p e" using live [OF Suc.prems] es by (simp add: nul_event_0)
  show ?case
  proof (cases "P e")
    case True
    have "unwind nxt P s = unwind nxt P s2" using True e s'(1) s2(1) by (subst unwind.simps) simp
    moreover have "\<exists>t. unwind nxt P s2 = Some (front (dropWhile P es), t) \<and> good t \<and> pend t = dropWhile P es"
      using Suc.hyps(1) [of s2] Suc.hyps(2) s2 es by simp
    ultimately show ?thesis using True es by simp
  next
    case False
    then show ?thesis using e s' es by (subst unwind.simps) simp
  qed
qed

lemma drained: "good s \<Longrightarrow> length (pend s) < n \<Longrightarrow> drain nxt n s = Some (pend s)"
proof (induction n arbitrary: s)
  case (Suc n)
  obtain s' where s': "echs_evstrm_pop nxt s = Some (front (pend s), s')" "good s'" "pend s' = tl (pend s)"
    by (rule pop [OF Suc.prems(1)])
  show ?case
  proof (cases "pend s")
    case (Cons e es)
    then have "drain nxt n s' = Some es" using Suc.IH [OF s'(2)] Suc.prems(2) s'(3) by simp
    with Cons s'(1) live [OF Suc.prems(1)] show ?thesis by simp
  qed (use s'(1) in simp)
qed simp

end

section \<open>Streams over an array of events\<close>

record evical =
  vev_i :: nat
  vev_ev :: "event list"

definition make_evical_vevent :: "event list \<Rightarrow> evical" where
  "make_evical_vevent ev = \<lparr>vev_i = 0, vev_ev = ev\<rparr>"

definition clone_evical_vevent :: "evical \<Rightarrow> evical" where
  "clone_evical_vevent this = make_evical_vevent (drop (vev_i this) (vev_ev this))"

definition next_evical_vevent :: "evical \<Rightarrow> bool \<Rightarrow> (event \<times> evical) option" where
  "next_evical_vevent this popp =
     (if length (vev_ev this) \<le> vev_i this then Some (echs_nul_event, this)
      else let res = vev_ev this ! vev_i this
           in Some (res, if popp then this\<lparr>vev_i := vev_i this + 1\<rparr> else this))"

definition vev_pend :: "evical \<Rightarrow> event list" where
  "vev_pend this = drop (vev_i this) (vev_ev this)"

definition vev_good :: "evical \<Rightarrow> bool" where
  "vev_good this \<longleftrightarrow> Event.live (vev_pend this)"

lemma vev_next:
  "next_evical_vevent s p = Some (front (vev_pend s), if p \<and> vev_i s < length (vev_ev s) then s\<lparr>vev_i := vev_i s + 1\<rparr> else s)"
proof (cases "vev_i s < length (vev_ev s)")
  case True
  then have "drop (vev_i s) (vev_ev s) = vev_ev s ! vev_i s # drop (Suc (vev_i s)) (vev_ev s)"
    by (rule Cons_nth_drop_Suc [symmetric])
  with True show ?thesis by (simp add: next_evical_vevent_def vev_pend_def Let_def)
qed (simp add: next_evical_vevent_def vev_pend_def)

interpretation vev: evstrm next_evical_vevent vev_pend vev_good
proof
  fix s p
  assume g: "vev_good s"
  show "\<exists>s'. next_evical_vevent s p = Some (front (vev_pend s), s') \<and> vev_good s' \<and>
      vev_pend s' = (if p then tl (vev_pend s) else vev_pend s)"
    using g live_tl [of "vev_pend s"] by (auto simp: vev_next vev_good_def vev_pend_def tl_drop drop_Suc)
  show "Event.live (vev_pend s)" using g by (simp add: vev_good_def)
qed

lemma vev_clone: "vev_pend (clone_evical_vevent s) = vev_pend s"
  by (simp add: vev_pend_def clone_evical_vevent_def make_evical_vevent_def)

end
