(* ===== verification/Evmux.thy ===== *)
theory Evmux
  imports Event
begin

text \<open>
  The muxer of \<^verbatim>\<open>src/src/evstrm.c\<close>: one stream out of several, in chronological order, an event
  that two streams have at the same time given once.  A mux keeps its streams and, per stream, a
  cached copy of its first event.  The reference is the left fold of a two-way merge over the
  lists of pending events; \<open>evstrm_mux\<close> shows that a mux of streams is a stream of that list.
\<close>

section \<open>The code\<close>

record 's evmux =
  mux_s :: "'s list option"
  mux_ev :: "event list"

text \<open>All heads, without popping.\<close>

fun mux_precache :: "('s \<Rightarrow> bool \<Rightarrow> (event \<times> 's) option) \<Rightarrow> 's list \<Rightarrow> (event list \<times> 's list) option" where
  "mux_precache nxt [] = Some ([], [])"
| "mux_precache nxt (s # ss) =
     do { (e, s) \<leftarrow> echs_evstrm_next nxt s; (es, ss) \<leftarrow> mux_precache nxt ss; Some (e # es, s # ss) }"

text \<open>The first index whose cached event is not null.\<close>

fun mux_first :: "nat \<Rightarrow> event list \<Rightarrow> nat option" where
  "mux_first i [] = None"
| "mux_first i (e # es) = (if \<not> echs_event_0_p e then Some i else mux_first (i + 1) es)"

text \<open>Pop the stream at \<open>i\<close> and cache its next event.\<close>

definition mux_refetch ::
  "('s \<Rightarrow> bool \<Rightarrow> (event \<times> 's) option) \<Rightarrow> nat \<Rightarrow> 's list \<Rightarrow> event list \<Rightarrow> ('s list \<times> event list) option" where
  "mux_refetch nxt i ss ev =
     do { (_, s) \<leftarrow> echs_evstrm_pop nxt (ss ! i);
          (e, s) \<leftarrow> echs_evstrm_next nxt s;
          Some (ss[i := s], ev[i := e]) }"

text \<open>The search for an earlier event, from index \<open>i\<close> with \<open>n\<close> streams to go.\<close>

fun mux_scan ::
  "('s \<Rightarrow> bool \<Rightarrow> (event \<times> 's) option) \<Rightarrow> nat \<Rightarrow> nat \<Rightarrow> 's list \<Rightarrow> event list \<Rightarrow> event \<Rightarrow> nat \<Rightarrow>
     ('s list \<times> event list \<times> event \<times> nat) option" where
  "mux_scan nxt 0 i ss ev best besti = Some (ss, ev, best, besti)"
| "mux_scan nxt (Suc n) i ss ev best besti =
     (let ecur = ev ! i
      in if echs_event_0_p ecur then mux_scan nxt n (i + 1) ss ev best besti
         else if echs_event_lt_p ecur best then mux_scan nxt n (i + 1) ss ev ecur i
         else if echs_event_eq_p ecur best
         then do { (ss, ev) \<leftarrow> mux_refetch nxt i ss ev; mux_scan nxt n (i + 1) ss ev best besti }
         else mux_scan nxt n (i + 1) ss ev best besti)"

definition next_evmux ::
  "('s \<Rightarrow> bool \<Rightarrow> (event \<times> 's) option) \<Rightarrow> 's evmux \<Rightarrow> bool \<Rightarrow> (event \<times> 's evmux) option" where
  "next_evmux nxt this popp =
     (case mux_s this of
        None \<Rightarrow> Some (echs_nul_event, this)
      | Some ss \<Rightarrow>
          do { (ev, ss) \<leftarrow> (if echs_max_instant_p (ev_from (mux_ev this ! 0)) then mux_precache nxt ss
                          else Some (mux_ev this, ss));
               case mux_first 0 ev of
                 None \<Rightarrow> Some (echs_nul_event, \<lparr>mux_s = None, mux_ev = ev\<rparr>)
               | Some i \<Rightarrow>
                   do { (ss, ev, best, besti) \<leftarrow> mux_scan nxt (length ss - (i + 1)) (i + 1) ss ev (ev ! i) i;
                        (ss, ev) \<leftarrow> (if popp then mux_refetch nxt besti ss ev else Some (ss, ev));
                        Some (best, \<lparr>mux_s = Some ss, mux_ev = ev\<rparr>) } })"

text \<open>
  The constructor: no stream for none, the stream itself for one.  The cache is the fresh
  memory \<open>junk\<close> with the indicator in its first event.
\<close>

datatype 's muxed = Mux_null | Mux_one 's | Mux_all "'s evmux"

definition make_evmux :: "event list \<Rightarrow> 's list \<Rightarrow> 's muxed" where
  "make_evmux junk ss =
     (case ss of
        [] \<Rightarrow> Mux_null
      | [s] \<Rightarrow> Mux_one s
      | _ \<Rightarrow> Mux_all \<lparr>mux_s = Some ss, mux_ev = junk[0 := (junk ! 0)\<lparr>ev_from := echs_max_instant\<rparr>]\<rparr>)"

text \<open>The array constructor leaves \<open>NULL\<close> streams out.\<close>

definition echs_evstrm_vmux :: "event list \<Rightarrow> 's option list \<Rightarrow> 's muxed" where
  "echs_evstrm_vmux junk ss = make_evmux junk (map the (filter (\<lambda>s. s \<noteq> None) ss))"

text \<open>At most \<open>tsz\<close> of the streams from \<open>offset\<close> on.\<close>

definition echs_evstrm_demux :: "nat \<Rightarrow> 's evmux \<Rightarrow> nat \<Rightarrow> 's list" where
  "echs_evstrm_demux tsz this offset =
     (case mux_s this of None \<Rightarrow> [] | Some ss \<Rightarrow> take tsz (drop offset ss))"

section \<open>The reference: merging lists\<close>

fun evmerge :: "event list \<Rightarrow> event list \<Rightarrow> event list" where
  "evmerge [] bs = bs"
| "evmerge as [] = as"
| "evmerge (a # as) (b # bs) =
     (if echs_event_lt_p b a then b # evmerge (a # as) bs
      else if echs_event_eq_p b a then a # evmerge as bs
      else a # evmerge as (b # bs))"

definition evmerges :: "event list list \<Rightarrow> event list" where
  "evmerges ess = foldl evmerge [] ess"

text \<open>Chronological, no null event, no event twice in a row.\<close>

fun tidy :: "event list \<Rightarrow> bool" where
  "tidy [] \<longleftrightarrow> True"
| "tidy [a] \<longleftrightarrow> inst_bits (ev_from a) \<and> \<not> echs_nul_event_p a"
| "tidy (a # b # es) \<longleftrightarrow> inst_bits (ev_from a) \<and> \<not> echs_nul_event_p a \<and> ev_key a \<le> ev_key b \<and>
     \<not> echs_event_eq_p b a \<and> tidy (b # es)"

lemma tidy_Cons: "tidy (a # es) \<longleftrightarrow> inst_bits (ev_from a) \<and> \<not> echs_nul_event_p a \<and> tidy es \<and>
    (es \<noteq> [] \<longrightarrow> ev_key a \<le> ev_key (hd es) \<and> \<not> echs_event_eq_p (hd es) a)"
  by (cases es) auto

lemma tidy_tl: "tidy es \<Longrightarrow> tidy (tl es)"
  by (cases es) (auto simp: tidy_Cons)

lemma tidy_live: "tidy es \<Longrightarrow> live es"
  by (induction es) (auto simp: tidy_Cons)

lemma evmerge_Nil [simp]: "evmerge as [] = as"
  by (cases as) simp_all

lemma tidy_evmerge: "tidy as \<Longrightarrow> tidy bs \<Longrightarrow> tidy (evmerge as bs)"
proof (induction as bs rule: evmerge.induct)
  case (3 a as b bs)
  have key: "echs_event_eq_p b a \<Longrightarrow> ev_key b = ev_key a"
    using 3 event_eq_key by (auto simp: tidy_Cons)
  have hd1: "evmerge as (b # bs) \<noteq> [] \<and> (hd (evmerge as (b # bs)) = b \<or> as \<noteq> [] \<and> hd (evmerge as (b # bs)) = hd as)"
    by (cases as) auto
  have hd2: "evmerge (a # as) bs \<noteq> [] \<and> (hd (evmerge (a # as) bs) = a \<or> bs \<noteq> [] \<and> hd (evmerge (a # as) bs) = hd bs)"
    by (cases bs) auto
  have hd3: "evmerge as bs = [] \<or> as \<noteq> [] \<and> hd (evmerge as bs) = hd as \<or> bs \<noteq> [] \<and> hd (evmerge as bs) = hd bs"
    by (cases as; cases bs) auto
  consider (lt) "echs_event_lt_p b a" | (eq) "\<not> echs_event_lt_p b a" "echs_event_eq_p b a"
    | (ge) "\<not> echs_event_lt_p b a" "\<not> echs_event_eq_p b a" by blast
  then show ?case
  proof cases
    case lt
    then have "tidy (evmerge (a # as) bs)" using 3 by (auto simp: tidy_Cons)
    moreover have "ev_key b < ev_key a" "\<not> echs_event_eq_p a b"
      using lt key event_eq_sym [of a b] by (auto simp: event_lt_key)
    ultimately show ?thesis using lt hd2 "3.prems" by (auto simp: tidy_Cons)
  next
    case eq
    then have "tidy (evmerge as bs)" using 3 by (auto simp: tidy_Cons)
    moreover have "\<not> echs_event_eq_p c b \<Longrightarrow> \<not> echs_event_eq_p c a" for c
      using eq event_eq_trans event_eq_sym by blast
    ultimately show ?thesis using eq hd3 "3.prems" key by (auto simp: tidy_Cons)
  next
    case ge
    then have "tidy (evmerge as (b # bs))" using 3 by (auto simp: tidy_Cons)
    moreover have "ev_key a \<le> ev_key b" using ge by (simp add: event_lt_key)
    ultimately show ?thesis using ge hd1 "3.prems" by (auto simp: tidy_Cons)
  qed
qed auto

lemma evmerges_snoc: "evmerges (ess @ [es]) = evmerge (evmerges ess) es"
  by (simp add: evmerges_def)

lemma tidy_evmerges: "list_all tidy ess \<Longrightarrow> tidy (evmerges ess)"
  by (induction ess rule: rev_induct) (auto simp: evmerges_snoc tidy_evmerge, simp add: evmerges_def)

lemma evmerges_empty: "list_all (\<lambda>es. es = []) ess \<Longrightarrow> evmerges ess = []"
  by (induction ess rule: rev_induct) (auto simp: evmerges_snoc, simp add: evmerges_def)

section \<open>The mux refines the merge\<close>

lemma nth_split: "i < length xs \<Longrightarrow> take (i + 1) xs = take i xs @ [xs ! i]"
  by (simp add: take_Suc_conv_app_nth)

lemma take_update: "i \<le> k \<Longrightarrow> take i (xs[k := x]) = take i xs"
  by (simp add: list_update_beyond take_update_swap)

text \<open>A merge whose first list loses its head, which is the head of the merge.\<close>

lemma evmerge_front:
  assumes "tidy (b # r)" "tidy es"
  shows "es \<noteq> [] \<and> echs_event_lt_p (hd es) b \<Longrightarrow> evmerge (b # r) es = hd es # evmerge (b # r) (tl es)"
    and "es \<noteq> [] \<and> echs_event_eq_p (hd es) b \<Longrightarrow>
      evmerge (b # r) es = b # evmerge r (tl es) \<and> evmerge (b # r) (tl es) = b # evmerge r (tl es)"
    and "es = [] \<or> \<not> echs_event_lt_p (hd es) b \<and> \<not> echs_event_eq_p (hd es) b \<Longrightarrow>
      evmerge (b # r) es = b # evmerge r es"
proof -
  show "es \<noteq> [] \<and> echs_event_lt_p (hd es) b \<Longrightarrow> evmerge (b # r) es = hd es # evmerge (b # r) (tl es)"
    and "es = [] \<or> \<not> echs_event_lt_p (hd es) b \<and> \<not> echs_event_eq_p (hd es) b \<Longrightarrow>
      evmerge (b # r) es = b # evmerge r es"
    by (cases es; simp)+
  assume eq: "es \<noteq> [] \<and> echs_event_eq_p (hd es) b"
  then obtain e es' where es: "es = e # es'" by (cases es) auto
  have k: "ev_key e = ev_key b" using assms eq es event_eq_key by (auto simp: tidy_Cons)
  show "evmerge (b # r) es = b # evmerge r (tl es) \<and> evmerge (b # r) (tl es) = b # evmerge r (tl es)"
  proof (cases es')
    case (Cons f fs)
    then have "\<not> echs_event_lt_p f b" "\<not> echs_event_eq_p f b"
      using assms(2) eq es k event_eq_trans [of f b e] event_eq_sym [of b e]
      by (auto simp: event_lt_key tidy_Cons)
    with Cons eq es k show ?thesis by (simp add: event_lt_key)
  qed (use eq es k in \<open>simp add: event_lt_key\<close>)
qed

text \<open>The front of the merge of the first \<open>i\<close> lists is the head \<open>b\<close> of list \<open>k\<close>.\<close>

definition picked :: "nat \<Rightarrow> event list list \<Rightarrow> event \<Rightarrow> nat \<Rightarrow> bool" where
  "picked i ess b k \<longleftrightarrow> k < i \<and> ess ! k \<noteq> [] \<and> b = hd (ess ! k) \<and>
     evmerges (take i ess) = b # evmerges (take i (ess[k := tl (ess ! k)]))"

lemma picked_tidy:
  assumes "picked i ess b k" "list_all tidy ess"
  shows "tidy (b # evmerges (take i (ess[k := tl (ess ! k)])))"
proof -
  have "list_all tidy (take i ess)" using assms(2) set_take_subset by (fastforce simp: list_all_iff)
  then show ?thesis using assms(1) tidy_evmerges unfolding picked_def by metis
qed

lemma picked_keep:
  assumes "picked i ess b k" "list_all tidy ess" "i < length ess"
    and "ess ! i = [] \<or> \<not> echs_event_lt_p (hd (ess ! i)) b \<and> \<not> echs_event_eq_p (hd (ess ! i)) b"
  shows "picked (i + 1) ess b k"
proof -
  let ?r = "ess[k := tl (ess ! k)]"
  have "tidy (ess ! i)" using assms(2,3) by (simp add: list_all_length)
  from evmerge_front(3) [OF picked_tidy [OF assms(1,2)] this assms(4)]
  have "evmerge (evmerges (take i ess)) (ess ! i) = b # evmerge (evmerges (take i ?r)) (?r ! i)"
    using assms(1) by (auto simp: picked_def)
  then show ?thesis
    using assms(1,3) unfolding picked_def by (auto simp: nth_split [simplified] evmerges_snoc)
qed

lemma picked_new:
  assumes "picked i ess b k" "list_all tidy ess" "i < length ess"
    and "ess ! i \<noteq> []" "echs_event_lt_p (hd (ess ! i)) b"
  shows "picked (i + 1) ess (hd (ess ! i)) i"
proof -
  have "tidy (ess ! i)" using assms(2,3) by (simp add: list_all_length)
  from evmerge_front(1) [OF picked_tidy [OF assms(1,2)] this] assms
  have "evmerge (evmerges (take i ess)) (ess ! i) = hd (ess ! i) # evmerge (evmerges (take i ess)) (tl (ess ! i))"
    by (auto simp: picked_def)
  then show ?thesis
    using assms(3,4) unfolding picked_def by (auto simp: nth_split [simplified] evmerges_snoc take_update)
qed

lemma evmerges_split: "evmerges ess = foldl evmerge (evmerges (take i ess)) (drop i ess)"
  unfolding evmerges_def by (metis append_take_drop_id foldl_append)

lemma picked_drop:
  assumes "picked i ess b k" "list_all tidy ess" "i < length ess"
    and "ess ! i \<noteq> []" "echs_event_eq_p (hd (ess ! i)) b"
  defines "ess' \<equiv> ess[i := tl (ess ! i)]"
  shows "picked (i + 1) ess' b k" "evmerges ess' = evmerges ess"
proof -
  let ?r = "evmerges (take i (ess[k := tl (ess ! k)]))"
  have "tidy (ess ! i)" using assms(2,3) by (simp add: list_all_length)
  from evmerge_front(2) [OF picked_tidy [OF assms(1,2)] this] assms(4,5)
  have m: "evmerge (b # ?r) (ess ! i) = b # evmerge ?r (tl (ess ! i))"
    "evmerge (b # ?r) (tl (ess ! i)) = b # evmerge ?r (tl (ess ! i))" by auto
  have k: "k < i" "ess ! k \<noteq> []" "b = hd (ess ! k)" "evmerges (take i ess) = b # ?r"
    using assms(1) by (auto simp: picked_def)
  have w: "ess[i := a, k := c] = ess[k := c, i := a]" for a c
    by (rule list_update_swap) (use k(1) in simp)
  have t: "take (i + 1) ess' = take i ess @ [tl (ess ! i)]"
    "take (i + 1) (ess'[k := tl (ess' ! k)]) = take i (ess[k := tl (ess ! k)]) @ [tl (ess ! i)]"
    using k(1) assms(3) by (simp_all add: ess'_def nth_split [simplified] take_update w)
  show "picked (i + 1) ess' b k"
    using k m unfolding picked_def t evmerges_snoc by (simp add: ess'_def)
  have "evmerges (take (i + 1) ess') = evmerges (take (i + 1) ess)"
    using k(4) m assms(3) unfolding t by (simp add: nth_split [simplified] evmerges_snoc)
  then show "evmerges ess' = evmerges ess"
    unfolding evmerges_split [of ess' "i + 1"] evmerges_split [of ess "i + 1"] by (simp add: ess'_def)
qed

text \<open>The first non-empty list is picked.\<close>

lemma mux_first_None: "list_all live ess \<Longrightarrow> mux_first i (map front ess) = None \<longleftrightarrow> list_all (\<lambda>es. es = []) ess"
  by (induction ess arbitrary: i) (auto simp: nul_event_0 [symmetric] live_front)

lemma mux_first_Some:
  assumes "mux_first j (map front ess) = Some k" "list_all tidy ess"
  shows "j \<le> k \<and> k < j + length ess \<and> picked (k - j + 1) ess (front (ess ! (k - j))) (k - j)"
  using assms
proof (induction ess arbitrary: j)
  case (Cons es ess)
  show ?case
  proof (cases es)
    case Nil
    then have "mux_first (j + 1) (map front ess) = Some k" using Cons.prems(1) by simp
    from Cons.IH [OF this] Cons.prems(2)
    have k: "j + 1 \<le> k" "k < j + 1 + length ess"
      and p: "picked (k - (j + 1) + 1) ess (front (ess ! (k - (j + 1)))) (k - (j + 1))" by auto
    define l where "l = k - (j + 1)"
    have l: "k - j = Suc l" using k by (simp add: l_def)
    have "evmerges ([] # xss) = evmerges xss" for xss by (simp add: evmerges_def)
    then have "picked (Suc l + 1) (es # ess) (front (ess ! l)) (Suc l)"
      using p Nil unfolding picked_def l_def [symmetric] by simp
    then show ?thesis using k l by simp
  next
    case (Cons e es')
    then have "k = j" using Cons.prems by (auto simp: tidy_Cons nul_event_0 split: if_splits)
    with Cons show ?thesis by (simp add: picked_def evmerges_def)
  qed
qed simp

section \<open>The mux as a stream\<close>

text \<open>A stream whose pending events are always tidy; what a mux asks of its streams.\<close>

locale tidy_evstrm = evstrm +
  assumes tidy: "good s \<Longrightarrow> tidy (pend s)"

definition mux_pend :: "('s \<Rightarrow> event list) \<Rightarrow> 's evmux \<Rightarrow> event list" where
  "mux_pend pend this = (case mux_s this of None \<Rightarrow> [] | Some ss \<Rightarrow> evmerges (map pend ss))"

definition mux_cached :: "('s \<Rightarrow> event list) \<Rightarrow> 's list \<Rightarrow> event list \<Rightarrow> bool" where
  "mux_cached pend ss ev \<longleftrightarrow> ev = map (\<lambda>s. front (pend s)) ss"

definition mux_good :: "('s \<Rightarrow> event list) \<Rightarrow> ('s \<Rightarrow> bool) \<Rightarrow> 's evmux \<Rightarrow> bool" where
  "mux_good pend good this =
     (case mux_s this of None \<Rightarrow> True
      | Some ss \<Rightarrow> list_all good ss \<and>
          (echs_max_instant_p (ev_from (mux_ev this ! 0)) \<or> mux_cached pend ss (mux_ev this)))"

context tidy_evstrm
begin

lemma precache:
  assumes "list_all good ss"
  shows "\<exists>ss'. mux_precache nxt ss = Some (map (\<lambda>s. front (pend s)) ss, ss') \<and> list_all good ss' \<and>
    map pend ss' = map pend ss"
  using assms
proof (induction ss)
  case (Cons s ss)
  then obtain ss' where "mux_precache nxt ss = Some (map (\<lambda>s. front (pend s)) ss, ss')"
    "list_all good ss'" "map pend ss' = map pend ss" by auto
  moreover have "good s" using Cons.prems by simp
  then obtain s' where "echs_evstrm_next nxt s = Some (front (pend s), s')" "good s'" "pend s' = pend s"
    by (rule peek)
  ultimately show ?case by simp
qed simp

lemma refetch:
  assumes "list_all good ss" "mux_cached pend ss ev" "i < length ss"
  obtains ss' ev' where "mux_refetch nxt i ss ev = Some (ss', ev')" "list_all good ss'"
    "mux_cached pend ss' ev'" "map pend ss' = (map pend ss)[i := tl (pend (ss ! i))]"
proof -
  have "good (ss ! i)" using assms by (simp add: list_all_length)
  then obtain s where s: "echs_evstrm_pop nxt (ss ! i) = Some (front (pend (ss ! i)), s)" "good s"
    "pend s = tl (pend (ss ! i))" by (rule pop)
  obtain s' where s': "echs_evstrm_next nxt s = Some (front (pend s), s')" "good s'" "pend s' = pend s"
    by (rule peek [OF s(2)])
  have "mux_refetch nxt i ss ev = Some (ss[i := s'], ev[i := front (pend s)])"
    using s s' by (simp add: mux_refetch_def)
  moreover have "list_all good (ss[i := s'])"
    using assms(1) s'(2) set_update_subset_insert [of ss i s'] by (auto simp: list_all_iff)
  moreover have "mux_cached pend (ss[i := s']) (ev[i := front (pend s)])"
    using assms(2) s' by (simp add: mux_cached_def map_update)
  moreover have "map pend (ss[i := s']) = (map pend ss)[i := tl (pend (ss ! i))]"
    using s s' by (simp add: map_update)
  ultimately show thesis by (rule that)
qed

lemma all_tidy: "list_all good ss \<Longrightarrow> list_all Evmux.tidy (map pend ss)"
  using tidy by (auto simp: list_all_iff)

lemma scan:
  assumes "list_all good ss" "mux_cached pend ss ev" "i + n = length ss" "picked i (map pend ss) b k"
  shows "\<exists>ss' ev' b' k'. mux_scan nxt n i ss ev b k = Some (ss', ev', b', k') \<and> list_all good ss' \<and>
    mux_cached pend ss' ev' \<and> length ss' = length ss \<and> evmerges (map pend ss') = evmerges (map pend ss) \<and>
    picked (length ss) (map pend ss') b' k'"
  using assms
proof (induction n arbitrary: i ss ev b k)
  case (Suc n)
  let ?e = "pend (ss ! i)"
  have i: "i < length ss" using Suc.prems(3) by simp
  have t: "list_all Evmux.tidy (map pend ss)" using Suc.prems(1) by (rule all_tidy)
  have e: "ev ! i = front ?e" using Suc.prems(2) i by (simp add: mux_cached_def)
  have l: "Event.live ?e" using live Suc.prems(1) i by (simp add: list_all_length)
  have n: "(i + 1) + n = length ss" using Suc.prems(3) by simp
  note keep = picked_keep [OF Suc.prems(4) t] and new = picked_new [OF Suc.prems(4) t]
    and drop = picked_drop [OF Suc.prems(4) t]
  consider (nul) "?e = []" | (lt) "?e \<noteq> []" "echs_event_lt_p (front ?e) b"
    | (eq) "?e \<noteq> []" "\<not> echs_event_lt_p (front ?e) b" "echs_event_eq_p (front ?e) b"
    | (ge) "?e \<noteq> []" "\<not> echs_event_lt_p (front ?e) b" "\<not> echs_event_eq_p (front ?e) b" by blast
  then show ?case
  proof cases
    case nul
    then have "picked (i + 1) (map pend ss) b k" using keep i by simp
    from Suc.IH [OF Suc.prems(1,2) n this] nul e show ?thesis by simp
  next
    case lt
    have f: "hd ?e = front ?e" using lt by (cases ?e) auto
    then have "picked (i + 1) (map pend ss) (front ?e) i" using new i lt by simp
    from Suc.IH [OF Suc.prems(1,2) n this] lt e live_front [OF l] show ?thesis by (simp add: nul_event_0)
  next
    case eq
    have f: "hd ?e = front ?e" using eq by (cases ?e) auto
    obtain ss' ev' where r: "mux_refetch nxt i ss ev = Some (ss', ev')" "list_all good ss'"
      "mux_cached pend ss' ev'" "map pend ss' = (map pend ss)[i := tl ?e]"
      by (rule refetch [OF Suc.prems(1,2) i])
    have len: "length ss' = length ss" using r(4) by (metis length_list_update length_map)
    have "picked (i + 1) (map pend ss') b k" "evmerges (map pend ss') = evmerges (map pend ss)"
      using drop i eq f r(4) by auto
    with Suc.IH [OF r(2,3), of "i + 1"] n len r(1) eq e live_front [OF l]
    show ?thesis by (simp add: nul_event_0)
  next
    case ge
    have f: "hd ?e = front ?e" using ge by (cases ?e) auto
    then have "picked (i + 1) (map pend ss) b k" using keep i ge by simp
    from Suc.IH [OF Suc.prems(1,2) n this] ge e live_front [OF l] show ?thesis by (simp add: nul_event_0)
  qed
qed simp

lemma mux_next:
  assumes "mux_good pend good m"
  shows "\<exists>m'. next_evmux nxt m p = Some (front (mux_pend pend m), m') \<and> mux_good pend good m' \<and>
    mux_pend pend m' = (if p then tl (mux_pend pend m) else mux_pend pend m)"
proof (cases "mux_s m")
  case (Some ss)
  let ?pre = "if echs_max_instant_p (ev_from (mux_ev m ! 0)) then mux_precache nxt ss else Some (mux_ev m, ss)"
  have "\<exists>ss'. ?pre = Some (map (\<lambda>s. front (pend s)) ss, ss') \<and> list_all good ss' \<and> map pend ss' = map pend ss"
    using precache [of ss] assms Some by (auto simp: mux_good_def mux_cached_def)
  then obtain ss' where pre: "?pre = Some (map front (map pend ss), ss')" and g: "list_all good ss'"
    and eq: "map pend ss' = map pend ss" by (auto simp: comp_def)
  have t: "list_all Evmux.tidy (map pend ss)" using all_tidy [OF g] eq by simp
  then have l: "list_all Event.live (map pend ss)" using tidy_live by (auto simp: list_all_iff)
  have len: "length ss' = length ss" using eq by (metis length_map)
  have mp: "mux_pend pend m = evmerges (map pend ss)" using Some by (simp add: mux_pend_def)
  show ?thesis
  proof (cases "mux_first 0 (map front (map pend ss))")
    case None
    then have "mux_pend pend m = []" using mux_first_None [OF l] evmerges_empty mp by simp
    with None Some pre show ?thesis
      by (simp add: next_evmux_def mux_good_def mux_pend_def)
  next
    case (Some i)
    from mux_first_Some [OF this t] eq
    have i: "i < length ss" and pk: "picked (i + 1) (map pend ss') (front (map pend ss ! i)) i" by auto
    have c: "mux_cached pend ss' (map front (map pend ss))"
      unfolding mux_cached_def eq [symmetric] by (simp add: comp_def)
    have n: "(i + 1) + (length ss - (i + 1)) = length ss'" using i len by simp
    obtain ss2 ev2 b k where sc: "mux_scan nxt (length ss - (i + 1)) (i + 1) ss' (map front (map pend ss))
        (front (map pend ss ! i)) i = Some (ss2, ev2, b, k)"
      and g2: "list_all good ss2" and c2: "mux_cached pend ss2 ev2" and len2: "length ss2 = length ss"
      and m2: "evmerges (map pend ss2) = evmerges (map pend ss)" and pk2: "picked (length ss) (map pend ss2) b k"
      using scan [OF g c n pk] len eq by auto
    have k: "k < length ss2" using pk2 len2 by (simp add: picked_def)
    have f: "evmerges (map pend ss) = b # evmerges ((map pend ss2)[k := tl (pend (ss2 ! k))])"
      using pk2 m2 len2 k by (simp add: picked_def)
    obtain ss3 ev3 where r: "mux_refetch nxt k ss2 ev2 = Some (ss3, ev3)" "list_all good ss3"
      "mux_cached pend ss3 ev3" "map pend ss3 = (map pend ss2)[k := tl (pend (ss2 ! k))]"
      by (rule refetch [OF g2 c2 k])
    define ssf evf where "ssf = (if p then ss3 else ss2)" and "evf = (if p then ev3 else ev2)"
    have "next_evmux nxt m p = Some (b, \<lparr>mux_s = Some ssf, mux_ev = evf\<rparr>)"
      unfolding next_evmux_def \<open>mux_s m = Some ss\<close> option.case pre
      using Some sc r(1) i len by (simp add: ssf_def evf_def)
    moreover have "mux_good pend good \<lparr>mux_s = Some ssf, mux_ev = evf\<rparr>"
      using r g2 c2 by (simp add: mux_good_def ssf_def evf_def)
    moreover have "mux_pend pend \<lparr>mux_s = Some ssf, mux_ev = evf\<rparr> =
        (if p then tl (mux_pend pend m) else mux_pend pend m)"
      using f m2 r(4) unfolding mp by (simp add: mux_pend_def ssf_def)
    ultimately show ?thesis using f mp by simp
  qed
qed (use assms in \<open>simp add: next_evmux_def mux_good_def mux_pend_def\<close>)

lemma mux_tidy: "mux_good pend good m \<Longrightarrow> Evmux.tidy (mux_pend pend m)"
  using tidy_evmerges all_tidy by (auto simp: mux_good_def mux_pend_def split: option.splits)

lemma mux_evstrm: "tidy_evstrm (next_evmux nxt) (mux_pend pend) (mux_good pend good)"
proof
  show "mux_good pend good s \<Longrightarrow> \<exists>s'. next_evmux nxt s p = Some (front (mux_pend pend s), s') \<and>
      mux_good pend good s' \<and> mux_pend pend s' = (if p then tl (mux_pend pend s) else mux_pend pend s)" for s p
    by (rule mux_next)
qed (use mux_tidy tidy_live in blast)+

lemma mux_made:
  assumes "list_all good ss" "2 \<le> length ss" "length junk = length ss"
  shows "\<exists>m. make_evmux junk ss = Mux_all m \<and> mux_good pend good m \<and> mux_pend pend m = evmerges (map pend ss)"
proof -
  obtain a b ss' where "ss = a # b # ss'"
    using assms(2) by (metis Suc_le_length_iff numeral_2_eq_2)
  with assms show ?thesis
    by (cases junk) (auto simp: make_evmux_def mux_good_def mux_pend_def echs_max_instant_p_def
        echs_max_instant_def inst_u_def)
qed

end

section \<open>Muxes of event arrays\<close>

definition vev_tidy :: "evical \<Rightarrow> bool" where
  "vev_tidy s \<longleftrightarrow> tidy (vev_pend s)"

interpretation tvev: tidy_evstrm next_evical_vevent vev_pend vev_tidy
proof
  fix s p
  assume g: "vev_tidy s"
  show "\<exists>s'. next_evical_vevent s p = Some (front (vev_pend s), s') \<and> vev_tidy s' \<and>
      vev_pend s' = (if p then tl (vev_pend s) else vev_pend s)"
    using g tidy_tl [of "vev_pend s"] by (auto simp: vev_next vev_tidy_def vev_pend_def tl_drop drop_Suc)
qed (auto simp: vev_tidy_def tidy_live)

interpretation vmux: tidy_evstrm "next_evmux next_evical_vevent" "mux_pend vev_pend"
  "mux_good vev_pend vev_tidy"
  by (rule tvev.mux_evstrm)

lemma vev_make [simp]: "vev_pend (make_evical_vevent es) = es"
  by (simp add: vev_pend_def make_evical_vevent_def)

lemma made_mux:
  assumes "list_all tidy ess" "2 \<le> length ess" "length junk = length ess"
  obtains m where "make_evmux junk (map make_evical_vevent ess) = Mux_all m"
    "mux_good vev_pend vev_tidy m" "mux_pend vev_pend m = evmerges ess"
  using tvev.mux_made [of "map make_evical_vevent ess" junk] assms
  by (auto simp: list_all_iff vev_tidy_def comp_def)

text \<open>
  C6: a mux of event arrays behaves as the stream of their merge, under any sequence of peeks and
  pops: peeking changes nothing that a client can see, and each pop yields the next event of the
  merge, then null events.
\<close>
theorem mux_refines_merge:
  assumes "list_all tidy ess" "2 \<le> length ess" "length junk = length ess"
  shows "(case make_evmux junk (map make_evical_vevent ess) of
      Mux_all m \<Rightarrow> calls (next_evmux next_evical_vevent) ps m = Some (shown ps (evmerges ess))
    | _ \<Rightarrow> False)"
  by (rule made_mux [OF assms]) (simp add: vmux.called)

definition ev_sample :: "int \<Rightarrow> int \<Rightarrow> 64 word \<Rightarrow> event" where
  "ev_sample d h x = echs_nul_event\<lparr>ev_from := inst_sample 2016 1 d h, ev_oid := x\<rparr>"

lemma ev_sample_eval:
  "ev_from (ev_sample d h x) = inst_sample 2016 1 d h" "ev_oid (ev_sample d h x) = x"
  by (simp_all add: ev_sample_def)

lemmas event_eval = ev_sample_eval inst_sample_def inst_bits_def inst_u_def inst_up_def ev_key_def
  echs_nul_event_p_def echs_nul_instant_p_def echs_event_eq_p_def echs_oid_eq_p_def
  echs_instant_eq_p_def event_lt_key

theorem mux_refines_merge_witness:
  "(case make_evmux [echs_nul_event, echs_nul_event] (map make_evical_vevent
        [[ev_sample 1 8 1, ev_sample 3 8 1], [ev_sample 1 8 1, ev_sample 2 8 2]]) of
      Mux_all m \<Rightarrow> calls (next_evmux next_evical_vevent) [True, False, True, True, True] m =
        Some [ev_sample 1 8 1, ev_sample 2 8 2, ev_sample 2 8 2, ev_sample 3 8 1, echs_nul_event]
    | _ \<Rightarrow> False)"
proof -
  let ?ess = "[[ev_sample 1 8 1, ev_sample 3 8 1], [ev_sample 1 8 1, ev_sample 2 8 2]]"
  have "list_all tidy ?ess" by (simp add: event_eval)
  then have "case make_evmux [echs_nul_event, echs_nul_event] (map make_evical_vevent ?ess) of
      Mux_all m \<Rightarrow> calls (next_evmux next_evical_vevent) [True, False, True, True, True] m =
        Some (shown [True, False, True, True, True] (evmerges ?ess)) | _ \<Rightarrow> False"
    by (rule mux_refines_merge) simp_all
  moreover have "shown [True, False, True, True, True] (evmerges ?ess) =
      [ev_sample 1 8 1, ev_sample 2 8 2, ev_sample 2 8 2, ev_sample 3 8 1, echs_nul_event]"
    by (simp add: evmerges_def event_eval)
  ultimately show ?thesis by (simp only: )
qed

text \<open>The merge has the events of its lists, up to the duplicates between them.\<close>

lemma evmerge_from: "e \<in> set (evmerge as bs) \<Longrightarrow> e \<in> set as \<or> e \<in> set bs"
  by (induction as bs rule: evmerge.induct) (auto split: if_splits)

lemma evmerge_has:
  "e \<in> set as \<or> e \<in> set bs \<Longrightarrow> \<exists>e'\<in>set (evmerge as bs). echs_event_eq_p e e'"
proof (induction as bs rule: evmerge.induct)
  case (3 a as b bs)
  then show ?case using event_eq_refl event_eq_sym by (auto 4 3 split: if_splits)
qed (use event_eq_refl in auto)

lemma evmerges_from: "e \<in> set (evmerges ess) \<Longrightarrow> \<exists>es\<in>set ess. e \<in> set es"
proof (induction ess rule: rev_induct)
  case (snoc x ess)
  with evmerge_from [of e "evmerges ess" x] show ?case by (auto simp: evmerges_snoc)
qed (simp add: evmerges_def)

lemma evmerges_has: "es \<in> set ess \<Longrightarrow> e \<in> set es \<Longrightarrow> \<exists>e'\<in>set (evmerges ess). echs_event_eq_p e e'"
proof (induction ess rule: rev_induct)
  case (snoc x ess)
  then obtain e' where "e' \<in> set x \<or> e' \<in> set (evmerges ess)" "echs_event_eq_p e e'"
    using event_eq_refl by auto
  with evmerge_has [of e' "evmerges ess" x] show ?case
    using event_eq_trans by (fastforce simp: evmerges_snoc)
qed simp



text \<open>
  Duplicates are found among the heads only: an event that two streams have at the same time, but
  behind different events of that time, comes twice.
\<close>
lemma mux_keeps_hidden_duplicate:
  "evmerges [[ev_sample 1 8 1], [ev_sample 1 8 2, ev_sample 1 8 1]] =
     [ev_sample 1 8 1, ev_sample 1 8 2, ev_sample 1 8 1]"
  by (simp add: evmerges_def event_eval)

section \<open>Cloning\<close>

text \<open>Cloning copies the cache and clones every stream; an exhausted mux has no clone.\<close>

definition clone_evmux :: "('s \<Rightarrow> 's) \<Rightarrow> 's evmux \<Rightarrow> 's evmux option" where
  "clone_evmux clone this =
     (case mux_s this of None \<Rightarrow> None | Some ss \<Rightarrow> Some (this\<lparr>mux_s := Some (map clone ss)\<rparr>))"

lemma clone_evmux_pend:
  assumes "clone_evmux clone_evical_vevent m = Some c" "mux_good vev_pend vev_tidy m"
  shows "mux_good vev_pend vev_tidy c \<and> mux_pend vev_pend c = mux_pend vev_pend m"
  using assms by (auto simp: clone_evmux_def mux_good_def mux_pend_def mux_cached_def vev_clone
      list_all_iff vev_tidy_def comp_def split: option.splits)

end
