(* ===== verification/Evfilt.thy ===== *)
theory Evfilt
  imports Evmux
begin

text \<open>
  The filter of \<^verbatim>\<open>src/src/evfilt.c\<close>: the events of one stream without those that overlap an
  event of another, the exceptions.  The reference is a function on the lists of pending events
  and exception ranges; \<open>filt_evstrm\<close> shows that the filter is the stream of that list, and the
  properties say when it drops exactly the events it should.
\<close>

section \<open>The code\<close>

record ('e, 'x) evfilt =
  ft_e :: 'e
  ft_x :: 'x
  ft_ex :: range

text \<open>
  The loop at the label \<open>check\<close>: \<open>e\<close> is the event at hand.  It may run forever when a stream has
  no end.
\<close>

partial_function (option) filt_check ::
  "('e \<Rightarrow> bool \<Rightarrow> (event \<times> 'e) option) \<Rightarrow> ('x \<Rightarrow> bool \<Rightarrow> (event \<times> 'x) option) \<Rightarrow>
     ('e, 'x) evfilt \<Rightarrow> event \<Rightarrow> (event \<times> ('e, 'x) evfilt) option" where
  "filt_check nxe nxx this e =
     (if echs_nul_range_p (ft_ex this) then Some (e, this)
      else if echs_range_overlaps_p (echs_event_range e) (ft_ex this)
      then do { (_, s) \<leftarrow> echs_evstrm_pop nxe (ft_e this);
                (e, s) \<leftarrow> echs_evstrm_next nxe s;
                filt_check nxe nxx (this\<lparr>ft_e := s\<rparr>) e }
      else if echs_range_precedes_p (ft_ex this) (echs_event_range e)
      then do { (ex, x) \<leftarrow> echs_evstrm_pop nxx (ft_x this);
                filt_check nxe nxx (this\<lparr>ft_x := x, ft_ex := echs_event_range ex\<rparr>) e }
      else Some (e, this))"

declare filt_check.simps [code]

definition next_evfilt ::
  "('e \<Rightarrow> bool \<Rightarrow> (event \<times> 'e) option) \<Rightarrow> ('x \<Rightarrow> bool \<Rightarrow> (event \<times> 'x) option) \<Rightarrow>
     ('e, 'x) evfilt \<Rightarrow> bool \<Rightarrow> (event \<times> ('e, 'x) evfilt) option" where
  "next_evfilt nxe nxx this popp =
     do { (e, s) \<leftarrow> echs_evstrm_next nxe (ft_e this);
          (e, this) \<leftarrow> filt_check nxe nxx (this\<lparr>ft_e := s\<rparr>) e;
          if popp
          then do { (_, s) \<leftarrow> echs_evstrm_pop nxe (ft_e this); Some (e, this\<lparr>ft_e := s\<rparr>) }
          else Some (e, this) }"

text \<open>The constructor: nothing for no events, the events as they are for no exceptions.\<close>

datatype ('e, 'x) filtered = Filt_null | Filt_same 'e | Filt "('e, 'x) evfilt"

definition make_evfilt ::
  "('x \<Rightarrow> bool \<Rightarrow> (event \<times> 'x) option) \<Rightarrow> 'e option \<Rightarrow> 'x option \<Rightarrow> ('e, 'x) filtered option" where
  "make_evfilt nxx e x =
     (case e of None \<Rightarrow> Some Filt_null
      | Some e \<Rightarrow>
          (case x of None \<Rightarrow> Some (Filt_same e)
           | Some x \<Rightarrow>
               do { (nx, x) \<leftarrow> echs_evstrm_pop nxx x;
                    Some (Filt \<lparr>ft_e = e, ft_x = x, ft_ex = echs_event_range nx\<rparr>) }))"

definition clone_evfilt :: "('e \<Rightarrow> 'e) \<Rightarrow> ('x \<Rightarrow> 'x) \<Rightarrow> ('e, 'x) evfilt \<Rightarrow> ('e, 'x) evfilt" where
  "clone_evfilt cle clx that = \<lparr>ft_e = cle (ft_e that), ft_x = clx (ft_x that), ft_ex = ft_ex that\<rparr>"

section \<open>The reference\<close>

text \<open>The events that pass, from the current exception, the exceptions to come and the events to come.\<close>

fun passes :: "range \<Rightarrow> event list \<Rightarrow> event list \<Rightarrow> event list" where
  "passes ex xs [] = []"
| "passes ex [] (e # es) =
     (if echs_nul_range_p ex then e # es
      else if echs_range_overlaps_p (echs_event_range e) ex then passes ex [] es
      else if echs_range_precedes_p ex (echs_event_range e) then e # es
      else e # passes ex [] es)"
| "passes ex (x # xs) (e # es) =
     (if echs_nul_range_p ex then e # es
      else if echs_range_overlaps_p (echs_event_range e) ex then passes ex (x # xs) es
      else if echs_range_precedes_p ex (echs_event_range e) then passes (echs_event_range x) xs (e # es)
      else e # passes ex (x # xs) es)"

text \<open>The null event's range is the null range, which nothing that begins after it overlaps.\<close>

lemma nul_range: "echs_event_range echs_nul_event = echs_nul_range"
proof -
  have "echs_instant_add echs_nul_instant 0 = echs_nul_instant"
    by code_simp
  then show ?thesis by (simp add: echs_event_range_def echs_nul_event_def echs_nul_range_def)
qed

lemma passes_nul: "echs_nul_range_p ex \<Longrightarrow> passes ex xs es = es"
  by (cases xs; cases es) simp_all

lemma passes_from: "e \<in> set (passes ex xs es) \<Longrightarrow> e \<in> set es"
  by (induction ex xs es rule: passes.induct) (auto split: if_splits)

lemma passes_length: "length (passes ex xs es) \<le> length es"
  by (induction ex xs es rule: passes.induct) auto

text \<open>A range that does not lie before the null instant.\<close>

definition dated :: "range \<Rightarrow> bool" where
  "dated r \<longleftrightarrow> \<not> echs_instant_lt_p (r_beg r) echs_nul_instant \<and> \<not> echs_instant_lt_p (r_end r) echs_nul_instant"

lemma dated_nul:
  assumes "dated ex"
  shows "\<not> echs_range_overlaps_p echs_nul_range ex" "\<not> echs_range_precedes_p ex echs_nul_range"
  using assms by (simp_all add: dated_def echs_range_overlaps_p_def echs_range_precedes_p_def echs_nul_range_def)

lemma nul_range_p: "echs_nul_range_p echs_nul_range"
  by (simp add: echs_nul_range_def echs_nul_range_p_def echs_nul_instant_p_def echs_nul_instant_def inst_u_def)

lemma dated_nul_range: "dated echs_nul_range"
  by (simp add: dated_def echs_nul_range_def echs_instant_lt_p_def)

section \<open>The filter as a stream\<close>

definition filt_pend :: "('e \<Rightarrow> event list) \<Rightarrow> ('x \<Rightarrow> event list) \<Rightarrow> ('e, 'x) evfilt \<Rightarrow> event list" where
  "filt_pend pende pendx this = passes (ft_ex this) (pendx (ft_x this)) (pende (ft_e this))"

definition filt_good ::
  "('e \<Rightarrow> bool) \<Rightarrow> ('x \<Rightarrow> event list) \<Rightarrow> ('x \<Rightarrow> bool) \<Rightarrow> ('e, 'x) evfilt \<Rightarrow> bool" where
  "filt_good goode pendx goodx this \<longleftrightarrow> goode (ft_e this) \<and> goodx (ft_x this) \<and> dated (ft_ex this) \<and>
     list_all (\<lambda>x. dated (echs_event_range x)) (pendx (ft_x this))"

locale filter_streams = e: evstrm nxe pende goode + x: evstrm nxx pendx goodx
  for nxe :: "'e \<Rightarrow> bool \<Rightarrow> (event \<times> 'e) option" and pende goode
    and nxx :: "'x \<Rightarrow> bool \<Rightarrow> (event \<times> 'x) option" and pendx goodx
begin

lemma check:
  assumes "filt_good goode pendx goodx this"
  shows "\<exists>this'. filt_check nxe nxx this (front (pende (ft_e this))) =
      Some (front (filt_pend pende pendx this), this') \<and>
    filt_good goode pendx goodx this' \<and> filt_pend pende pendx this' = filt_pend pende pendx this \<and>
    front (pende (ft_e this')) = front (filt_pend pende pendx this) \<and>
    passes (ft_ex this') (pendx (ft_x this')) (tl (pende (ft_e this'))) = tl (filt_pend pende pendx this)"
  using assms
proof (induction "length (pende (ft_e this)) + length (pendx (ft_x this))" arbitrary: this rule: less_induct)
  case less
  let ?ex = "ft_ex this" and ?xs = "pendx (ft_x this)" and ?es = "pende (ft_e this)"
  have ge: "goode (ft_e this)" and gx: "goodx (ft_x this)" and d: "dated ?ex"
    and dx: "list_all (\<lambda>x. dated (echs_event_range x)) ?xs"
    using less.prems by (auto simp: filt_good_def)
  show ?case
  proof (cases ?es)
    case Nil
    have "filt_check nxe nxx this (front ?es) = Some (front ?es, this)"
      using Nil dated_nul [OF d] by (subst filt_check.simps) (simp add: nul_range)
    with Nil less.prems show ?thesis by (auto simp: filt_pend_def)
  next
    case (Cons e es)
    consider (nul) "echs_nul_range_p ?ex"
      | (over) "\<not> echs_nul_range_p ?ex" "echs_range_overlaps_p (echs_event_range e) ?ex"
      | (prec) "\<not> echs_nul_range_p ?ex" "\<not> echs_range_overlaps_p (echs_event_range e) ?ex"
          "echs_range_precedes_p ?ex (echs_event_range e)"
      | (safe) "\<not> echs_nul_range_p ?ex" "\<not> echs_range_overlaps_p (echs_event_range e) ?ex"
          "\<not> echs_range_precedes_p ?ex (echs_event_range e)" by blast
    then show ?thesis
    proof cases
      case nul
      have "filt_check nxe nxx this (front ?es) = Some (front ?es, this)"
        using nul by (subst filt_check.simps) simp
      with nul less.prems show ?thesis by (auto simp: filt_pend_def passes_nul)
    next
      case over
      obtain s where s: "echs_evstrm_pop nxe (ft_e this) = Some (e, s)" "goode s" "pende s = es"
        using e.pop [OF ge] Cons by auto
      obtain s' where s': "echs_evstrm_next nxe s = Some (front es, s')" "goode s'" "pende s' = es"
        using e.peek [OF s(2)] s(3) by auto
      let ?th = "this\<lparr>ft_e := s'\<rparr>"
      have "filt_check nxe nxx this (front ?es) = filt_check nxe nxx ?th (front (pende (ft_e ?th)))"
        using over s s' Cons by (subst filt_check.simps) simp
      moreover have "filt_pend pende pendx this = filt_pend pende pendx ?th"
        using over Cons s' by (cases ?xs) (simp_all add: filt_pend_def)
      moreover have "filt_good goode pendx goodx ?th"
        using less.prems s' by (simp add: filt_good_def)
      ultimately show ?thesis using less.hyps [of ?th] Cons s' by simp
    next
      case prec
      obtain x' where x': "echs_evstrm_pop nxx (ft_x this) = Some (front ?xs, x')" "goodx x'" "pendx x' = tl ?xs"
        by (rule x.pop [OF gx])
      let ?th = "this\<lparr>ft_x := x', ft_ex := echs_event_range (front ?xs)\<rparr>"
      have eq: "filt_check nxe nxx this (front ?es) = filt_check nxe nxx ?th (front (pende (ft_e ?th)))"
        using prec x' Cons by (subst filt_check.simps) simp
      have g: "filt_good goode pendx goodx ?th"
        using less.prems x' dx dated_nul_range by (cases ?xs) (simp_all add: filt_good_def nul_range)
      show ?thesis
      proof (cases ?xs)
        case Nil
        then have n: "echs_nul_range_p (ft_ex ?th)"
          by (simp add: nul_range nul_range_p)
        have "filt_check nxe nxx ?th (front (pende (ft_e ?th))) = Some (front ?es, ?th)"
          using n Cons by (subst filt_check.simps) simp
        moreover have "filt_pend pende pendx this = ?es"
          using prec Nil Cons by (simp add: filt_pend_def)
        moreover have "passes (ft_ex ?th) (pendx x') zs = zs" for zs
          using n by (rule passes_nul)
        ultimately show ?thesis using eq g by (auto simp: filt_pend_def)
      next
        case (Cons y ys)
        then have "filt_pend pende pendx this = filt_pend pende pendx ?th"
          using prec \<open>?es = e # es\<close> x' by (simp add: filt_pend_def)
        with less.hyps [of ?th] eq g Cons x' show ?thesis by simp
      qed
    next
      case safe
      have "filt_check nxe nxx this (front ?es) = Some (front ?es, this)"
        using safe Cons by (subst filt_check.simps) simp
      with safe Cons less.prems show ?thesis by (cases ?xs) (auto simp: filt_pend_def)
    qed
  qed
qed

lemma filt_evstrm: "evstrm (next_evfilt nxe nxx) (filt_pend pende pendx) (filt_good goode pendx goodx)"
proof
  fix s p
  assume g: "filt_good goode pendx goodx s"
  then have ge: "goode (ft_e s)" by (simp add: filt_good_def)
  obtain s1 where s1: "echs_evstrm_next nxe (ft_e s) = Some (front (pende (ft_e s)), s1)" "goode s1"
    "pende s1 = pende (ft_e s)" by (rule e.peek [OF ge])
  let ?s = "s\<lparr>ft_e := s1\<rparr>" and ?out = "filt_pend pende pendx s"
  have eq: "filt_pend pende pendx ?s = ?out" "filt_good goode pendx goodx ?s"
    using g s1 by (simp_all add: filt_pend_def filt_good_def)
  from check [OF eq(2)] s1 eq(1) obtain t where t:
    "filt_check nxe nxx ?s (front (pende (ft_e s))) = Some (front ?out, t)" "filt_good goode pendx goodx t"
    "filt_pend pende pendx t = ?out" "passes (ft_ex t) (pendx (ft_x t)) (tl (pende (ft_e t))) = tl ?out"
    by auto
  have "goode (ft_e t)" using t(2) by (simp add: filt_good_def)
  then obtain s2 where s2: "echs_evstrm_pop nxe (ft_e t) = Some (front (pende (ft_e t)), s2)" "goode s2"
    "pende s2 = tl (pende (ft_e t))" by (rule e.pop)
  let ?t = "if p then t\<lparr>ft_e := s2\<rparr> else t"
  have "next_evfilt nxe nxx s p = Some (front ?out, ?t)"
    using s1(1) t(1) s2(1) by (simp add: next_evfilt_def)
  moreover have "filt_good goode pendx goodx ?t" using t(2) s2(2) by (simp add: filt_good_def)
  moreover have "filt_pend pende pendx ?t = (if p then tl ?out else ?out)"
    using t(3,4) s2(3) by (simp add: filt_pend_def)
  ultimately show "\<exists>s'. next_evfilt nxe nxx s p = Some (front ?out, s') \<and> filt_good goode pendx goodx s' \<and>
      filt_pend pende pendx s' = (if p then tl ?out else ?out)" by blast
next
  fix s
  assume "filt_good goode pendx goodx s"
  then have "live (pende (ft_e s))" using e.live by (simp add: filt_good_def)
  then show "live (filt_pend pende pendx s)"
    using passes_from by (fastforce simp: live_def list_all_iff filt_pend_def)
qed

end

section \<open>Filtering event arrays and muxes\<close>

interpretation vfs: filter_streams next_evical_vevent vev_pend vev_good next_evical_vevent vev_pend vev_good
  by unfold_locales

interpretation vfilt: evstrm "next_evfilt next_evical_vevent next_evical_vevent"
  "filt_pend vev_pend vev_pend" "filt_good vev_good vev_pend vev_good"
  by (rule vfs.filt_evstrm)

interpretation mfs: filter_streams "next_evmux next_evical_vevent" "mux_pend vev_pend"
  "mux_good vev_pend vev_tidy" next_evical_vevent vev_pend vev_good
  by unfold_locales

interpretation mfilt: evstrm "next_evfilt (next_evmux next_evical_vevent) next_evical_vevent"
  "filt_pend (mux_pend vev_pend) vev_pend" "filt_good (mux_good vev_pend vev_tidy) vev_pend vev_good"
  by (rule mfs.filt_evstrm)

section \<open>When exactly the right events pass\<close>

text \<open>What the code assumes of both streams: chronological, with instants that lie within their fields.\<close>

definition filterable :: "event list \<Rightarrow> event list \<Rightarrow> bool" where
  "filterable es xs \<longleftrightarrow> live es \<and> live xs \<and> sorted (map ev_key es) \<and> sorted (map ev_key xs) \<and>
     list_all (\<lambda>e. inst_bits (ev_from e)) es \<and>
     list_all (\<lambda>x. inst_bits (r_end (echs_event_range x)) \<and> \<not> echs_nul_range_p (echs_event_range x) \<and>
       dated (echs_event_range x)) xs"

definition hit :: "event list \<Rightarrow> event \<Rightarrow> bool" where
  "hit xs e \<longleftrightarrow> list_ex (\<lambda>x. echs_range_overlaps_p (echs_event_range e) (echs_event_range x)) xs"

definition meets_none :: "event list \<Rightarrow> event list \<Rightarrow> bool" where
  "meets_none xs es \<longleftrightarrow>
     list_all (\<lambda>x. list_all (\<lambda>e. \<not> echs_range_meets_p (echs_event_range x) (echs_event_range e)) es) xs"

lemma range_beg [simp]: "r_beg (echs_event_range e) = ev_from e"
  by (simp add: echs_event_range_def)

text \<open>No event that overlaps no exception is lost, whatever the order.\<close>

lemma passes_keeps:
  "e \<in> set es \<Longrightarrow> \<not> echs_range_overlaps_p (echs_event_range e) ex \<Longrightarrow> \<not> hit xs e \<Longrightarrow> e \<in> set (passes ex xs es)"
  by (induction ex xs es rule: passes.induct) (auto simp: hit_def)

text \<open>An exception before an event is before all later events.\<close>

lemma before_later:
  assumes "echs_range_precedes_p r (echs_event_range e)" "ev_key e \<le> ev_key f"
  shows "\<not> echs_range_overlaps_p (echs_event_range f) r"
  using assms by (auto simp: echs_range_precedes_p_def echs_range_overlaps_p_def echs_instant_lt_p_def ev_key_def)

text \<open>An event that ends before an exception begins ends before all later exceptions.\<close>

lemma after_earlier:
  assumes "inst_bits (r_end r)" "inst_bits (ev_from e)"
    and "\<not> echs_range_overlaps_p (echs_event_range e) r" "\<not> echs_range_precedes_p r (echs_event_range e)"
    and "\<not> echs_range_meets_p r (echs_event_range e)"
    and "inst_u (inst_up (r_beg r)) \<le> ev_key x"
  shows "\<not> echs_range_overlaps_p (echs_event_range e) (echs_event_range x)"
  using assms inst_lt_total [OF assms(1,2)]
  by (auto simp: echs_range_precedes_p_def echs_range_overlaps_p_def echs_range_meets_p_def
      echs_instant_lt_p_def echs_instant_eq_p_def ev_key_def)

lemma passes_exact:
  assumes "filterable es (x # xs)" "meets_none (x # xs) es"
  shows "passes (echs_event_range x) xs es = filter (\<lambda>e. \<not> hit (x # xs) e) es"
  using assms
proof (induction "length es + length xs" arbitrary: x xs es rule: less_induct)
  case less
  let ?r = "echs_event_range x"
  show ?case
  proof (cases es)
    case (Cons e es')
    have ok: "\<not> echs_nul_range_p ?r" "inst_bits (r_end ?r)" "inst_bits (ev_from e)"
      "\<not> echs_range_meets_p ?r (echs_event_range e)"
      and later: "\<forall>f\<in>set es'. ev_key e \<le> ev_key f" and next_x: "\<forall>y\<in>set xs. ev_key x \<le> ev_key y"
      using less.prems Cons by (auto simp: filterable_def meets_none_def)
    have rest: "filterable es' (x # xs)" "meets_none (x # xs) es'"
      using less.prems Cons by (auto simp: filterable_def meets_none_def list_all_iff)
    have IH: "passes ?r xs es' = filter (\<lambda>e. \<not> hit (x # xs) e) es'"
      using less.hyps [OF _ rest] Cons by simp
    consider (over) "echs_range_overlaps_p (echs_event_range e) ?r"
      | (prec) "\<not> echs_range_overlaps_p (echs_event_range e) ?r" "echs_range_precedes_p ?r (echs_event_range e)"
      | (safe) "\<not> echs_range_overlaps_p (echs_event_range e) ?r" "\<not> echs_range_precedes_p ?r (echs_event_range e)"
      by blast
    then show ?thesis
    proof cases
      case over
      then have "passes ?r xs es = passes ?r xs es'" using ok Cons by (cases xs) simp_all
      with IH over Cons show ?thesis by (simp add: hit_def)
    next
      case prec
      have drop: "hit (x # xs) f = hit xs f" if "f \<in> set es" for f
        using before_later [OF prec(2), of f] prec(1) later that Cons by (auto simp: hit_def)
      show ?thesis
      proof (cases xs)
        case Nil
        with prec ok Cons have "passes ?r xs es = es" by simp
        moreover have "filter (\<lambda>e. \<not> hit (x # xs) e) es = es"
          unfolding filter_id_conv using drop Nil by (simp add: hit_def)
        ultimately show ?thesis by simp
      next
        case (Cons y ys)
        have "filterable es (y # ys)" "meets_none (y # ys) es"
          using less.prems Cons by (auto simp: filterable_def meets_none_def list_all_iff)
        then have "passes (echs_event_range y) ys es = filter (\<lambda>e. \<not> hit xs e) es"
          using less.hyps Cons by simp
        moreover have "passes ?r xs es = passes (echs_event_range y) ys es"
          using prec ok Cons \<open>es = e # es'\<close> by simp
        ultimately show ?thesis using drop by (simp cong: filter_cong)
      qed
    next
      case safe
      have "\<not> hit (x # xs) e"
        using safe after_earlier [OF ok(2,3) safe ok(4)] next_x
        by (auto simp: hit_def list_ex_iff ev_key_def)
      moreover have "passes ?r xs es = e # passes ?r xs es'" using safe ok Cons by (cases xs) simp_all
      ultimately show ?thesis using IH Cons by simp
    qed
  qed simp
qed

lemma made_filter:
  assumes "live es" "live xs" "list_all (\<lambda>x. dated (echs_event_range x)) xs"
  obtains f where "make_evfilt next_evical_vevent (Some (make_evical_vevent es)) (Some (make_evical_vevent xs)) = Some (Filt f)"
    "filt_good vev_good vev_pend vev_good f"
    "filt_pend vev_pend vev_pend f = (case xs of [] \<Rightarrow> es | x # xs \<Rightarrow> passes (echs_event_range x) xs es)"
proof -
  have g: "vev_good (make_evical_vevent xs)" "vev_good (make_evical_vevent es)"
    using assms by (simp_all add: vev_good_def)
  obtain x' where x: "echs_evstrm_pop next_evical_vevent (make_evical_vevent xs) = Some (front xs, x')"
    "vev_good x'" "vev_pend x' = tl xs" using vev.pop [OF g(1)] by auto
  let ?f = "\<lparr>ft_e = make_evical_vevent es, ft_x = x', ft_ex = echs_event_range (front xs)\<rparr>"
  have "make_evfilt next_evical_vevent (Some (make_evical_vevent es)) (Some (make_evical_vevent xs)) = Some (Filt ?f)"
    using x(1) by (simp add: make_evfilt_def)
  moreover have "filt_good vev_good vev_pend vev_good ?f"
    using g x assms(3) dated_nul_range by (cases xs) (simp_all add: filt_good_def nul_range)
  moreover have "filt_pend vev_pend vev_pend ?f = (case xs of [] \<Rightarrow> es | x # xs \<Rightarrow> passes (echs_event_range x) xs es)"
    using x(3) by (cases xs) (simp_all add: filt_pend_def nul_range passes_nul nul_range_p)
  ultimately show thesis by (rule that)
qed

lemma made_exact:
  assumes "filterable es xs" "meets_none xs es"
  obtains f where "make_evfilt next_evical_vevent (Some (make_evical_vevent es)) (Some (make_evical_vevent xs)) = Some (Filt f)"
    "filt_good vev_good vev_pend vev_good f" "filt_pend vev_pend vev_pend f = filter (\<lambda>e. \<not> hit xs e) es"
proof (rule made_filter)
  fix f
  assume f: "make_evfilt next_evical_vevent (Some (make_evical_vevent es)) (Some (make_evical_vevent xs)) = Some (Filt f)"
    "filt_good vev_good vev_pend vev_good f"
    "filt_pend vev_pend vev_pend f = (case xs of [] \<Rightarrow> es | x # xs \<Rightarrow> passes (echs_event_range x) xs es)"
  have "filt_pend vev_pend vev_pend f = filter (\<lambda>e. \<not> hit xs e) es"
    using f(3) passes_exact assms(1,2) by (cases xs) (simp_all add: hit_def)
  with f(1,2) show ?thesis by (rule that)
qed (use assms(1) in \<open>auto simp: filterable_def list_all_iff\<close>)

text \<open>
  C7: filtering an array of events by an array of exceptions, both chronological, gives exactly the
  events that overlap no exception, when no exception ends at the very instant an event begins.
\<close>
theorem filter_exact:
  assumes "filterable es xs" "meets_none xs es" "length es < n"
  shows "\<exists>f. make_evfilt next_evical_vevent (Some (make_evical_vevent es)) (Some (make_evical_vevent xs)) =
      Some (Filt f) \<and>
    drain (next_evfilt next_evical_vevent next_evical_vevent) n f = Some (filter (\<lambda>e. \<not> hit xs e) es)"
proof (rule made_exact [OF assms(1,2)])
  fix f
  assume f: "make_evfilt next_evical_vevent (Some (make_evical_vevent es)) (Some (make_evical_vevent xs)) = Some (Filt f)"
    "filt_good vev_good vev_pend vev_good f" "filt_pend vev_pend vev_pend f = filter (\<lambda>e. \<not> hit xs e) es"
  have "length (filt_pend vev_pend vev_pend f) < n"
    using le_less_trans [OF length_filter_le assms(3)] f(3) by simp
  from vfilt.drained [OF f(2) this] f(1,3) show ?thesis by simp
qed

definition day_event :: "int \<Rightarrow> event" where
  "day_event d = echs_nul_event\<lparr>ev_from := \<lparr>i_y = 2016, i_m = 1, i_d = d, i_H = 255, i_M = 0, i_S = 0, i_ms = 0\<rparr>,
     ev_dur := 86400000, ev_oid := 1\<rparr>"

lemma day_event_range:
  "echs_event_range (day_event 1) = \<lparr>r_beg = ev_from (day_event 1), r_end = ev_from (day_event 2)\<rparr>"
  "echs_event_range (day_event 2) = \<lparr>r_beg = ev_from (day_event 2), r_end = ev_from (day_event 3)\<rparr>"
  "echs_event_range (day_event 3) = \<lparr>r_beg = ev_from (day_event 3), r_end = ev_from (day_event 4)\<rparr>"
  "echs_event_range (day_event 5) = \<lparr>r_beg = ev_from (day_event 5), r_end = ev_from (day_event 6)\<rparr>"
  by code_simp+

lemma day_event_from:
  "ev_from (day_event d) = \<lparr>i_y = 2016, i_m = 1, i_d = d, i_H = 255, i_M = 0, i_S = 0, i_ms = 0\<rparr>"
  by (simp add: day_event_def)

lemmas day_eval = day_event_from inst_bits_def inst_u_def inst_up_def
  ev_key_def echs_nul_event_p_def echs_nul_instant_p_def echs_nul_range_p_def echs_nul_instant_def
  echs_instant_lt_p_def echs_instant_eq_p_def dated_def echs_range_overlaps_p_def
  echs_range_meets_p_def echs_range_precedes_p_def

theorem filter_exact_witness:
  "\<exists>f. make_evfilt next_evical_vevent (Some (make_evical_vevent [day_event 1, day_event 3, day_event 5]))
      (Some (make_evical_vevent [day_event 1, day_event 3])) = Some (Filt f) \<and>
    drain (next_evfilt next_evical_vevent next_evical_vevent) 4 f = Some [day_event 5]"
proof -
  have h: "filterable [day_event 1, day_event 3, day_event 5] [day_event 1, day_event 3]"
    by (simp add: filterable_def day_event_range day_eval)
  have m: "meets_none [day_event 1, day_event 3] [day_event 1, day_event 3, day_event 5]"
    by (simp add: meets_none_def day_event_range day_eval)
  have f: "filter (\<lambda>e. \<not> hit [day_event 1, day_event 3] e) [day_event 1, day_event 3, day_event 5] = [day_event 5]"
    by (simp add: hit_def day_event_range day_eval)
  show ?thesis using filter_exact [OF h m, of 4] unfolding f by simp
qed

text \<open>
  C30: over a mux of event arrays too, no event that overlaps no exception is lost, and every
  event that passes is one of the mux, whatever the order and the distances of the exceptions.
\<close>
theorem mux_filter_safe:
  assumes "list_all tidy ess" "2 \<le> length ess" "length junk = length ess"
    and "live xs" "list_all (\<lambda>x. dated (echs_event_range x)) xs" "length (evmerges ess) < n"
  shows "\<exists>m f out. make_evmux junk (map make_evical_vevent ess) = Mux_all m \<and>
    make_evfilt next_evical_vevent (Some m) (Some (make_evical_vevent xs)) = Some (Filt f) \<and>
    drain (next_evfilt (next_evmux next_evical_vevent) next_evical_vevent) n f = Some out \<and>
    set out \<subseteq> set (evmerges ess) \<and> (\<forall>e\<in>set (evmerges ess). hit xs e \<or> e \<in> set out)"
proof (rule made_mux [OF assms(1-3)])
  fix m
  assume m: "make_evmux junk (map make_evical_vevent ess) = Mux_all m"
    "mux_good vev_pend vev_tidy m" "mux_pend vev_pend m = evmerges ess"
  have "vev_good (make_evical_vevent xs)" using assms(4) by (simp add: vev_good_def)
  then obtain x' where x: "echs_evstrm_pop next_evical_vevent (make_evical_vevent xs) = Some (front xs, x')"
    "vev_good x'" "vev_pend x' = tl xs" using vev.pop by (metis vev_make)
  define f where "f = \<lparr>ft_e = m, ft_x = x', ft_ex = echs_event_range (front xs)\<rparr>"
  have "make_evfilt next_evical_vevent (Some m) (Some (make_evical_vevent xs)) = Some (Filt f)"
    using x(1) by (simp add: make_evfilt_def f_def)
  moreover have g: "filt_good (mux_good vev_pend vev_tidy) vev_pend vev_good f"
    using m(2) x assms(5) dated_nul_range by (cases xs) (simp_all add: filt_good_def nul_range f_def)
  moreover define out where "out = filt_pend (mux_pend vev_pend) vev_pend f"
  have o: "out = passes (echs_event_range (front xs)) (tl xs) (evmerges ess)"
    using m(3) x(3) by (simp add: out_def filt_pend_def f_def)
  have "length out < n"
    using le_less_trans [OF passes_length assms(6)] o by simp
  then have "drain (next_evfilt (next_evmux next_evical_vevent) next_evical_vevent) n f = Some out"
    using mfilt.drained [OF g] by (simp add: out_def)
  moreover have "set out \<subseteq> set (evmerges ess)" using passes_from o by blast
  moreover have "hit xs e \<or> e \<in> set out" if "e \<in> set (evmerges ess)" for e
  proof (cases xs)
    case Nil
    then have "echs_nul_range_p (echs_event_range (front xs))"
      by (simp add: nul_range nul_range_p)
    then show ?thesis using that by (simp add: o passes_nul)
  next
    case (Cons y ys)
    then show ?thesis using passes_keeps that by (auto simp: o hit_def)
  qed
  ultimately show ?thesis using m(1) by blast
qed

theorem mux_filter_safe_witness:
  "\<exists>m f out. make_evmux [day_event 9, day_event 9] (map make_evical_vevent [[day_event 1], [day_event 3]]) = Mux_all m \<and>
    make_evfilt next_evical_vevent (Some m) (Some (make_evical_vevent [day_event 1])) = Some (Filt f) \<and>
    drain (next_evfilt (next_evmux next_evical_vevent) next_evical_vevent) 4 f = Some out \<and>
    set out \<subseteq> {day_event 1, day_event 3} \<and> day_event 3 \<in> set out"
proof -
  have e: "evmerges [[day_event 1], [day_event 3]] = [day_event 1, day_event 3]"
    by (simp add: evmerges_def event_lt_key echs_event_eq_p_def day_eval)
  have h: "\<not> hit [day_event 1] (day_event 3)"
    by (simp add: hit_def day_event_range day_eval)
  have "list_all tidy [[day_event 1], [day_event 3]]" "live [day_event 1]"
    "list_all (\<lambda>x. dated (echs_event_range x)) [day_event 1]"
    by (simp_all add: day_event_range day_eval)
  note w = mux_filter_safe [OF this(1) _ _ this(2,3), of "[day_event 9, day_event 9]" 4]
  show ?thesis using w h unfolding e by simp blast
qed

text \<open>
  An exception that ends where an event begins neither overlaps nor precedes it, so the search
  stops there and the next exception is not looked at: of three all-day events with the first two
  excluded, only the first is dropped.  An event of no duration overlaps nothing, not even an
  exception of its own instant, and is never dropped.
\<close>

lemma adjacent_exceptions_missed:
  "passes (echs_event_range (day_event 1)) [day_event 2] [day_event 1, day_event 2, day_event 3] =
     [day_event 2, day_event 3]"
  by (simp add: day_event_range day_eval)

lemma instant_event_not_excluded:
  assumes "ev_dur e = 0" "echs_event_range e = \<lparr>r_beg = ev_from e, r_end = ev_from e\<rparr>"
  shows "passes (echs_event_range e) xs [e] = [e]"
  using assms(2) by (cases xs) (simp_all add: echs_range_overlaps_p_def echs_range_precedes_p_def echs_instant_lt_p_def)

end
