(* ===== verification/Unroll.thy ===== *)
theory Unroll
  imports Evfilt Scale RruleFill
begin

text \<open>
  The commands of \<^verbatim>\<open>src/src/echse.c\<close> as clients of event streams: \<open>echse unroll\<close>, which prints
  the events between two instants, and the skipping of past events of \<open>echse merge\<close>.  Printing an
  event is a parameter-free effect: the model returns the list of events that are printed.  The
  optional filter is \<open>echs_instant_matches_p\<close> of \<^verbatim>\<open>src/src/evrrul.c\<close>, which keeps a list of
  instants of the filter's rule between its calls.
\<close>

record unroll_param =
  p_from :: instant
  p_till :: instant

text \<open>
  \<open>unroll_frmt\<close> with the filter as a state-passing function \<open>flt\<close>, present when the
  rule has a frequency.
\<close>

partial_function (option) unroll_frmt ::
  "('s \<Rightarrow> bool \<Rightarrow> (event \<times> 's) option) \<Rightarrow> unroll_param \<Rightarrow> ('f \<Rightarrow> instant \<Rightarrow> (bool \<times> 'f) option) option \<Rightarrow>
     'f \<Rightarrow> 's \<Rightarrow> event list option" where
  "unroll_frmt nxt p flt f smux =
     do { (e, smux) \<leftarrow> echs_evstrm_pop nxt smux;
          if echs_event_0_p e then Some []
          else let e = e\<lparr>ev_from := echs_instant_detach_scale (ev_from e)\<rparr>
               in if echs_instant_lt_p (p_till p) (ev_from e) then Some []
                  else if echs_instant_lt_p (ev_from e) (p_from p) then unroll_frmt nxt p flt f smux
                  else case flt of
                    None \<Rightarrow> do { es \<leftarrow> unroll_frmt nxt p flt f smux; Some (e # es) }
                  | Some m \<Rightarrow>
                      do { (ok, f) \<leftarrow> m f (ev_from e);
                           es \<leftarrow> unroll_frmt nxt p flt f smux;
                           Some (if ok then e # es else es) } }"

declare unroll_frmt.simps [code]

partial_function (option) unroll_ical ::
  "('s \<Rightarrow> bool \<Rightarrow> (event \<times> 's) option) \<Rightarrow> unroll_param \<Rightarrow> 's \<Rightarrow> event list option" where
  "unroll_ical nxt p smux =
     do { (e, smux) \<leftarrow> echs_evstrm_pop nxt smux;
          if echs_event_0_p e then Some []
          else let ebeg = echs_instant_detach_scale (ev_from e)
               in if echs_instant_lt_p ebeg (p_from p) then unroll_ical nxt p smux
                  else if echs_instant_lt_p (p_till p) ebeg then Some []
                  else do { es \<leftarrow> unroll_ical nxt p smux; Some (e # es) } }"

declare unroll_ical.simps [code]

text \<open>The unwinding in \<open>_merge_fd\<close>: events before the given instant are skipped.\<close>

definition merge_unwind ::
  "('s \<Rightarrow> bool \<Rightarrow> (event \<times> 's) option) \<Rightarrow> instant \<Rightarrow> 's \<Rightarrow> (event \<times> 's) option" where
  "merge_unwind nxt unr_till s = unwind nxt (\<lambda>e. echs_instant_lt_p (ev_from e) unr_till) s"

section \<open>Rules as a query\<close>

record whitelist =
  wl_wl :: "instant list"
  wl_never :: bool
  wl_i :: nat

text \<open>
  Fast-forward, refill when the list is used up, and fast-forward again; \<open>nwl\<close> is the length of
  the list, \<open>-1\<close> once a refill came up empty.
\<close>

fun ffw :: "instant list \<Rightarrow> instant \<Rightarrow> nat \<Rightarrow> nat \<Rightarrow> nat" where
  "ffw wl i 0 iwl = iwl"
| "ffw wl i (Suc n) iwl = (if echs_instant_lt_p (wl ! iwl) i then ffw wl i n (iwl + 1) else iwl)"

partial_function (option) matches_ffw ::
  "rrulsp \<Rightarrow> whitelist \<Rightarrow> instant \<Rightarrow> (bool \<times> whitelist) option" where
  "matches_ffw filt st inst =
     (let st = st\<lparr>wl_i := ffw (wl_wl st) inst (length (wl_wl st) - wl_i st) (wl_i st)\<rparr>
      in if length (wl_wl st) \<le> wl_i st
         then let wl = map fst (rrul_fill_yly (inst\<lparr>i_d := 0\<rparr>) 256 filt)
              in if wl = [] then Some (False, st\<lparr>wl_wl := wl, wl_never := True\<rparr>)
                 else matches_ffw filt (st\<lparr>wl_wl := wl, wl_i := 0\<rparr>) inst
         else Some (echs_instant_eq_p (wl_wl st ! wl_i st) inst, st))"

declare matches_ffw.simps [code]

definition echs_instant_matches_p ::
  "rrulsp \<Rightarrow> whitelist \<Rightarrow> instant \<Rightarrow> (bool \<times> whitelist) option" where
  "echs_instant_matches_p filt st inst =
     (if wl_never st then Some (False, st) else matches_ffw filt st inst)"

text \<open>Fast-forwarding stops at the first instant that is not before the given one.\<close>

lemma ffw_spec:
  "n = length wl - iwl \<Longrightarrow> iwl \<le> length wl \<Longrightarrow>
     iwl \<le> ffw wl i n iwl \<and> ffw wl i n iwl \<le> length wl \<and>
     (\<forall>k. iwl \<le> k \<and> k < ffw wl i n iwl \<longrightarrow> echs_instant_lt_p (wl ! k) i) \<and>
     (ffw wl i n iwl < length wl \<longrightarrow> \<not> echs_instant_lt_p (wl ! ffw wl i n iwl) i)"
proof (induction n arbitrary: iwl)
  case (Suc n)
  show ?case
  proof (cases "echs_instant_lt_p (wl ! iwl) i")
    case True
    let ?r = "ffw wl i n (iwl + 1)"
    have n: "n = length wl - (iwl + 1)" "iwl + 1 \<le> length wl" using Suc.prems by simp_all
    have IH: "iwl + 1 \<le> ?r" "?r \<le> length wl" "\<forall>k. iwl + 1 \<le> k \<and> k < ?r \<longrightarrow> echs_instant_lt_p (wl ! k) i"
      "?r < length wl \<longrightarrow> \<not> echs_instant_lt_p (wl ! ?r) i"
      using Suc.IH [OF n] by blast+
    have "echs_instant_lt_p (wl ! k) i" if "iwl \<le> k" "k < ?r" for k
      using that IH(3) True by (cases "k = iwl") simp_all
    moreover have "ffw wl i (Suc n) iwl = ?r" using True by simp
    ultimately show ?thesis using IH by (simp only:) (simp add: IH)
  next
    case False
    then have r: "ffw wl i (Suc n) iwl = iwl" by simp
    show ?thesis unfolding r using False Suc.prems(2) by auto
  qed
qed auto

section \<open>What is printed\<close>

definition shown_from :: "event \<Rightarrow> instant" where
  "shown_from e = echs_instant_detach_scale (ev_from e)"

definition past_till :: "unroll_param \<Rightarrow> event \<Rightarrow> bool" where
  "past_till p e \<longleftrightarrow> echs_instant_lt_p (p_till p) (shown_from e)"

definition before_from :: "unroll_param \<Rightarrow> event \<Rightarrow> bool" where
  "before_from p e \<longleftrightarrow> echs_instant_lt_p (shown_from e) (p_from p)"

definition printed :: "unroll_param \<Rightarrow> event list \<Rightarrow> event list" where
  "printed p es =
     map (\<lambda>e. e\<lparr>ev_from := shown_from e\<rparr>)
       (filter (\<lambda>e. \<not> before_from p e) (takeWhile (\<lambda>e. \<not> past_till p e) es))"

lemma printed_simps [simp]:
  "printed p [] = []"
  "printed p (e # es) =
     (if past_till p e then [] else if before_from p e then printed p es
      else e\<lparr>ev_from := shown_from e\<rparr> # printed p es)"
  by (simp_all add: printed_def)

context evstrm
begin

lemma unroll: "good s \<Longrightarrow> unroll_frmt nxt p None f s = Some (printed p (pend s))"
proof (induction "pend s" arbitrary: s)
  case Nil
  obtain s' where "echs_evstrm_pop nxt s = Some (echs_nul_event, s')"
    using pop [OF Nil.prems] Nil.hyps by (metis front_simps(1))
  then show ?case using Nil.hyps by (subst unroll_frmt.simps) simp
next
  case (Cons e es)
  obtain s' where s': "echs_evstrm_pop nxt s = Some (e, s')" "good s'" "es = pend s'"
    using pop [OF Cons.prems] Cons.hyps(2) [symmetric] by (metis front_simps(2) list.sel(3))
  have e: "\<not> echs_event_0_p e" using live [OF Cons.prems] Cons.hyps(2) by (auto simp: nul_event_0 [symmetric] Event.live_def list_all_iff dest: sym)
  show ?case
    using Cons.hyps(1) [OF s'(3,2)] s' e Cons.hyps(2) [symmetric]
    by (subst unroll_frmt.simps) (simp add: Let_def past_till_def before_from_def shown_from_def)
qed

end

lemma sorted_takeWhile:
  "sorted (map f es) \<Longrightarrow> takeWhile (\<lambda>e. \<not> (c :: int) < f e) es = filter (\<lambda>e. \<not> c < f e) es"
proof (induction es)
  case (Cons e es)
  have "filter (\<lambda>e. \<not> c < f e) es = []" if "c < f e" using Cons.prems that by (auto simp: filter_empty_conv)
  with Cons show ?case by simp
qed simp

lemma printed_window:
  assumes "sorted (map ev_key hs)" "\<forall>e\<in>set hs. shown_from e = ev_from e"
  shows "printed p hs = filter (\<lambda>e. \<not> echs_instant_lt_p (ev_from e) (p_from p) \<and> \<not> echs_instant_lt_p (p_till p) (ev_from e)) hs"
proof -
  let ?k = "inst_u (inst_up (p_till p))"
  have till: "past_till p e \<longleftrightarrow> ?k < ev_key e" if "e \<in> set hs" for e
    using assms(2) that by (simp add: past_till_def echs_instant_lt_p_def ev_key_def)
  have "takeWhile (\<lambda>e. \<not> past_till p e) hs = takeWhile (\<lambda>e. \<not> ?k < ev_key e) hs"
    by (rule takeWhile_cong) (simp_all add: till)
  also have "\<dots> = filter (\<lambda>e. \<not> ?k < ev_key e) hs"
    by (rule sorted_takeWhile) fact
  finally have "printed p hs = map (\<lambda>e. e\<lparr>ev_from := shown_from e\<rparr>)
      (filter (\<lambda>e. \<not> before_from p e) (filter (\<lambda>e. \<not> ?k < ev_key e) hs))"
    by (simp add: printed_def)
  also have "\<dots> = filter (\<lambda>e. \<not> before_from p e) (filter (\<lambda>e. \<not> ?k < ev_key e) hs)"
    by (rule map_idI) (use assms(2) in auto)
  also have "\<dots> = filter (\<lambda>e. \<not> echs_instant_lt_p (ev_from e) (p_from p) \<and> \<not> echs_instant_lt_p (p_till p) (ev_from e)) hs"
    unfolding filter_filter by (rule filter_cong [OF refl])
      (use assms(2) in \<open>auto simp: before_from_def echs_instant_lt_p_def ev_key_def\<close>)
  finally show ?thesis .
qed



text \<open>\<open>unroll_ical\<close> prints the same events, with the scale they carry.\<close>

context evstrm
begin

lemma unrolled_ical:
  "good s \<Longrightarrow> \<not> echs_instant_lt_p (p_till p) (p_from p) \<Longrightarrow>
     unroll_ical nxt p s = Some (filter (\<lambda>e. \<not> before_from p e) (takeWhile (\<lambda>e. \<not> past_till p e) (pend s)))"
proof (induction "pend s" arbitrary: s)
  case Nil
  obtain s' where "echs_evstrm_pop nxt s = Some (echs_nul_event, s')"
    using pop [OF Nil.prems(1)] Nil.hyps by (metis front_simps(1))
  then show ?case using Nil.hyps by (subst unroll_ical.simps) simp
next
  case (Cons e es)
  obtain s' where s': "echs_evstrm_pop nxt s = Some (e, s')" "good s'" "es = pend s'"
    using pop [OF Cons.prems(1)] Cons.hyps(2) [symmetric] by (metis front_simps(2) list.sel(3))
  have e: "\<not> echs_event_0_p e"
    using live [OF Cons.prems(1)] Cons.hyps(2) by (auto simp: nul_event_0 [symmetric] Event.live_def list_all_iff dest: sym)
  have "past_till p e \<Longrightarrow> \<not> before_from p e"
    using Cons.prems(2) by (auto simp: past_till_def before_from_def echs_instant_lt_p_def)
  then show ?case
    using Cons.hyps(1) [OF s'(3,2) Cons.prems(2)] s' e Cons.hyps(2) [symmetric]
    by (subst unroll_ical.simps) (auto simp: Let_def past_till_def before_from_def shown_from_def)
qed

lemma merged: "good s \<Longrightarrow> \<exists>s'. merge_unwind nxt till s = Some (front (pend s'), s') \<and> good s' \<and>
    pend s' = dropWhile (\<lambda>e. echs_instant_lt_p (ev_from e) till) (pend s)"
  using unwound [of s] unfolding merge_unwind_def by metis

end

end
