(* ===== verification/TaskTab.thy ===== *)
theory TaskTab
  imports Prelude "HOL-Library.Monad_Syntax"
begin

text \<open>
  The two hash tables from task ids to tasks: the daemon's (\<^verbatim>\<open>src/src/echsd.c\<close>, tasks come and go,
  a collision grows the table to the exact size that tells the two ids apart) and the command
  line tool's (\<^verbatim>\<open>src/src/echse.c\<close>, tasks are only added, a collision doubles the table).  Both have
  a power of two of slots, an id's slot are its low bits, and slot and id 0 mean an empty slot.

  The contract of both is the locale \<open>oid_map\<close>, a finite map from ids; \<open>lim\<close> is the size up to
  which the C library grants memory, a parameter of the operations that allocate.
\<close>

section \<open>The interface\<close>

locale oid_map =
  fixes get :: "'s \<Rightarrow> 64 word \<Rightarrow> 't option"
    and put :: "'s \<Rightarrow> 64 word \<Rightarrow> 't \<Rightarrow> 's option"
    and good :: "'s \<Rightarrow> bool"
  assumes put_good: "good s \<Longrightarrow> x \<noteq> 0 \<Longrightarrow> put s x t = Some s' \<Longrightarrow> good s'"
    and get_put: "good s \<Longrightarrow> x \<noteq> 0 \<Longrightarrow> put s x t = Some s' \<Longrightarrow> y \<noteq> 0 \<Longrightarrow>
      get s' y = (if y = x then Some t else get s y)"
begin

text \<open>A run of insertions, an insertion that fails leaving the table as it was.\<close>

definition put_or_keep :: "64 word \<times> 't \<Rightarrow> 's \<Rightarrow> 's" where
  "put_or_keep xt s = (case put s (fst xt) (snd xt) of None \<Rightarrow> s | Some s' \<Rightarrow> s')"

lemma put_or_keep_good: "good s \<Longrightarrow> fst xt \<noteq> 0 \<Longrightarrow> good (put_or_keep xt s)"
  by (auto simp: put_or_keep_def put_good split: option.splits)

lemma get_untouched:
  "good s \<Longrightarrow> y \<noteq> 0 \<Longrightarrow> list_all (\<lambda>xt. fst xt \<noteq> 0 \<and> fst xt \<noteq> y) xts \<Longrightarrow>
     get (fold put_or_keep xts s) y = get s y"
proof (induction xts arbitrary: s)
  case (Cons xt xts)
  then have "get (put_or_keep xt s) y = get s y"
    by (auto simp: put_or_keep_def get_put split: option.splits)
  with Cons put_or_keep_good [of s xt] show ?case by simp
qed simp

end

locale oid_map_del = oid_map get put good
  for get :: "'s \<Rightarrow> 64 word \<Rightarrow> 't option" and put :: "'s \<Rightarrow> 64 word \<Rightarrow> 't \<Rightarrow> 's option"
    and good :: "'s \<Rightarrow> bool" +
  fixes del :: "'s \<Rightarrow> 64 word \<Rightarrow> 's"
  assumes del_good: "good s \<Longrightarrow> x \<noteq> 0 \<Longrightarrow> good (del s x)"
    and get_del: "good s \<Longrightarrow> x \<noteq> 0 \<Longrightarrow> y \<noteq> 0 \<Longrightarrow> get (del s x) y = (if y = x then None else get s y)"

text \<open>A history of insertions and removals, and what it makes of a map.\<close>

datatype 't tab_op = Put "64 word" 't | Del "64 word"

fun op_id :: "'t tab_op \<Rightarrow> 64 word" where
  "op_id (Put x t) = x"
| "op_id (Del x) = x"

fun op_map :: "'t tab_op \<Rightarrow> (64 word \<Rightarrow> 't option) \<Rightarrow> (64 word \<Rightarrow> 't option)" where
  "op_map (Put x t) m = m(x \<mapsto> t)"
| "op_map (Del x) m = m(x := None)"

fun run_ops ::
  "('s \<Rightarrow> 64 word \<Rightarrow> 't \<Rightarrow> 's option) \<Rightarrow> ('s \<Rightarrow> 64 word \<Rightarrow> 's) \<Rightarrow> 't tab_op list \<Rightarrow> 's \<Rightarrow> 's option" where
  "run_ops put del [] s = Some s"
| "run_ops put del (Put x t # ops) s = do { s \<leftarrow> put s x t; run_ops put del ops s }"
| "run_ops put del (Del x # ops) s = run_ops put del ops (del s x)"

context oid_map_del
begin

lemma history:
  "good s \<Longrightarrow> list_all (\<lambda>p. op_id p \<noteq> 0) ops \<Longrightarrow> run_ops put del ops s = Some s' \<Longrightarrow>
     \<forall>y. y \<noteq> 0 \<longrightarrow> m y = get s y \<Longrightarrow> good s' \<and> (\<forall>y. y \<noteq> 0 \<longrightarrow> get s' y = fold op_map ops m y)"
proof (induction ops arbitrary: s m)
  case (Cons p ops)
  show ?case
  proof (cases p)
    case (Put x t)
    with Cons.prems(3) obtain s1 where s1: "put s x t = Some s1" "run_ops put del ops s1 = Some s'"
      by (auto simp: bind_eq_Some_conv)
    have x: "x \<noteq> 0" using Cons.prems(2) Put by simp
    have "\<forall>y. y \<noteq> 0 \<longrightarrow> op_map p m y = get s1 y"
      using get_put [OF Cons.prems(1) x s1(1)] Cons.prems(4) Put by simp
    with Cons.IH [OF put_good [OF Cons.prems(1) x s1(1)] _ s1(2)] Cons.prems(2) show ?thesis by simp
  next
    case (Del x)
    have x: "x \<noteq> 0" using Cons.prems(2) Del by simp
    have eq: "\<forall>y. y \<noteq> 0 \<longrightarrow> op_map p m y = get (del s x) y"
      using get_del [OF Cons.prems(1) x] Cons.prems(4) Del by simp
    have r: "list_all (\<lambda>p. op_id p \<noteq> 0) ops" "run_ops put del ops (del s x) = Some s'"
      using Cons.prems(2,3) Del by simp_all
    from Cons.IH [OF del_good [OF Cons.prems(1) x] r eq] show ?thesis by simp
  qed
qed simp

end

section \<open>Slots\<close>

type_synonym 't tab = "(64 word \<times> 't option) list"

definition ctz :: "64 word \<Rightarrow> nat" where
  "ctz w = fst (skip_zeros w 0)"

definition slot_of :: "nat \<Rightarrow> 64 word \<Rightarrow> nat" where
  "slot_of z x = unat (x AND (of_nat z - 1))"

definition empty_slot :: "64 word \<times> 't option" where
  "empty_slot = (0, None)"

text \<open>The loop with its 16 tries, all of them at the same slot.\<close>

fun get_tries :: "nat \<Rightarrow> 't tab \<Rightarrow> nat \<Rightarrow> 64 word \<Rightarrow> nat option" where
  "get_tries 0 tab slot x = None"
| "get_tries (Suc n) tab slot x = (if fst (tab ! slot) = x then Some slot else get_tries n tab slot x)"

definition get_task_slot :: "'t tab \<Rightarrow> 64 word \<Rightarrow> nat option" where
  "get_task_slot tab x = get_tries 16 tab (slot_of (length tab) x) x"

definition get_task :: "'t tab \<Rightarrow> 64 word \<Rightarrow> 't option" where
  "get_task tab x =
     (if length tab = 0 then None
      else case get_task_slot tab x of
        None \<Rightarrow> None
      | Some slot \<Rightarrow> if length tab \<le> slot \<or> fst (tab ! slot) = 0 then None else snd (tab ! slot))"

section \<open>The daemon's table\<close>

definition ini_task_ht :: "'t tab \<Rightarrow> 't tab" where
  "ini_task_ht tab = (if length tab = 0 then replicate 16 empty_slot else tab)"

text \<open>Every task into its slot of the new table.\<close>

definition move_task :: "64 word \<times> 't option \<Rightarrow> 't tab \<Rightarrow> 't tab" where
  "move_task e nut = (if fst e \<noteq> 0 then nut[slot_of (length nut) (fst e) := e] else nut)"

definition put_task_slot :: "nat \<Rightarrow> 't tab \<Rightarrow> 64 word \<Rightarrow> (nat \<times> 't tab) option" where
  "put_task_slot lim tab x =
     (let slot = slot_of (length tab) x; toid = fst (tab ! slot)
      in if toid = 0 then Some (slot, tab)
         else if toid = x then Some (slot, tab)
         else let nuz = 2 ^ (ctz (toid XOR x) + 1)
              in if lim < nuz then None
                 else let nut = fold move_task tab (replicate nuz empty_slot)
                      in Some (slot_of nuz x, nut))"

text \<open>The table's part of \<open>make_task\<close> and \<open>free_task\<close>; the task itself comes from a pool.\<close>

definition make_task_ht :: "nat \<Rightarrow> 't tab \<Rightarrow> 64 word \<Rightarrow> 't \<Rightarrow> 't tab option" where
  "make_task_ht lim tab x t =
     do { (slot, tab) \<leftarrow> put_task_slot lim tab x; Some (tab[slot := (x, Some t)]) }"

definition free_task_ht :: "'t tab \<Rightarrow> 64 word \<Rightarrow> 't tab" where
  "free_task_ht tab x =
     (case get_task_slot tab x of
        None \<Rightarrow> tab
      | Some i \<Rightarrow> if length tab \<le> i \<or> fst (tab ! i) \<noteq> x then tab else tab[i := empty_slot])"

section \<open>What keeps both tables in order\<close>

definition tab_inv :: "'t tab \<Rightarrow> bool" where
  "tab_inv tab \<longleftrightarrow> (\<exists>k\<le>64. length tab = 2 ^ k) \<and>
     (\<forall>i<length tab. fst (tab ! i) \<noteq> 0 \<longrightarrow> slot_of (length tab) (fst (tab ! i)) = i)"

lemma slot_of_take: "k \<le> 64 \<Longrightarrow> slot_of (2 ^ k) x = unat (take_bit k x)"
proof -
  assume k: "k \<le> 64"
  have "word_of_nat (2 ^ k) - 1 = (mask k :: 64 word)" by (simp add: mask_eq_decr_exp)
  then show ?thesis by (simp add: slot_of_def take_bit_eq_mask)
qed

lemma slot_of_pow: "k \<le> 64 \<Longrightarrow> slot_of (2 ^ k) x = unat x mod 2 ^ k"
  unfolding slot_of_take unsigned_take_bit_eq by (rule take_bit_eq_mod)

lemma slot_lt: "tab_inv tab \<Longrightarrow> slot_of (length tab) x < length tab"
  by (auto simp: tab_inv_def slot_of_pow)

lemma tab_inv_ne: "tab_inv tab \<Longrightarrow> length tab \<noteq> 0"
  by (auto simp: tab_inv_def)

lemma get_tries_eq: "get_tries (Suc n) tab slot x = (if fst (tab ! slot) = x then Some slot else None)"
  by (induction n) auto

lemma get_task_slot_eq:
  "get_task_slot tab x = (if fst (tab ! slot_of (length tab) x) = x then Some (slot_of (length tab) x) else None)"
  unfolding get_task_slot_def numeral_eq_Suc by (rule get_tries_eq)

lemma get_task_eq:
  assumes "tab_inv tab" "x \<noteq> 0"
  shows "get_task tab x =
    (let e = tab ! slot_of (length tab) x in if fst e = x then snd e else None)"
  using assms slot_lt [OF assms(1), of x] tab_inv_ne [OF assms(1)]
  by (simp add: get_task_def get_task_slot_eq Let_def)

text \<open>An id that fits its slot may be stored there when the slot is empty or its own.\<close>

lemma store_inv: "tab_inv tab \<Longrightarrow> x \<noteq> 0 \<Longrightarrow> tab_inv (tab[slot_of (length tab) x := (x, t)])"
  using slot_lt [of tab x] unfolding tab_inv_def by (simp add: nth_list_update)

lemma get_store:
  assumes "tab_inv tab" "x \<noteq> 0" "y \<noteq> 0"
    and "fst (tab ! slot_of (length tab) x) = 0 \<or> fst (tab ! slot_of (length tab) x) = x"
  shows "get_task (tab[slot_of (length tab) x := (x, t)]) y = (if y = x then t else get_task tab y)"
  using assms slot_lt [OF assms(1)] get_task_eq [OF store_inv [OF assms(1,2)] assms(3)]
    get_task_eq [OF assms(1,3)]
  by (auto simp: nth_list_update Let_def)

lemma clear_inv: "tab_inv tab \<Longrightarrow> tab_inv (tab[i := empty_slot])"
  unfolding tab_inv_def by (cases "i < length tab") (simp_all add: nth_list_update empty_slot_def)

lemma get_clear:
  assumes "tab_inv tab" "x \<noteq> 0" "y \<noteq> 0" "fst (tab ! slot_of (length tab) x) = x"
  shows "get_task (tab[slot_of (length tab) x := empty_slot]) y = (if y = x then None else get_task tab y)"
  using assms slot_lt [OF assms(1)] get_task_eq [OF clear_inv [OF assms(1)] assms(3)]
    get_task_eq [OF assms(1,3)]
  by (auto simp: nth_list_update Let_def empty_slot_def)

section \<open>Moving to a larger table\<close>

definition apart :: "nat \<Rightarrow> 't tab \<Rightarrow> bool" where
  "apart z es \<longleftrightarrow> sorted_wrt (\<lambda>a b. fst a \<noteq> 0 \<longrightarrow> fst b \<noteq> 0 \<longrightarrow> slot_of z (fst a) \<noteq> slot_of z (fst b)) es"

lemma move_from: "set (fold move_task es nut) \<subseteq> set nut \<union> set es"
proof (induction es arbitrary: nut)
  case (Cons e es)
  have "set (move_task e nut) \<subseteq> insert e (set nut)"
    by (auto simp: move_task_def dest: set_mp [OF set_update_subset_insert])
  with Cons.IH [of "move_task e nut"] show ?case by auto
qed simp

lemma moved:
  assumes "tab_inv nut" "apart (length nut) es"
    and "\<forall>e\<in>set es. fst e \<noteq> 0 \<longrightarrow> fst (nut ! slot_of (length nut) (fst e)) = 0"
  shows "tab_inv (fold move_task es nut) \<and> length (fold move_task es nut) = length nut \<and>
    (\<forall>e\<in>set es. fst e \<noteq> 0 \<longrightarrow> get_task (fold move_task es nut) (fst e) = snd e) \<and>
    (\<forall>y. y \<noteq> 0 \<longrightarrow> (\<forall>e\<in>set es. fst e \<noteq> y) \<longrightarrow> get_task (fold move_task es nut) y = get_task nut y)"
  using assms
proof (induction es arbitrary: nut)
  case (Cons e es)
  show ?case
  proof (cases "fst e = 0")
    case True
    then have "move_task e nut = nut" by (simp add: move_task_def)
    moreover have "apart (length nut) es" using Cons.prems(2) by (simp add: apart_def)
    ultimately show ?thesis using Cons.IH [OF Cons.prems(1)] Cons.prems(3) True by auto
  next
    case False
    obtain x t where e: "e = (x, t)" by (cases e)
    let ?nut = "nut[slot_of (length nut) x := (x, t)]"
    have mv: "move_task e nut = ?nut" using False e by (simp add: move_task_def)
    have x: "x \<noteq> 0" using False e by simp
    have ap: "\<forall>f\<in>set es. fst f \<noteq> 0 \<longrightarrow> slot_of (length nut) x \<noteq> slot_of (length nut) (fst f)"
      "apart (length ?nut) es"
      using Cons.prems(2) e x by (auto simp: apart_def)
    have free: "\<forall>f\<in>set es. fst f \<noteq> 0 \<longrightarrow> fst (?nut ! slot_of (length ?nut) (fst f)) = 0"
      using Cons.prems(3) ap(1) by auto
    note IH = Cons.IH [OF store_inv [OF Cons.prems(1) x] ap(2) free]
    have st: "y \<noteq> 0 \<Longrightarrow> get_task ?nut y = (if y = x then t else get_task nut y)" for y
      using get_store [OF Cons.prems(1) x] Cons.prems(3) e x by simp
    have nx: "\<forall>f\<in>set es. fst f \<noteq> x" using ap(1) x by auto
    then have "get_task (fold move_task es ?nut) x = t" using IH st x by auto
    then show ?thesis
      unfolding fold_simps comp_apply mv using IH st nx x e by auto
  qed
qed simp

lemma empty_tab: "k \<le> 64 \<Longrightarrow> tab_inv (replicate (2 ^ k) empty_slot)"
  by (auto simp: tab_inv_def empty_slot_def)

lemma get_empty: "k \<le> 64 \<Longrightarrow> y \<noteq> 0 \<Longrightarrow> get_task (replicate (2 ^ k) empty_slot) y = None"
  using slot_lt [OF empty_tab [of k], where x=y] get_task_eq [OF empty_tab [of k], of y]
  by (simp add: Let_def) (simp add: empty_slot_def)

lemma slot_refines: "k \<le> j \<Longrightarrow> j \<le> 64 \<Longrightarrow> slot_of (2 ^ k) x = slot_of (2 ^ j) x mod 2 ^ k"
  by (simp add: slot_of_pow mod_mod_cancel le_imp_power_dvd)

text \<open>Ids with slots of their own have slots of their own in every larger table.\<close>

lemma grown:
  assumes "tab_inv tab" "length tab = 2 ^ k" "k \<le> j" "j \<le> 64"
  defines "nut \<equiv> fold move_task tab (replicate (2 ^ j) empty_slot)"
  shows "tab_inv nut" "length nut = 2 ^ j" "y \<noteq> 0 \<Longrightarrow> get_task nut y = get_task tab y"
    "\<forall>e\<in>set nut. fst e = 0 \<or> e \<in> set tab"
proof -
  let ?new = "replicate (2 ^ j) empty_slot :: 'a tab"
  have own: "i < length tab \<Longrightarrow> fst (tab ! i) \<noteq> 0 \<Longrightarrow> slot_of (2 ^ k) (fst (tab ! i)) = i" for i
    using assms(1,2) by (auto simp: tab_inv_def)
  have "apart (length ?new) tab"
    unfolding apart_def sorted_wrt_iff_nth_less
  proof (intro allI impI)
    fix i l
    assume "i < l" "l < length tab" "fst (tab ! i) \<noteq> 0" "fst (tab ! l) \<noteq> 0"
    then show "slot_of (length ?new) (fst (tab ! i)) \<noteq> slot_of (length ?new) (fst (tab ! l))"
      using own [of i] own [of l] slot_refines [OF assms(3,4), of "fst (tab ! i)"]
        slot_refines [OF assms(3,4), of "fst (tab ! l)"] by auto
  qed
  moreover have "tab_inv ?new" using empty_tab [OF assms(4)] .
  moreover have "\<forall>e\<in>set tab. fst e \<noteq> 0 \<longrightarrow> fst (?new ! slot_of (length ?new) (fst e)) = 0"
    using slot_lt [OF empty_tab [OF assms(4)]] by (auto simp: empty_slot_def)
  ultimately have m: "tab_inv nut" "length nut = 2 ^ j"
    "\<forall>e\<in>set tab. fst e \<noteq> 0 \<longrightarrow> get_task nut (fst e) = snd e"
    "\<forall>y. y \<noteq> 0 \<longrightarrow> (\<forall>e\<in>set tab. fst e \<noteq> y) \<longrightarrow> get_task nut y = get_task ?new y"
    using moved [of ?new tab] unfolding nut_def by auto
  show "tab_inv nut" "length nut = 2 ^ j" by fact+
  show "\<forall>e\<in>set nut. fst e = 0 \<or> e \<in> set tab"
    using move_from [of tab ?new] unfolding nut_def by (auto simp: empty_slot_def)
  show "get_task nut y = get_task tab y" if y: "y \<noteq> 0"
  proof (cases "fst (tab ! slot_of (length tab) y) = y")
    case True
    moreover have "tab ! slot_of (length tab) y \<in> set tab" using slot_lt [OF assms(1)] by simp
    ultimately show ?thesis using m(3) y get_task_eq [OF assms(1) y] by (auto simp: Let_def)
  next
    case False
    have "fst e \<noteq> y" if "e \<in> set tab" for e
      using that False y own assms(2) by (metis in_set_conv_nth)
    then show ?thesis
      using m(4) y get_empty [OF assms(4) y] get_task_eq [OF assms(1) y] False by (auto simp: Let_def)
  qed
qed

section \<open>The daemon's table is a map\<close>

lemma ctz_bit:
  assumes "w \<noteq> 0"
  shows "bit w (ctz w)" "\<forall>k<ctz w. \<not> bit w k" "ctz w < 64"
proof -
  obtain n where n: "bit w n" "\<forall>k<n. \<not> bit w k" "n < LENGTH(64)"
    by (rule word_nonzero_least_bit [OF assms])
  then have "ctz w = n" by (simp add: ctz_def skip_zeros_bit)
  with n show "bit w (ctz w)" "\<forall>k<ctz w. \<not> bit w k" "ctz w < 64" by simp_all
qed

text \<open>Ids have the same slot exactly when they agree in their low bits.\<close>

lemma same_slot:
  assumes "k \<le> 64"
  shows "slot_of (2 ^ k) x = slot_of (2 ^ k) y \<longleftrightarrow> (\<forall>i<k. bit x i = bit y i)"
proof -
  have "slot_of (2 ^ k) x = slot_of (2 ^ k) y \<longleftrightarrow> take_bit k x = take_bit k y"
    using assms word_unat_eq_iff [of "take_bit k x" "take_bit k y"] by (simp add: slot_of_take)
  also have "\<dots> \<longleftrightarrow> (\<forall>i<k. bit x i = bit y i)"
  proof
    assume "take_bit k x = take_bit k y"
    then have "bit (take_bit k x) i = bit (take_bit k y) i" for i by simp
    then show "\<forall>i<k. bit x i = bit y i" by (auto simp: bit_take_bit_iff)
  qed (auto simp: bit_eq_iff bit_take_bit_iff)
  finally show ?thesis .
qed

lemma put_slot:
  assumes "tab_inv tab" "x \<noteq> 0" "put_task_slot lim tab x = Some (slot, tab')"
  shows "tab_inv tab' \<and> slot = slot_of (length tab') x \<and> (\<forall>y. y \<noteq> 0 \<longrightarrow> get_task tab' y = get_task tab y) \<and>
    (fst (tab' ! slot) = 0 \<or> fst (tab' ! slot) = x)"
proof -
  let ?toid = "fst (tab ! slot_of (length tab) x)"
  obtain k where k: "length tab = 2 ^ k" "k \<le> 64" using assms(1) by (auto simp: tab_inv_def)
  show ?thesis
  proof (cases "?toid = 0 \<or> ?toid = x")
    case False
    define j where "j = ctz (?toid XOR x) + 1"
    have xor: "?toid XOR x \<noteq> 0" using False by (auto simp: bit_eq_iff [of _ x] bit_eq_iff [of "_ XOR _"] bit_xor_iff)
    have j: "j \<le> 64" "bit ?toid (j - 1) \<noteq> bit x (j - 1)"
      using ctz_bit [OF xor] by (auto simp: j_def bit_xor_iff)
    have "slot_of (2 ^ k) ?toid = slot_of (2 ^ k) x"
      using assms(1) slot_lt [OF assms(1), of x] False k(1) by (auto simp: tab_inv_def)
    then have "\<forall>i<k. bit ?toid i = bit x i" using same_slot [OF k(2)] by blast
    then have "\<not> j - 1 < k" using j(2) by blast
    then have kj: "k \<le> j" by (simp add: j_def)
    let ?nut = "fold move_task tab (replicate (2 ^ j) empty_slot)"
    note g = grown [OF assms(1) k(1) kj j(1)]
    have t: "tab' = ?nut" "slot = slot_of (2 ^ j) x"
      using assms(3) False by (auto simp: put_task_slot_def Let_def j_def split: if_splits)
    have "fst (?nut ! slot) = 0"
    proof (rule ccontr)
      assume n: "fst (?nut ! slot) \<noteq> 0"
      have s: "slot < length ?nut" using g(2) slot_lt [OF g(1), of x] t by simp
      then have e: "?nut ! slot \<in> set tab" using g(4) n nth_mem by blast
      have "slot_of (2 ^ j) (fst (?nut ! slot)) = slot_of (2 ^ j) x"
        using g(1,2) n s t by (auto simp: tab_inv_def)
      then have b: "\<forall>i<j. bit (fst (?nut ! slot)) i = bit x i" using same_slot [OF j(1)] by blast
      then have "slot_of (2 ^ k) (fst (?nut ! slot)) = slot_of (2 ^ k) x"
        using same_slot [OF k(2)] kj by auto
      then have "?nut ! slot = tab ! slot_of (length tab) x"
        using e n assms(1) k(1) by (auto simp: tab_inv_def in_set_conv_nth)
      then show False using b j by (auto simp: j_def)
    qed
    then show ?thesis using g t by auto
  qed (use assms in \<open>auto simp: put_task_slot_def Let_def\<close>)
qed

interpretation dtab: oid_map_del get_task "make_task_ht lim" tab_inv free_task_ht
proof
  fix s :: "'a tab" and x y :: "64 word" and t s'
  assume s: "tab_inv s" and x: "x \<noteq> 0"
  show "tab_inv (free_task_ht s x)"
    using clear_inv [OF s] s by (simp add: free_task_ht_def split: option.splits)
  show "get_task (free_task_ht s x) y = (if y = x then None else get_task s y)" if "y \<noteq> 0"
    using get_clear [OF s x that] slot_lt [OF s, of x] get_task_eq [OF s that]
    by (auto simp: free_task_ht_def get_task_slot_eq Let_def)
  assume "make_task_ht lim s x t = Some s'"
  then obtain slot tab' where p: "put_task_slot lim s x = Some (slot, tab')" "s' = tab'[slot := (x, Some t)]"
    by (auto simp: make_task_ht_def bind_eq_Some_conv)
  note q = put_slot [OF s x p(1)]
  show "tab_inv s'" using q store_inv [OF _ x] p(2) by blast
  show "get_task s' y = (if y = x then Some t else get_task s y)" if "y \<noteq> 0"
    using q get_store [of tab' x y "Some t"] x that p(2) by auto
qed

lemma get_fresh:
  assumes "y \<noteq> 0"
  shows "get_task (ini_task_ht [] :: 'a tab) y = None"
proof -
  have "(ini_task_ht [] :: 'a tab) = replicate (2 ^ 4) empty_slot" by (simp add: ini_task_ht_def)
  moreover have "get_task (replicate (2 ^ 4) empty_slot :: 'a tab) y = None"
    by (rule get_empty) (use assms in simp_all)
  ultimately show ?thesis by (simp only: )
qed

lemma fresh_inv: "tab_inv (ini_task_ht [])"
  using empty_tab [of 4] by (simp add: ini_task_ht_def)

text \<open>
  C12: whatever tasks come and go, as long as memory lasts the daemon's table holds exactly the
  tasks a map would hold, through all collisions and resizings.
\<close>
theorem daemon_table_is_map:
  fixes tab :: "'a tab"
  assumes "list_all (\<lambda>p. op_id p \<noteq> 0) ops" "y \<noteq> 0"
    and "run_ops (make_task_ht lim) free_task_ht ops (ini_task_ht []) = Some tab"
  shows "get_task tab y = fold op_map ops Map.empty y"
proof -
  have "\<forall>y. y \<noteq> 0 \<longrightarrow> Map.empty y = get_task (ini_task_ht [] :: 'a tab) y"
    using get_fresh [where 'a='a] by auto
  from dtab.history [OF fresh_inv assms(1,3) this] assms(2) show ?thesis by blast
qed

theorem daemon_table_is_map_witness:
  "\<exists>tab. run_ops (make_task_ht 4096) free_task_ht [Put 1 ''a'', Put 17 ''b'', Put 273 ''c'', Del 1] (ini_task_ht []) = Some tab \<and>
     length tab = 512 \<and> get_task tab 273 = Some ''c'' \<and> get_task tab 1 = None"
proof -
  let ?ops = "[Put 1 ''a'', Put 17 ''b'', Put 273 ''c'', Del 1] :: string tab_op list"
  have "map_option length (run_ops (make_task_ht 4096) free_task_ht ?ops (ini_task_ht [])) = Some 512"
    by code_simp
  then obtain tab where r: "run_ops (make_task_ht 4096) free_task_ht ?ops (ini_task_ht []) = Some tab" "length tab = 512"
    by auto
  have "list_all (\<lambda>p. op_id p \<noteq> 0) ?ops" by simp
  from daemon_table_is_map [OF this _ r(1)] r show ?thesis by auto
qed

section \<open>The command line tool's table and its registry of streams\<close>

text \<open>
  \<open>rem_strm\<close>: the first place that holds the stream is emptied, the registry shortened when it
  is the last; \<open>condense_strms\<close>: the empty places are closed.
\<close>

definition add_strm :: "'s option list \<Rightarrow> 's option \<Rightarrow> 's option list" where
  "add_strm strms s = strms @ [s]"

fun rem_strm_at :: "nat \<Rightarrow> 's option list \<Rightarrow> 's option \<Rightarrow> nat option" where
  "rem_strm_at i [] s = None"
| "rem_strm_at i (x # xs) s = (if x = s then Some i else rem_strm_at (i + 1) xs s)"

definition rem_strm :: "'s option list \<Rightarrow> 's option \<Rightarrow> 's option list" where
  "rem_strm strms s =
     (case rem_strm_at 0 strms s of
        None \<Rightarrow> strms
      | Some i \<Rightarrow> if i + 1 = length strms then butlast strms else strms[i := None])"

text \<open>The second loop of \<open>condense_strms\<close>, \<open>j\<close> places filled, reading from \<open>i\<close>.\<close>

fun condense_from :: "nat \<Rightarrow> nat \<Rightarrow> nat \<Rightarrow> 's option list \<Rightarrow> 's option list \<times> nat" where
  "condense_from 0 j i strms = (strms, j)"
| "condense_from (Suc n) j i strms =
     (let strms = strms[j := strms ! i]
      in condense_from n (if strms ! j \<noteq> None then j + 1 else j) (i + 1) strms)"

definition condense_strms :: "'s option list \<Rightarrow> 's option list" where
  "condense_strms strms =
     (let i = length (takeWhile (\<lambda>s. s \<noteq> None) strms);
          (strms, j) = condense_from (length strms - (i + 1)) i (i + 1) strms
      in take j strms)"

record 's task =
  t_strm :: "'s option"

record 's echse =
  task_ht :: "'s task tab"
  strms :: "'s option list"

text \<open>Finding a slot for an id that is in the table frees the old task and its stream.\<close>

fun put_tries :: "nat \<Rightarrow> 's echse \<Rightarrow> nat \<Rightarrow> 64 word \<Rightarrow> nat option \<times> 's echse" where
  "put_tries 0 st slot x = (None, st)"
| "put_tries (Suc n) st slot x =
     (let e = task_ht st ! slot
      in if fst e = 0 then (Some slot, st)
         else if fst e \<noteq> x then put_tries n st slot x
         else (Some slot, st\<lparr>strms := rem_strm (strms st) (case snd e of None \<Rightarrow> None | Some t \<Rightarrow> t_strm t)\<rparr>))"

definition put_slot_e :: "'s echse \<Rightarrow> 64 word \<Rightarrow> nat option \<times> 's echse" where
  "put_slot_e st x = put_tries 16 st (slot_of (length (task_ht st)) x) x"

text \<open>
  Moving into a table of twice the size; after a collision the code starts over, with a table of
  the same size.
\<close>

definition move_all :: "64 word \<times> 's task option \<Rightarrow> bool \<times> 's echse \<Rightarrow> bool \<times> 's echse" where
  "move_all e r =
     (let (ok, st) = r
      in if \<not> ok \<or> fst e = 0 then r
         else case put_slot_e st (fst e) of
           (None, st) \<Rightarrow> (False, st)
         | (Some j, st) \<Rightarrow> (True, st\<lparr>task_ht := (task_ht st)[j := e]\<rparr>))"

partial_function (option) resz_again :: "'s task tab \<Rightarrow> nat \<Rightarrow> 's echse \<Rightarrow> 's echse option" where
  "resz_again olt nuz st =
     (let (ok, st) = fold move_all olt (True, st\<lparr>task_ht := replicate nuz empty_slot\<rparr>)
      in if ok then Some st else resz_again olt nuz st)"

declare resz_again.simps [code]

definition resz_task_ht :: "nat \<Rightarrow> 's echse \<Rightarrow> (bool \<times> 's echse) option" where
  "resz_task_ht lim st =
     (let nuz = length (task_ht st) * 2
      in if lim < nuz then Some (False, st)
         else do { st \<leftarrow> resz_again (task_ht st) nuz st; Some (True, st) })"

partial_function (option) put_again :: "nat \<Rightarrow> 's echse \<Rightarrow> 64 word \<Rightarrow> 's task \<Rightarrow> (bool \<times> 's echse) option" where
  "put_again lim st x t =
     (case put_slot_e st x of
        (None, st) \<Rightarrow>
          do { (ok, st) \<leftarrow> resz_task_ht lim st;
               if ok then put_again lim st x t else Some (False, st) }
      | (Some slot, st) \<Rightarrow>
          Some (True, st\<lparr>task_ht := (task_ht st)[slot := (x, Some t)],
                       strms := add_strm (strms st) (t_strm t)\<rparr>))"

declare put_again.simps [code]

definition put_task :: "nat \<Rightarrow> 's echse \<Rightarrow> 64 word \<Rightarrow> 's task \<Rightarrow> (bool \<times> 's echse) option" where
  "put_task lim st x t =
     (if length (task_ht st) = 0
      then if lim < 4 then Some (False, st)
           else put_again lim (st\<lparr>task_ht := replicate 4 empty_slot\<rparr>) x t
      else put_again lim st x t)"

section \<open>The tool's table is a map\<close>

lemma put_tries_eq:
  "put_tries (Suc n) st slot x =
     (let e = task_ht st ! slot
      in if fst e = 0 then (Some slot, st)
         else if fst e = x then (Some slot, st\<lparr>strms := rem_strm (strms st) (case snd e of None \<Rightarrow> None | Some t \<Rightarrow> t_strm t)\<rparr>)
         else (None, st))"
  by (induction n) (auto simp: Let_def)

lemma put_slot_e_eq:
  "put_slot_e st x =
     (let slot = slot_of (length (task_ht st)) x; e = task_ht st ! slot
      in if fst e = 0 then (Some slot, st)
         else if fst e = x then (Some slot, st\<lparr>strms := rem_strm (strms st) (case snd e of None \<Rightarrow> None | Some t \<Rightarrow> t_strm t)\<rparr>)
         else (None, st))"
  unfolding put_slot_e_def numeral_eq_Suc put_tries_eq Let_def by (rule refl)

lemma move_all_eq:
  assumes "tab_inv (task_ht st)" "apart (length (task_ht st)) es"
    and "\<forall>e\<in>set es. fst e \<noteq> 0 \<longrightarrow> fst (task_ht st ! slot_of (length (task_ht st)) (fst e)) = 0"
  shows "fold move_all es (True, st) = (True, st\<lparr>task_ht := fold move_task es (task_ht st)\<rparr>)"
  using assms
proof (induction es arbitrary: st)
  case (Cons e es)
  show ?case
  proof (cases "fst e = 0")
    case True
    moreover have "apart (length (task_ht st)) es" using Cons.prems(2) by (simp add: apart_def)
    ultimately show ?thesis
      using Cons.IH [OF Cons.prems(1)] Cons.prems(3) by (simp add: move_all_def move_task_def)
  next
    case False
    let ?slot = "slot_of (length (task_ht st)) (fst e)"
    let ?st = "st\<lparr>task_ht := (task_ht st)[?slot := e]\<rparr>"
    have "move_all e (True, st) = (True, ?st)"
      using Cons.prems(3) False by (simp add: move_all_def put_slot_e_eq)
    moreover have "tab_inv (task_ht ?st)"
      using store_inv [OF Cons.prems(1) False, of "snd e"] by simp
    moreover have "apart (length (task_ht ?st)) es" using Cons.prems(2) by (simp add: apart_def)
    moreover have "\<forall>f\<in>set es. fst f \<noteq> 0 \<longrightarrow> fst (task_ht ?st ! slot_of (length (task_ht ?st)) (fst f)) = 0"
      using Cons.prems(2,3) False by (auto simp: apart_def)
    ultimately show ?thesis
      using Cons.IH [of ?st] False by (simp add: move_task_def)
  qed
qed simp

lemma apart_grown:
  assumes "tab_inv tab" "length tab = 2 ^ k" "k \<le> j" "j \<le> 64"
  shows "apart (2 ^ j) tab"
  unfolding apart_def sorted_wrt_iff_nth_less
proof (intro allI impI)
  fix i l
  assume "i < l" "l < length tab" "fst (tab ! i) \<noteq> 0" "fst (tab ! l) \<noteq> 0"
  then show "slot_of (2 ^ j) (fst (tab ! i)) \<noteq> slot_of (2 ^ j) (fst (tab ! l))"
    using assms(1,2) slot_refines [OF assms(3,4), of "fst (tab ! i)"]
      slot_refines [OF assms(3,4), of "fst (tab ! l)"] by (auto simp: tab_inv_def)
qed

lemma resz_eq:
  assumes "tab_inv (task_ht st)" "lim < 2 ^ 64"
  shows "resz_task_ht lim st = Some (False, st) \<and> lim < length (task_ht st) * 2 \<or>
    (\<exists>tab. resz_task_ht lim st = Some (True, st\<lparr>task_ht := tab\<rparr>) \<and> tab_inv tab \<and>
       length tab = length (task_ht st) * 2 \<and> length tab \<le> lim \<and>
       (\<forall>e\<in>set tab. fst e = 0 \<or> e \<in> set (task_ht st)) \<and>
       (\<forall>y. y \<noteq> 0 \<longrightarrow> get_task tab y = get_task (task_ht st) y))"
proof (cases "lim < length (task_ht st) * 2")
  case False
  obtain k where k: "length (task_ht st) = 2 ^ k" "k \<le> 64" using assms(1) by (auto simp: tab_inv_def)
  have "(2::nat) ^ (k + 1) < 2 ^ 64" using False k(1) assms(2) by simp
  then have "k + 1 < 64" by (rule power_less_imp_less_exp [rotated]) simp
  then have j: "k \<le> k + 1" "k + 1 \<le> 64" by simp_all
  let ?tab = "fold move_task (task_ht st) (replicate (2 ^ (k + 1)) empty_slot)"
  note g = grown [OF assms(1) k(1) j]
  have "fold move_all (task_ht st) (True, st\<lparr>task_ht := replicate (2 ^ (k + 1)) empty_slot\<rparr>) =
      (True, st\<lparr>task_ht := ?tab\<rparr>)"
    using move_all_eq [of "st\<lparr>task_ht := replicate (2 ^ (k + 1)) empty_slot\<rparr>" "task_ht st"]
      apart_grown [OF assms(1) k(1) j] empty_tab [OF j(2)] slot_lt [OF empty_tab [OF j(2)]]
    by (simp add: empty_slot_def)
  then have "resz_again (task_ht st) (2 ^ (k + 1)) st = Some (st\<lparr>task_ht := ?tab\<rparr>)"
    by (subst resz_again.simps) simp
  then have "resz_task_ht lim st = Some (True, st\<lparr>task_ht := ?tab\<rparr>)"
    using False k(1) by (simp add: resz_task_ht_def mult.commute)
  then show ?thesis using g k(1) False by (intro disjI2 exI [of _ ?tab]) simp
qed (simp add: resz_task_ht_def)

text \<open>What an insertion does to the registry: the old stream out, the new one in.\<close>

definition reg_after :: "'s echse \<Rightarrow> 64 word \<Rightarrow> 's task \<Rightarrow> 's option list" where
  "reg_after st x t =
     add_strm (case get_task (task_ht st) x of None \<Rightarrow> strms st | Some old \<Rightarrow> rem_strm (strms st) (t_strm old)) (t_strm t)"

definition filled :: "'t tab \<Rightarrow> bool" where
  "filled tab \<longleftrightarrow> (\<forall>e\<in>set tab. fst e \<noteq> 0 \<longrightarrow> snd e \<noteq> None)"

text \<open>
  What an insertion may come to: it always returns, with the new entry and an updated registry, or
  with the failure code and nothing changed that a lookup can see.
\<close>

definition echse_good :: "'s echse \<Rightarrow> bool" where
  "echse_good st \<longleftrightarrow> filled (task_ht st) \<and> (task_ht st = [] \<or> tab_inv (task_ht st))"

definition put_post :: "'s echse \<Rightarrow> 64 word \<Rightarrow> 's task \<Rightarrow> (bool \<times> 's echse) option \<Rightarrow> bool" where
  "put_post st x t r \<longleftrightarrow> (\<exists>ok st'. r = Some (ok, st') \<and> echse_good st' \<and>
     strms st' = (if ok then reg_after st x t else strms st) \<and>
     (\<forall>y. y \<noteq> 0 \<longrightarrow> get_task (task_ht st') y = (if ok \<and> y = x then Some t else get_task (task_ht st) y)))"

lemma put_postI:
  assumes "r = Some (ok, st')" "echse_good st'" "strms st' = (if ok then reg_after st x t else strms st)"
    and "\<And>y. y \<noteq> 0 \<Longrightarrow> get_task (task_ht st') y = (if ok \<and> y = x then Some t else get_task (task_ht st) y)"
  shows "put_post st x t r"
  using assms unfolding put_post_def by blast

lemma put_post_same:
  assumes "put_post st' x t r" "x \<noteq> 0" "strms st' = strms st"
    and "\<And>y. y \<noteq> 0 \<Longrightarrow> get_task (task_ht st') y = get_task (task_ht st) y"
  shows "put_post st x t r"
proof -
  have "reg_after st' x t = reg_after st x t"
    unfolding reg_after_def assms(3) assms(4) [OF assms(2)] by (rule refl)
  with assms(1,3,4) show ?thesis unfolding put_post_def by auto
qed

lemma put_again_returns:
  assumes "tab_inv (task_ht st)" "filled (task_ht st)" "x \<noteq> 0" "lim < 2 ^ 64"
  shows "put_post st x t (put_again lim st x t)"
  using assms(1,2)
proof (induction "lim - length (task_ht st)" arbitrary: st rule: less_induct)
  case less
  let ?tab = "task_ht st"
  let ?slot = "slot_of (length ?tab) x"
  show ?case
  proof (cases "fst (?tab ! ?slot) = 0 \<or> fst (?tab ! ?slot) = x")
    case True
    define old where "old = (if fst (?tab ! ?slot) = x then rem_strm (strms st) (case snd (?tab ! ?slot) of None \<Rightarrow> None | Some t \<Rightarrow> t_strm t) else strms st)"
    have "put_again lim st x t = Some (True, st\<lparr>task_ht := ?tab[?slot := (x, Some t)], strms := add_strm old (t_strm t)\<rparr>)"
      using True assms(3) by (subst put_again.simps) (auto simp: put_slot_e_eq Let_def old_def)
    moreover have "fst (?tab ! ?slot) \<noteq> 0 \<longrightarrow> snd (?tab ! ?slot) \<noteq> None"
      using less.prems(2) nth_mem [OF slot_lt [OF less.prems(1), of x]] unfolding filled_def by blast
    then have "old = (case get_task ?tab x of None \<Rightarrow> strms st | Some o' \<Rightarrow> rem_strm (strms st) (t_strm o'))"
      using True assms(3) less.prems(1)
      by (cases "snd (?tab ! ?slot)") (auto simp: old_def get_task_eq Let_def)
    moreover have "echse_good (st\<lparr>task_ht := ?tab[?slot := (x, Some t)], strms := add_strm old (t_strm t)\<rparr>)"
      using store_inv [OF less.prems(1) assms(3)] less.prems(2) set_update_subset_insert [of ?tab ?slot "(x, Some t)"]
      by (fastforce simp: echse_good_def filled_def)
    ultimately show ?thesis
      using get_store [OF less.prems(1) assms(3) _ True, where t="Some t"]
      by (intro put_postI) (auto simp: reg_after_def)
  next
    case False
    then have none: "put_slot_e st x = (None, st)" by (simp add: put_slot_e_eq Let_def)
    from resz_eq [OF less.prems(1) assms(4)] show ?thesis
    proof
      assume "resz_task_ht lim st = Some (False, st) \<and> lim < length ?tab * 2"
      then have "put_again lim st x t = Some (False, st)"
        using none by (subst put_again.simps) simp
      with less.prems show ?thesis by (intro put_postI) (auto simp: echse_good_def)
    next
      assume "\<exists>tab. resz_task_ht lim st = Some (True, st\<lparr>task_ht := tab\<rparr>) \<and> tab_inv tab \<and>
       length tab = length ?tab * 2 \<and> length tab \<le> lim \<and>
       (\<forall>e\<in>set tab. fst e = 0 \<or> e \<in> set ?tab) \<and>
       (\<forall>y. y \<noteq> 0 \<longrightarrow> get_task tab y = get_task ?tab y)"
      then obtain tab where r: "resz_task_ht lim st = Some (True, st\<lparr>task_ht := tab\<rparr>)" "tab_inv tab"
        "length tab = length ?tab * 2" "length tab \<le> lim" "\<forall>e\<in>set tab. fst e = 0 \<or> e \<in> set ?tab"
        and g: "\<forall>y. y \<noteq> 0 \<longrightarrow> get_task tab y = get_task ?tab y" by blast
      let ?st = "st\<lparr>task_ht := tab\<rparr>"
      have "put_again lim st x t = put_again lim ?st x t"
        using none r(1) by (subst put_again.simps) simp
      moreover have "filled tab"
        using r(5) less.prems(2) by (fastforce simp: filled_def)
      moreover have "0 < length ?tab" using tab_inv_ne [OF less.prems(1)] by blast
      then have "lim - length tab < lim - length ?tab" using r(3,4) by linarith
      ultimately have "put_post ?st x t (put_again lim st x t)"
        using less.hyps [of ?st] r(2) by simp
      then show ?thesis by (rule put_post_same) (use g assms(3) in simp_all)
    qed
  qed
qed

lemma get_none [simp]: "get_task [] x = None"
  by (simp add: get_task_def)

lemma put_returns:
  assumes "echse_good st" "x \<noteq> 0" "lim < 2 ^ 64"
  shows "put_post st x t (put_task lim st x t)"
proof (cases "task_ht st = []")
  case True
  show ?thesis
  proof (cases "lim < 4")
    case False
    let ?new = "replicate 4 empty_slot :: 'a task tab"
    let ?st = "st\<lparr>task_ht := ?new\<rparr>"
    have e: "tab_inv ?new" "\<And>y. y \<noteq> 0 \<Longrightarrow> get_task ?new y = None"
      using empty_tab [of 2] get_empty [of 2] by simp_all
    have "filled ?new" by (simp add: filled_def empty_slot_def)
    with put_again_returns [of ?st x lim t] e assms True
    have "put_post ?st x t (put_task lim st x t)" using False by (simp add: put_task_def)
    then show ?thesis by (rule put_post_same) (use e assms True in simp_all)
  qed (use True assms in \<open>intro put_postI, auto simp: put_task_def\<close>)
next
  case False
  then show ?thesis
    using put_again_returns [of st x lim t] assms by (simp add: put_task_def echse_good_def)
qed


definition put_ok :: "nat \<Rightarrow> 's echse \<Rightarrow> 64 word \<Rightarrow> 's task \<Rightarrow> 's echse option" where
  "put_ok lim st x t = (case put_task lim st x t of Some (True, st') \<Rightarrow> Some st' | _ \<Rightarrow> None)"

interpretation etab: oid_map "\<lambda>st. get_task (task_ht st)" "put_ok lim"
  "\<lambda>st. echse_good st \<and> lim < 2 ^ 64"
proof
  fix st st' :: "'a echse" and x y :: "64 word" and t
  assume st: "echse_good st \<and> lim < 2 ^ 64" and x: "x \<noteq> 0" and p: "put_ok lim st x t = Some st'"
  have r: "put_task lim st x t = Some (True, st')"
    using p by (auto simp: put_ok_def split: option.splits prod.splits bool.splits)
  have "put_post st x t (put_task lim st x t)" using put_returns st x by blast
  then have q: "echse_good st'"
    "\<forall>y. y \<noteq> 0 \<longrightarrow> get_task (task_ht st') y = (if y = x then Some t else get_task (task_ht st) y)"
    unfolding put_post_def r by auto
  show "echse_good st' \<and> lim < 2 ^ 64" using q st by blast
  show "get_task (task_ht st') y = (if y = x then Some t else get_task (task_ht st) y)" if "y \<noteq> 0"
    using q that by blast
qed

text \<open>The registry without its empty places.\<close>

lemma condense_from_eq:
  "i + n = length xs \<Longrightarrow> j \<le> i \<Longrightarrow>
     (case condense_from n j i xs of (ys, k) \<Rightarrow>
       take k ys = take j xs @ filter (\<lambda>s. s \<noteq> None) (drop i xs) \<and> k \<le> length ys)"
proof (induction n arbitrary: i j xs)
  case (Suc n)
  let ?xs = "xs[j := xs ! i]"
  have i: "i < length xs" using Suc.prems(1) by simp
  have d: "drop i xs = xs ! i # drop (i + 1) xs" using i by (simp add: Cons_nth_drop_Suc)
  have d': "drop (i + 1) ?xs = drop (i + 1) xs" using Suc.prems(2) by simp
  have x: "?xs ! j = xs ! i" using Suc.prems(2) i by simp
  have t: "take (j + 1) ?xs = take j xs @ [xs ! i]" "take j ?xs = take j xs"
    using Suc.prems(2) i by (simp_all add: take_Suc_conv_app_nth)
  show ?case
    using Suc.IH [of "i + 1" ?xs "if xs ! i \<noteq> None then j + 1 else j"] Suc.prems d d' x t
    by (auto simp: Let_def split: prod.splits if_splits)
qed (auto)

lemma filter_takeWhile: "filter P xs = takeWhile P xs @ filter P (drop (length (takeWhile P xs) + 1) xs)"
  by (induction xs) auto

lemma condense: "condense_strms xs = filter (\<lambda>s. s \<noteq> None) xs"
proof -
  let ?P = "\<lambda>s. s \<noteq> None" and ?i = "length (takeWhile (\<lambda>s. s \<noteq> None) xs)"
  have f: "filter ?P xs = take ?i xs @ filter ?P (drop (?i + 1) xs)"
    unfolding takeWhile_eq_take [symmetric] by (rule filter_takeWhile)
  show ?thesis
  proof (cases "?i < length xs")
    case True
    then have "(?i + 1) + (length xs - (?i + 1)) = length xs" "?i \<le> ?i + 1" by simp_all
    from condense_from_eq [OF this] f show ?thesis
      by (simp add: condense_strms_def Let_def split: prod.splits)
  next
    case False
    then show ?thesis using f by (simp add: condense_strms_def)
  qed
qed


end
