(* ===== verification/Daemon.thy ===== *)
theory Daemon
  imports Complex_Main Event TaskTab
begin

text \<open>
  The daemon of \<^verbatim>\<open>src/src/echsd.c\<close> below its sockets: connections, credentials and the permission
  checks of task updates and cancellations, and the life of one scheduled task under libev; the
  owner field is that of \<^verbatim>\<open>src/src/nummapstr.h\<close>.

  Parameters stand for what the daemon asks others: \<open>uidof\<close> is \<open>getpwuid\<close> (the user and group
  recorded for a user number), \<open>namof\<close> is \<open>getpwnam\<close> of the string at an address, \<open>nxt\<close> the \<open>next\<close>
  method of the task's stream, \<open>now\<close> libev's clock in seconds.  Time stamps are \<open>double\<close> in
  the code and rationals here.
\<close>

section \<open>Numbers and strings in one word\<close>

definition NUMMAPSTR_NAN :: "64 word" where "NUMMAPSTR_NAN = - 1"

definition NUMMAPSTR_MSK :: "64 word" where "NUMMAPSTR_MSK = push_bit 63 1"

definition nummapstr_str :: "64 word \<Rightarrow> 64 word" where
  "nummapstr_str x = (if x AND NUMMAPSTR_MSK \<noteq> 0 then 0 else x)"

definition nummapstr_num :: "64 word \<Rightarrow> 64 word" where
  "nummapstr_num x = (if x AND NUMMAPSTR_MSK \<noteq> 0 then x XOR NUMMAPSTR_MSK else NUMMAPSTR_NAN)"

definition nummapstr_bang_num :: "64 word \<Rightarrow> 64 word" where
  "nummapstr_bang_num n = n OR NUMMAPSTR_MSK"

definition nummapstr_bang_str :: "64 word \<Rightarrow> 64 word" where
  "nummapstr_bang_str s = s"

lemma msk_bit: "bit NUMMAPSTR_MSK i \<longleftrightarrow> i = 63"
  unfolding NUMMAPSTR_MSK_def bit_push_bit_iff bit_1_iff by auto

lemma and_msk: "x AND NUMMAPSTR_MSK \<noteq> 0 \<longleftrightarrow> bit x 63"
  unfolding bit_eq_iff [of "x AND NUMMAPSTR_MSK" 0] by (auto simp: bit_and_iff msk_bit)

text \<open>A number below the top bit, a string address below it, and which of the two it is, survive.\<close>

lemma nummapstr_num_bang:
  assumes "\<not> bit n 63"
  shows "nummapstr_num (nummapstr_bang_num n) = n" "nummapstr_str (nummapstr_bang_num n) = 0"
proof -
  have "bit (n OR NUMMAPSTR_MSK) 63" by (simp add: bit_or_iff msk_bit)
  then show "nummapstr_str (nummapstr_bang_num n) = 0" "nummapstr_num (nummapstr_bang_num n) = n"
    using assms by (auto simp: nummapstr_num_def nummapstr_str_def nummapstr_bang_num_def and_msk
        intro!: bit_eqI) (auto simp: bit_or_iff bit_xor_iff msk_bit)
qed

lemma nummapstr_str_bang:
  "\<not> bit s 63 \<Longrightarrow> nummapstr_str (nummapstr_bang_str s) = s \<and> nummapstr_num (nummapstr_bang_str s) = NUMMAPSTR_NAN"
  by (auto simp: nummapstr_num_def nummapstr_str_def nummapstr_bang_str_def and_msk)

section \<open>Connections\<close>

text \<open>One word of free places; \<open>ffs\<close> is the index of the lowest set bit of an \<open>int\<close>, from 1, or 0.\<close>

definition ffs :: "64 word \<Rightarrow> nat" where
  "ffs w = (let v = take_bit 32 w in if v = 0 then 0 else ctz v + 1)"

definition make_conn :: "64 word \<Rightarrow> 64 word \<times> nat option" where
  "make_conn free_conns =
     (let i = (let a = ffs (free_conns AND 0xFFFFFFFF)
               in if a \<noteq> 0 then a else ffs (drop_bit 32 free_conns AND 0xFFFFFFFF))
      in if 0 < i then (free_conns XOR push_bit (i - 1) 1, Some (i - 1)) else (free_conns, None))"

definition free_conn :: "64 word \<Rightarrow> nat \<Rightarrow> 64 word" where
  "free_conn free_conns i = (if 64 \<le> i then free_conns else free_conns XOR push_bit i 1)"

lemma ffs_low:
  assumes "ffs w = Suc i"
  shows "bit w i" "i < 32"
proof -
  have v: "take_bit 32 w \<noteq> 0" "i = ctz (take_bit 32 w)" using assms by (auto simp: ffs_def Let_def split: if_splits)
  from ctz_bit(1) [OF v(1)] v(2) show "bit w i" "i < 32" by (auto simp: bit_take_bit_iff)
qed

lemma low_mask: "bit (w AND 0xFFFFFFFF :: 64 word) i \<longleftrightarrow> i < 32 \<and> bit w i"
proof -
  have "w AND 0xFFFFFFFF = take_bit 32 w" by (simp add: take_bit_eq_mask mask_numeral)
  then show ?thesis by (simp add: bit_take_bit_iff)
qed

text \<open>
  While one of the first 32 places is free, a connection gets a place that was free, and only that
  place is taken.
\<close>

lemma make_conn_fresh:
  assumes "i < 32" "bit free i"
  shows "\<exists>k. make_conn free = (free XOR push_bit k 1, Some k) \<and> bit free k"
proof -
  have "bit (take_bit 32 (free AND 0xFFFFFFFF)) i"
    using assms low_mask [of free i] by (simp only: bit_take_bit_iff)
  then have "take_bit 32 (free AND 0xFFFFFFFF) \<noteq> 0" by (metis bit_0_eq bot_apply bot_bool_def)
  then obtain k where k: "ffs (free AND 0xFFFFFFFF) = Suc k" by (auto simp: ffs_def Let_def)
  with ffs_low [OF k] low_mask [of free k] show ?thesis by (auto simp: make_conn_def Let_def)
qed

text \<open>
  The upper half is found with the index of its lower half: the 33rd connection is given the place
  of the first, which is in use.
\<close>

lemma conn_33_aliases: "make_conn 0xFFFFFFFF00000000 = (0xFFFFFFFF00000001, Some 0)"
  by code_simp

lemma conn_in_use: "\<not> bit (0xFFFFFFFF00000000 :: 64 word) 0"
  by simp

section \<open>Who may do what\<close>

record ncred =
  nc_u :: "32 word"
  nc_g :: "32 word"

definition NOT_A_UID :: "32 word" where "NOT_A_UID = - 1"

definition no_cred :: ncred where "no_cred = \<lparr>nc_u = NOT_A_UID, nc_g = 0\<rparr>"

definition compl_uid :: "(32 word \<Rightarrow> ncred option) \<Rightarrow> 32 word \<Rightarrow> ncred" where
  "compl_uid uidof u = (if u = NOT_A_UID then no_cred else case uidof u of None \<Rightarrow> no_cred | Some p \<Rightarrow> p)"

definition compl_user :: "(64 word \<Rightarrow> ncred option) \<Rightarrow> 64 word \<Rightarrow> ncred" where
  "compl_user namof u = (if u = 0 then no_cred else case namof u of None \<Rightarrow> no_cred | Some p \<Rightarrow> p)"

definition compl_owner ::
  "(32 word \<Rightarrow> ncred option) \<Rightarrow> (64 word \<Rightarrow> ncred option) \<Rightarrow> 64 word \<Rightarrow> ncred" where
  "compl_owner uidof namof ow =
     (if nummapstr_str ow \<noteq> 0 then compl_user namof (nummapstr_str ow)
      else if nummapstr_num ow \<noteq> NUMMAPSTR_NAN then compl_uid uidof (ucast (nummapstr_num ow))
      else no_cred)"

text \<open>The task of the library and the daemon's wrapper, with libev's watcher.\<close>

record 's jtask =
  j_oid :: "64 word"
  j_owner :: "64 word"
  j_strm :: "'s option"
  j_max_simul :: nat

datatype cb = Task_cb | Unsched

record 's dtask =
  d_active :: bool
  d_cb :: cb
  d_resched :: bool
  d_at :: rat
  d_cur :: instant
  d_dur :: int
  d_t :: "'s jtask option"
  d_nrun :: nat
  d_nsim :: nat
  d_cred :: ncred

text \<open>The object \<open>make_task\<close> hands out is cleared.\<close>

definition zero_task :: "'s dtask" where
  "zero_task = \<lparr>d_active = False, d_cb = Task_cb, d_resched = False, d_at = 0, d_cur = echs_nul_instant,
     d_dur = 0, d_t = None, d_nrun = 0, d_nsim = 0, d_cred = \<lparr>nc_u = 0, nc_g = 0\<rparr>\<rparr>"

definition echs_task_owner :: "'s jtask \<Rightarrow> 32 word" where
  "echs_task_owner t =
     (let ow = nummapstr_num (j_owner t) in if ow \<noteq> NUMMAPSTR_NAN then ucast ow else NOT_A_UID)"

definition echs_task_owned_by_p :: "'s jtask \<Rightarrow> 32 word \<Rightarrow> bool" where
  "echs_task_owned_by_p t uid \<longleftrightarrow> echs_task_owner t = uid"

definition echs_task_rset_ownr :: "'s jtask \<Rightarrow> 32 word \<Rightarrow> 's jtask" where
  "echs_task_rset_ownr t uid = t\<lparr>j_owner := nummapstr_bang_num (ucast uid)\<rparr>"

lemma owner_reset: "echs_task_owner (echs_task_rset_ownr t uid) = uid"
proof -
  have high: "\<not> bit uid k" if "32 \<le> k" for k
    using that bit_imp_le_length [of uid k] by auto
  then have "\<not> bit (ucast uid :: 64 word) 63" by (simp add: bit_ucast_iff)
  then have n: "nummapstr_num (nummapstr_bang_num (ucast uid)) = ucast uid" by (rule nummapstr_num_bang)
  have "\<not> bit (ucast uid :: 64 word) 40" using high by (simp add: bit_ucast_iff)
  then have "ucast uid \<noteq> NUMMAPSTR_NAN" by (auto simp: NUMMAPSTR_NAN_def)
  moreover have "ucast (ucast uid :: 64 word) = uid"
    by (rule bit_eqI) (auto simp: bit_ucast_iff dest: high [rotated])
  ultimately show ?thesis using n by (simp add: echs_task_owner_def echs_task_rset_ownr_def)
qed

section \<open>Time stamps\<close>

definition mon_yday :: "int list" where
  "mon_yday = [0xfff8, 0, 31, 59, 90, 120, 151, 181, 212, 243, 273, 304, 334, 365]"

definition tstamp_days :: "instant \<Rightarrow> int" where
  "tstamp_days i =
     (let nd = u32 (365 * (i_y i - 2001) + u32 (i_y i - 2001) div 4)
      in u32 (nd + (mon_yday ! nat (i_m i) + i_d i + (if i_y i mod 4 = 0 \<and> 3 \<le> i_m i then 1 else 0))))"

definition instant_to_tstamp :: "instant \<Rightarrow> rat" where
  "instant_to_tstamp i =
     (let nd = tstamp_days i;
          t = (if \<not> echs_instant_all_day_p i then ((nd * 24 + i_H i) * 60 + i_M i) * 60 + i_S i else nd * 86400)
      in of_int (t + 11322 * 86400))"

definition unwind_till ::
  "('s \<Rightarrow> bool \<Rightarrow> (event \<times> 's) option) \<Rightarrow> 's \<Rightarrow> rat \<Rightarrow> (event \<times> 's) option" where
  "unwind_till nxt x t = unwind nxt (\<lambda>e. instant_to_tstamp (ev_from e) < t) x"

section \<open>Rescheduling\<close>

text \<open>
  \<open>resched\<close>, libev's \<open>reschedule_cb\<close>; what it returns becomes the watcher's next time.  A task
  without a stream never gets here; dereferencing one would not return.
\<close>

definition resched ::
  "('s \<Rightarrow> bool \<Rightarrow> (event \<times> 's) option) \<Rightarrow> rat \<Rightarrow> 's dtask \<Rightarrow> 's dtask option" where
  "resched nxt now w =
     (case d_t w of None \<Rightarrow> None
      | Some t \<Rightarrow>
          (case j_strm t of None \<Rightarrow> None
           | Some s \<Rightarrow>
               do { (e, s) \<leftarrow> unwind_till nxt s now;
                    let w = w\<lparr>d_t := Some (t\<lparr>j_strm := Some s\<rparr>)\<rparr>
                    in if echs_event_0_p e \<and> d_nrun w = 0
                       then Some (w\<lparr>d_resched := False, d_cb := Unsched, d_cur := echs_nul_instant, d_at := now\<rparr>)
                       else if echs_event_0_p e
                       then Some (w\<lparr>d_resched := False, d_cur := echs_nul_instant, d_at := now + 10 ^ 30\<rparr>)
                       else Some (w\<lparr>d_cur := ev_from e, d_dur := ev_dur e, d_nrun := d_nrun w + 1,
                                    d_at := instant_to_tstamp (ev_from e)\<rparr>) }))"

text \<open>\<open>ev_periodic_init\<close> with the two callbacks, and \<open>ev_periodic_start\<close>, which asks for the first time.\<close>

definition start_task ::
  "('s \<Rightarrow> bool \<Rightarrow> (event \<times> 's) option) \<Rightarrow> rat \<Rightarrow> 's dtask \<Rightarrow> 's dtask option" where
  "start_task nxt now w =
     do { w \<leftarrow> resched nxt now (w\<lparr>d_cb := Task_cb, d_resched := True\<rparr>); Some (w\<lparr>d_active := True\<rparr>) }"

section \<open>Updating and cancelling tasks\<close>

text \<open>The table's pointer to the daemon's object, which is updated in place.\<close>

definition set_task :: "'s dtask tab \<Rightarrow> 64 word \<Rightarrow> 's dtask \<Rightarrow> 's dtask tab" where
  "set_task tab x w = tab[slot_of (length tab) x := (x, Some w)]"

text \<open>The checks that come first, with the user the task will run as: of the peer and of the owner.\<close>

definition inject_user ::
  "(32 word \<Rightarrow> ncred option) \<Rightarrow> (64 word \<Rightarrow> ncred option) \<Rightarrow> 32 word \<Rightarrow> 64 word \<Rightarrow> 32 word \<Rightarrow>
     (32 word \<times> 32 word) option" where
  "inject_user uidof namof me ow u =
     (let oc = nc_u (compl_owner uidof namof ow); uc = nc_u (compl_uid uidof u)
      in if uc = NOT_A_UID \<and> oc = NOT_A_UID then None
         else if uc = NOT_A_UID \<and> me \<noteq> 0 \<and> oc \<noteq> me then None
         else if oc = NOT_A_UID \<and> me \<noteq> 0 \<and> uc \<noteq> me then None
         else if uc \<noteq> NOT_A_UID \<and> oc \<noteq> NOT_A_UID \<and> oc \<noteq> uc then None
         else if oc = NOT_A_UID then Some (uc, uc)
         else if uc = NOT_A_UID then Some (oc, oc)
         else Some (uc, oc))"

text \<open>From the object of the task, new or stopped and freed of its old task, to the schedule.\<close>

definition inject_into ::
  "(32 word \<Rightarrow> ncred option) \<Rightarrow> ('s \<Rightarrow> bool \<Rightarrow> (event \<times> 's) option) \<Rightarrow> rat \<Rightarrow> 's jtask \<Rightarrow> 32 word \<Rightarrow>
     's dtask \<Rightarrow> 's dtask tab \<Rightarrow> (bool \<times> 's dtask tab) option" where
  "inject_into uidof nxt now t uc res tab =
     (let uc = compl_uid uidof uc
      in if nc_u uc = NOT_A_UID then Some (False, set_task tab (j_oid t) res)
         else do { w \<leftarrow> start_task nxt now
                     (res\<lparr>d_t := Some (echs_task_rset_ownr t (nc_u uc)), d_cred := uc\<rparr>);
                   Some (True, set_task tab (j_oid t) w) })"

definition inject_task1 ::
  "nat \<Rightarrow> (32 word \<Rightarrow> ncred option) \<Rightarrow> (64 word \<Rightarrow> ncred option) \<Rightarrow> 32 word \<Rightarrow>
     ('s \<Rightarrow> bool \<Rightarrow> (event \<times> 's) option) \<Rightarrow> rat \<Rightarrow> 's dtask tab \<Rightarrow> 's jtask \<Rightarrow> 32 word \<Rightarrow>
     (bool \<times> 's dtask tab) option" where
  "inject_task1 lmt uidof namof me nxt now tab t u =
     (case inject_user uidof namof me (j_owner t) u of
        None \<Rightarrow> Some (False, tab)
      | Some (uc, oc) \<Rightarrow>
          if j_strm t = None then Some (False, tab)
          else case get_task tab (j_oid t) of
            Some res \<Rightarrow>
              (case d_t res of
                 None \<Rightarrow> None
               | Some old \<Rightarrow>
                   if \<not> echs_task_owned_by_p old oc then Some (False, tab)
                   else inject_into uidof nxt now t uc (res\<lparr>d_active := False, d_t := None\<rparr>) tab)
          | None \<Rightarrow>
              (case make_task_ht lmt tab (j_oid t) zero_task of
                 None \<Rightarrow> Some (False, tab)
               | Some tab \<Rightarrow> inject_into uidof nxt now t uc zero_task tab))"

text \<open>Handing a task back: out of the table, by the id its library task carries.\<close>

definition free_task :: "'s dtask tab \<Rightarrow> 's dtask \<Rightarrow> 's dtask tab option" where
  "free_task tab w = (case d_t w of None \<Rightarrow> None | Some t \<Rightarrow> Some (free_task_ht tab (j_oid t)))"

definition eject_task1 :: "'s dtask tab \<Rightarrow> 64 word \<Rightarrow> 32 word \<Rightarrow> (bool \<times> 's dtask tab) option" where
  "eject_task1 tab x uid =
     (case get_task tab x of
        None \<Rightarrow> Some (False, tab)
      | Some res \<Rightarrow>
          (case d_t res of
             None \<Rightarrow> None
           | Some t \<Rightarrow>
               if \<not> echs_task_owned_by_p t uid then Some (False, tab)
               else do { tab \<leftarrow> free_task tab res; Some (True, tab) }))"

text \<open>Every object of the table has its task, filed under the task's id; no two things share an id.\<close>

definition jobs_inv :: "'s dtask tab \<Rightarrow> bool" where
  "jobs_inv tab \<longleftrightarrow> tab_inv tab \<and>
     (\<forall>x w. x \<noteq> 0 \<longrightarrow> get_task tab x = Some w \<longrightarrow> (\<exists>t. d_t w = Some t \<and> j_oid t = x))"

definition owned :: "'s dtask \<Rightarrow> 32 word \<Rightarrow> bool" where
  "owned w v \<longleftrightarrow> (\<exists>t. d_t w = Some t \<and> echs_task_owner t = v)"

lemma set_task_get:
  assumes "tab_inv tab" "x \<noteq> 0" "get_task tab x \<noteq> None"
  shows "tab_inv (set_task tab x w)"
    and "y \<noteq> 0 \<Longrightarrow> get_task (set_task tab x w) y = (if y = x then Some w else get_task tab y)"
proof -
  show "tab_inv (set_task tab x w)" unfolding set_task_def by (rule store_inv [OF assms(1,2)])
  have "fst (tab ! slot_of (length tab) x) = x"
    using assms get_task_eq [OF assms(1,2)] by (auto simp: Let_def split: if_splits)
  then show "y \<noteq> 0 \<Longrightarrow> get_task (set_task tab x w) y = (if y = x then Some w else get_task tab y)"
    unfolding set_task_def by (intro get_store [OF assms(1,2)]) auto
qed

lemma resched_keeps:
  assumes "resched nxt now w = Some w'"
  shows "\<exists>t t'. d_t w = Some t \<and> d_t w' = Some t' \<and> j_oid t' = j_oid t \<and> j_owner t' = j_owner t \<and>
    d_nsim w' = d_nsim w \<and> j_max_simul t' = j_max_simul t"
  using assms unfolding resched_def
  by (auto simp: bind_eq_Some_conv Let_def split: option.splits if_splits)

lemma inject_user_known:
  assumes "inject_user uidof namof me ow u = Some (uc, oc)" "nc_u (compl_uid uidof u) \<noteq> NOT_A_UID"
  shows "uc = nc_u (compl_uid uidof u)" "oc = nc_u (compl_uid uidof u)"
  using assms by (auto simp: inject_user_def Let_def split: if_splits)

text \<open>\<open>getpwuid\<close> records a user under the number it was asked for.\<close>

definition pw_sound :: "(32 word \<Rightarrow> ncred option) \<Rightarrow> bool" where
  "pw_sound uidof \<longleftrightarrow> (\<forall>u p. uidof u = Some p \<longrightarrow> nc_u p = u)"

lemma compl_uid_known: "pw_sound uidof \<Longrightarrow> nc_u (compl_uid uidof u) \<noteq> NOT_A_UID \<Longrightarrow> nc_u (compl_uid uidof u) = u"
  by (auto simp: compl_uid_def no_cred_def pw_sound_def split: if_splits option.splits)

lemma inject_into_spec:
  assumes "inject_into uidof nxt now t uc res tab = Some (ok, tab')" "tab_inv tab" "j_oid t \<noteq> 0"
    "get_task tab (j_oid t) \<noteq> None" "pw_sound uidof" "nc_u (compl_uid uidof uc) \<noteq> NOT_A_UID"
  shows "ok \<and> tab_inv tab' \<and> (\<exists>w t'. d_t w = Some t' \<and> j_oid t' = j_oid t \<and> echs_task_owner t' = uc \<and>
    (\<forall>y. y \<noteq> 0 \<longrightarrow> get_task tab' y = (if y = j_oid t then Some w else get_task tab y)))"
proof -
  have u: "nc_u (compl_uid uidof uc) = uc" by (rule compl_uid_known [OF assms(5,6)])
  obtain w where w: "start_task nxt now
      (res\<lparr>d_t := Some (echs_task_rset_ownr t uc), d_cred := compl_uid uidof uc\<rparr>) = Some w"
    "ok" "tab' = set_task tab (j_oid t) w"
    using assms(1,6) u by (auto simp: inject_into_def Let_def bind_eq_Some_conv)
  then obtain w1 where w1: "resched nxt now (res\<lparr>d_t := Some (echs_task_rset_ownr t uc),
      d_cred := compl_uid uidof uc, d_cb := Task_cb, d_resched := True\<rparr>) = Some w1"
    "w = w1\<lparr>d_active := True\<rparr>"
    by (auto simp: start_task_def bind_eq_Some_conv)
  from resched_keeps [OF w1(1)] obtain t' where t': "d_t w1 = Some t'"
    "j_oid t' = j_oid t" "j_owner t' = j_owner (echs_task_rset_ownr t uc)"
    by (auto simp: echs_task_rset_ownr_def)
  have "echs_task_owner t' = uc"
    using owner_reset [of t uc] t'(3) by (simp add: echs_task_owner_def)
  moreover have "d_t w = Some t'" using t'(1) w1(2) by simp
  moreover have "tab_inv tab'" "\<forall>y. y \<noteq> 0 \<longrightarrow> get_task tab' y = (if y = j_oid t then Some w else get_task tab y)"
    unfolding w(3) using set_task_get [OF assms(2-4)] by blast+
  ultimately show ?thesis using t'(2) w(2) by blast
qed

text \<open>
  What a command of a known user comes to: nothing, or one task of his is set up, or removed,
  where before there was none or one of his own.
\<close>

definition only_own :: "'s dtask tab \<Rightarrow> 's dtask tab \<Rightarrow> 64 word \<Rightarrow> 32 word \<Rightarrow> bool" where
  "only_own tab tab' x u \<longleftrightarrow> jobs_inv tab' \<and>
     (\<forall>y. y \<noteq> 0 \<longrightarrow> y \<noteq> x \<longrightarrow> get_task tab' y = get_task tab y) \<and>
     (\<forall>w. get_task tab x = Some w \<longrightarrow> owned w u \<or> get_task tab' x = Some w) \<and>
     (\<forall>w. get_task tab' x = Some w \<longrightarrow> owned w u \<or> get_task tab x = Some w)"

lemma only_own_refl: "jobs_inv tab \<Longrightarrow> only_own tab tab x u"
  by (simp add: only_own_def)

lemma inject_into_own:
  assumes "inject_into uidof nxt now t u res tab1 = Some (ok, tab')" "jobs_inv tab" "tab_inv tab1"
    and "j_oid t \<noteq> 0" "get_task tab1 (j_oid t) \<noteq> None" "pw_sound uidof" "nc_u (compl_uid uidof u) \<noteq> NOT_A_UID"
    and "\<And>y. y \<noteq> 0 \<Longrightarrow> y \<noteq> j_oid t \<Longrightarrow> get_task tab1 y = get_task tab y"
    and "\<And>w. get_task tab (j_oid t) = Some w \<Longrightarrow> owned w u"
  shows "ok \<and> only_own tab tab' (j_oid t) u"
proof -
  obtain w t' where w: "ok" "tab_inv tab'" "d_t w = Some t'" "j_oid t' = j_oid t" "echs_task_owner t' = u"
    "\<forall>y. y \<noteq> 0 \<longrightarrow> get_task tab' y = (if y = j_oid t then Some w else get_task tab1 y)"
    using inject_into_spec [OF assms(1,3-7)] by blast
  have "jobs_inv tab'"
    unfolding jobs_inv_def using w(2-4,6) assms(2,8) by (auto simp: jobs_inv_def)
  moreover have "owned w u" using w(3,5) by (auto simp: owned_def)
  ultimately show ?thesis
    unfolding only_own_def using w(1,6) assms(4,8,9) by auto
qed

lemma inject_own:
  assumes "inject_task1 lmt uidof namof me nxt now tab t u = Some (ok, tab')" "jobs_inv tab"
    and "j_oid t \<noteq> 0" "pw_sound uidof" "nc_u (compl_uid uidof u) \<noteq> NOT_A_UID"
  shows "only_own tab tab' (j_oid t) u"
proof -
  note keep = only_own_refl [OF assms(2)]
  have u: "nc_u (compl_uid uidof u) = u" by (rule compl_uid_known [OF assms(4,5)])
  show ?thesis
  proof (cases "inject_user uidof namof me (j_owner t) u = None \<or> j_strm t = None")
    case True
    then have "tab' = tab" using assms(1) by (auto simp: inject_task1_def split: option.splits)
    with keep show ?thesis by simp
  next
    case False
    then obtain uc oc where "inject_user uidof namof me (j_owner t) u = Some (uc, oc)" by auto
    with inject_user_known [OF this assms(5)] u False
    have iu: "inject_user uidof namof me (j_owner t) u = Some (u, u)" "j_strm t \<noteq> None" by auto
    show ?thesis
    proof (cases "get_task tab (j_oid t)")
      case None
      show ?thesis
      proof (cases "make_task_ht lmt tab (j_oid t) zero_task")
        case None
        then have "tab' = tab" using assms(1) iu \<open>get_task tab (j_oid t) = None\<close>
          by (simp add: inject_task1_def)
        with keep show ?thesis by simp
      next
        case (Some tab1)
        have ti: "tab_inv tab" using assms(2) by (simp add: jobs_inv_def)
        have t1: "tab_inv tab1" "\<And>y. y \<noteq> 0 \<Longrightarrow> get_task tab1 y = (if y = j_oid t then Some zero_task else get_task tab y)"
          by (rule dtab.put_good [OF ti assms(3) Some], rule dtab.get_put [OF ti assms(3) Some])
        have "inject_into uidof nxt now t u zero_task tab1 = Some (ok, tab')"
          using assms(1) iu None Some by (simp add: inject_task1_def)
        then show ?thesis
          using inject_into_own [of uidof nxt now t u zero_task tab1 ok tab' tab] t1 assms(2-5) None by simp
      qed
    next
      case (Some res)
      with assms(2,3) obtain old where old: "d_t res = Some old" by (auto simp: jobs_inv_def)
      show ?thesis
      proof (cases "echs_task_owned_by_p old u")
        case False
        then have "tab' = tab" using assms(1) iu Some old by (simp add: inject_task1_def)
        with keep show ?thesis by simp
      next
        case True
        have "inject_into uidof nxt now t u (res\<lparr>d_active := False, d_t := None\<rparr>) tab = Some (ok, tab')"
          using assms(1) iu Some old True by (simp add: inject_task1_def)
        moreover have "owned res u" using True old by (simp add: owned_def echs_task_owned_by_p_def)
        ultimately show ?thesis
          using inject_into_own [of uidof nxt now t u _ tab ok tab' tab] assms(2-5) Some
          by (auto simp: jobs_inv_def)
      qed
    qed
  qed
qed

lemma eject_own:
  assumes "eject_task1 tab x u = Some (ok, tab')" "jobs_inv tab" "x \<noteq> 0"
  shows "only_own tab tab' x u"
proof (cases "get_task tab x")
  case None
  then have "tab' = tab" using assms(1) by (simp add: eject_task1_def)
  with only_own_refl [OF assms(2)] show ?thesis by simp
next
  case (Some res)
  with assms(2,3) obtain old where old: "d_t res = Some old" "j_oid old = x" by (auto simp: jobs_inv_def)
  show ?thesis
  proof (cases "echs_task_owned_by_p old u")
    case False
    then have "tab' = tab" using assms(1) Some old by (simp add: eject_task1_def)
    with only_own_refl [OF assms(2)] show ?thesis by simp
  next
    case True
    have t: "tab' = free_task_ht tab x"
      using assms(1) Some old True by (simp add: eject_task1_def free_task_def)
    have ti: "tab_inv tab" using assms(2) by (simp add: jobs_inv_def)
    have g: "y \<noteq> 0 \<Longrightarrow> get_task tab' y = (if y = x then None else get_task tab y)" for y
      unfolding t by (rule dtab.get_del [OF ti assms(3)])
    have "tab_inv tab'" unfolding t by (rule dtab.del_good [OF ti assms(3)])
    then have "jobs_inv tab'" using g assms(2) by (auto simp: jobs_inv_def split: if_splits)
    moreover have "owned res u" using True old by (simp add: owned_def echs_task_owned_by_p_def)
    ultimately show ?thesis unfolding only_own_def using g Some assms(3) by auto
  qed
qed

section \<open>Commands of many users\<close>

datatype 's dcmd = Inject "32 word" "'s jtask" rat | Eject "32 word" "64 word"

fun peer :: "'s dcmd \<Rightarrow> 32 word" where
  "peer (Inject u t now) = u"
| "peer (Eject u x) = u"

fun about_id :: "'s dcmd \<Rightarrow> 64 word" where
  "about_id (Inject u t now) = j_oid t"
| "about_id (Eject u x) = x"

fun run_cmd where
  "run_cmd lmt uidof namof me nxt (Inject u t now) tab = inject_task1 lmt uidof namof me nxt now tab t u"
| "run_cmd lmt uidof namof me nxt (Eject u x) tab = eject_task1 tab x u"

fun run_cmds where
  "run_cmds lmt uidof namof me nxt [] tab = Some tab"
| "run_cmds lmt uidof namof me nxt (c # cs) tab =
     do { (_, tab) \<leftarrow> run_cmd lmt uidof namof me nxt c tab; run_cmds lmt uidof namof me nxt cs tab }"

lemma run_cmd_own:
  assumes "run_cmd lmt uidof namof me nxt c tab = Some (ok, tab')" "jobs_inv tab" "about_id c \<noteq> 0"
    "pw_sound uidof" "nc_u (compl_uid uidof (peer c)) \<noteq> NOT_A_UID"
  shows "only_own tab tab' (about_id c) (peer c)"
  using assms by (cases c) (auto intro: inject_own eject_own)

text \<open>
  C8: however many known users send updates and cancellations, whatever owner their tasks claim,
  the tasks of a user who sends none are all still there and as they were.
\<close>
theorem users_are_isolated:
  assumes "run_cmds lmt uidof namof me nxt cs tab = Some tab'" "jobs_inv tab" "pw_sound uidof"
    and "list_all (\<lambda>c. about_id c \<noteq> 0 \<and> peer c \<noteq> v \<and> nc_u (compl_uid uidof (peer c)) \<noteq> NOT_A_UID) cs"
    and "x \<noteq> 0" "get_task tab x = Some w" "owned w v"
  shows "get_task tab' x = Some w"
  using assms
proof (induction cs arbitrary: tab)
  case (Cons c cs)
  from Cons.prems(1) obtain ok tab1 where c: "run_cmd lmt uidof namof me nxt c tab = Some (ok, tab1)"
    and r: "run_cmds lmt uidof namof me nxt cs tab1 = Some tab'"
    by (auto simp: bind_eq_Some_conv)
  have own: "only_own tab tab1 (about_id c) (peer c)"
    using run_cmd_own [OF c Cons.prems(2) _ Cons.prems(3)] Cons.prems(4) by simp
  have "\<not> owned w (peer c)" using Cons.prems(4,7) by (auto simp: owned_def)
  then have "get_task tab1 x = Some w"
    using own Cons.prems(5,6) unfolding only_own_def by (cases "x = about_id c") auto
  moreover have "jobs_inv tab1" using own by (simp add: only_own_def)
  ultimately show ?case using Cons.IH [OF r] Cons.prems by simp
qed simp

section \<open>A small system\<close>

text \<open>Users 1 and 2 are known; streams are event arrays.\<close>

definition pw2 :: "32 word \<Rightarrow> ncred option" where
  "pw2 u = (if u = 0 \<or> u = 1 \<or> u = 2 then Some \<lparr>nc_u = u, nc_g = u\<rparr> else None)"

definition jan_event :: event where
  "jan_event = echs_nul_event\<lparr>ev_from := \<lparr>i_y = 2016, i_m = 1, i_d = 5, i_H = 8, i_M = 0, i_S = 0, i_ms = 0\<rparr>\<rparr>"

definition job :: "64 word \<Rightarrow> 64 word \<Rightarrow> evical jtask" where
  "job x ow = \<lparr>j_oid = x, j_owner = ow, j_strm = Some (make_evical_vevent [jan_event]), j_max_simul = 63\<rparr>"

text \<open>User 2 has task 9.\<close>

definition user_table :: "evical dtask tab" where
  "user_table = set_task (ini_task_ht []) 9 (zero_task\<lparr>d_t := Some (job 9 (nummapstr_bang_num 2))\<rparr>)"

lemma user_table_inv: "jobs_inv user_table" "get_task user_table 9 = Some (zero_task\<lparr>d_t := Some (job 9 (nummapstr_bang_num 2))\<rparr>)"
proof -
  let ?w = "zero_task\<lparr>d_t := Some (job 9 (nummapstr_bang_num 2))\<rparr>"
  have s: "fst ((ini_task_ht [] :: evical dtask tab) ! slot_of (length (ini_task_ht [] :: evical dtask tab)) 9) = 0"
    using slot_lt [OF fresh_inv [where 'a="evical dtask"], of 9] by (simp add: ini_task_ht_def empty_slot_def)
  have g: "y \<noteq> 0 \<Longrightarrow> get_task user_table y = (if y = 9 then Some ?w else get_task (ini_task_ht []) y)" for y
    unfolding user_table_def set_task_def by (rule get_store [OF fresh_inv _ _ disjI1 [OF s]]) simp_all
  have "tab_inv user_table"
    unfolding user_table_def set_task_def by (rule store_inv [OF fresh_inv]) simp
  moreover have "\<exists>t. d_t w = Some t \<and> j_oid t = y" if "y \<noteq> 0" "get_task user_table y = Some w" for y w
    using that g [OF that(1)] get_fresh [OF that(1), where 'a="evical dtask"] by (auto simp: job_def split: if_splits)
  ultimately show "jobs_inv user_table" unfolding jobs_inv_def by blast
  show "get_task user_table 9 = Some ?w" using g [of 9] by simp
qed

theorem users_are_isolated_witness:
  "\<exists>tab'. run_cmds 4096 pw2 (\<lambda>_. None) 0 next_evical_vevent
      [Inject 1 (job 9 0) 0, Inject 1 (job 25 (nummapstr_bang_num 2)) 0, Eject 1 9, Inject 1 (job 25 0) 0] user_table = Some tab' \<and>
    get_task tab' 9 = Some (zero_task\<lparr>d_t := Some (job 9 (nummapstr_bang_num 2))\<rparr>)"
proof -
  let ?cs = "[Inject 1 (job 9 0) 0, Inject 1 (job 25 (nummapstr_bang_num 2)) 0, Eject 1 9, Inject 1 (job 25 0) 0]"
  have "run_cmds 4096 pw2 (\<lambda>_. None) 0 next_evical_vevent ?cs user_table \<noteq> None"
    by code_simp
  then obtain tab' where r: "run_cmds 4096 pw2 (\<lambda>_. None) 0 next_evical_vevent ?cs user_table = Some tab'"
    by auto
  have p: "pw_sound pw2" by (simp add: pw_sound_def pw2_def)
  have c: "list_all (\<lambda>c. about_id c \<noteq> 0 \<and> peer c \<noteq> 2 \<and> nc_u (compl_uid pw2 (peer c)) \<noteq> NOT_A_UID) ?cs"
    by code_simp
  have w: "owned (zero_task\<lparr>d_t := Some (job 9 (nummapstr_bang_num 2))\<rparr>) 2"
    unfolding owned_def by (rule exI [of _ "job 9 (nummapstr_bang_num 2)"]) code_simp
  have "get_task tab' 9 = Some (zero_task\<lparr>d_t := Some (job 9 (nummapstr_bang_num 2))\<rparr>)"
    by (rule users_are_isolated [OF r user_table_inv(1) p c _ user_table_inv(2) w]) simp
  with r show ?thesis by blast
qed

text \<open>
  A peer the user database does not know is treated like a queue file of the daemon's own: he gets
  whatever user his task names, and replaces that user's task.
\<close>

lemma unknown_peer_gets_owner:
  "inject_user pw2 (\<lambda>_. None) 0 (nummapstr_bang_num 0) 77 = Some (0, 0)"
  by code_simp

text \<open>
  A daemon that is not root's takes tasks of other users, if only the task names its sender as owner.
\<close>

lemma foreign_task_accepted:
  "inject_user pw2 (\<lambda>_. None) 1 0 2 = None"
  "inject_user pw2 (\<lambda>_. None) 1 (nummapstr_bang_num 2) 2 = Some (2, 2)"
  by code_simp+

text \<open>
  The web interface: the user \<open>u\<close> on whose behalf a request is answered, from the peer's and the
  one in the address (\<open>- 1\<close> for none).  A peer who is not root only ever acts for himself.
\<close>

definition http_user :: "32 word \<Rightarrow> 32 word \<Rightarrow> 32 word option" where
  "http_user c uid =
     (let u = c AND uid in if u \<noteq> c then None else Some (if u \<noteq> 0 then u else uid))"

lemma http_user_own: "http_user c uid = Some u \<Longrightarrow> c \<noteq> 0 \<Longrightarrow> u = c"
  by (auto simp: http_user_def Let_def split: if_splits)

lemma http_user_root: "http_user 0 uid = Some uid"
  by (simp add: http_user_def)

section \<open>Time stamps are seconds\<close>

lemma mon_yday_doy: "1 \<le> m \<Longrightarrow> m \<le> 12 \<Longrightarrow> mon_yday ! nat m = doy ! nat m"
  by (cases m rule: month_cases) (simp_all add: mon_yday_def doy_def)

definition epoch_1970 :: instant where
  "epoch_1970 = \<lparr>i_y = 1970, i_m = 1, i_d = 1, i_H = 0, i_M = 0, i_S = 0, i_ms = 0\<rparr>"

definition unix_secs :: "instant \<Rightarrow> int" where
  "unix_secs i = (inst_ms i - inst_ms epoch_1970) div 1000"

lemma doy_range: "1 \<le> m \<Longrightarrow> m \<le> 12 \<Longrightarrow> 0 \<le> doy ! nat m \<and> doy ! nat m \<le> 334"
  by (cases m rule: month_cases) (simp_all add: doy_def)

lemma tstamp_days_eq:
  assumes "valid_date i" "2001 \<le> i_y i"
  shows "tstamp_days i = dayno (i_y i) (i_m i) (i_d i) - 730866"
proof -
  have y: "i_y i < 65536" using assms(1) by (simp add: valid_date_def)
  define z q where "z = i_y i - 2001" and "q = z div 4"
  have q: "(i_y i + 3) div 4 = q + 501" "i_y i = z + 2001" unfolding q_def z_def by presburger+
  have z: "0 \<le> z" "z < 65536" using assms(2) y by (simp_all add: z_def)
  have a: "u32 z = z" using z by (simp add: u32_id)
  have b: "0 \<le> q" "q \<le> z" using z by (simp_all add: q_def)
  have c: "u32 (365 * z + q) = 365 * z + q"
    using b z by (intro u32_id) linarith+
  note m = valid_month [OF assms(1)]
  note d = valid_day [OF assms(1)]
  let ?l = "if i_y i mod 4 = 0 \<and> 3 \<le> i_m i then 1 else (0::int)"
  have "0 \<le> ?l" "?l \<le> 1" by simp_all
  then have "u32 (365 * z + q + (doy ! nat (i_m i) + i_d i + ?l)) = 365 * z + q + (doy ! nat (i_m i) + i_d i + ?l)"
    using b z d doy_range [OF m [THEN conjunct1] m [THEN conjunct2]]
    by (intro u32_id) linarith+
  then show ?thesis
    unfolding tstamp_days_def dayno_def Let_def z_def [symmetric] a q_def [symmetric] c q(1)
      mon_yday_doy [OF m [THEN conjunct1] m [THEN conjunct2]] using q(2) by simp
qed

lemma tstamp_unix:
  assumes "inst_valid i" "2001 \<le> i_y i"
  shows "instant_to_tstamp i = of_int (unix_secs i)"
proof -
  have v: "valid_date i" "valid_tod i" using assms(1) by (simp_all add: inst_valid_def)
  have e: "inst_ms epoch_1970 = 719544 * 86400000"
    by (simp add: inst_ms_def inst_tod_def ext_dayno_dayno epoch_1970_def dayno_def doy_def MSECS_PER_DAY_def)
  have n: "\<not> echs_instant_all_day_p i" using v(2) by (simp add: echs_instant_all_day_p_def ECHS_ALL_DAY_def valid_tod_def)
  have "inst_ms i - inst_ms epoch_1970 =
      ((((tstamp_days i + 11322) * 24 + i_H i) * 60 + i_M i) * 60 + i_S i) * 1000 + i_ms i"
    unfolding inst_ms_valid [OF v(1)] e tstamp_days_eq [OF v(1) assms(2)]
    by (simp add: inst_tod_def MSECS_PER_DAY_def)
  then have "unix_secs i = (((((tstamp_days i + 11322) * 24 + i_H i) * 60 + i_M i) * 60 + i_S i) * 1000 + i_ms i) div 1000"
    unfolding unix_secs_def by (rule arg_cong)
  also have "\<dots> = (((tstamp_days i + 11322) * 24 + i_H i) * 60 + i_M i) * 60 + i_S i"
    by (rule radix_div) (use v(2) in \<open>simp_all add: valid_tod_def\<close>)
  finally show ?thesis using n by (simp add: instant_to_tstamp_def Let_def)
qed



end
