(* ===== verification/DaemonRun.thy ===== *)
theory DaemonRun
  imports Daemon
begin

text \<open>
  The life of one scheduled task of \<^verbatim>\<open>src/src/echsd.c\<close> as a transition system: the timer
  fires (libev first asks \<open>resched\<close> for the next time, then calls the watcher's callback), and
  children that were spawned under supervision exit.  Whether a spawn succeeds is up to the system.
  A freed task is \<open>None\<close>; children may outlive it.
\<close>

text \<open>A run of \<open>echsx\<close>: under supervision or not, and with or without \<open>--no-run\<close>.\<close>

datatype run = Run (supervised: bool) (no_run: bool)

record 's sys =
  sy_task :: "'s dtask option"
  sy_kids :: nat
  sy_nd :: bool
  sy_log :: "run list"

section \<open>The callbacks\<close>

text \<open>
  The argument vector of \<open>run_task\<close> is static: once a run was given \<open>--no-run\<close>, all later ones are.
\<close>

definition run_nd :: "bool \<Rightarrow> 's dtask \<Rightarrow> bool" where
  "run_nd nd w \<longleftrightarrow> nd \<or> (case d_t w of None \<Rightarrow> False | Some t \<Rightarrow> \<not> d_nsim w < j_max_simul t)"

definition may_supervise :: "'s dtask \<Rightarrow> bool" where
  "may_supervise w \<longleftrightarrow> (case d_t w of None \<Rightarrow> False | Some t \<Rightarrow> int (d_nsim w) < u32 (int (j_max_simul t) - 1))"

definition task_cb :: "bool \<Rightarrow> 's dtask \<Rightarrow> 's sys \<Rightarrow> 's sys" where
  "task_cb spawned w sy =
     (let nd = run_nd (sy_nd sy) w
      in if may_supervise w
         then if spawned
              then sy\<lparr>sy_task := Some (w\<lparr>d_nsim := d_nsim w + 1\<rparr>), sy_kids := sy_kids sy + 1, sy_nd := nd,
                     sy_log := sy_log sy @ [Run True nd]\<rparr>
              else sy\<lparr>sy_task := Some w, sy_nd := nd\<rparr>
         else sy\<lparr>sy_task := Some w, sy_nd := nd, sy_log := sy_log sy @ (if spawned then [Run False nd] else [])\<rparr>)"

definition chld_cb :: "'s dtask \<Rightarrow> 's sys \<Rightarrow> 's sys" where
  "chld_cb w sy =
     (let w = w\<lparr>d_nsim := d_nsim w - 1\<rparr>
      in sy\<lparr>sy_kids := sy_kids sy - 1, sy_task := (if d_resched w then Some w else None)\<rparr>)"

text \<open>What libev does when a periodic watcher is due, before it calls the callback.\<close>

definition ev_due ::
  "('s \<Rightarrow> bool \<Rightarrow> (event \<times> 's) option) \<Rightarrow> rat \<Rightarrow> 's dtask \<Rightarrow> 's dtask option" where
  "ev_due nxt now w = (if d_resched w then resched nxt now w else Some (w\<lparr>d_active := False\<rparr>))"

inductive dstep :: "('s \<Rightarrow> bool \<Rightarrow> (event \<times> 's) option) \<Rightarrow> 's sys \<Rightarrow> 's sys \<Rightarrow> bool"
  for nxt :: "'s \<Rightarrow> bool \<Rightarrow> (event \<times> 's) option" where
  fire_task: "sy_task sy = Some w \<Longrightarrow> d_active w \<Longrightarrow> d_at w \<le> now \<Longrightarrow> ev_due nxt now w = Some w' \<Longrightarrow>
     d_cb w' = Task_cb \<Longrightarrow> dstep nxt sy (task_cb spawned w' sy)"
| fire_unsched: "sy_task sy = Some w \<Longrightarrow> d_active w \<Longrightarrow> d_at w \<le> now \<Longrightarrow> ev_due nxt now w = Some w' \<Longrightarrow>
     d_cb w' = Unsched \<Longrightarrow> dstep nxt sy (sy\<lparr>sy_task := None\<rparr>)"
| child_exits: "sy_task sy = Some w \<Longrightarrow> 0 < sy_kids sy \<Longrightarrow> dstep nxt sy (chld_cb w sy)"

inductive_cases dstepE: "dstep nxt sy sy'"

inductive dreach :: "('s \<Rightarrow> bool \<Rightarrow> (event \<times> 's) option) \<Rightarrow> 's sys \<Rightarrow> 's sys \<Rightarrow> bool"
  for nxt :: "'s \<Rightarrow> bool \<Rightarrow> (event \<times> 's) option" and sy0 :: "'s sys" where
  init: "dreach nxt sy0 sy0"
| step: "dreach nxt sy0 sy \<Longrightarrow> dstep nxt sy sy' \<Longrightarrow> dreach nxt sy0 sy'"

text \<open>A task as \<open>_inject_task1\<close> leaves it.\<close>

definition fresh_sys ::
  "('s \<Rightarrow> bool \<Rightarrow> (event \<times> 's) option) \<Rightarrow> rat \<Rightarrow> 's jtask \<Rightarrow> 's sys \<Rightarrow> bool" where
  "fresh_sys nxt now t sy \<longleftrightarrow>
     sy_task sy = start_task nxt now (zero_task\<lparr>d_t := Some t\<rparr>) \<and> sy_kids sy = 0 \<and> \<not> sy_nd sy \<and> sy_log sy = []"

section \<open>Counting children\<close>

text \<open>The counter is the number of children, and they are fewer than the task's limit.\<close>

definition count_ok :: "nat \<Rightarrow> 's sys \<Rightarrow> bool" where
  "count_ok mx sy \<longleftrightarrow> (\<forall>w. sy_task sy = Some w \<longrightarrow>
     (\<exists>t. d_t w = Some t \<and> j_max_simul t = mx) \<and> d_nsim w = sy_kids sy \<and> (0 < mx \<longrightarrow> sy_kids sy \<le> mx - 1))"

lemma ev_due_keeps:
  assumes "ev_due nxt now w = Some w'" "d_t w = Some t"
  shows "\<exists>t'. d_t w' = Some t' \<and> j_max_simul t' = j_max_simul t \<and> d_nsim w' = d_nsim w"
proof (cases "d_resched w")
  case True
  then have "resched nxt now w = Some w'" using assms(1) by (simp add: ev_due_def)
  from resched_keeps [OF this] assms(2) show ?thesis by auto
qed (use assms in \<open>auto simp: ev_due_def\<close>)

lemma may_supervise_bound:
  assumes "may_supervise w" "d_t w = Some t" "0 < j_max_simul t"
  shows "d_nsim w + 1 \<le> j_max_simul t - 1"
proof -
  have "u32 (int (j_max_simul t) - 1) \<le> int (j_max_simul t) - 1"
    unfolding u32_def by (rule zmod_le_nonneg_dividend) (use assms(3) in simp)
  then show ?thesis using assms by (simp add: may_supervise_def)
qed

lemma count_step: "dstep nxt sy sy' \<Longrightarrow> count_ok mx sy \<Longrightarrow> count_ok mx sy'"
proof (induction rule: dstep.induct)
  case (fire_task sy w now w' spawned)
  then obtain t where t: "d_t w = Some t" "j_max_simul t = mx" "d_nsim w = sy_kids sy"
    "0 < mx \<longrightarrow> sy_kids sy \<le> mx - 1" by (auto simp: count_ok_def)
  from ev_due_keeps [OF fire_task(4) t(1)] t(2) obtain t' where
    t': "d_t w' = Some t'" "j_max_simul t' = mx" "d_nsim w' = d_nsim w" by auto
  show ?case
    using t t' may_supervise_bound [of w' t'] by (auto simp: count_ok_def task_cb_def Let_def)
qed (auto simp: count_ok_def chld_cb_def Let_def)


text \<open>One job with two hours to run and room for one child; its timer fires.\<close>

definition two_hours :: "evical jtask" where
  "two_hours = \<lparr>j_oid = 5, j_owner = nummapstr_bang_num 1,
     j_strm = Some (make_evical_vevent [jan_event, jan_event\<lparr>ev_from := (ev_from jan_event)\<lparr>i_H := 9\<rparr>\<rparr>]), j_max_simul = 2\<rparr>"

definition sys_0 :: "evical sys" where
  "sys_0 = \<lparr>sy_task = start_task next_evical_vevent 0 (zero_task\<lparr>d_t := Some two_hours\<rparr>), sy_kids = 0,
     sy_nd = False, sy_log = []\<rparr>"

definition sys_1 :: "evical sys" where
  "sys_1 = task_cb True (the (ev_due next_evical_vevent 1451980801 (the (sy_task sys_0)))) sys_0"

lemma sys_step: "dstep next_evical_vevent sys_0 sys_1"
  unfolding sys_1_def
proof (rule dstep.fire_task)
  show "sy_task sys_0 = Some (the (sy_task sys_0))" by code_simp
  show "d_active (the (sy_task sys_0))" by code_simp
  show "d_at (the (sy_task sys_0)) \<le> 1451980801" by code_simp
  show "ev_due next_evical_vevent 1451980801 (the (sy_task sys_0)) =
      Some (the (ev_due next_evical_vevent 1451980801 (the (sy_task sys_0))))" by code_simp
  show "d_cb (the (ev_due next_evical_vevent 1451980801 (the (sy_task sys_0)))) = Task_cb" by code_simp
qed


section \<open>What goes wrong\<close>

text \<open>
  \<open>task_cb\<close> takes the limit to be increased by one, \<open>run_task\<close> takes it as it is: the run that
  exceeds the limit is spawned without \<open>--no-run\<close> and is not counted.
\<close>

lemma limit_not_enforced:
  assumes "d_t w = Some t" "j_max_simul t = 2" "d_nsim w = 1" "\<not> sy_nd sy"
  shows "sy_log (task_cb True w sy) = sy_log sy @ [Run False False]"
  using assms by (simp add: task_cb_def may_supervise_def run_nd_def Let_def u32_def)

text \<open>Without a limit every run is given \<open>--no-run\<close>, and so are the later runs of all other tasks.\<close>

lemma unlimited_never_runs:
  assumes "d_t w = Some t" "j_max_simul t = 0" "d_nsim w < 1000"
  shows "sy_log (task_cb True w sy) = sy_log sy @ [Run True True]" "sy_nd (task_cb True w sy)"
  using assms by (auto simp: task_cb_def may_supervise_def run_nd_def Let_def u32_def)

lemma no_run_sticks: "dreach nxt sy0 sy \<Longrightarrow> sy_nd sy0 \<Longrightarrow> sy_nd sy"
proof (induction rule: dreach.induct)
  case (step sy sy')
  from step(2) have "sy_nd sy \<longrightarrow> sy_nd sy'"
    by (induction rule: dstep.induct) (auto simp: task_cb_def chld_cb_def run_nd_def Let_def)
  with step show ?case by simp
qed

text \<open>
  When the last run was scheduled, the first child that exits takes the task with it, whatever
  other children are left: their watchers point to freed memory.
\<close>

lemma children_outlive_task:
  assumes "\<not> d_resched w" "sy_kids sy = 2"
  shows "sy_task (chld_cb w sy) = None \<and> sy_kids (chld_cb w sy) = 1"
  using assms by (simp add: chld_cb_def Let_def)

end
