(* ===== verification/InstantText.thy ===== *)
theory InstantText
  imports CString RangeShift "HOL-Library.Monad_Syntax"
begin

text \<open>
  The texts of instants, \<^verbatim>\<open>src/src/dt-strpf.c\<close>: parsing, printing, and the round trips.  A parser reads a C string
  from the front; its cursor is a number of characters, and what lies behind the string reads as
  NUL.  \<open>goto nul\<close> is \<open>None\<close> of the option monad.
\<close>

unbundle bit_operations_syntax

section \<open>Digits\<close>

definition at :: "string \<Rightarrow> nat \<Rightarrow> char" where
  "at s i = deref (drop i s)"

text \<open>\<open>*sp ^ '0'\<close>\<close>

definition xdig :: "char \<Rightarrow> int" where
  "xdig c = ord c XOR 48"

text \<open>The last \<open>n\<close> decimal digits of a number, written from the back.\<close>

fun ui_digits :: "nat \<Rightarrow> int \<Rightarrow> string" where
  "ui_digits 0 d = []"
| "ui_digits (Suc n) d = ui_digits n (d div 10) @ [chr ((d mod 10) XOR 48)]"

definition ui32tpstr :: "int \<Rightarrow> int \<Rightarrow> nat \<Rightarrow> string" where
  "ui32tpstr bsz d pad =
     (if d > 1000000000 then []
      else if int pad > bsz then []
      else if pad \<in> {9, 6, 4, 3, 2, 1} then ui_digits pad d
      else [])"

section \<open>Reading instants\<close>

definition strp_year :: "string \<Rightarrow> nat \<Rightarrow> (int \<times> nat) option" where
  "strp_year s sp =
     (if xdig (at s sp) < 10 \<and> xdig (at s (sp + 1)) < 10 \<and> xdig (at s (sp + 2)) < 10 \<and> xdig (at s (sp + 3)) < 10
      then Some (((xdig (at s sp) * 10 + xdig (at s (sp + 1))) * 10 + xdig (at s (sp + 2))) * 10
                 + xdig (at s (sp + 3)), sp + 4)
      else None)"

definition skip_sep :: "char \<Rightarrow> string \<Rightarrow> nat \<Rightarrow> nat" where
  "skip_sep c s sp = (if at s sp = c then sp + 1 else sp)"

definition strp_month :: "string \<Rightarrow> nat \<Rightarrow> (int \<times> nat) option" where
  "strp_month s sp =
     (if at s sp = CHR ''0'' then
        if xdig (at s (sp + 1)) < 10 then Some (xdig (at s (sp + 1)), sp + 2) else None
      else if at s sp = CHR ''1'' then
        if xdig (at s (sp + 1)) < 10 then Some (10 + xdig (at s (sp + 1)), sp + 2) else None
      else None)"

definition strp_mday :: "string \<Rightarrow> nat \<Rightarrow> nat \<Rightarrow> (int \<times> nat) option" where
  "strp_mday s ep sp =
     do {
       tmp \<leftarrow> (if at s sp = CHR ''0'' then Some 0
              else if at s sp = CHR ''1'' then Some 10
              else if at s sp = CHR ''2'' then Some 20
              else if at s sp = CHR ''3'' then Some 30
              else None);
       (if ep \<le> sp + 1 then None
        else if xdig (at s (sp + 1)) < 10 then Some (tmp + xdig (at s (sp + 1)), sp + 2)
        else None)
     }"

definition strp_hour :: "string \<Rightarrow> nat \<Rightarrow> (int \<times> nat) option" where
  "strp_hour s sp =
     (if at s sp = CHR ''2'' then
        if xdig (at s (sp + 1)) < 4 then Some (20 + xdig (at s (sp + 1)), sp + 2) else None
      else if at s sp = CHR ''1'' then
        if xdig (at s (sp + 1)) < 10 then Some (10 + xdig (at s (sp + 1)), sp + 2) else None
      else if at s sp = CHR ''0'' then
        if xdig (at s (sp + 1)) < 10 then Some (xdig (at s (sp + 1)), sp + 2) else None
      else None)"

definition strp_min :: "string \<Rightarrow> nat \<Rightarrow> (int \<times> nat) option" where
  "strp_min s sp =
     (if xdig (at s sp) < 6 \<and> xdig (at s (sp + 1)) < 10
      then Some (10 * xdig (at s sp) + xdig (at s (sp + 1)), sp + 2) else None)"

text \<open>Two digits of seconds, 60 included; anything else counts as no seconds.\<close>

definition strp_sec :: "string \<Rightarrow> nat \<Rightarrow> int \<times> nat" where
  "strp_sec s sp =
     (if at s sp = CHR ''6'' \<and> at s (sp + 1) = CHR ''0'' then (60, sp + 2)
      else if xdig (at s sp) < 6 then
        if xdig (at s (sp + 1)) < 10 then (10 * xdig (at s sp) + xdig (at s (sp + 1)), sp + 2)
        else (0, sp + 1)
      else (0, sp))"

lemma deref_drop_end: "length s \<le> i \<Longrightarrow> at s i = CHR 0x00"
  by (simp add: at_def)

lemma xdig_nul [simp]: "xdig (CHR 0x00) = 48"
  by code_simp

text \<open>
  The loop for milliseconds: \<open>tmp\<close> starts at 100 and stops to grow at six digits; the cursor goes
  one further before each test.
\<close>

function strp_msec :: "string \<Rightarrow> int \<Rightarrow> nat \<Rightarrow> int \<times> nat" where
  "strp_msec s tmp sp =
     (if xdig (at s (sp + 1)) < 10 \<and> tmp < 100000
      then strp_msec s (tmp * 10 + xdig (at s (sp + 1))) (sp + 1)
      else (tmp, sp + 1))"
  by pat_completeness auto
termination
proof (relation "measure (\<lambda>(s, tmp, sp). length s - sp)")
  fix s :: string and tmp :: int and sp
  assume "xdig (at s (sp + 1)) < 10 \<and> tmp < 100000"
  then have "sp + 1 < length s" using deref_drop_end [of s "sp + 1"] by (cases "length s \<le> sp + 1") auto
  then show "((s, tmp * 10 + xdig (at s (sp + 1)), sp + 1), s, tmp, sp) \<in> measure (\<lambda>(s, tmp, sp). length s - sp)"
    by auto
qed simp

declare strp_msec.simps [simp del]

text \<open>The time of day, from the cursor after the letter T; \<open>ep\<close> is where the caller's text ends.\<close>

definition strp_time :: "string \<Rightarrow> nat \<Rightarrow> instant \<Rightarrow> nat \<Rightarrow> (instant \<times> nat) option" where
  "strp_time s ep res sp =
     do {
       (tmp, sp) \<leftarrow> strp_hour s sp;
       let res = res\<lparr>i_H := tmp\<rparr>;
       let sp = skip_sep (CHR '':'') s sp;
       (if ep < sp + 2 then None else Some ());
       (tmp, sp) \<leftarrow> strp_min s sp;
       let res = res\<lparr>i_M := tmp\<rparr>;
       let sp = (if ep \<le> sp \<or> at s sp = CHR '':'' then sp + 1 else sp);
       (if ep < sp + 2 then Some (res, sp)
        else let (tmp, sp) = strp_sec s sp;
                 res = res\<lparr>i_S := tmp\<rparr>
          in if ep \<le> sp \<or> at s sp \<noteq> CHR ''.'' then Some (res\<lparr>i_ms := ECHS_ALL_SEC\<rparr>, sp)
             else let (tmp, sp) = strp_msec s 100 sp
               in Some (res\<lparr>i_ms := tmp mod 1000\<rparr>, sp))
     }"

definition strp_inst :: "string \<Rightarrow> nat \<Rightarrow> (instant \<times> nat) option" where
  "strp_inst s len =
     do {
       let ep = (if len = 0 then 23 else len);
       (if len \<noteq> 0 \<and> len < 8 then None else Some ());
       (tmp, sp) \<leftarrow> strp_year s 0;
       let res = echs_nul_instant\<lparr>i_y := tmp\<rparr>;
       let sp = skip_sep (CHR ''-'') s sp;
       (tmp, sp) \<leftarrow> strp_month s sp;
       let res = res\<lparr>i_m := tmp\<rparr>;
       let sp = skip_sep (CHR ''-'') s sp;
       (if ep \<le> sp then None else Some ());
       (tmp, sp) \<leftarrow> strp_mday s ep sp;
       let res = res\<lparr>i_d := tmp\<rparr>;
       (if ep \<le> sp \<or> at s sp \<noteq> CHR ''T'' \<and> at s sp \<noteq> CHR '' ''
        then Some (res\<lparr>i_H := ECHS_ALL_DAY\<rparr>, sp)
        else if ep \<le> sp + 4 then None
        else strp_time s ep res (sp + 1))
     }"

text \<open>
  The result, and where \<open>*on\<close> points to when it is set: behind the text and a final Z.
\<close>

definition dt_strp :: "string \<Rightarrow> nat \<Rightarrow> instant \<times> nat option" where
  "dt_strp s len =
     (case strp_inst s len of
        None \<Rightarrow> (echs_nul_instant, None)
      | Some (res, sp) \<Rightarrow> (res, Some (skip_sep (CHR ''Z'') s sp)))"

section \<open>Writing instants\<close>

text \<open>
  \<open>bz\<close> is what is left of the buffer, in \<open>size_t\<close>; the separators are written without a look at it.
\<close>

definition bz :: "int \<Rightarrow> string \<Rightarrow> int" where
  "bz bsz buf = (bsz - int (length buf)) mod 2 ^ 64"

definition put_ui :: "int \<Rightarrow> int \<Rightarrow> nat \<Rightarrow> string \<Rightarrow> string" where
  "put_ui bsz d pad buf = buf @ ui32tpstr (bz bsz buf) d pad"

definition put_c :: "char \<Rightarrow> string \<Rightarrow> string" where
  "put_c c buf = buf @ [c]"

definition put_date :: "int \<Rightarrow> instant \<Rightarrow> string \<Rightarrow> string" where
  "put_date bsz i buf =
     (let buf = put_ui bsz (i_y i) 4 buf; buf = put_c (CHR ''-'') buf;
          buf = put_ui bsz (i_m i) 2 buf; buf = put_c (CHR ''-'') buf
      in put_ui bsz (i_d i) 2 buf)"

definition put_time :: "int \<Rightarrow> instant \<Rightarrow> string \<Rightarrow> string" where
  "put_time bsz i buf =
     (if \<not> echs_instant_all_day_p i then
        let buf = put_c (CHR ''T'') buf; buf = put_ui bsz (i_H i) 2 buf;
            buf = put_c (CHR '':'') buf; buf = put_ui bsz (i_M i) 2 buf;
            buf = put_c (CHR '':'') buf; buf = put_ui bsz (i_S i) 2 buf
        in if \<not> echs_instant_all_sec_p i
           then let buf = put_c (CHR ''.'') buf in put_ui bsz (i_ms i) 3 buf
           else buf
      else buf)"

definition dt_strf :: "int \<Rightarrow> instant \<Rightarrow> string" where
  "dt_strf bsz i = put_time bsz i (put_date bsz i [])"

definition dt_strf_ical :: "int \<Rightarrow> instant \<Rightarrow> string" where
  "dt_strf_ical bsz i =
     (let buf = put_ui bsz (i_y i) 4 []; buf = put_ui bsz (i_m i) 2 buf; buf = put_ui bsz (i_d i) 2 buf
      in if \<not> echs_instant_all_day_p i then
           let buf = put_c (CHR ''T'') buf; buf = put_ui bsz (i_H i) 2 buf;
               buf = put_ui bsz (i_M i) 2 buf; buf = put_ui bsz (i_S i) 2 buf
           in put_c (CHR ''Z'') buf
         else buf)"

text \<open>\<open>dt_strfg\<close> leaves out what is not there.\<close>

definition dt_strfg :: "int \<Rightarrow> instant \<Rightarrow> string" where
  "dt_strfg bsz i =
     (if i_y i > 0 then
        let buf = put_ui bsz (i_y i) 4 []
        in if i_m i > 0 then
             let buf = put_ui bsz (i_m i) 2 (put_c (CHR ''-'') buf)
             in if i_d i > 0 then put_time bsz i (put_ui bsz (i_d i) 2 (put_c (CHR ''-'') buf)) else buf
           else buf
      else [])"

section \<open>Round trips of instants\<close>

lemma at_simps [simp]: "at [] i = CHR 0x00" "at (c # s) 0 = c" "at (c # s) (Suc i) = at s i"
  "at (c # s) (numeral k) = at s (pred_numeral k)"
  by (simp_all add: at_def)

lemma at_0: "at s 0 = deref s"
  by (simp add: at_def)

text \<open>The digit of a number at the \<open>k\<close>-th decimal place, and its character.\<close>

definition dv :: "nat \<Rightarrow> int \<Rightarrow> int" where
  "dv k n = n div 10 ^ k mod 10"

definition dg :: "nat \<Rightarrow> int \<Rightarrow> char" where
  "dg k n = chr (48 + dv k n)"

lemma dv_range [simp]: "0 \<le> dv k n" "dv k n < 10" "dv k n \<le> 9"
proof -
  show "0 \<le> dv k n" "dv k n < 10" by (simp_all add: dv_def)
  then show "dv k n \<le> 9" by linarith
qed

lemma digit_cases: "n = 0 \<or> n = 1 \<or> n = 2 \<or> n = 3 \<or> n = 4 \<or> n = 5 \<or> n = 6 \<or> n = 7 \<or> n = 8 \<or> n = 9"
  if "0 \<le> n" "n < 10" for n :: int
  using that by arith

lemma xor_48: "n XOR 48 = 48 + n" "(48 + n) XOR 48 = n" if "0 \<le> n" "n < 10" for n :: int
  using digit_cases [OF that] by auto

lemma xdig_dg [simp]: "xdig (dg k n) = dv k n"
proof -
  have "0 \<le> 48 + dv k n" "48 + dv k n < 256" using dv_range [of k n] by linarith+
  then have "ord (dg k n) = 48 + dv k n" by (simp only: dg_def ord_chr)
  then show ?thesis by (simp add: xdig_def xor_48)
qed

lemma ui_digits_dg:
  "ui_digits (Suc 0) d = [dg 0 d]" "ui_digits 2 d = [dg 1 d, dg 0 d]" "ui_digits 3 d = [dg 2 d, dg 1 d, dg 0 d]"
  "ui_digits 4 d = [dg 3 d, dg 2 d, dg 1 d, dg 0 d]"
  by (simp_all add: numeral_eq_Suc dg_def dv_def xor_48 div_mult2_eq)
     (simp_all add: zdiv_zmult2_eq [symmetric])

lemma chr_ord [simp]: "chr (ord c) = c"
  by (simp add: chr_def ord_def)

lemma chr_eq: "0 \<le> v \<Longrightarrow> v < 256 \<Longrightarrow> chr v = c \<longleftrightarrow> v = ord c"
  by (metis chr_ord ord_chr)

lemma dg_eq: "dg k n = c \<longleftrightarrow> 48 + dv k n = ord c"
  unfolding dg_def using dv_range [of k n] by (intro chr_eq) linarith+

lemma dg_digits [simp]: "dg k n = CHR ''0'' \<longleftrightarrow> dv k n = 0" "dg k n = CHR ''1'' \<longleftrightarrow> dv k n = 1"
  "dg k n = CHR ''2'' \<longleftrightarrow> dv k n = 2" "dg k n = CHR ''3'' \<longleftrightarrow> dv k n = 3"
  "dg k n = CHR ''6'' \<longleftrightarrow> dv k n = 6"
  unfolding dg_eq by (simp_all add: ord_def)

lemma dg_is_digit: "is_digit (dg k n)"
  using dv_range(1,2) [of k n] ord_chr [of "48 + dv k n"] unfolding is_digit_def dg_def by linarith

lemma digit_seps [simp]: "\<not> is_digit (CHR '':'')" "\<not> is_digit (CHR ''/'')" "\<not> is_digit (CHR ''.'')" "\<not> is_digit (CHR ''T'')"
  by (simp_all add: is_digit_def ord_def)

lemma dg_seps [simp]: "dg k n \<noteq> CHR ''-''" "dg k n \<noteq> CHR '':''" "dg k n \<noteq> CHR ''+''" "dg k n \<noteq> CHR ''/''"
  using dg_is_digit [of k n] by auto

text \<open>What a text can say: fields of their printed width, in the range the parser accepts.\<close>

definition text_date_ok :: "instant \<Rightarrow> bool" where
  "text_date_ok i \<longleftrightarrow> i_y i \<in> {0..9999} \<and> i_m i \<in> {0..19} \<and> i_d i \<in> {0..39}"

definition text_time_ok :: "instant \<Rightarrow> bool" where
  "text_time_ok i \<longleftrightarrow> i_H i \<in> {0..23} \<and> i_M i \<in> {0..59} \<and> i_S i \<in> {0..60} \<and> (i_ms i \<in> {0..999} \<or> i_ms i = ECHS_ALL_SEC)"

definition text_ok :: "instant \<Rightarrow> bool" where
  "text_ok i \<longleftrightarrow> text_date_ok i \<and>
     (text_time_ok i \<or> i_H i = ECHS_ALL_DAY \<and> i_M i = 0 \<and> i_S i = 0 \<and> i_ms i = 0)"

definition date_text :: "instant \<Rightarrow> string" where
  "date_text i = [dg 3 (i_y i), dg 2 (i_y i), dg 1 (i_y i), dg 0 (i_y i), CHR ''-'', dg 1 (i_m i), dg 0 (i_m i),
     CHR ''-'', dg 1 (i_d i), dg 0 (i_d i)]"

definition time_text :: "instant \<Rightarrow> string" where
  "time_text i = [CHR ''T'', dg 1 (i_H i), dg 0 (i_H i), CHR '':'', dg 1 (i_M i), dg 0 (i_M i), CHR '':'',
     dg 1 (i_S i), dg 0 (i_S i)]"

definition msec_text :: "instant \<Rightarrow> string" where
  "msec_text i = [CHR ''.'', dg 2 (i_ms i), dg 1 (i_ms i), dg 0 (i_ms i)]"

lemma put_digits:
  assumes "bsz < 2 ^ 64" "int (length buf + n) \<le> bsz" "d \<le> 1000000000" "n \<in> {2, 3, 4}"
  shows "put_ui bsz d n buf = buf @ ui_digits n d"
proof -
  have "bz bsz buf = bsz - int (length buf)" using assms by (simp add: bz_def)
  then show ?thesis using assms by (auto simp: put_ui_def ui32tpstr_def)
qed

lemma dt_strf_text:
  assumes ok: "text_ok i" and b: "24 \<le> bsz" "bsz < 2 ^ 64"
  shows "dt_strf bsz i = date_text i @
    (if echs_instant_all_day_p i then [] else time_text i @ (if echs_instant_all_sec_p i then [] else msec_text i))"
proof -
  have d: "put_date bsz i [] = date_text i"
    using ok b by (simp add: put_date_def put_digits put_c_def text_ok_def text_date_ok_def date_text_def ui_digits_dg)
  show ?thesis
  proof (cases "echs_instant_all_day_p i")
    case True
    then show ?thesis by (simp add: dt_strf_def d put_time_def)
  next
    case False
    then have t: "text_time_ok i" using ok by (simp add: text_ok_def echs_instant_all_day_p_def)
    then have "i_H i \<le> 1000000000" "i_M i \<le> 1000000000" "i_S i \<le> 1000000000" "i_ms i \<le> 1000000000"
      by (auto simp: text_time_ok_def ECHS_ALL_SEC_def)
    then show ?thesis using False b
      by (simp add: dt_strf_def d put_time_def put_digits put_c_def time_text_def msec_text_def date_text_def
        ui_digits_dg Let_def)
  qed
qed

lemma div_dv: "n div 10 ^ k = 10 * (n div 10 ^ Suc k) + dv k n"
  using zdiv_zmult2_eq [of 10 n "10 ^ k"] zdiv_zmult2_eq [of "10 ^ k" n 10]
  by (simp add: dv_def mult.commute)

lemma digits_2: "dv 1 n * 10 + dv 0 n = n" if "0 \<le> n" "n < 100"
proof -
  have "n div 10 ^ 2 = 0" using that by simp
  then show ?thesis using div_dv [of n 0] div_dv [of n 1] by (simp add: numeral_2_eq_2 del: power_Suc)
qed

lemma digits_3: "(dv 2 n * 10 + dv 1 n) * 10 + dv 0 n = n" if "0 \<le> n" "n < 1000"
proof -
  have "n div 10 ^ 3 = 0" using that by simp
  then show ?thesis using div_dv [of n 0] div_dv [of n 1] div_dv [of n 2]
    by (simp add: numeral_2_eq_2 numeral_3_eq_3 del: power_Suc)
qed

lemma digits_4: "((dv 3 n * 10 + dv 2 n) * 10 + dv 1 n) * 10 + dv 0 n = n" if "0 \<le> n" "n < 10000"
proof -
  have "n div 10 ^ Suc 3 = 0" using that by simp
  then show ?thesis using div_dv [of n 0] div_dv [of n 1] div_dv [of n 2] div_dv [of n 3]
    by (simp add: numeral_2_eq_2 numeral_3_eq_3 del: power_Suc)
qed

lemma strp_year_text:
  assumes "at s sp = dg 3 y" "at s (sp + 1) = dg 2 y" "at s (sp + 2) = dg 1 y" "at s (sp + 3) = dg 0 y" "y \<in> {0..9999}"
  shows "strp_year s sp = Some (y, sp + 4)"
  unfolding strp_year_def assms(1-4) using assms(5) digits_4 [of y] by simp

lemma strp_month_text:
  assumes "at s sp = dg 1 m" "at s (sp + 1) = dg 0 m" "m \<in> {0..19}"
  shows "strp_month s sp = Some (m, sp + 2)"
proof -
  have e: "dv 1 m * 10 + dv 0 m = m" using assms(3) by (intro digits_2) auto
  then have "dv 1 m = 0 \<or> dv 1 m = 1" using assms(3) dv_range [of 1 m] dv_range [of 0 m] unfolding atLeastAtMost_iff by arith
  then show ?thesis unfolding strp_month_def assms(1,2) using e by auto
qed

lemma strp_mday_text:
  assumes "at s sp = dg 1 m" "at s (sp + 1) = dg 0 m" "m \<in> {0..39}" "sp + 1 < ep"
  shows "strp_mday s ep sp = Some (m, sp + 2)"
proof -
  have e: "dv 1 m * 10 + dv 0 m = m" using assms(3) by (intro digits_2) auto
  then have "dv 1 m = 0 \<or> dv 1 m = 1 \<or> dv 1 m = 2 \<or> dv 1 m = 3" using assms(3) dv_range [of 1 m] dv_range [of 0 m] unfolding atLeastAtMost_iff by arith
  then show ?thesis unfolding strp_mday_def assms(1,2) using assms(4) e by auto
qed

lemma strp_hour_text:
  assumes "at s sp = dg 1 m" "at s (sp + 1) = dg 0 m" "m \<in> {0..23}"
  shows "strp_hour s sp = Some (m, sp + 2)"
proof -
  have e: "dv 1 m * 10 + dv 0 m = m" using assms(3) by (intro digits_2) auto
  then have "dv 1 m = 0 \<or> dv 1 m = 1 \<or> dv 1 m = 2 \<and> dv 0 m < 4" using assms(3) dv_range [of 1 m] dv_range [of 0 m] unfolding atLeastAtMost_iff by arith
  then show ?thesis unfolding strp_hour_def assms(1,2) using e by auto
qed

lemma strp_min_text:
  assumes "at s sp = dg 1 m" "at s (sp + 1) = dg 0 m" "m \<in> {0..59}"
  shows "strp_min s sp = Some (m, sp + 2)"
proof -
  have e: "dv 1 m * 10 + dv 0 m = m" using assms(3) by (intro digits_2) auto
  then have "dv 1 m < 6" using assms(3) dv_range(1) [of 0 m] unfolding atLeastAtMost_iff by linarith
  then show ?thesis unfolding strp_min_def assms(1,2) using e by simp
qed

lemma strp_sec_text:
  assumes "at s sp = dg 1 m" "at s (sp + 1) = dg 0 m" "m \<in> {0..60}"
  shows "strp_sec s sp = (m, sp + 2)"
proof -
  have e: "dv 1 m * 10 + dv 0 m = m" using assms(3) by (intro digits_2) auto
  show ?thesis
  proof (cases "dv 1 m < 6")
    case True
    then show ?thesis unfolding strp_sec_def assms(1,2) using e by simp
  next
    case False
    with e assms(3) have "dv 1 m = 6" "dv 0 m = 0" "m = 60" using dv_range [of 0 m] unfolding atLeastAtMost_iff by linarith+
    then show ?thesis unfolding strp_sec_def assms(1,2) by simp
  qed
qed

lemma strp_msec_step:
  "at s (Suc sp) = dg k m \<Longrightarrow> tmp < 100000 \<Longrightarrow>
    strp_msec s tmp sp = strp_msec s (tmp * 10 + dv k m) (Suc sp)"
  by (simp add: strp_msec.simps [of s tmp])

lemma strp_msec_text:
  assumes "at s (Suc sp) = dg 2 m" "at s (Suc (Suc sp)) = dg 1 m" "at s (Suc (Suc (Suc sp))) = dg 0 m" "m \<in> {0..999}"
  shows "strp_msec s 100 sp = (100000 + m, sp + 4)"
proof -
  have e: "(dv 2 m * 10 + dv 1 m) * 10 + dv 0 m = m" using assms(4) by (intro digits_3) auto
  note b = dv_range [of 2 m] dv_range [of 1 m] dv_range [of 0 m]
  have t: "10000 + (dv 2 m * 10 + dv 1 m) < 100000" using b by linarith
  have "strp_msec s 100 sp = strp_msec s (1000 + dv 2 m) (Suc sp)"
    using strp_msec_step [OF assms(1)] by simp
  also have "\<dots> = strp_msec s (10000 + (dv 2 m * 10 + dv 1 m)) (Suc (Suc sp))"
    using strp_msec_step [OF assms(2), of "1000 + dv 2 m"] b by (simp add: add.assoc)
  also have "\<dots> = strp_msec s (100000 + ((dv 2 m * 10 + dv 1 m) * 10 + dv 0 m)) (Suc (Suc (Suc sp)))"
    using strp_msec_step [OF assms(3) t] by (simp add: add.assoc)
  also have "\<dots> = (100000 + m, sp + 4)" unfolding e using assms(4) by (simp add: strp_msec.simps [of s "100000 + m"])
  finally show ?thesis .
qed

text \<open>A text ends where no separator or Z follows that would belong to it.\<close>

definition ends_text :: "string \<Rightarrow> bool" where
  "ends_text rest \<longleftrightarrow> deref rest \<notin> {CHR ''T'', CHR '' '', CHR '':'', CHR ''.'', CHR ''Z''}"

lemma at_rest [simp]: "at (xs @ rest) (length xs) = deref rest"
  by (simp add: at_def)

lemma strp_time_text:
  assumes ok: "text_time_ok i" and r: "ends_text rest" and e: "19 \<le> ep"
    and s: "s = date_text i @ time_text i @ (if echs_instant_all_sec_p i then [] else msec_text i) @ rest"
    and i0: "i0 = i\<lparr>i_H := h, i_M := 0, i_S := 0, i_ms := 0\<rparr>"
    and n: "echs_instant_all_sec_p i \<or> 23 \<le> ep"
  shows "strp_time s ep i0 11 = Some (i, if echs_instant_all_sec_p i then 19 else 23)"
proof -
  have a: "at s 11 = dg 1 (i_H i)" "at s 12 = dg 0 (i_H i)" "at s 13 = CHR '':''" "at s 14 = dg 1 (i_M i)"
    "at s 15 = dg 0 (i_M i)" "at s 16 = CHR '':''" "at s 17 = dg 1 (i_S i)" "at s 18 = dg 0 (i_S i)"
    by (simp_all add: s date_text_def time_text_def)
  have H: "strp_hour s 11 = Some (i_H i, 13)" using strp_hour_text [of s 11] a ok by (simp add: text_time_ok_def)
  have M: "strp_min s 14 = Some (i_M i, 16)" using strp_min_text [of s 14] a ok by (simp add: text_time_ok_def)
  have S: "strp_sec s 17 = (i_S i, 19)" using strp_sec_text [of s 17] a ok by (simp add: text_time_ok_def)
  show ?thesis
  proof (cases "echs_instant_all_sec_p i")
    case True
    then have "at s 19 = deref rest" by (simp add: s date_text_def time_text_def at_0)
    then have "at s 19 \<noteq> CHR ''.''" using r by (simp add: ends_text_def)
    with True show ?thesis using e
      by (simp add: strp_time_def H M S a skip_sep_def i0 echs_instant_all_sec_p_def)
  next
    case False
    then have m: "i_ms i \<in> {0..999}" using ok by (simp add: text_time_ok_def echs_instant_all_sec_p_def)
    have b: "at s 19 = CHR ''.''" "at s 20 = dg 2 (i_ms i)" "at s 21 = dg 1 (i_ms i)" "at s 22 = dg 0 (i_ms i)"
      using False by (simp_all add: s date_text_def time_text_def msec_text_def)
    have "strp_msec s 100 19 = (100000 + i_ms i, 23)"
      using strp_msec_text [of s 19 "i_ms i"] b m by simp
    moreover have "(100000 + i_ms i) mod 1000 = i_ms i" using m by (simp add: mod_pos_pos_trivial flip: mod_add_left_eq)
    ultimately show ?thesis using False e n
      by (simp add: strp_time_def H M S a b skip_sep_def i0)
  qed
qed

lemma instant_text_roundtrip_core:
  assumes ok: "text_ok i" and b: "24 \<le> bsz" "bsz < 2 ^ 64" and r: "ends_text rest"
    and l: "len = 0 \<or> length (dt_strf bsz i) \<le> len"
  shows "dt_strp (dt_strf bsz i @ rest) len = (i, Some (length (dt_strf bsz i)))"
proof -
  let ?s = "dt_strf bsz i @ rest" and ?ep = "if len = 0 then 23 else len"
  note f = dt_strf_text [OF ok b]
  have d: "text_date_ok i" using ok by (simp add: text_ok_def)
  have a: "at ?s 0 = dg 3 (i_y i)" "at ?s 1 = dg 2 (i_y i)" "at ?s 2 = dg 1 (i_y i)" "at ?s 3 = dg 0 (i_y i)"
    "at ?s 4 = CHR ''-''" "at ?s 5 = dg 1 (i_m i)" "at ?s 6 = dg 0 (i_m i)" "at ?s 7 = CHR ''-''"
    "at ?s 8 = dg 1 (i_d i)" "at ?s 9 = dg 0 (i_d i)"
    by (simp_all add: f date_text_def)
  have y: "strp_year ?s 0 = Some (i_y i, 4)" 
    using strp_year_text [of ?s 0 "i_y i", unfolded add_0, OF a(1-4)] d by (simp add: text_date_ok_def)
  have m: "strp_month ?s 5 = Some (i_m i, 7)" using strp_month_text [of ?s 5] a d by (simp add: text_date_ok_def)
  have ln: "10 \<le> length (dt_strf bsz i)" by (simp add: f date_text_def)
  then have e: "10 \<le> ?ep" using l by auto
  have dd: "strp_mday ?s ?ep 8 = Some (i_d i, 10)" using strp_mday_text [of ?s 8] a d e by (simp add: text_date_ok_def)
  have n: "\<not> (len \<noteq> 0 \<and> len < 8)" using ln l by auto
  let ?i0 = "\<lparr>i_y = i_y i, i_m = i_m i, i_d = i_d i, i_H = 0, i_M = 0, i_S = 0, i_ms = 0\<rparr>"
  have main: "strp_inst ?s len =
      (if ?ep \<le> 10 \<or> at ?s 10 \<noteq> CHR ''T'' \<and> at ?s 10 \<noteq> CHR '' ''
       then Some (?i0\<lparr>i_H := ECHS_ALL_DAY\<rparr>, 10)
       else if ?ep \<le> 14 then None else strp_time ?s ?ep ?i0 11)"
    using n e by (auto simp: strp_inst_def y m dd a skip_sep_def echs_nul_instant_def Let_def)
  show ?thesis
  proof (cases "echs_instant_all_day_p i")
    case True
    then have "at ?s 10 = deref rest" by (simp add: f date_text_def at_0)
    with r have "at ?s 10 \<noteq> CHR ''T''" "at ?s 10 \<noteq> CHR '' ''" "at ?s 10 \<noteq> CHR ''Z''" by (simp_all add: ends_text_def)
    moreover have "?i0\<lparr>i_H := ECHS_ALL_DAY\<rparr> = i"
      using True ok by (cases i) (auto simp: text_ok_def text_time_ok_def echs_instant_all_day_p_def ECHS_ALL_DAY_def)
    moreover have "length (dt_strf bsz i) = 10" using True by (simp add: f date_text_def)
    ultimately show ?thesis by (simp add: dt_strp_def main skip_sep_def)
  next
    case False
    then have t: "text_time_ok i" using ok by (simp add: text_ok_def echs_instant_all_day_p_def)
    let ?n = "if echs_instant_all_sec_p i then 19 else 23 :: nat"
    have s: "?s = date_text i @ time_text i @ (if echs_instant_all_sec_p i then [] else msec_text i) @ rest"
      using False by (simp add: f)
    have ln: "length (dt_strf bsz i) = ?n"
      using False by (simp add: f date_text_def time_text_def msec_text_def)
    with l have e: "19 \<le> ?ep" "echs_instant_all_sec_p i \<or> 23 \<le> ?ep" by (auto split: if_splits)
    have "at ?s 10 = CHR ''T''" by (simp add: s date_text_def time_text_def)
    moreover have "at ?s ?n = deref rest" using at_rest [of "dt_strf bsz i" rest] by (simp only: ln)
    then have "skip_sep (CHR ''Z'') ?s ?n = ?n" using r by (simp add: skip_sep_def ends_text_def)
    moreover have "strp_time ?s ?ep ?i0 11 = Some (i, ?n)"
      by (rule strp_time_text [OF t r e(1) s _ e(2)]) (cases i, simp)
    ultimately show ?thesis using e(1) by (simp add: dt_strp_def main ln)
  qed
qed

text \<open>
  C32: An instant survives its text: what \<open>dt_strf\<close> prints, \<open>dt_strp\<close> reads back, and leaves off
  right behind it.
\<close>

theorem instant_text_roundtrip:
  assumes "text_ok i" "24 \<le> bsz" "bsz < 2 ^ 64" "ends_text rest" "len = 0 \<or> length (dt_strf bsz i) \<le> len"
  shows "dt_strp (dt_strf bsz i @ rest) len = (i, Some (length (dt_strf bsz i)))"
  by (rule instant_text_roundtrip_core [OF assms])

theorem instant_text_roundtrip_witness:
  "dt_strp (dt_strf 32 \<lparr>i_y = 2015, i_m = 2, i_d = 28, i_H = 23, i_M = 59, i_S = 60, i_ms = 999\<rparr> @ []) 0 =
    (\<lparr>i_y = 2015, i_m = 2, i_d = 28, i_H = 23, i_M = 59, i_S = 60, i_ms = 999\<rparr>, Some 23)"
proof -
  let ?i = "\<lparr>i_y = 2015, i_m = 2, i_d = 28, i_H = 23, i_M = 59, i_S = 60, i_ms = 999\<rparr>"
  have "length (dt_strf 32 ?i) = 23" by code_simp
  then show ?thesis
    using instant_text_roundtrip [of ?i 32 "[]" 0] by (simp add: text_ok_def text_date_ok_def text_time_ok_def ends_text_def)
qed

lemma dt_strf_ical_text:
  assumes ok: "text_ok i" and b: "17 \<le> bsz" "bsz < 2 ^ 64"
  shows "dt_strf_ical bsz i =
    [dg 3 (i_y i), dg 2 (i_y i), dg 1 (i_y i), dg 0 (i_y i), dg 1 (i_m i), dg 0 (i_m i), dg 1 (i_d i), dg 0 (i_d i)] @
    (if echs_instant_all_day_p i then []
     else [CHR ''T'', dg 1 (i_H i), dg 0 (i_H i), dg 1 (i_M i), dg 0 (i_M i), dg 1 (i_S i), dg 0 (i_S i), CHR ''Z''])"
proof -
  have "i_H i \<le> 1000000000" "i_M i \<le> 1000000000" "i_S i \<le> 1000000000"
    using ok by (auto simp: text_ok_def text_time_ok_def ECHS_ALL_DAY_def)
  then show ?thesis
    using ok b by (simp add: dt_strf_ical_def put_digits put_c_def text_ok_def text_date_ok_def ui_digits_dg Let_def)
qed

text \<open>
  The form of iCalendar has no milliseconds; what comes back is the instant to the second, marked
  as such.
\<close>

theorem ical_text_roundtrip:
  assumes ok: "text_ok i" and b: "17 \<le> bsz" "bsz < 2 ^ 64" and r: "ends_text rest"
    and l: "len = 0 \<or> length (dt_strf_ical bsz i) \<le> len"
  shows "dt_strp (dt_strf_ical bsz i @ rest) len =
    (if echs_instant_all_day_p i then i else i\<lparr>i_ms := ECHS_ALL_SEC\<rparr>, Some (length (dt_strf_ical bsz i)))"
proof -
  let ?s = "dt_strf_ical bsz i @ rest" and ?ep = "if len = 0 then 23 else len"
  note f = dt_strf_ical_text [OF ok b]
  have d: "text_date_ok i" using ok by (simp add: text_ok_def)
  have a: "at ?s 0 = dg 3 (i_y i)" "at ?s 1 = dg 2 (i_y i)" "at ?s 2 = dg 1 (i_y i)" "at ?s 3 = dg 0 (i_y i)"
    "at ?s 4 = dg 1 (i_m i)" "at ?s 5 = dg 0 (i_m i)" "at ?s 6 = dg 1 (i_d i)" "at ?s 7 = dg 0 (i_d i)"
    by (simp_all add: f)
  have y: "strp_year ?s 0 = Some (i_y i, 4)"
    using strp_year_text [of ?s 0 "i_y i", unfolded add_0, OF a(1-4)] d by (simp add: text_date_ok_def)
  have m: "strp_month ?s 4 = Some (i_m i, 6)" using strp_month_text [of ?s 4] a d by (simp add: text_date_ok_def)
  have ln: "8 \<le> length (dt_strf_ical bsz i)" by (simp add: f)
  then have e: "8 \<le> ?ep" using l by auto
  have dd: "strp_mday ?s ?ep 6 = Some (i_d i, 8)" using strp_mday_text [of ?s 6] a d e by (simp add: text_date_ok_def)
  have n: "\<not> (len \<noteq> 0 \<and> len < 8)" using ln l by auto
  let ?i0 = "\<lparr>i_y = i_y i, i_m = i_m i, i_d = i_d i, i_H = 0, i_M = 0, i_S = 0, i_ms = 0\<rparr>"
  have main: "strp_inst ?s len =
      (if ?ep \<le> 8 \<or> at ?s 8 \<noteq> CHR ''T'' \<and> at ?s 8 \<noteq> CHR '' ''
       then Some (?i0\<lparr>i_H := ECHS_ALL_DAY\<rparr>, 8)
       else if ?ep \<le> 12 then None else strp_time ?s ?ep ?i0 9)"
    using n e by (auto simp: strp_inst_def y m dd a skip_sep_def echs_nul_instant_def Let_def)
  show ?thesis
  proof (cases "echs_instant_all_day_p i")
    case True
    then have "at ?s 8 = deref rest" by (simp add: f at_0)
    with r have "at ?s 8 \<noteq> CHR ''T''" "at ?s 8 \<noteq> CHR '' ''" "at ?s 8 \<noteq> CHR ''Z''" by (simp_all add: ends_text_def)
    moreover have "?i0\<lparr>i_H := ECHS_ALL_DAY\<rparr> = i"
      using True ok by (cases i) (auto simp: text_ok_def text_time_ok_def echs_instant_all_day_p_def ECHS_ALL_DAY_def)
    moreover have "length (dt_strf_ical bsz i) = 8" using True by (simp add: f)
    ultimately show ?thesis using True by (simp add: dt_strp_def main skip_sep_def)
  next
    case False
    then have t: "text_time_ok i" using ok by (simp add: text_ok_def echs_instant_all_day_p_def)
    have e: "16 \<le> ?ep" using l False by (auto simp: f)
    have b: "at ?s 8 = CHR ''T''" "at ?s 9 = dg 1 (i_H i)" "at ?s 10 = dg 0 (i_H i)" "at ?s 11 = dg 1 (i_M i)"
      "at ?s 12 = dg 0 (i_M i)" "at ?s 13 = dg 1 (i_S i)" "at ?s 14 = dg 0 (i_S i)" "at ?s 15 = CHR ''Z''"
      using False by (simp_all add: f)
    have H: "strp_hour ?s 9 = Some (i_H i, 11)" using strp_hour_text [of ?s 9] b t by (simp add: text_time_ok_def)
    have M: "strp_min ?s 11 = Some (i_M i, 13)" using strp_min_text [of ?s 11] b t by (simp add: text_time_ok_def)
    have S: "strp_sec ?s 13 = (i_S i, 15)" using strp_sec_text [of ?s 13] b t by (simp add: text_time_ok_def)
    have "strp_time ?s ?ep ?i0 9 = Some (?i0\<lparr>i_H := i_H i, i_M := i_M i, i_S := i_S i, i_ms := ECHS_ALL_SEC\<rparr>, 15)"
      using e by (simp add: strp_time_def H M S b skip_sep_def)
    moreover have "?i0\<lparr>i_H := i_H i, i_M := i_M i, i_S := i_S i, i_ms := ECHS_ALL_SEC\<rparr> = i\<lparr>i_ms := ECHS_ALL_SEC\<rparr>"
      by (cases i) simp
    moreover have "length (dt_strf_ical bsz i) = 16" using False by (simp add: f)
    ultimately show ?thesis using e False by (simp add: dt_strp_def main b skip_sep_def)
  qed
qed

end
