(* ===== verification/DurationText.thy ===== *)
theory DurationText
  imports InstantText
begin

text \<open>
  The texts of durations and of ranges of instants, \<^verbatim>\<open>src/src/dt-strpf.c\<close>, with the number of
  decimal digits by way of the binary logarithm.
\<close>

unbundle bit_operations_syntax

section \<open>Printing numbers\<close>

definition de_bruijns :: "int list" where
  "de_bruijns =
     [1, 10, 2, 11, 14, 22, 3, 30,
      12, 15, 17, 19, 23, 26, 4, 31,
      9, 13, 21, 29, 16, 18, 25, 8,
      20, 28, 24, 7, 27, 6, 5, 32]"

definition ilog2_ceil :: "32 word \<Rightarrow> int" where
  "ilog2_ceil n =
     (let n = n OR 0b1111;
          n = n OR drop_bit 1 n;
          n = n OR drop_bit 2 n;
          n = n OR drop_bit 4 n;
          n = n OR drop_bit 8 n;
          n = n OR drop_bit 16 n
      in de_bruijns ! unat (drop_bit 27 (n * 0x07c4acdd)))"

definition ilog10_ceil :: "32 word \<Rightarrow> int" where
  "ilog10_ceil n =
     (let l2 = ilog2_ceil n;
          l2 = drop_bit 12 (l2 * 1233)
      in l2 + (if uint n \<ge> [1, 10, 100, 1000, 10000, 100000, 1000000, 10000000, 100000000, 1000000000] ! nat l2
               then 1 else 0))"

definition ui32tostr :: "int \<Rightarrow> 32 word \<Rightarrow> string" where
  "ui32tostr bsz d =
     (let l = ilog10_ceil d
      in if l \<ge> bsz then []
         else if l \<le> 10 then ui_digits (nat l) (uint d) else [])"

section \<open>Durations\<close>

function idiff_val :: "string \<Rightarrow> nat \<Rightarrow> int \<Rightarrow> nat \<Rightarrow> int \<times> nat" where
  "idiff_val s len val i =
     (if i < len \<and> xdig (at s i) < 10 then idiff_val s len (u32 (u32 (val * 10) + xdig (at s i))) (i + 1)
      else (val, i))"
  by pat_completeness auto
termination by (relation "measure (\<lambda>(s, len, val, i). len - i)") auto

declare idiff_val.simps [simp del]

text \<open>
  The letter of a time part is read with the bits of \<open>step\<close> or-ed in, which no longer matches a
  letter that was seen.
\<close>

function idiff_time :: "string \<Rightarrow> nat \<Rightarrow> int \<Rightarrow> int \<Rightarrow> nat \<Rightarrow> int \<times> nat" where
  "idiff_time s len step msd i =
     (let (val, i) = idiff_val s len 0 i;
          c = ord (at s i) OR step
      in if c = 0x48 then idiff_time s len (step OR 0x1) (i32 (msd + u32 (u32 (u32 (val * 60) * 60) * 1000))) (i + 1)
         else if c = 0x4D then idiff_time s len (step OR 0x11) (i32 (msd + u32 (u32 (val * 60) * 1000))) (i + 1)
         else if c = 0x53 then idiff_time s len (step OR 0x21) (i32 (msd + u32 (val * 1000))) (i + 1)
         else (msd, i + 1))"
  by pat_completeness auto
termination
proof (relation "measure (\<lambda>(s, len, step, msd, i). of_bool (\<not> bit step 0) + of_bool (\<not> bit step 4) + of_bool (\<not> bit step 5))", goal_cases)
  case 1
  show ?case by simp
next
  case (2 s len step msd i x val i' c)
  then have "\<not> bit (ord (at s i') OR step) 0" by simp
  then show ?case by (simp add: bit_or_iff)
next
  case (3 s len step msd i x val i' c)
  then have "\<not> bit (ord (at s i') OR step) 4" by simp
  then show ?case by (simp add: bit_or_iff)
next
  case (4 s len step msd i x val i' c)
  then have "\<not> bit (ord (at s i') OR step) 5" by simp
  then show ?case by (simp add: bit_or_iff)
qed

declare idiff_time.simps [simp del]

function idiff_date :: "string \<Rightarrow> nat \<Rightarrow> bool \<Rightarrow> bool \<Rightarrow> int \<Rightarrow> nat \<Rightarrow> int \<times> int \<times> nat" where
  "idiff_date s len seen_W seen_D dd i =
     (let (val, i) = idiff_val s len 0 i;
          c = at s i
      in if c = CHR ''T'' then let (msd, i) = idiff_time s len 0 0 (i + 1) in (dd, msd, i)
         else if c = CHR ''W'' then
           if seen_W then (dd, 0, i + 1) else idiff_date s len True seen_D (i32 (dd + u32 (val * 7))) (i + 1)
         else if c = CHR ''D'' then
           if seen_D then (dd, 0, i + 1) else idiff_date s len seen_W True (i32 (dd + val)) (i + 1)
         else (dd, 0, i + 1))"
  by pat_completeness auto
termination by (relation "measure (\<lambda>(s, len, w, d, dd, i). of_bool (\<not> w) + of_bool (\<not> d))") auto

declare idiff_date.simps [simp del]

text \<open>
  The cases of the sign end in the default case.  The result is an unsigned product of 32 bits,
  widened; \<open>*on\<close> always points behind what was read.
\<close>

definition idiff_strp :: "string \<Rightarrow> nat \<Rightarrow> int \<times> nat" where
  "idiff_strp s len =
     (let (negp, dd, msd, i) =
            (if len < 3 then (False, 0, 0, 0)
             else if at s 0 = CHR ''P'' then (False, idiff_date s len False False 0 1)
             else if at s 0 = CHR ''-'' then (True, 0, 0, 2)
             else if at s 0 = CHR ''+'' then (False, 0, 0, 2)
             else (False, 0, 0, 1));
          d = u32 (u32 (dd * MSECS_PER_DAY) + msd)
      in (if negp then - d else d, i))"

text \<open>A part of a duration: nothing when it is 0, and the end when the buffer is full.\<close>

definition put_part :: "int \<Rightarrow> int \<Rightarrow> char \<Rightarrow> string \<Rightarrow> bool \<times> string" where
  "put_part bsz tmp c buf =
     (if tmp = 0 then (True, buf)
      else let buf = buf @ ui32tostr (bsz - int (length buf)) (word_of_int tmp)
        in if int (length buf) \<ge> bsz then (False, buf) else (True, buf @ [c]))"

definition idiff_strf :: "int \<Rightarrow> int \<Rightarrow> string" where
  "idiff_strf bsz d =
     (if bsz < 4 then []
      else
        let (buf, d) = (if d < 0 then (''-'', - d) else ([], d));
            buf = buf @ ''P'';
            buf =
              (if d = 0 then buf @ ''0D''
               else case put_part bsz (u32 (d div MSECS_PER_DAY)) (CHR ''D'') buf of
                 (False, buf) \<Rightarrow> buf
               | (True, buf) \<Rightarrow>
                   let d = (if u32 (d div MSECS_PER_DAY) = 0 then d else d mod MSECS_PER_DAY)
                   in if d = 0 \<or> int (length buf) \<ge> bsz then buf
                      else case put_part bsz (u32 (d div 3600000)) (CHR ''H'') (buf @ ''T'') of
                        (False, buf) \<Rightarrow> buf
                      | (True, buf) \<Rightarrow>
                          case put_part bsz (u32 (d mod 3600000 div 60000)) (CHR ''M'') buf of
                            (False, buf) \<Rightarrow> buf
                          | (True, buf) \<Rightarrow> snd (put_part bsz (d mod 60000 div 1000) (CHR ''S'') buf))
        in if int (length buf) < bsz then buf else butlast buf)"

section \<open>Ranges\<close>

text \<open>When the first instant is not one, \<open>op\<close> stays at the front of the text.\<close>

definition range_strp :: "string \<Rightarrow> nat \<Rightarrow> range \<times> nat option" where
  "range_strp s len =
     (if len = 0 then (echs_max_range, None)
      else
        let (beg, op) = (if at s 0 = CHR ''-'' then (echs_min_instant, 0)
                         else case dt_strp s len of (i, None) \<Rightarrow> (i, 0) | (i, Some p) \<Rightarrow> (i, p))
        in if at s op = CHR ''/'' then
             let (e, on) = dt_strp (drop (op + 1) s) (nat ((int len - int (op + 1)) mod 2 ^ 64))
             in (\<lparr>r_beg = beg, r_end = e\<rparr>, map_option (\<lambda>p. op + 1 + p) on)
           else if at s op = CHR ''+'' then (\<lparr>r_beg = beg, r_end = echs_max_instant\<rparr>, Some (op + 1))
           else (echs_max_range, None))"

definition range_strf :: "int \<Rightarrow> range \<Rightarrow> string" where
  "range_strf ssz r =
     (if ssz < 2 then []
      else if echs_max_range_p r then ''*''
      else
        let str = (if \<not> echs_min_instant_p (r_beg r) then dt_strf ssz (r_beg r) else []);
            str = (if int (length str) < ssz \<and> \<not> echs_max_instant_p (r_end r)
                   then str @ ''/'' @ dt_strf (ssz - int (length str) - 1) (r_end r)
                   else if int (length str) < ssz then str @ ''+'' else str)
        in if int (length str) < ssz then str else take (nat (ssz - 1)) str)"


section \<open>Decimal digits\<close>

lemma smear_step:
  fixes m :: "32 word"
  assumes "\<And>i. bit a i \<longleftrightarrow> (\<exists>d<w. bit m (i + d))"
  shows "bit (a OR drop_bit w a) i \<longleftrightarrow> (\<exists>d<2 * w. bit m (i + d))"
proof -
  have "(\<exists>d<2 * w. bit m (i + d)) \<longleftrightarrow> (\<exists>d<w. bit m (i + d)) \<or> (\<exists>d<w. bit m (w + i + d))"
  proof safe
    fix d assume d: "d < 2 * w" "bit m (i + d)" and n: "\<not> (\<exists>d<w. bit m (w + i + d))"
    then have "d < w" using n [unfolded not_ex, rule_format, of "d - w"] by (cases "d < w") (auto simp: algebra_simps)
    then show "\<exists>d<w. bit m (i + d)" using d by auto
  next
    fix d assume "d < w" "bit m (i + d)" then show "\<exists>d<2 * w. bit m (i + d)" by (intro exI [of _ d]) auto
  next
    fix d assume "d < w" "bit m (w + i + d)" then show "\<exists>d<2 * w. bit m (i + d)"
      by (intro exI [of _ "d + w"]) (auto simp: algebra_simps)
  qed
  then show ?thesis using assms by (simp add: bit_or_iff bit_drop_bit_eq)
qed

definition smear :: "32 word \<Rightarrow> 32 word" where
  "smear m = (let n = m OR drop_bit 1 m; n = n OR drop_bit 2 n; n = n OR drop_bit 4 n; n = n OR drop_bit 8 n
     in n OR drop_bit 16 n)"

lemma bit_smear: "bit (smear m) i \<longleftrightarrow> (\<exists>j\<ge>i. bit m j)"
proof -
  define n1 where "n1 = m OR drop_bit 1 m"
  define n2 where "n2 = n1 OR drop_bit 2 n1"
  define n4 where "n4 = n2 OR drop_bit 4 n2"
  define n8 where "n8 = n4 OR drop_bit 8 n4"
  have "bit m i \<longleftrightarrow> (\<exists>d<1. bit m (i + d))" for i by simp
  from smear_step [OF this] have "bit n1 i \<longleftrightarrow> (\<exists>d<2. bit m (i + d))" for i unfolding n1_def by simp
  from smear_step [OF this] have "bit n2 i \<longleftrightarrow> (\<exists>d<4. bit m (i + d))" for i unfolding n2_def by simp
  from smear_step [OF this] have "bit n4 i \<longleftrightarrow> (\<exists>d<8. bit m (i + d))" for i unfolding n4_def by simp
  from smear_step [OF this] have "bit n8 i \<longleftrightarrow> (\<exists>d<16. bit m (i + d))" for i unfolding n8_def by simp
  from smear_step [OF this] have s: "bit (smear m) i \<longleftrightarrow> (\<exists>d<32. bit m (i + d))" 
    unfolding smear_def n1_def n2_def n4_def n8_def by (simp add: Let_def)
  also have "\<dots> \<longleftrightarrow> (\<exists>j\<ge>i. bit m j)"
  proof
    assume "\<exists>j\<ge>i. bit m j"
    then obtain j where j: "i \<le> j" "bit m j" by auto
    then have "j < 32" using bit_imp_le_length [of m j] by simp
    with j show "\<exists>d<32. bit m (i + d)" by (intro exI [of _ "j - i"]) auto
  qed (metis le_add1)
  finally show ?thesis .
qed

lemma smear_mask: "\<exists>k. 4 \<le> k \<and> k \<le> 32 \<and> smear m = mask k \<and> bit m (k - 1) \<and> uint m < 2 ^ k" if "bit m 3"
proof -
  let ?B = "{j. bit m j}"
  have f: "?B \<subseteq> {..<32}" using bit_imp_le_length [of m] by auto
  then have fin: "finite ?B" by (rule finite_subset) simp
  define t where "t = Max ?B"
  have t: "bit m t" using Max_in [OF fin] that by (auto simp: t_def)
  have le: "bit m j \<Longrightarrow> j \<le> t" for j using Max_ge [OF fin] by (simp add: t_def)
  have "smear m = mask (Suc t)"
  proof (rule bit_eqI)
    fix n assume "possible_bit TYPE(32 word) n"
    then show "bit (smear m) n = bit (mask (Suc t) :: 32 word) n"
      using t le by (auto simp: bit_smear bit_mask_iff possible_bit_word less_Suc_eq_le intro: order.trans)
  qed
  moreover have "3 \<le> t" "t < 32" using le [OF that] t f by auto
  moreover have "m = take_bit (Suc t) m"
    by (rule bit_eqI) (use le in \<open>auto simp: bit_take_bit_iff less_Suc_eq_le\<close>)
  then have "uint m < 2 ^ Suc t" by (metis take_bit_int_less_exp unsigned_take_bit_eq)
  ultimately show ?thesis using t by (intro exI [of _ "Suc t"]) auto
qed

lemma de_bruijn: "4 \<le> k \<Longrightarrow> k \<le> 32 \<Longrightarrow> de_bruijns ! unat (drop_bit 27 ((mask k :: 32 word) * 0x07c4acdd)) = int k"
proof -
  have "\<forall>k\<in>set [4..<33]. de_bruijns ! unat (drop_bit 27 ((mask k :: 32 word) * 0x07c4acdd)) = int k" by code_simp
  moreover have "4 \<le> k \<Longrightarrow> k \<le> 32 \<Longrightarrow> k \<in> set [4..<33]" unfolding set_upt atLeastLessThan_iff by linarith
  ultimately show "4 \<le> k \<Longrightarrow> k \<le> 32 \<Longrightarrow> ?thesis" by blast
qed


lemma ilog2_ceil_bits: "\<exists>k. 4 \<le> k \<and> k \<le> 32 \<and> ilog2_ceil n = int k \<and> (k = 4 \<or> 2 ^ (k - 1) \<le> uint n) \<and> uint n < 2 ^ k"
proof -
  let ?m = "n OR 0b1111"
  have b3: "bit ?m 3" by (simp add: bit_or_iff)
  obtain k where k: "4 \<le> k" "k \<le> 32" "smear ?m = mask k" "bit ?m (k - 1)" "uint ?m < 2 ^ k"
    using smear_mask [OF b3] by blast
  have "uint n AND 15 \<le> 15" by simp
  moreover have "uint ?m = uint n OR 15" by (simp add: unsigned_or_eq)
  ultimately have "uint n \<le> uint ?m" using plus_and_or [of "uint n" 15] by linarith
  then have u: "uint n < 2 ^ k" using k(5) by linarith
  have "k = 4 \<or> 2 ^ (k - 1) \<le> uint n"
  proof (cases "k = 4")
    case False
    have "(0b1111 :: 32 word) = mask 4" by code_simp
    then have "\<not> bit (0b1111 :: 32 word) (k - 1)" using k(1) False by (simp only: bit_mask_iff) linarith
    then have "bit n (k - 1)" using k(4) unfolding bit_or_iff by blast
    then have "bit (uint n) (k - 1)" using bit_imp_le_length [of n "k - 1"] by (simp add: bit_uint_iff)
    then have "odd (uint n div 2 ^ (k - 1))" by (simp add: bit_iff_odd)
    then have "uint n div 2 ^ (k - 1) \<noteq> 0" by (metis even_zero)
    then show ?thesis by (metis div_pos_pos_trivial not_le unsigned_greater_eq)
  qed simp
  moreover have "ilog2_ceil n = int k"
    using de_bruijn [OF k(1,2)] k(3) by (simp add: ilog2_ceil_def smear_def Let_def)
  ultimately show ?thesis using k(1,2) u by blast
qed

lemma log10_table:
  assumes "4 \<le> k" "k \<le> 32"
  shows "\<exists>e. 1 \<le> e \<and> e \<le> 9 \<and> drop_bit 12 (int k * 1233) = int e \<and> (k = 4 \<longrightarrow> e = 1) \<and> 10 ^ (e - 1) \<le> (2 :: int) ^ (k - 1) \<and>
    (2 :: int) ^ k \<le> 10 ^ (e + 1)"
proof -
  have "\<forall>k\<in>set [4..<33]. 1 \<le> nat (drop_bit 12 (int k * 1233)) \<and> nat (drop_bit 12 (int k * 1233)) \<le> 9 \<and>
      (k = 4 \<longrightarrow> nat (drop_bit 12 (int k * 1233)) = 1) \<and>
      10 ^ (nat (drop_bit 12 (int k * 1233)) - 1) \<le> (2 :: int) ^ (k - 1) \<and> (2 :: int) ^ k \<le> 10 ^ (nat (drop_bit 12 (int k * 1233)) + 1)"
    by code_simp
  moreover have "k \<in> set [4..<33]" using assms unfolding set_upt atLeastLessThan_iff by linarith
  moreover have "0 \<le> drop_bit 12 (int k * 1233)" by simp
  ultimately show ?thesis by (intro exI [of _ "nat (drop_bit 12 (int k * 1233))"]) auto
qed

lemma pow10_table: "e \<le> 9 \<Longrightarrow>
    [1, 10, 100, 1000, 10000, 100000, 1000000, 10000000, 100000000, 1000000000] ! e = (10 :: int) ^ e"
proof -
  have "\<forall>e\<in>set [0..<10]. [1, 10, 100, 1000, 10000, 100000, 1000000, 10000000, 100000000, 1000000000] ! e = (10 :: int) ^ e"
    by code_simp
  moreover have "e \<le> 9 \<Longrightarrow> e \<in> set [0..<10]" unfolding set_upt atLeastLessThan_iff by linarith
  ultimately show "e \<le> 9 \<Longrightarrow> ?thesis" by blast
qed

lemma ui_digits_show:
  "0 \<le> n \<Longrightarrow> n < 10 ^ Suc e \<Longrightarrow> e = 0 \<or> 10 ^ e \<le> n \<Longrightarrow> ui_digits (Suc e) n = show_pos n"
proof (induction e arbitrary: n)
  case 0
  then show ?case by (simp add: show_pos.simps [of n] xor_48)
next
  case (Suc e)
  have x: "chr (n mod 10 XOR 48) = chr (48 + n mod 10)" by (simp add: xor_48)
  have "10 ^ e \<le> n div 10" using Suc.prems(3) by (simp add: zdiv_mono1 [of "10 * 10 ^ e" n 10, simplified])
  then have "ui_digits (Suc e) (n div 10) = show_pos (n div 10)"
    using Suc.prems(1,2) by (intro Suc.IH) auto
  moreover have "(1 :: int) \<le> 10 ^ e" by simp
  then have "\<not> n < 10" using Suc.prems(3) unfolding power_Suc by linarith
  ultimately show ?case using x by (simp add: show_pos.simps [of n])
qed

lemma ui32tostr_show: "\<exists>l. ilog10_ceil d = int l \<and> l \<le> 10 \<and> ui_digits l (uint d) = show_pos (uint d)"
proof -
  obtain k where k: "4 \<le> k" "k \<le> 32" "ilog2_ceil d = int k" "k = 4 \<or> 2 ^ (k - 1) \<le> uint d" "uint d < 2 ^ k"
    using ilog2_ceil_bits by blast
  obtain e where e: "1 \<le> e" "e \<le> 9" "drop_bit 12 (int k * 1233) = int e" "k = 4 \<longrightarrow> e = 1"
    "10 ^ (e - 1) \<le> (2 :: int) ^ (k - 1)" "(2 :: int) ^ k \<le> 10 ^ (e + 1)"
    using log10_table [OF k(1,2)] by blast
  have v: "ilog10_ceil d = int e + (if 10 ^ e \<le> uint d then 1 else 0)"
    using e(2) by (simp add: ilog10_ceil_def k(3) e(3) Let_def pow10_table)
  obtain e' where e': "e = Suc e'" using e(1) by (cases e) auto
  show ?thesis
  proof (cases "10 ^ e \<le> uint d")
    case True
    have "ui_digits (Suc e) (uint d) = show_pos (uint d)"
      using k(5) e(6) True by (intro ui_digits_show) simp_all
    then show ?thesis using v True e(2) by (intro exI [of _ "Suc e"]) simp
  next
    case False
    have "ui_digits (Suc e') (uint d) = show_pos (uint d)"
      using False k(4) e(4,5) e' by (intro ui_digits_show) auto
    then show ?thesis using v False e(2) e' by (intro exI [of _ e]) simp
  qed
qed


lemma ui32tostr_digits: "ui32tostr bsz d = show_pos (uint d)" if "10 < bsz"
  using ui32tostr_show [of d] that by (auto simp: ui32tostr_def)

section \<open>Round trip of durations\<close>

text \<open>A part of the text: a number above 0 and its letter.\<close>

definition part :: "int \<Rightarrow> char \<Rightarrow> string" where
  "part n c = (if n = 0 then [] else show_pos n @ [c])"

definition day_time_text :: "int \<Rightarrow> string" where
  "day_time_text t =
     (if t = 0 then []
      else CHR ''T'' # part (t div 3600000) (CHR ''H'') @ part (t mod 3600000 div 60000) (CHR ''M'') @
        part (t mod 60000 div 1000) (CHR ''S''))"

definition dur_text :: "int \<Rightarrow> string" where
  "dur_text d =
     (if d = 0 then ''P0D'' else CHR ''P'' # part (d div MSECS_PER_DAY) (CHR ''D'') @ day_time_text (d mod MSECS_PER_DAY))"

lemma length_part: "0 \<le> n \<Longrightarrow> n < 4294967296 \<Longrightarrow> length (part n c) \<le> 11"
proof -
  assume n: "0 \<le> n" "n < 4294967296"
  then have u: "uint (word_of_int n :: 32 word) = n" by (simp add: uint_word_of_int)
  obtain l' where "ilog10_ceil (word_of_int n) = int l'" "l' \<le> 10" "ui_digits l' n = show_pos n"
    using ui32tostr_show [of "word_of_int n"] u by auto
  moreover have "length (ui_digits k x) = k" for k x by (induction k arbitrary: x) simp_all
  ultimately have "length (show_pos n) \<le> 10" by metis
  then show ?thesis by (simp add: part_def)
qed

lemma length_part_2: "0 \<le> n \<Longrightarrow> n < 100 \<Longrightarrow> length (part n c) \<le> 3"
  by (auto simp: part_def show_pos.simps [of n] show_pos.simps [of "n div 10"])

lemma put_part_text:
  assumes "0 \<le> n" "n < 4294967296" "int (length buf) + 10 < bsz"
  shows "put_part bsz n c buf = (True, buf @ part n c)"
proof -
  have l: "10 < bsz - int (length buf)" using assms(3) by linarith
  have u: "uint (word_of_int n :: 32 word) = n" using assms by (simp add: uint_word_of_int)
  show ?thesis using assms length_part [OF assms(1,2), of c] ui32tostr_digits [OF l, of "word_of_int n"] u
    by (simp add: put_part_def part_def Let_def split: if_splits)
qed

lemma idiff_strf_text:
  assumes d: "0 \<le> d" "d < 4294967296" and b: "24 \<le> bsz"
  shows "idiff_strf bsz d = dur_text d"
proof (cases "d = 0")
  case True
  then show ?thesis using b by (simp add: idiff_strf_def dur_text_def)
next
  case False
  define days where "days = d div MSECS_PER_DAY"
  define t where "t = d mod MSECS_PER_DAY"
  define H where "H = t div 3600000"
  define M where "M = t mod 3600000 div 60000"
  define S where "S = t mod 60000 div 1000"
  have D: "0 \<le> days" "days < 4294967296" "0 \<le> t" "t < MSECS_PER_DAY"
    using d by (simp_all add: days_def t_def MSECS_PER_DAY_def pos_imp_zdiv_nonneg_iff)
  have t: "(if days = 0 then d else t) = t"
    using d by (auto simp: days_def t_def MSECS_PER_DAY_def)
  have R: "0 \<le> H" "H < 4294967296" "0 \<le> M" "M < 4294967296" "0 \<le> S" "S < 4294967296"
    using D(3,4) by (simp_all add: H_def M_def S_def MSECS_PER_DAY_def pos_imp_zdiv_nonneg_iff)
  have B: "days < 100" "H < 100" "M < 100" "S < 100"
  proof -
    have "t mod 3600000 < 3600000" "t mod 60000 < 60000" "t < 86400000" using D(4) by (simp_all add: MSECS_PER_DAY_def)
    moreover have "0 \<le> t mod 3600000" "0 \<le> t mod 60000" by simp_all
    ultimately show "days < 100" "H < 100" "M < 100" "S < 100"
      unfolding days_def H_def M_def S_def MSECS_PER_DAY_def using d D(3) by linarith+
  qed
  define PD where "PD = part days (CHR ''D'')"
  define PH where "PH = part H (CHR ''H'')"
  define PM where "PM = part M (CHR ''M'')"
  define PS where "PS = part S (CHR ''S'')"
  have l: "length PD \<le> 3" "length PH \<le> 3" "length PM \<le> 3" "length PS \<le> 3"
    unfolding PD_def PH_def PM_def PS_def by (rule length_part_2; use B R D in linarith)+
  have p: "put_part bsz (u32 days) (CHR ''D'') ''P'' = (True, CHR ''P'' # PD)"
    "put_part bsz (u32 H) (CHR ''H'') (CHR ''P'' # PD @ ''T'') = (True, CHR ''P'' # PD @ CHR ''T'' # PH)"
    "put_part bsz (u32 M) (CHR ''M'') (CHR ''P'' # PD @ CHR ''T'' # PH) = (True, CHR ''P'' # PD @ CHR ''T'' # PH @ PM)"
    "put_part bsz S (CHR ''S'') (CHR ''P'' # PD @ CHR ''T'' # PH @ PM) = (True, CHR ''P'' # PD @ CHR ''T'' # PH @ PM @ PS)"
    using b l D(1,2) R put_part_text [of days] put_part_text [of H] put_part_text [of M] put_part_text [of S]
    by (simp_all add: u32_id PD_def PH_def PM_def PS_def)
  have "dur_text d = CHR ''P'' # PD @ (if t = 0 then [] else CHR ''T'' # PH @ PM @ PS)"
    using False by (simp add: dur_text_def day_time_text_def PD_def PH_def PM_def PS_def H_def M_def S_def t_def days_def)
  moreover have "idiff_strf bsz d = CHR ''P'' # PD @ (if t = 0 then [] else CHR ''T'' # PH @ PM @ PS)"
  proof (cases "days = 0")
    case True
    then have e: "d div MSECS_PER_DAY = 0" "d mod MSECS_PER_DAY = d" "t = d" using t by (simp_all add: days_def t_def)
    show ?thesis
      using False d(1) b l True p unfolding H_def M_def S_def e(3)
      by (simp add: idiff_strf_def e(1,2) u32_id)
  next
    case F2: False
    then show ?thesis
      using False d(1) b l D(1,2) p
      by (simp add: idiff_strf_def u32_id flip: days_def t_def) (simp add: Let_def flip: H_def M_def S_def)
  qed
  ultimately show ?thesis by simp
qed

lemma xdig_digit: "xdig c < 10 \<longleftrightarrow> is_digit c" "is_digit c \<Longrightarrow> xdig c = ord c - 48"
proof -
  have t: "\<forall>n\<in>set [0..<256]. (int n XOR 48 < 10) = (48 \<le> n \<and> n \<le> 57) \<and> (48 \<le> n \<and> n \<le> 57 \<longrightarrow> int n XOR 48 = int n - 48)"
    by code_simp
  have "(of_char c :: nat) \<in> set [0..<256]" unfolding set_upt atLeastLessThan_iff using nat_of_char_less_256 [of c] by blast
  from bspec [OF t this] show "xdig c < 10 \<longleftrightarrow> is_digit c" "is_digit c \<Longrightarrow> xdig c = ord c - 48"
    by (simp_all add: xdig_def is_digit_def ord_def)
qed

lemma at_drop: "drop i s = c # t \<Longrightarrow> at s i = c" "drop i s = c # t \<Longrightarrow> drop (Suc i) s = t"
  by (simp add: at_def) (metis drop_Suc list.sel(3) tl_drop)

lemma idiff_val_digits:
  assumes "list_all is_digit ds" "drop i s = ds @ t" "i + length ds \<le> len" "stops t \<or> i + length ds = len"
  shows "idiff_val s len (u32 v) i = (u32 (fst (read_digits v ds)), i + length ds)"
  using assms
proof (induction ds arbitrary: v i)
  case Nil
  have "xdig (at s i) < 10 \<longleftrightarrow> \<not> stops t" using Nil by (simp add: xdig_digit at_def stops_def)
  then show ?case using Nil by (auto simp: idiff_val.simps [of s len _ i])
next
  case (Cons c ds)
  note a = at_drop [of i s c "ds @ t"]
  have "is_digit c" using Cons.prems by simp
  moreover have "idiff_val s len (u32 (v * 10 + (ord c - 48))) (Suc i) = (u32 (fst (read_digits (v * 10 + (ord c - 48)) ds)), Suc i + length ds)"
    using Cons.prems a by (intro Cons.IH) auto
  moreover have "u32 (u32 (u32 v * 10) + (ord c - 48)) = u32 (v * 10 + (ord c - 48))" by simp
  ultimately show ?case using Cons.prems a xdig_digit [of c] by (simp add: idiff_val.simps [of s len _ i])
qed

lemma idiff_val_show:
  assumes "0 \<le> n" "n < 4294967296" "drop i s = show_pos n @ c # t" "i + length (show_pos n) < len" "\<not> is_digit c"
  shows "idiff_val s len 0 i = (n, i + length (show_pos n)) \<and> at s (i + length (show_pos n)) = c \<and>
    drop (i + length (show_pos n) + 1) s = t"
proof -
  have "drop (i + length (show_pos n)) s = drop (length (show_pos n)) (drop i s)" by (simp add: add.commute)
  then have "drop (i + length (show_pos n)) s = c # t" using assms(3) by simp
  note d = at_drop [OF this]
  have "idiff_val s len (u32 0) i = (u32 n, i + length (show_pos n))"
    using idiff_val_digits [OF show_pos_digits [OF assms(1)] assms(3), of len 0] assms(4,5) read_show_pos [OF assms(1)] by simp
  then show ?thesis using d assms(1,2) by (simp add: u32_id)
qed

lemma idiff_val_end: "len \<le> i \<Longrightarrow> idiff_val s len v i = (v, i)"
  by (simp add: idiff_val.simps)

text \<open>What follows a duration in its buffer: a NUL, the end of a line or another separator.\<close>

definition ends_dur :: "string \<Rightarrow> bool" where
  "ends_dur rest \<longleftrightarrow> ord (deref rest) < 64"

lemma ord_range: "0 \<le> ord c" "ord c < 256"
  using nat_of_char_less_256 [of c] by (simp_all add: ord_def flip: of_char_of)

lemma or_small: "0 \<le> a \<Longrightarrow> a < 64 \<Longrightarrow> 0 \<le> b \<Longrightarrow> b < 64 \<Longrightarrow> a OR b < (64 :: int)"
  using OR_upper [of a 6 b] by simp

lemma idiff_time_end:
  assumes "drop i s = rest" "ends_dur rest" "len = i" "0 \<le> step" "step < 64"
  shows "idiff_time s len step msd i = (msd, i + 1)"
proof -
  have "ord (at s i) OR step < 64" using assms ord_range [of "at s i"] by (intro or_small) (auto simp: at_def ends_dur_def)
  then show ?thesis using assms(3) by (simp add: idiff_time.simps [of s i] idiff_val_end)
qed

lemma idiff_date_end:
  assumes "drop i s = rest" "ends_dur rest" "len = i"
  shows "idiff_date s len w d dd i = (dd, 0, i + 1)"
proof -
  have "ord (at s i) < 64" using assms by (simp add: at_def ends_dur_def)
  then have "at s i \<noteq> CHR ''T''" "at s i \<noteq> CHR ''W''" "at s i \<noteq> CHR ''D''" by (auto simp: ord_def)
  then show ?thesis using assms(3) by (simp add: idiff_date.simps [of s i] idiff_val_end)
qed

lemma letters: "ord (CHR ''H'') = 0x48" "ord (CHR ''M'') = 0x4D" "ord (CHR ''S'') = 0x53"
  "\<not> is_digit (CHR ''H'')" "\<not> is_digit (CHR ''M'')" "\<not> is_digit (CHR ''S'')" "\<not> is_digit (CHR ''D'')"
  by (simp_all add: ord_def is_digit_def)

lemma idiff_time_part:
  assumes d: "drop i s = part n c @ t" "i + length (part n c) \<le> len" and n: "0 \<le> n" "n < 100" "n \<noteq> 0" and c: "\<not> is_digit c"
  shows "idiff_val s len 0 i = (n, i + length (part n c) - 1)" "at s (i + length (part n c) - 1) = c"
    "drop (i + length (part n c)) s = t"
  using idiff_val_show [OF n(1), of i s c t len] assms by (simp_all add: part_def)

lemma idiff_time_H:
  assumes "drop i s = part n (CHR ''H'') @ t" "i + length (part n (CHR ''H'')) \<le> len" "0 \<le> n" "n < 24"
  shows "\<exists>step\<in>{0, 1}. idiff_time s len 0 0 i = idiff_time s len step (3600000 * n) (i + length (part n (CHR ''H'')))"
proof (cases "n = 0")
  case False
  have l: "length (part n (CHR ''H'')) > 0" using False by (simp add: part_def)
  have "idiff_time s len 0 0 i = idiff_time s len 1 (3600000 * n) (i + length (part n (CHR ''H'')))"
    using idiff_time_part [OF assms(1-3) _ False letters(4)] assms(3,4) l
    by (simp add: idiff_time.simps [of s len 0 0 i] letters u32_id i32_id)
  then show ?thesis by blast
qed (auto simp: part_def)

lemma idiff_time_M:
  assumes "drop i s = part n (CHR ''M'') @ t" "i + length (part n (CHR ''M'')) \<le> len" "0 \<le> n" "n < 60"
    "step \<in> {0, 1}" "0 \<le> msd" "msd < 86400000"
  shows "\<exists>step'\<in>{0, 1, 17}. idiff_time s len step msd i = idiff_time s len step' (msd + 60000 * n) (i + length (part n (CHR ''M'')))"
proof (cases "n = 0")
  case False
  have l: "length (part n (CHR ''M'')) > 0" using False by (simp add: part_def)
  have "step OR 17 = 17" "0x4D OR step = 0x4D" using assms(5) by auto
  then have "idiff_time s len step msd i = idiff_time s len 17 (msd + 60000 * n) (i + length (part n (CHR ''M'')))"
    using idiff_time_part [OF assms(1-3) _ False letters(5)] assms(3,4,6,7) l
    by (simp add: idiff_time.simps [of s len step msd i] letters u32_id i32_id mult.commute)
  then show ?thesis by blast
qed (use assms(5) in \<open>auto simp: part_def\<close>)

lemma idiff_time_S:
  assumes "drop i s = part n (CHR ''S'') @ t" "i + length (part n (CHR ''S'')) \<le> len" "0 \<le> n" "n < 60"
    "step \<in> {0, 1, 17}" "0 \<le> msd" "msd < 86400000"
  shows "\<exists>step'\<in>{0, 1, 17, 33, 49}. idiff_time s len step msd i = idiff_time s len step' (msd + 1000 * n) (i + length (part n (CHR ''S'')))"
proof (cases "n = 0")
  case False
  have l: "length (part n (CHR ''S'')) > 0" using False by (simp add: part_def)
  have "step OR 33 \<in> {33, 49}" "0x53 OR step = 0x53" using assms(5) by auto
  moreover from this have "idiff_time s len step msd i = idiff_time s len (step OR 33) (msd + 1000 * n) (i + length (part n (CHR ''S'')))"
    using idiff_time_part [OF assms(1-3) _ False letters(6)] assms(3,4,6,7) l
    by (simp add: idiff_time.simps [of s len step msd i] letters u32_id i32_id mult.commute)
  ultimately show ?thesis by auto
qed (use assms(5) in \<open>auto simp: part_def\<close>)

lemma idiff_time_text:
  assumes t: "0 \<le> t" "t < MSECS_PER_DAY" "t \<noteq> 0" and d: "drop i s = tl (day_time_text t) @ rest" "len = i + length (tl (day_time_text t))"
    and r: "ends_dur rest"
  shows "idiff_time s len 0 0 i = (t - t mod 1000, len + 1)"
proof -
  define H where "H = t div 3600000"
  define M where "M = t mod 3600000 div 60000"
  define S where "S = t mod 60000 div 1000"
  have R: "0 \<le> H" "H < 24" "0 \<le> M" "M < 60" "0 \<le> S" "S < 60"
    using t by (simp_all add: H_def M_def S_def MSECS_PER_DAY_def pos_imp_zdiv_nonneg_iff)
  have e: "t - t mod 1000 = 3600000 * H + 60000 * M + 1000 * S"
  proof -
    have "t = 3600000 * H + t mod 3600000" "t mod 3600000 = 60000 * M + t mod 3600000 mod 60000"
      "t mod 60000 = 1000 * S + t mod 60000 mod 1000"
      unfolding H_def M_def S_def by (simp_all only: mult_div_mod_eq)
    moreover have "t mod 3600000 mod 60000 = t mod 60000" "t mod 60000 mod 1000 = t mod 1000"
      by (simp_all add: mod_mod_cancel)
    ultimately show ?thesis by linarith
  qed
  let ?H = "part H (CHR ''H'')" and ?M = "part M (CHR ''M'')" and ?S = "part S (CHR ''S'')"
  have x: "tl (day_time_text t) = ?H @ ?M @ ?S" using t(3) by (simp add: day_time_text_def H_def M_def S_def)
  define i1 where "i1 = i + length ?H"
  define i2 where "i2 = i1 + length ?M"
  define i3 where "i3 = i2 + length ?S"
  have d0: "drop i s = ?H @ (?M @ ?S @ rest)" using d(1) x by simp
  then have d1: "drop i1 s = ?M @ (?S @ rest)" unfolding i1_def by (metis append_eq_conv_conj drop_drop add.commute)
  then have d2: "drop i2 s = ?S @ rest" unfolding i2_def by (metis append_eq_conv_conj drop_drop add.commute)
  then have d3: "drop i3 s = rest" unfolding i3_def by (metis append_eq_conv_conj drop_drop add.commute)
  have l: "len = i3" using d(2) x by (simp add: i3_def i2_def i1_def)
  obtain s1 where s1: "s1 \<in> {0, 1}" "idiff_time s len 0 0 i = idiff_time s len s1 (3600000 * H) i1"
    using idiff_time_H [OF d0 _ R(1,2), of len] by (auto simp: l i3_def i2_def i1_def)
  obtain s2 where s2: "s2 \<in> {0, 1, 17}" "idiff_time s len s1 (3600000 * H) i1 = idiff_time s len s2 (3600000 * H + 60000 * M) i2"
    using idiff_time_M [OF d1 _ R(3,4) s1(1), of len "3600000 * H"] R by (auto simp: l i3_def i2_def)
  obtain s3 where s3: "s3 \<in> {0, 1, 17, 33, 49}" "idiff_time s len s2 (3600000 * H + 60000 * M) i2 =
      idiff_time s len s3 (3600000 * H + 60000 * M + 1000 * S) i3"
    using idiff_time_S [OF d2 _ R(5,6) s2(1), of len "3600000 * H + 60000 * M"] R by (auto simp: l i3_def)
  have "idiff_time s len s3 (3600000 * H + 60000 * M + 1000 * S) i3 = (3600000 * H + 60000 * M + 1000 * S, i3 + 1)"
    using s3(1) by (intro idiff_time_end [OF d3 r l]) auto
  then show ?thesis using s1 s2 s3 e l by simp
qed

lemma idiff_date_rest:
  assumes t: "0 \<le> t" "t < MSECS_PER_DAY" and d: "drop i s = day_time_text t @ rest" "len = i + length (day_time_text t)"
    and r: "ends_dur rest"
  shows "idiff_date s len w b dd i = (dd, t - t mod 1000, len + 1)"
proof (cases "t = 0")
  case True
  then have "drop i s = rest" "len = i" using d by (simp_all add: day_time_text_def)
  then show ?thesis using True r by (simp add: idiff_date_end)
next
  case False
  then have T: "day_time_text t = CHR ''T'' # tl (day_time_text t)" by (simp add: day_time_text_def)
  then have a: "at s i = CHR ''T''" "drop (i + 1) s = tl (day_time_text t) @ rest"
    using at_drop [of i s "CHR ''T''" "tl (day_time_text t) @ rest"] d(1) by (metis append_Cons)
      (metis T Suc_eq_plus1 append_Cons at_drop(2) d(1))
  have v: "idiff_val s len 0 i = (0, i)"
    using a(1) xdig_digit(1) [of "CHR ''T''"] by (simp add: idiff_val.simps [of s len 0 i])
  have "len = (i + 1) + length (tl (day_time_text t))" using d(2) T by (metis add.assoc length_Cons plus_1_eq_Suc)
  then have "idiff_time s len 0 0 (i + 1) = (t - t mod 1000, len + 1)" by (rule idiff_time_text [OF t False a(2) _ r])
  then show ?thesis using a(1) v by (simp add: idiff_date.simps [of s len w b dd i])
qed

lemma idiff_date_text:
  assumes n: "0 \<le> n" "n < 100" and t: "0 \<le> t" "t < MSECS_PER_DAY"
    and d: "drop i s = part n (CHR ''D'') @ day_time_text t @ rest" "len = i + length (part n (CHR ''D'') @ day_time_text t)"
    and r: "ends_dur rest"
  shows "idiff_date s len False False 0 i = (n, t - t mod 1000, len + 1)"
proof (cases "n = 0")
  case True
  then show ?thesis using idiff_date_rest [OF t _ _ r, of i s len False False 0] d by (simp add: part_def)
next
  case False
  let ?j = "i + length (part n (CHR ''D''))"
  have p: "length (part n (CHR ''D'')) > 0" using False by (simp add: part_def)
  have "drop ?j s = day_time_text t @ rest" "len = ?j + length (day_time_text t)"
    using idiff_time_part(3) [OF d(1) _ n False letters(7), of len] d(2) by simp_all
  then have "idiff_date s len False True n ?j = (n, t - t mod 1000, len + 1)"
    using idiff_date_rest [OF t _ _ r] by blast
  moreover have le: "i + length (part n (CHR ''D'')) \<le> len" using d(2) by simp
  ultimately show ?thesis
    using idiff_time_part(1,2) [OF d(1) le n False letters(7)] p n
    by (simp add: idiff_date.simps [of s len False False 0 i] i32_id)
qed

text \<open>The value, and the cursor: behind the text unless it has no parts at all.\<close>

lemma duration_text_back:
  assumes d: "0 \<le> d" "d < 4294967296" and b: "24 \<le> bsz" and r: "ends_dur rest"
  shows "fst (idiff_strp (idiff_strf bsz d @ rest) (length (idiff_strf bsz d))) = d - d mod 1000 \<and>
    (1000 \<le> d \<or> d = 0 \<longrightarrow> length (idiff_strf bsz d) < snd (idiff_strp (idiff_strf bsz d @ rest) (length (idiff_strf bsz d))))"
proof -
  define n where "n = d div MSECS_PER_DAY"
  define t where "t = d mod MSECS_PER_DAY"
  have R: "0 \<le> n" "n < 100" "0 \<le> t" "t < MSECS_PER_DAY"
    using d by (simp_all add: n_def t_def MSECS_PER_DAY_def pos_imp_zdiv_nonneg_iff)
  have e: "d = n * MSECS_PER_DAY + t" "d mod 1000 = t mod 1000"
    by (simp_all add: n_def t_def MSECS_PER_DAY_def mod_mod_cancel)
  let ?s = "dur_text d @ rest" and ?len = "length (dur_text d)"
  show ?thesis
  proof (cases "d = 0")
    case True
    then have x: "dur_text d = ''P0D''" by (simp add: dur_text_def)
    have "idiff_val (CHR ''P'' # CHR ''0'' # CHR ''D'' # rest) 3 (u32 0) 1 = (u32 (fst (read_digits 0 ''0'')), 1 + length ''0'')"
      by (rule idiff_val_digits [where t = "CHR ''D'' # rest"]) (simp_all add: is_digit_def ord_def stops_def)
    then have "idiff_val (CHR ''P'' # CHR ''0'' # CHR ''D'' # rest) 3 0 1 = (0, 2)" by (simp add: is_digit_def ord_def u32_id)
    moreover have "idiff_date (CHR ''P'' # CHR ''0'' # CHR ''D'' # rest) 3 False True 0 3 = (0, 0, 4)"
      using r by (subst idiff_date_end [OF refl]) (simp_all add: numeral_3_eq_3)
    ultimately have "idiff_date (CHR ''P'' # CHR ''0'' # CHR ''D'' # rest) 3 False False 0 1 = (0, 0, 4)"
      by (subst idiff_date.simps) (simp add: i32_id)
    then show ?thesis using True idiff_strf_text [OF d b] x by (simp add: idiff_strp_def u32_id numeral_3_eq_3)
  next
    case False
    then have x: "dur_text d = CHR ''P'' # part n (CHR ''D'') @ day_time_text t" by (simp add: dur_text_def n_def t_def)
    have j: "idiff_date ?s ?len False False 0 1 = (n, t - t mod 1000, ?len + 1)"
      using idiff_date_text [OF R, of 1 ?s rest ?len] r by (auto simp: x)
    have z: "0 \<le> t - t mod 1000" using R(3) by (simp add: zmod_le_nonneg_dividend)
    have D: "u32 (u32 (n * MSECS_PER_DAY) + (t - t mod 1000)) = d - d mod 1000"
    proof -
      have "0 \<le> t mod 1000" by simp
      then have "n * MSECS_PER_DAY + (t - t mod 1000) < 4294967296" using e d by linarith
      moreover have "0 \<le> n * MSECS_PER_DAY" using R(1) by (simp add: MSECS_PER_DAY_def)
      ultimately show ?thesis using z e by (simp add: u32_id)
    qed
    show ?thesis
    proof (cases "?len < 3")
      case True
      have l: "2 \<le> length (part k c)" if "k \<noteq> 0" for k c
        using that by (cases "show_pos k") (auto simp: part_def)
      have "n = 0" using True l [of n "CHR ''D''"] by (cases "n = 0") (auto simp: x)
      moreover have "t \<noteq> 0" using False e \<open>n = 0\<close> by auto
      with True have "part (t div 3600000) (CHR ''H'') = []" "part (t mod 3600000 div 60000) (CHR ''M'') = []" "part (t mod 60000 div 1000) (CHR ''S'') = []"
        by (auto simp: x day_time_text_def)
      then have "t div 3600000 = 0" "t mod 3600000 div 60000 = 0" "t mod 60000 div 1000 = 0" by (auto simp: part_def split: if_splits)
      then have "t - t mod 1000 = 0" using R(3) by arith
      moreover from this have "t < 1000" using pos_mod_bound [of 1000 t] by linarith
      moreover have "t \<noteq> 0" using False e \<open>n = 0\<close> by auto
      ultimately show ?thesis using True e idiff_strf_text [OF d b] by (simp add: idiff_strp_def u32_id)
    next
      case F2: False
      then show ?thesis using j D False idiff_strf_text [OF d b] by (simp add: idiff_strp_def) (simp add: x)
    qed
  qed
qed

text \<open>
  C33: A duration of less than 2^32 milliseconds (49 days) survives its text to the second, in whatever
  buffer it stands.
\<close>

theorem duration_text_roundtrip:
  assumes d: "0 \<le> d" "d < 4294967296" and b: "24 \<le> bsz" and r: "ends_dur rest"
  shows "fst (idiff_strp (idiff_strf bsz d @ rest) (length (idiff_strf bsz d))) = d - d mod 1000"
  using duration_text_back [OF assms] by simp

theorem duration_text_roundtrip_witness:
  "fst (idiff_strp (idiff_strf 64 93784567) (length (idiff_strf 64 93784567))) = (93784000 :: int)"
  using duration_text_roundtrip [of 93784567 64 "[]"] by (simp add: ends_dur_def ord_def)

text \<open>
  A sign ends the parser; days beyond 49 wrap around in the unsigned product; a fraction of a second is
  not a fraction; without seconds the cursor ends up behind the text.
\<close>

lemma idiff_strp_quirks:
  "fst (idiff_strp ''-P1D'' 4) = 0" "fst (idiff_strp ''+P1D'' 4) = 0"
  "fst (idiff_strp ''P50D'' 4) = 50 * MSECS_PER_DAY - 4294967296"
  "i_ms (fst (dt_strp ''2015-02-14T12:34:56.5'' 21)) = 5"
  "snd (dt_strp ''2015-02-14T12:34'' 16) = Some 17"
  by code_simp+

section \<open>Round trip of ranges\<close>

definition text_range_ok :: "range \<Rightarrow> bool" where
  "text_range_ok r \<longleftrightarrow> text_ok (r_beg r) \<and> (text_ok (r_end r) \<or> r_end r = echs_max_instant)"

lemma text_ok_max: "text_ok i \<Longrightarrow> \<not> echs_max_instant_p i"
  by (auto simp: text_ok_def text_date_ok_def text_time_ok_def echs_max_instant_p_def inst_u_def ECHS_ALL_DAY_def ECHS_ALL_SEC_def)

lemma text_ok_min: "text_ok i \<Longrightarrow> echs_min_instant_p i \<longleftrightarrow> i = echs_min_instant"
proof -
  assume "text_ok i"
  then have "inst_bits i"
    by (auto simp: text_ok_def text_date_ok_def text_time_ok_def inst_bits_def ECHS_ALL_DAY_def ECHS_ALL_SEC_def)
  moreover have "inst_bits echs_nul_instant" "inst_u echs_nul_instant = 0"
    by (simp_all add: echs_nul_instant_def inst_bits_def inst_u_def)
  ultimately show "echs_min_instant_p i \<longleftrightarrow> i = echs_min_instant"
    using inst_u_inj [of i echs_nul_instant] by (auto simp: echs_min_instant_p_def echs_nul_instant_p_def echs_min_instant_def)
qed

lemma dt_strf_head: "text_ok i \<Longrightarrow> 24 \<le> bsz \<Longrightarrow> bsz < 2 ^ 64 \<Longrightarrow> at (dt_strf bsz i @ t) 0 = dg 3 (i_y i)"
  by (simp add: dt_strf_text date_text_def)

lemma dt_strf_length: "text_ok i \<Longrightarrow> 24 \<le> bsz \<Longrightarrow> bsz < 2 ^ 64 \<Longrightarrow> length (dt_strf bsz i) \<le> 23"
  by (simp add: dt_strf_text date_text_def time_text_def msec_text_def)

lemma range_strf_text:
  assumes ok: "text_range_ok r" and b: "50 \<le> ssz" "ssz < 2 ^ 64"
  shows "range_strf ssz r =
    (if r = echs_max_range then ''*''
     else (if r_beg r = echs_min_instant then [] else dt_strf ssz (r_beg r)) @
       (if r_end r = echs_max_instant then ''+''
        else ''/'' @ dt_strf (ssz - (if r_beg r = echs_min_instant then 0 else int (length (dt_strf ssz (r_beg r)))) - 1) (r_end r)))"
proof -
  let ?l = "if r_beg r = echs_min_instant then 0 else int (length (dt_strf ssz (r_beg r)))"
  have B: "?l \<le> 23" "0 \<le> ?l" using ok b dt_strf_length [of "r_beg r" ssz] by (auto simp: text_range_ok_def)
  have E: "r_end r \<noteq> echs_max_instant \<Longrightarrow> length (dt_strf (ssz - ?l - 1) (r_end r)) \<le> 23"
    using ok b B by (intro dt_strf_length) (auto simp: text_range_ok_def)
  have m: "echs_max_instant_p (r_end r) \<longleftrightarrow> r_end r = echs_max_instant"
    using ok text_ok_max [of "r_end r"] by (auto simp: text_range_ok_def echs_max_instant_p_def echs_max_instant_def inst_u_def)
  have n: "echs_min_instant_p (r_beg r) \<longleftrightarrow> r_beg r = echs_min_instant"
    using ok text_ok_min [of "r_beg r"] by (auto simp: text_range_ok_def)
  have x: "r = echs_max_range \<longleftrightarrow> r_beg r = echs_min_instant \<and> r_end r = echs_max_instant"
    by (cases r) (simp add: echs_max_range_def)
  show ?thesis using b B E by (auto simp: range_strf_def echs_max_range_p_def m n x Let_def)
qed

lemma range_strp_end:
  assumes "at s op = CHR ''/''" "drop (op + 1) s = dt_strf bsz i @ rest" "len = op + 1 + length (dt_strf bsz i)" "op < 64"
    and "text_ok i" "24 \<le> bsz" "bsz < 2 ^ 64" "ends_text rest"
  shows "fst (dt_strp (drop (op + 1) s) (nat ((int len - int (op + 1)) mod 2 ^ 64))) = i"
proof -
  have "int len - int (op + 1) = int (length (dt_strf bsz i))" "length (dt_strf bsz i) \<le> 23"
    using assms(3) dt_strf_length [OF assms(5-7)] by simp_all
  then show ?thesis using instant_text_roundtrip_core [OF assms(5-8), of "length (dt_strf bsz i)"] assms(2) by simp
qed

lemma range_strp_plus:
  assumes "len \<noteq> 0" "at s 0 \<noteq> CHR ''-''" "dt_strp s len = (b, o1)" "(case o1 of None \<Rightarrow> 0 | Some p \<Rightarrow> p) = op" "at s op = CHR ''+''"
  shows "fst (range_strp s len) = \<lparr>r_beg = b, r_end = echs_max_instant\<rparr>"
proof -
  have x: "(if at s 0 = CHR ''-'' then (echs_min_instant, 0)
      else case dt_strp s len of (i, None) \<Rightarrow> (i, 0) | (i, Some p) \<Rightarrow> (i, p)) = (b, op)"
    using assms(2,3,4) by (cases o1) simp_all
  show ?thesis unfolding range_strp_def x Let_def prod.case using assms(1,5) by simp
qed

lemma range_strp_slash:
  assumes "len \<noteq> 0" "at s 0 \<noteq> CHR ''-''" "dt_strp s len = (b, o1)" "(case o1 of None \<Rightarrow> 0 | Some p \<Rightarrow> p) = op"
    "at s op = CHR ''/''" "dt_strp (drop (op + 1) s) (nat ((int len - int (op + 1)) mod 2 ^ 64)) = (e, o2)"
  shows "fst (range_strp s len) = \<lparr>r_beg = b, r_end = e\<rparr>"
proof -
  define L where "L = nat ((int len - int (op + 1)) mod 2 ^ 64)"
  have x: "(if at s 0 = CHR ''-'' then (echs_min_instant, 0)
      else case dt_strp s len of (i, None) \<Rightarrow> (i, 0) | (i, Some p) \<Rightarrow> (i, p)) = (b, op)"
    using assms(2,3,4) by (cases o1) simp_all
  show ?thesis unfolding range_strp_def x Let_def prod.case using assms(1,5,6) by (simp only: if_False if_True prod.case fst_conv refl)
qed

lemma dt_strp_rejects: "\<not> is_digit (at s 0) \<Longrightarrow> dt_strp s len = (echs_nul_instant, None)"
  using xdig_digit(1) [of "at s 0"] by (simp add: dt_strp_def strp_inst_def strp_year_def)

text \<open>
  A range survives its text, with an open end or beginning too; the range of everything is a star.
\<close>

theorem range_text_roundtrip:
  assumes ok: "text_range_ok r" and b: "50 \<le> ssz" "ssz < 2 ^ 64" and n: "ends_text rest"
  shows "fst (range_strp (range_strf ssz r @ rest) (length (range_strf ssz r))) = r"
proof (cases "r = echs_max_range")
  case True
  have "\<not> is_digit (at (''*'' @ rest) 0)" by (simp add: is_digit_def ord_def)
  then show ?thesis
    using True range_strf_text [OF ok b] dt_strp_rejects [of "''*'' @ rest"] by (simp add: range_strp_def)
next
  case False
  define B where "B = (if r_beg r = echs_min_instant then [] else dt_strf ssz (r_beg r))"
  define bsz where "bsz = ssz - int (length B) - 1"
  define T where "T = (if r_end r = echs_max_instant then ''+'' else ''/'' @ dt_strf bsz (r_end r))"
  have f: "range_strf ssz r = B @ T" using range_strf_text [OF ok b] False by (simp add: B_def T_def bsz_def)
  have lB: "length B \<le> 23" using dt_strf_length [of "r_beg r" ssz] ok b by (simp add: B_def text_range_ok_def)
  have T: "T \<noteq> []" "deref (T @ rest) \<in> {CHR ''+'', CHR ''/''}" by (simp_all add: T_def)
  let ?s = "(B @ T) @ rest" and ?len = "length (B @ T)"
  have beg: "at ?s 0 \<noteq> CHR ''-''" "\<exists>o'. dt_strp ?s ?len = (r_beg r, o') \<and> (case o' of None \<Rightarrow> 0 | Some p \<Rightarrow> p) = length B"
  proof (atomize (full), cases "r_beg r = echs_min_instant")
    case True
    then have "B = []" by (simp add: B_def)
    then have "at ?s 0 \<in> {CHR ''+'', CHR ''/''}" using T(2) by (simp add: at_0)
    then have "at ?s 0 \<noteq> CHR ''-''" "\<not> is_digit (at ?s 0)" by auto
    then show "at ?s 0 \<noteq> CHR ''-'' \<and> (\<exists>o'. dt_strp ?s ?len = (r_beg r, o') \<and> (case o' of None \<Rightarrow> 0 | Some p \<Rightarrow> p) = length B)"
      using True dt_strp_rejects [of ?s ?len] \<open>B = []\<close> by (simp add: echs_min_instant_def)
  next
    case F: False
    then have BB: "B = dt_strf ssz (r_beg r)" by (simp add: B_def)
    have o: "text_ok (r_beg r)" using ok by (simp add: text_range_ok_def)
    have "ends_text (T @ rest)" using T(2) by (auto simp: ends_text_def)
    then have "dt_strp ?s ?len = (r_beg r, Some (length B))"
      using instant_text_roundtrip_core [OF o _ b(2), of "T @ rest" ?len] b(1) by (simp add: BB)
    moreover have "at ?s 0 = dg 3 (i_y (r_beg r))" using dt_strf_head [OF o _ b(2), of "T @ rest"] b(1) by (simp add: BB)
    ultimately show "at ?s 0 \<noteq> CHR ''-'' \<and> (\<exists>o'. dt_strp ?s ?len = (r_beg r, o') \<and> (case o' of None \<Rightarrow> 0 | Some p \<Rightarrow> p) = length B)"
      by simp
  qed
  have aB: "at ?s (length B) = deref (T @ rest)" by (simp add: at_def)
  show ?thesis
  proof (cases "r_end r = echs_max_instant")
    case True
    then have "at ?s (length B) = CHR ''+''" using aB by (simp add: T_def)
    moreover obtain o1 where "dt_strp ?s ?len = (r_beg r, o1)" "(case o1 of None \<Rightarrow> 0 | Some p \<Rightarrow> p) = length B" using beg(2) by auto
    ultimately have "fst (range_strp ?s ?len) = \<lparr>r_beg = r_beg r, r_end = echs_max_instant\<rparr>"
      using T(1) by (intro range_strp_plus [OF _ beg(1)]) auto
    then show ?thesis using True by (simp add: f)
  next
    case F: False
    then have TT: "T = ''/'' @ dt_strf bsz (r_end r)" by (simp add: T_def)
    define L where "L = nat ((int ?len - int (length B + 1)) mod 2 ^ 64)"
    obtain e o2 where e: "dt_strp (drop (length B + 1) ?s) L = (e, o2)" by (meson surj_pair)
    have "fst (dt_strp (drop (length B + 1) ?s) L) = r_end r"
      unfolding L_def by (rule range_strp_end [where bsz = bsz and rest = rest]) (use F ok b lB n in \<open>auto simp: TT aB text_range_ok_def bsz_def\<close>)
    then have er: "e = r_end r" using e by simp
    obtain o1 where o1: "dt_strp ?s ?len = (r_beg r, o1)" "(case o1 of None \<Rightarrow> 0 | Some p \<Rightarrow> p) = length B" using beg(2) by auto
    have "at ?s (length B) = CHR ''/''" using aB by (simp add: TT)
    from range_strp_slash [OF _ beg(1) o1 this e [unfolded L_def]] have "fst (range_strp ?s ?len) = \<lparr>r_beg = r_beg r, r_end = e\<rparr>"
      using T(1) by blast
    then show ?thesis by (simp add: f er)
  qed
qed

theorem range_text_roundtrip_witness:
  "fst (range_strp (range_strf 64 \<lparr>r_beg = echs_nul_instant\<lparr>i_y := 2015, i_m := 1, i_d := 31, i_H := 255\<rparr>, r_end = echs_max_instant\<rparr> @ [])
      (length (range_strf 64 \<lparr>r_beg = echs_nul_instant\<lparr>i_y := 2015, i_m := 1, i_d := 31, i_H := 255\<rparr>, r_end = echs_max_instant\<rparr>))) =
    \<lparr>r_beg = echs_nul_instant\<lparr>i_y := 2015, i_m := 1, i_d := 31, i_H := 255\<rparr>, r_end = echs_max_instant\<rparr>"
  by (rule range_text_roundtrip)
     (simp_all add: text_range_ok_def text_ok_def text_date_ok_def echs_nul_instant_def ECHS_ALL_DAY_def ends_text_def)

text \<open>A dash for an open beginning is recognised, but the switch that follows looks at it again.\<close>

lemma range_dash_rejected: "len \<noteq> 0 \<Longrightarrow> at s 0 = CHR ''-'' \<Longrightarrow> range_strp s len = (echs_max_range, None)"
  by (simp add: range_strp_def)

end
