(* ===== verification/Hash.thy ===== *)
theory Hash
  imports CString
begin

text \<open>
  The hash of \<^verbatim>\<open>src/src/hash.c\<close>, XXH32 with seed 0 on a little-endian machine.  Bytes are
  characters; \<open>p\<close> is what is left of the input.
\<close>

unbundle bit_operations_syntax

definition byte :: "char \<Rightarrow> 32 word" where
  "byte c = word_of_int (ord c)"

definition XXH_read32 :: "string \<Rightarrow> 32 word" where
  "XXH_read32 p = byte (p ! 0) OR push_bit 8 (byte (p ! 1)) OR push_bit 16 (byte (p ! 2)) OR push_bit 24 (byte (p ! 3))"

definition XXH_rotl32 :: "32 word \<Rightarrow> nat \<Rightarrow> 32 word" where
  "XXH_rotl32 x r = push_bit r x OR drop_bit (32 - r) x"

definition PRIME32_1 :: "32 word" where "PRIME32_1 = 2654435761"
definition PRIME32_2 :: "32 word" where "PRIME32_2 = 2246822519"
definition PRIME32_3 :: "32 word" where "PRIME32_3 = 3266489917"
definition PRIME32_4 :: "32 word" where "PRIME32_4 = 668265263"
definition PRIME32_5 :: "32 word" where "PRIME32_5 = 374761393"

definition xxh_round :: "32 word \<Rightarrow> string \<Rightarrow> 32 word" where
  "xxh_round v p = XXH_rotl32 (v + XXH_read32 p * PRIME32_2) 13 * PRIME32_1"

text \<open>The loop over 16 bytes at a time.\<close>

function xxh_stripes :: "string \<Rightarrow> 32 word \<Rightarrow> 32 word \<Rightarrow> 32 word \<Rightarrow> 32 word \<Rightarrow> 32 word \<times> string" where
  "xxh_stripes p v1 v2 v3 v4 =
     (if length p < 16
      then (XXH_rotl32 v1 1 + XXH_rotl32 v2 7 + XXH_rotl32 v3 12 + XXH_rotl32 v4 18, p)
      else xxh_stripes (drop 16 p) (xxh_round v1 p) (xxh_round v2 (drop 4 p)) (xxh_round v3 (drop 8 p))
             (xxh_round v4 (drop 12 p)))"
  by pat_completeness auto
termination by (relation "measure (\<lambda>(p, v1, v2, v3, v4). length p)") auto

declare xxh_stripes.simps [simp del]

function xxh_words :: "32 word \<Rightarrow> string \<Rightarrow> 32 word \<times> string" where
  "xxh_words h p =
     (if length p < 4 then (h, p)
      else xxh_words (XXH_rotl32 (h + XXH_read32 p * PRIME32_3) 17 * PRIME32_4) (drop 4 p))"
  by pat_completeness auto
termination by (relation "measure (\<lambda>(h, p). length p)") auto

declare xxh_words.simps [simp del]

definition xxh_byte :: "char \<Rightarrow> 32 word \<Rightarrow> 32 word" where
  "xxh_byte c h = XXH_rotl32 (h + byte c * PRIME32_5) 11 * PRIME32_1"

definition xxh_final :: "32 word \<Rightarrow> 32 word" where
  "xxh_final h =
     (let h = h XOR drop_bit 15 h; h = h * PRIME32_2; h = h XOR drop_bit 13 h; h = h * PRIME32_3
      in h XOR drop_bit 16 h)"

definition XXH32_endian_align :: "string \<Rightarrow> 32 word" where
  "XXH32_endian_align input =
     (let (h, p) = (if 16 \<le> length input
                    then xxh_stripes input (PRIME32_1 + PRIME32_2) PRIME32_2 0 (- PRIME32_1)
                    else (PRIME32_5, input));
          h = h + word_of_nat (length input);
          (h, p) = xxh_words h p
      in xxh_final (fold xxh_byte p h))"

definition hash :: "string \<Rightarrow> 32 word" where
  "hash input = XXH32_endian_align input"

text \<open>The known values of the algorithm.\<close>

lemma hash_vectors: "hash [] = 0x02CC5D05" "hash ''a'' = 0x550D7456" "hash ''abc'' = 0x32D153FF"
  "hash ''Nobody inspects the spammish repetition'' = 0xE2293B2F"
  by code_simp+

end
