(* ===== verification/Intern.thy ===== *)
theory Intern
  imports Hash "HOL-Library.Monad_Syntax"
begin

text \<open>
  Interned strings, \<^verbatim>\<open>src/src/intern.c\<close>: the ids of tasks.  A string's id is its hash; a table of
  hashes, probed at nine places per level, leads to the place of the string in one big array.  A
  table is a list of pairs of hash and place, empty for NULL, and hash 0 means an empty slot.

  \<open>mem\<close> says which sizes the C library grants; sizes and places are natural numbers (they are
  bounded by the memory there is).  A call that runs into undefined behaviour is \<open>None\<close>.
\<close>

unbundle bit_operations_syntax

section \<open>The code\<close>

record interns =
  in_sstk :: "(32 word \<times> nat) list"
  in_nstk :: nat
  in_obs :: string
  in_obn :: nat

definition no_interns :: interns where
  "no_interns = \<lparr>in_sstk = [], in_nstk = 0, in_obs = [], in_obn = 0\<rparr>"

text \<open>\<open>recalloc\<close>: the grown array, zeroed behind what there was, or NULL.\<close>

definition recalloc :: "(nat \<Rightarrow> bool) \<Rightarrow> 'a \<Rightarrow> 'a list \<Rightarrow> nat \<Rightarrow> nat \<Rightarrow> 'a list" where
  "recalloc mem z buf nmemb_nu membz =
     (if mem (nmemb_nu * membz) then buf @ replicate (nmemb_nu - length buf) z else [])"

definition paste :: "string \<Rightarrow> nat \<Rightarrow> string \<Rightarrow> string" where
  "paste buf at str = take at buf @ str @ drop (at + length str) buf"

definition make_obint :: "(nat \<Rightarrow> bool) \<Rightarrow> interns \<Rightarrow> string \<Rightarrow> nat \<times> interns" where
  "make_obint mem st str =
     (let pad = (length str div 4 + 1) * 4;
          obz = length (in_obs st);
          obs = (if in_obn st + pad \<ge> obz then recalloc mem (CHR 0x00) (in_obs st) (if obz * 2 = 0 then 1024 else obz * 2) 1
                 else in_obs st)
      in if obs = [] then (0, st\<lparr>in_obs := [], in_obn := 0\<rparr>)
         else (push_bit 8 (drop_bit 2 (in_obn st)) OR length str,
               st\<lparr>in_obs := paste obs (in_obn st) str, in_obn := in_obn st + pad\<rparr>))"

text \<open>The nine places of one level, from \<open>i\<close> with mask \<open>m\<close>; the first level is \<open>i = 0\<close>, \<open>m = 0xff\<close>.\<close>

definition places :: "32 word \<Rightarrow> nat \<Rightarrow> nat \<Rightarrow> nat list" where
  "places hx i m = map (\<lambda>j. (i OR drop_bit (3 * j) (unat hx)) AND m) [0..<9]"

fun probe :: "(32 word \<times> nat) list \<Rightarrow> 32 word \<Rightarrow> nat list \<Rightarrow> nat option" where
  "probe sstk hx [] = None"
| "probe sstk hx (off # offs) =
     (if fst (sstk ! off) = hx then Some off
      else if fst (sstk ! off) = 0 then Some off
      else probe sstk hx offs)"

text \<open>A slot that was found: taken by this hash, or empty and now claimed.\<close>

definition claim :: "(nat \<Rightarrow> bool) \<Rightarrow> interns \<Rightarrow> string \<Rightarrow> 32 word \<Rightarrow> nat \<Rightarrow> 32 word \<times> interns" where
  "claim mem st str hx off =
     (if fst (in_sstk st ! off) = hx then (hx, st)
      else let (ob, st) = make_obint mem st str
        in (hx, st\<lparr>in_sstk := (in_sstk st)[off := (hx, ob)], in_nstk := in_nstk st + 1\<rparr>))"

partial_function (option) intern_more ::
  "(nat \<Rightarrow> bool) \<Rightarrow> interns \<Rightarrow> string \<Rightarrow> 32 word \<Rightarrow> nat \<Rightarrow> nat \<Rightarrow> (32 word \<times> interns) option" where
  "intern_more mem st str hx i m =
     (let zstk = length (in_sstk st);
          sstk = (if i \<ge> zstk then recalloc mem (0, 0) (in_sstk st) (push_bit 2 i) 16 else in_sstk st)
      in if sstk = [] then Some (0, st\<lparr>in_sstk := [], in_nstk := 0\<rparr>)
         else case probe sstk hx (places hx i m) of
             Some off \<Rightarrow> Some (claim mem (st\<lparr>in_sstk := sstk\<rparr>) str hx off)
           | None \<Rightarrow> intern_more mem (st\<lparr>in_sstk := sstk\<rparr>) str hx (push_bit 2 i) (push_bit 2 m OR 3))"

declare intern_more.simps [code]

definition intern :: "(nat \<Rightarrow> bool) \<Rightarrow> interns \<Rightarrow> string \<Rightarrow> (32 word \<times> interns) option" where
  "intern mem st str =
     (if length str = 0 \<or> length str \<ge> 256 then Some (0, st)
      else
        let hx = hash str;
            sstk = (if in_sstk st = [] then if mem (1024 * 16) then replicate 1024 (0, 0) else [] else in_sstk st)
        in if sstk = [] then None
           else case probe sstk hx (places hx 0 0xff) of
               Some off \<Rightarrow> Some (claim mem (st\<lparr>in_sstk := sstk\<rparr>) str hx off)
             | None \<Rightarrow> intern_more mem (st\<lparr>in_sstk := sstk\<rparr>) str hx 256 0x3ff)"

definition obint :: "string \<Rightarrow> 32 word" where
  "obint str = hash str"

section \<open>Names\<close>

definition u2h :: "nat \<Rightarrow> char" where
  "u2h c = (if c \<le> 9 then chr (int c + 48) else if c \<le> 15 then chr (int c + 97 - 10) else CHR ''?'')"

definition auto_uid :: "32 word \<Rightarrow> string" where
  "auto_uid hx = ''echse/autouid-0x'' @ rev (map (\<lambda>j. u2h (unat (drop_bit (4 * j) hx AND 0xf))) [0..<8]) @ ''@echse''"

text \<open>The C string at a place of an array.\<close>

definition cstr :: "string \<Rightarrow> nat \<Rightarrow> string" where
  "cstr buf at = takeWhile (\<lambda>c. c \<noteq> CHR 0x00) (drop at buf)"

definition found :: "(32 word \<times> nat) list \<Rightarrow> 32 word \<Rightarrow> nat list \<Rightarrow> nat option" where
  "found sstk hx offs = find (\<lambda>off. fst (sstk ! off) = hx) offs"

text \<open>The test for 0 is for termination only: the levels start at 256.\<close>

function find_more :: "(32 word \<times> nat) list \<Rightarrow> 32 word \<Rightarrow> nat \<Rightarrow> nat \<Rightarrow> nat option" where
  "find_more sstk hx i m =
     (if i = 0 \<or> i \<ge> length sstk then None
      else case found sstk hx (places hx i m) of
          Some off \<Rightarrow> Some off
        | None \<Rightarrow> find_more sstk hx (push_bit 2 i) (push_bit 2 m OR 3))"
  by pat_completeness auto
termination by (relation "measure (\<lambda>(sstk, hx, i, m). length sstk - i)") (auto simp: push_bit_eq_mult)

declare find_more.simps [simp del]

definition obint_name :: "interns \<Rightarrow> 32 word \<Rightarrow> string" where
  "obint_name st hx =
     (if hx = 0 then cstr (in_obs st) 0
      else if in_sstk st = [] then auto_uid hx
      else case found (in_sstk st) hx (places hx 0 0xff) of
          Some off \<Rightarrow> cstr (in_obs st) (push_bit 2 (drop_bit 8 (snd (in_sstk st ! off))))
        | None \<Rightarrow>
            case find_more (in_sstk st) hx 256 0x3ff of
              Some off \<Rightarrow> cstr (in_obs st) (push_bit 2 (drop_bit 8 (snd (in_sstk st ! off))))
            | None \<Rightarrow> auto_uid hx)"

definition clear_interns :: "interns \<Rightarrow> interns" where
  "clear_interns st = no_interns"

section \<open>The table\<close>

definition level :: "32 word \<Rightarrow> nat \<Rightarrow> nat list" where
  "level hx l = places hx (256 * 4 ^ l) (1024 * 4 ^ l - 1)"

definition path :: "32 word \<Rightarrow> nat \<Rightarrow> nat list" where
  "path hx n = places hx 0 255 @ concat (map (level hx) [0..<n])"

lemma mask_nat: "1024 * 4 ^ l - 1 = (mask (10 + 2 * l) :: nat)"
  by (simp add: mask_eq_exp_minus_1 power_add power_mult)

lemma level_range: "p \<in> set (level hx l) \<Longrightarrow> 256 * 4 ^ l \<le> p \<and> p < 1024 * 4 ^ l"
proof -
  assume "p \<in> set (level hx l)"
  then obtain k where p: "p = (256 * 4 ^ l OR k) AND (1024 * 4 ^ l - 1)" by (auto simp: level_def places_def)
  have e: "256 * 4 ^ l = (2 :: nat) ^ (8 + 2 * l)" by (simp add: power_add power_mult)
  have "bit p (8 + 2 * l)" unfolding p mask_nat e by (simp add: bit_and_iff bit_or_iff bit_mask_iff bit_exp_iff)
  then have "2 ^ (8 + 2 * l) \<le> p" by (metis bit_nat_iff bit_iff_odd div_less even_zero not_le)
  moreover have "p = take_bit (10 + 2 * l) (256 * 4 ^ l OR k)" unfolding p mask_nat by (simp add: take_bit_eq_mask)
  then have "p < 2 ^ (10 + 2 * l)" by (metis take_bit_nat_less_exp)
  ultimately show ?thesis by (simp add: power_add power_mult)
qed

lemma first_range: "p \<in> set (places hx 0 255) \<Longrightarrow> p < 256"
proof -
  assume "p \<in> set (places hx 0 255)"
  then obtain k where p: "p = k AND 255" by (auto simp: places_def)
  have "(255 :: nat) = mask 8" by (simp add: mask_eq_exp_minus_1)
  then have "p = take_bit 8 k" using p by (simp add: take_bit_eq_mask)
  then show ?thesis using take_bit_nat_less_exp [of 8 k] by simp
qed

lemma path_range: "p \<in> set (path hx n) \<Longrightarrow> 1 \<le> n \<Longrightarrow> p < 256 * 4 ^ n"
proof -
  assume p: "p \<in> set (path hx n)" and n: "1 \<le> n"
  have "(256 :: nat) \<le> 256 * 4 ^ n" by simp
  moreover have "1024 * 4 ^ l \<le> (256 :: nat) * 4 ^ n" if "l < n" for l
    using power_increasing [of "Suc l" n "4 :: nat"] that by simp
  ultimately show ?thesis using p first_range [of p hx] level_range [of p hx]
    unfolding path_def by (fastforce dest: less_le_trans)
qed

lemma path_Suc: "path hx (Suc n) = path hx n @ level hx n"
  by (simp add: path_def)

lemma level_step: "push_bit 2 (256 * 4 ^ l) = (256 * 4 ^ Suc l :: nat)" "push_bit 2 (1024 * 4 ^ l - 1) OR 3 = 1024 * 4 ^ Suc l - (1 :: nat)"
proof -
  show "push_bit 2 (256 * 4 ^ l) = (256 * 4 ^ Suc l :: nat)" by (simp add: push_bit_eq_mult)
  have "(push_bit 2 (mask (10 + 2 * l)) OR 3 :: nat) = mask (10 + 2 * Suc l)"
    by (rule bit_eqI) (auto simp: bit_or_iff bit_push_bit_iff bit_mask_iff bit_numeral_rec bit_Suc_0_iff split: nat.splits)
  then show "push_bit 2 (1024 * 4 ^ l - 1) OR 3 = 1024 * 4 ^ Suc l - (1 :: nat)" unfolding mask_nat .
qed

lemma probe_append: "probe t h (xs @ ys) = (case probe t h xs of None \<Rightarrow> probe t h ys | Some p \<Rightarrow> Some p)"
  by (induction xs) simp_all

lemma probe_mem: "probe t h xs = Some p \<Longrightarrow> p \<in> set xs \<and> fst (t ! p) \<in> {h, 0}"
  by (induction xs) (auto split: if_splits)

lemma probe_grown: "\<forall>p\<in>set xs. p < length t \<Longrightarrow> probe (t @ z) h xs = probe t h xs"
  by (induction xs) (auto simp: nth_append)

lemma probe_found: "probe t h xs = Some p \<Longrightarrow> fst (t ! p) = h \<Longrightarrow> found t h xs = Some p"
  by (induction xs) (auto simp: found_def split: if_splits)

lemma probe_other:
  "probe t h xs = Some p \<Longrightarrow> fst (t ! p) = h \<Longrightarrow> h \<noteq> 0 \<Longrightarrow> fst (t ! off) = 0 \<Longrightarrow> probe (t[off := e]) h xs = Some p"
proof (induction xs)
  case (Cons a xs)
  have "a \<noteq> off" if "fst (t ! a) \<noteq> 0" using that Cons.prems(4) by auto
  moreover have "p \<noteq> off" using Cons.prems by auto
  ultimately show ?case using Cons by (auto split: if_splits)
qed simp

lemma probe_self:
  "probe t h xs = Some off \<Longrightarrow> off < length t \<Longrightarrow> probe (t[off := (h, ob)]) h xs = Some off"
  by (induction xs) (auto split: if_splits simp: nth_list_update)

definition tab_ok :: "(32 word \<times> nat) list \<Rightarrow> nat \<Rightarrow> bool" where
  "tab_ok t n \<longleftrightarrow> 1 \<le> n \<and> length t = 256 * 4 ^ n \<and>
     (\<forall>p<length t. fst (t ! p) \<noteq> 0 \<longrightarrow> probe t (fst (t ! p)) (path (fst (t ! p)) n) = Some p)"

lemma tab_ok_new: "tab_ok (replicate 1024 (0, 0)) 1"
  by (simp add: tab_ok_def)

lemma tab_ok_grow: "tab_ok t n \<Longrightarrow> tab_ok (t @ replicate (length t * 3) (0, 0)) (Suc n)"
  unfolding tab_ok_def
proof safe
  let ?t = "t @ replicate (length t * 3) (0, 0)"
  fix p assume n: "1 \<le> n" and l: "length t = 256 * 4 ^ n" and p: "p < length ?t" "fst (?t ! p) \<noteq> 0"
    and a: "\<forall>p<length t. fst (t ! p) \<noteq> 0 \<longrightarrow> probe t (fst (t ! p)) (path (fst (t ! p)) n) = Some p"
  have q: "p < length t" using p by (cases "p < length t") (simp_all add: nth_append)
  then have "probe t (fst (t ! p)) (path (fst (t ! p)) n) = Some p" using a p(2) by (simp add: nth_append)
  moreover have "probe ?t (fst (t ! p)) (path (fst (t ! p)) n) = probe t (fst (t ! p)) (path (fst (t ! p)) n)"
    using path_range n l by (intro probe_grown) simp
  ultimately show "probe ?t (fst (?t ! p)) (path (fst (?t ! p)) (Suc n)) = Some p"
    using q by (simp add: path_Suc probe_append nth_append)
qed simp_all

lemma tab_ok_claim:
  assumes "tab_ok t n" "probe t h (path h n) = Some off" "fst (t ! off) = 0"
  shows "tab_ok (t[off := (h, ob)]) n"
proof -
  have off: "off < length t" using probe_mem [OF assms(2)] path_range assms(1) by (auto simp: tab_ok_def)
  show ?thesis unfolding tab_ok_def
  proof safe
    show "1 \<le> n" "length (t[off := (h, ob)]) = 256 * 4 ^ n" using assms(1) by (simp_all add: tab_ok_def)
    fix p assume p: "p < length (t[off := (h, ob)])" "fst (t[off := (h, ob)] ! p) \<noteq> 0"
    show "probe (t[off := (h, ob)]) (fst (t[off := (h, ob)] ! p)) (path (fst (t[off := (h, ob)] ! p)) n) = Some p"
    proof (cases "p = off")
      case True
      then show ?thesis using probe_self [OF assms(2) off] off by simp
    next
      case False
      then have e: "t[off := (h, ob)] ! p = t ! p" by simp
      then show ?thesis unfolding e using p assms(1,3) False by (intro probe_other) (auto simp: tab_ok_def)
    qed
  qed
qed

text \<open>Interning finds a place; the table grows at most to the next level.\<close>

definition fits :: "(32 word \<times> nat) list \<Rightarrow> nat \<Rightarrow> (32 word \<times> nat) list \<Rightarrow> nat \<Rightarrow> bool" where
  "fits t n t' n' \<longleftrightarrow> (t', n') = (t, n) \<or> (t', n') = (t @ replicate (length t * 3) (0, 0), Suc n)"

lemma intern_more_claims:
  assumes t: "in_sstk st = t" "tab_ok t n" and mem: "\<forall>k. mem k" and l: "l \<le> n" "n = l + d" and h: "h \<noteq> 0"
    and before: "probe t h (path h l) = None"
  shows "\<exists>t' n' off. fits t n t' n' \<and> probe t' h (path h n') = Some off \<and>
    intern_more mem st str h (256 * 4 ^ l) (1024 * 4 ^ l - 1) = Some (claim mem (st\<lparr>in_sstk := t'\<rparr>) str h off)"
  using l before
proof (induction d arbitrary: l)
  case 0
  let ?t = "t @ replicate (length t * 3) (0, 0)"
  have z: "length t = 256 * 4 ^ l" "1 \<le> l" using t(2) 0 by (simp_all add: tab_ok_def)
  then have g: "recalloc mem (0, 0) t (push_bit 2 (256 * 4 ^ l)) 16 = ?t" using mem by (simp add: recalloc_def push_bit_eq_mult)
  obtain p ps where ps: "level h l = p # ps" by (cases "level h l") (simp_all add: level_def places_def)
  then have "p \<ge> 256 * 4 ^ l" "p < 1024 * 4 ^ l" using level_range [of p h l] by simp_all
  then have "?t ! p = (0, 0)" using z by (simp add: nth_append)
  then have pr: "probe ?t h (level h l) = Some p" using h by (simp add: ps)
  have "probe ?t h (path h l) = None"
    using 0(3) path_range [of _ h l] z probe_grown [of "path h l" t "replicate (length t * 3) (0, 0)" h] by simp
  then have full: "probe ?t h (path h (Suc l)) = Some p" using pr by (simp add: path_Suc probe_append)
  have ne: "?t \<noteq> []" using z by auto
  have "intern_more mem st str h (256 * 4 ^ l) (1024 * 4 ^ l - 1) = Some (claim mem (st\<lparr>in_sstk := ?t\<rparr>) str h p)"
    using ne pr [unfolded level_def] by (subst intern_more.simps) (simp only: t(1) z(1) g Let_def le_refl if_True if_False option.case)
  then show ?case using full 0(2) by (intro exI [of _ ?t] exI [of _ "Suc n"] exI [of _ p]) (simp add: fits_def)
next
  case (Suc d)
  have z: "length t = 256 * 4 ^ n" using t(2) by (simp add: tab_ok_def)
  have "4 * 4 ^ l \<le> (4 :: nat) ^ n" using power_increasing [of "Suc l" n "4 :: nat"] Suc.prems by simp
  moreover have "1 \<le> (4 :: nat) ^ l" by simp
  ultimately have lt: "\<not> length t \<le> 256 * 4 ^ l" unfolding z by linarith
  have ne: "t \<noteq> []" using z by auto
  show ?case
  proof (cases "probe t h (level h l)")
    case None
    then have "probe t h (path h (Suc l)) = None" using Suc.prems(3) by (simp add: path_Suc probe_append)
    then obtain t' n' off where i: "fits t n t' n'" "probe t' h (path h n') = Some off"
      "intern_more mem st str h (256 * 4 ^ Suc l) (1024 * 4 ^ Suc l - 1) = Some (claim mem (st\<lparr>in_sstk := t'\<rparr>) str h off)"
      using Suc.IH [of "Suc l"] Suc.prems by auto
    have "intern_more mem st str h (256 * 4 ^ l) (1024 * 4 ^ l - 1) =
        intern_more mem st str h (256 * 4 ^ Suc l) (1024 * 4 ^ Suc l - 1)"
    proof -
      have "st\<lparr>in_sstk := t\<rparr> = st" using t(1) by simp
      then show ?thesis using ne lt None [unfolded level_def]
        by (subst intern_more.simps) (simp only: t(1) Let_def if_False option.case level_step)
    qed
    then show ?thesis using i by metis
  next
    case (Some off)
    have st: "st\<lparr>in_sstk := t\<rparr> = st" using t(1) by simp
    have "intern_more mem st str h (256 * 4 ^ l) (1024 * 4 ^ l - 1) = Some (claim mem (st\<lparr>in_sstk := t\<rparr>) str h off)"
      using ne lt Some [unfolded level_def] by (subst intern_more.simps) (simp only: t(1) Let_def if_False option.case)
    moreover have "probe t h (path h n) = Some off"
    proof -
      have "[0..<n] = [0..<Suc l] @ [Suc l..<n]" using Suc.prems by (metis le_add1 upt_add_eq_append add_Suc_shift zero_le)
      then have "path h n = path h (Suc l) @ concat (map (level h) [Suc l..<n])" by (simp add: path_def del: upt_Suc)
      then show ?thesis using Suc.prems(3) Some by (simp add: path_Suc probe_append)
    qed
    ultimately show ?thesis by (intro exI [of _ t] exI [of _ n] exI [of _ off]) (simp add: fits_def)
  qed
qed

lemma intern_claims:
  assumes t: "in_sstk st = t" "t = [] \<or> tab_ok t n" and mem: "\<forall>k. mem k" and s: "0 < length str" "length str < 256" and h: "hash str \<noteq> 0"
  shows "\<exists>t0 n0 t' n' off. tab_ok t0 n0 \<and> (if t = [] then t0 = replicate 1024 (0, 0) else (t0, n0) = (t, n)) \<and> fits t0 n0 t' n' \<and>
    probe t' (hash str) (path (hash str) n') = Some off \<and>
    intern mem st str = Some (claim mem (st\<lparr>in_sstk := t'\<rparr>) str (hash str) off)"
proof -
  define t0 where "t0 = (if t = [] then replicate 1024 (0, 0) else t)"
  define n0 where "n0 = (if t = [] then 1 else n)"
  have ok: "tab_ok t0 n0" using t(2) tab_ok_new by (auto simp: t0_def n0_def)
  have ne: "t0 \<noteq> []" by (simp add: t0_def)
  have e: "intern mem st str = (case probe t0 (hash str) (places (hash str) 0 255) of
      Some off \<Rightarrow> Some (claim mem (st\<lparr>in_sstk := t0\<rparr>) str (hash str) off)
    | None \<Rightarrow> intern_more mem (st\<lparr>in_sstk := t0\<rparr>) str (hash str) 256 1023)"
    using s mem ne by (simp add: intern_def t(1) t0_def Let_def split: option.splits)
  have "\<exists>t' n' off. fits t0 n0 t' n' \<and> probe t' (hash str) (path (hash str) n') = Some off \<and>
    intern mem st str = Some (claim mem (st\<lparr>in_sstk := t'\<rparr>) str (hash str) off)"
  proof (cases "probe t0 (hash str) (places (hash str) 0 255)")
    case None
    then have "probe t0 (hash str) (path (hash str) 0) = None" by (simp add: path_def)
    from intern_more_claims [where st = "st\<lparr>in_sstk := t0\<rparr>" and l = 0 and d = n0, OF _ ok mem _ _ h this]
    show ?thesis using None by (simp add: e)
  next
    case (Some off)
    then have "probe t0 (hash str) (path (hash str) n0) = Some off" by (simp add: path_def probe_append)
    then show ?thesis using Some by (intro exI [of _ t0] exI [of _ n0] exI [of _ off]) (simp add: e fits_def)
  qed
  then show ?thesis using ok by (auto simp: t0_def n0_def split: if_splits)
qed

lemma fits_ok: "tab_ok t n \<Longrightarrow> fits t n t' n' \<Longrightarrow> tab_ok t' n'"
  using tab_ok_grow by (auto simp: fits_def)

lemma fits_slots: "fits t n t' n' \<Longrightarrow> p < length t' \<Longrightarrow> fst (t' ! p) \<noteq> 0 \<Longrightarrow> p < length t \<and> t' ! p = t ! p"
  by (auto simp: fits_def nth_append split: if_splits)

lemma fits_old: "fits t n t' n' \<Longrightarrow> p < length t \<Longrightarrow> p < length t' \<and> t' ! p = t ! p"
  by (auto simp: fits_def nth_append)

section \<open>The strings\<close>

definition placed :: "interns \<Rightarrow> nat \<Rightarrow> string \<Rightarrow> bool" where
  "placed st at s \<longleftrightarrow> at + length s < in_obn st \<and> take (length s) (drop at (in_obs st)) = s \<and> in_obs st ! (at + length s) = CHR 0x00"

definition obs_ok :: "interns \<Rightarrow> bool" where
  "obs_ok st \<longleftrightarrow> in_obn st mod 4 = 0 \<and> in_obn st \<le> length (in_obs st) \<and>
     (length (in_obs st) = 0 \<or> 1024 \<le> length (in_obs st)) \<and>
     (\<forall>j. in_obn st \<le> j \<and> j < length (in_obs st) \<longrightarrow> in_obs st ! j = CHR 0x00)"

lemma obint_place: "n mod 4 = 0 \<Longrightarrow> l < 256 \<Longrightarrow> push_bit 2 (drop_bit 8 (push_bit 8 (drop_bit 2 n) OR l)) = (n :: nat)"
proof -
  assume n: "n mod 4 = 0" "l < 256"
  have "drop_bit 8 (push_bit 8 (drop_bit 2 n) OR l) = drop_bit 2 n OR drop_bit 8 l"
    by (simp add: drop_bit_or drop_bit_push_bit) 
  moreover have "drop_bit 8 l = 0" using n(2) by (simp add: drop_bit_eq_div)
  moreover have "push_bit 2 (drop_bit 2 n) = n" using n(1) by (simp add: push_bit_eq_mult drop_bit_eq_div) presburger
  ultimately show ?thesis by simp
qed

lemma make_obint_places:
  assumes ok: "obs_ok st" and mem: "\<forall>k. mem k" and s: "length s < 256" and m: "make_obint mem st s = (ob, st')"
  shows "obs_ok st'" "placed st' (push_bit 2 (drop_bit 8 ob)) s" "placed st at s0 \<Longrightarrow> placed st' at s0"
    "in_sstk st' = in_sstk st"
proof -
  define n where "n = in_obn st"
  define pad where "pad = (length s div 4 + 1) * 4"
  define obs where "obs = (if n + pad \<ge> length (in_obs st) then
    in_obs st @ replicate ((if length (in_obs st) * 2 = 0 then 1024 else length (in_obs st) * 2) - length (in_obs st)) (CHR 0x00) else in_obs st)"
  have pad: "length s < pad" "pad \<le> 256" "pad mod 4 = 0"
  proof -
    have "length s div 4 \<le> 63" using s by (simp add: less_Suc_eq_le [symmetric] div_less_iff_less_mult)
    then show "pad \<le> 256" by (simp add: pad_def)
    show "pad mod 4 = 0" unfolding pad_def by (rule mod_mult_self2_is_0)
    show "length s < pad" unfolding pad_def by presburger
  qed
  have n: "n mod 4 = 0" "n \<le> length (in_obs st)" using ok by (simp_all add: obs_ok_def n_def)
  have len: "n + pad < length obs \<or> n + pad \<le> length obs" "1024 \<le> length obs" "length (in_obs st) \<le> length obs"
    using ok pad(2) n(2) by (auto simp: obs_def obs_ok_def)
  have zero: "obs ! j = CHR 0x00" if "n \<le> j" "j < length obs" for j
    using ok that by (auto simp: obs_def obs_ok_def n_def nth_append)
  have old: "obs ! j = in_obs st ! j" if "j < n" for j using that n(2) by (auto simp: obs_def nth_append)
  have ne: "obs \<noteq> []" using len by auto
  have e: "ob = push_bit 8 (drop_bit 2 n) OR length s" "st' = st\<lparr>in_obs := paste obs n s, in_obn := n + pad\<rparr>"
    using m ne mem by (auto simp: make_obint_def recalloc_def obs_def n_def pad_def Let_def split: if_splits)
  have l: "length (paste obs n s) = length obs" using len(1) pad(1) by (auto simp: paste_def)
  have nn: "n \<le> length obs" "n + length s < length obs" using len(1) pad(1) by auto
  have nth: "paste obs n s ! j = (if j < n then obs ! j else if j < n + length s then s ! (j - n) else obs ! j)" if "j < length obs" for j
    using that nn by (auto simp: paste_def nth_append min_def)
  show "in_sstk st' = in_sstk st" by (simp add: e)
  show "obs_ok st'" unfolding obs_ok_def using n(1) pad len l zero nth by (auto simp: e mod_add_eq [symmetric])
  have sl: "take (length s) (drop n (paste obs n s)) = s" using nn by (simp add: paste_def)
  show "placed st' (push_bit 2 (drop_bit 8 ob)) s"
    unfolding e(1) obint_place [OF n(1) s] placed_def using sl pad(1) nth [of "n + length s"] zero [of "n + length s"] nn by (simp add: e(2))
  show "placed st' at s0" if "placed st at s0"
  proof -
    have b: "at + length s0 < n" using that by (simp add: placed_def n_def)
    have "take (length s0) (drop at (paste obs n s)) = take (length s0) (drop at (in_obs st))"
      by (rule nth_equalityI) (use b n(2) l len nth old in auto)
    then show ?thesis using that b nth [of "at + length s0"] old [of "at + length s0"] nn by (simp add: placed_def e(2) n_def)
  qed
qed

lemma placed_cstr: "placed st at s \<Longrightarrow> CHR 0x00 \<notin> set s \<Longrightarrow> in_obn st \<le> length (in_obs st) \<Longrightarrow> cstr (in_obs st) at = s"
proof -
  assume p: "placed st at s" "CHR 0x00 \<notin> set s" "in_obn st \<le> length (in_obs st)"
  then have l: "at + length s < length (in_obs st)" by (simp add: placed_def)
  have "drop at (in_obs st) = take (length s) (drop at (in_obs st)) @ drop (length s) (drop at (in_obs st))" by (simp only: append_take_drop_id)
  also have "drop (length s) (drop at (in_obs st)) = in_obs st ! (at + length s) # drop (Suc (at + length s)) (in_obs st)"
    using l by (simp add: add.commute Cons_nth_drop_Suc)
  finally have "drop at (in_obs st) = s @ CHR 0x00 # drop (Suc (at + length s)) (in_obs st)" using p(1) by (simp add: placed_def)
  then show ?thesis using p(2) by (simp add: cstr_def takeWhile_append2 takeWhile_append)
qed

text \<open>
  The invariant of a session in which the strings \<open>D\<close> were interned: the table is in order, its
  entries are the hashes of \<open>D\<close>, and every string lies at its place.
\<close>

definition interned :: "interns \<Rightarrow> string set \<Rightarrow> bool" where
  "interned st D \<longleftrightarrow> obs_ok st \<and>
     (if in_sstk st = [] then D = {} else \<exists>n. tab_ok (in_sstk st) n) \<and>
     (\<forall>p<length (in_sstk st). fst (in_sstk st ! p) \<noteq> 0 \<longrightarrow>
        (\<exists>s\<in>D. fst (in_sstk st ! p) = hash s \<and> placed st (push_bit 2 (drop_bit 8 (snd (in_sstk st ! p)))) s)) \<and>
     (\<forall>s\<in>D. \<exists>p<length (in_sstk st). fst (in_sstk st ! p) = hash s)"

definition internable :: "string set \<Rightarrow> bool" where
  "internable D \<longleftrightarrow> inj_on hash D \<and> (\<forall>s\<in>D. 0 < length s \<and> length s < 256 \<and> CHR 0x00 \<notin> set s \<and> hash s \<noteq> 0)"

lemma interned_none: "interned no_interns {}"
  by (simp add: interned_def no_interns_def obs_ok_def)

lemma intern_interned:
  assumes i: "interned st D" and ok: "internable (insert s D)" and mem: "\<forall>k. mem k"
  shows "\<exists>st'. intern mem st s = Some (hash s, st') \<and> interned st' (insert s D)"
proof -
  let ?t = "in_sstk st"
  have s: "0 < length s" "length s < 256" "hash s \<noteq> 0" using ok by (auto simp: internable_def)
  obtain n where t: "?t = [] \<or> tab_ok ?t n" using i by (auto simp: interned_def split: if_splits)
  obtain t0 n0 t' n' off where c: "tab_ok t0 n0" "if ?t = [] then t0 = replicate 1024 (0, 0) else (t0, n0) = (?t, n)"
    "fits t0 n0 t' n'" "probe t' (hash s) (path (hash s) n') = Some off"
    "intern mem st s = Some (claim mem (st\<lparr>in_sstk := t'\<rparr>) s (hash s) off)"
    using intern_claims [OF refl t mem s] by blast
  have ok': "tab_ok t' n'" by (rule fits_ok [OF c(1,3)])
  then have ne: "t' \<noteq> []" "off < length t'" using probe_mem [OF c(4)] path_range by (auto simp: tab_ok_def)
  have slot: "p < length ?t \<and> t' ! p = ?t ! p" if "p < length t'" "fst (t' ! p) \<noteq> 0" for p
    using fits_slots [OF c(3) that] c(2) that by (auto split: if_splits)
  have old: "p < length t' \<and> t' ! p = ?t ! p" if "p < length ?t" for p
    using fits_old [OF c(3)] c(2) that by (auto split: if_splits)
  have D: "\<exists>u\<in>D. fst (t' ! p) = hash u \<and> placed st (push_bit 2 (drop_bit 8 (snd (t' ! p)))) u" if "p < length t'" "fst (t' ! p) \<noteq> 0" for p
    using i slot [OF that] that unfolding interned_def by metis
  have E: "\<exists>p<length t'. fst (t' ! p) = hash u" if "u \<in> D" for u
    using i that old unfolding interned_def by metis
  show ?thesis
  proof (cases "fst (t' ! off) = hash s")
    case True
    then have "s \<in> D" using D [OF ne(2)] s(3) ok unfolding internable_def inj_on_def by (metis insertCI)
    moreover have "claim mem (st\<lparr>in_sstk := t'\<rparr>) s (hash s) off = (hash s, st\<lparr>in_sstk := t'\<rparr>)" using True by (simp add: claim_def)
    moreover have "interned (st\<lparr>in_sstk := t'\<rparr>) D"
      using i ne(1) ok' D E by (auto simp: interned_def obs_ok_def placed_def)
    ultimately show ?thesis using c(5) by (simp add: insert_absorb)
  next
    case False
    then have z: "fst (t' ! off) = 0" using probe_mem [OF c(4)] by auto
    obtain ob st1 where m: "make_obint mem (st\<lparr>in_sstk := t'\<rparr>) s = (ob, st1)" by (meson surj_pair)
    have o: "obs_ok (st\<lparr>in_sstk := t'\<rparr>)" using i by (simp add: interned_def obs_ok_def)
    note p = make_obint_places [OF o mem s(2) m]
    let ?t2 = "t'[off := (hash s, ob)]"
    let ?st2 = "st1\<lparr>in_sstk := ?t2, in_nstk := in_nstk st1 + 1\<rparr>"
    have cl: "claim mem (st\<lparr>in_sstk := t'\<rparr>) s (hash s) off = (hash s, ?st2)"
      using False m p(4) by (simp add: claim_def)
    have pl: "placed ?st2 at u" if "placed st at u \<or> placed st1 at u" for at u
      using that p(3) by (auto simp: placed_def)
    have "interned ?st2 (insert s D)" unfolding interned_def
    proof (intro conjI)
      show "obs_ok ?st2" using p(1) by (simp add: obs_ok_def)
      show "if in_sstk ?st2 = [] then insert s D = {} else \<exists>n. tab_ok (in_sstk ?st2) n"
        using tab_ok_claim [OF ok' c(4) z] ne by auto
      show "\<forall>p<length (in_sstk ?st2). fst (in_sstk ?st2 ! p) \<noteq> 0 \<longrightarrow>
        (\<exists>u\<in>insert s D. fst (in_sstk ?st2 ! p) = hash u \<and> placed ?st2 (push_bit 2 (drop_bit 8 (snd (in_sstk ?st2 ! p)))) u)"
      proof (intro allI impI)
        fix q assume q: "q < length (in_sstk ?st2)" "fst (in_sstk ?st2 ! q) \<noteq> 0"
        show "\<exists>u\<in>insert s D. fst (in_sstk ?st2 ! q) = hash u \<and> placed ?st2 (push_bit 2 (drop_bit 8 (snd (in_sstk ?st2 ! q)))) u"
        proof (cases "q = off")
          case True
          then show ?thesis using p(2) pl ne by simp
        next
          case F: False
          then show ?thesis using D [of q] q pl by (auto simp: nth_list_update)
        qed
      qed
      show "\<forall>u\<in>insert s D. \<exists>p<length (in_sstk ?st2). fst (in_sstk ?st2 ! p) = hash u"
      proof
        fix u assume u: "u \<in> insert s D"
        show "\<exists>p<length (in_sstk ?st2). fst (in_sstk ?st2 ! p) = hash u"
        proof (cases "u = s")
          case True
          then show ?thesis using ne by (intro exI [of _ off]) simp
        next
          case F: False
          then obtain q where q: "q < length t'" "fst (t' ! q) = hash u" using u E by blast
          then have "q \<noteq> off" using z u ok by (auto simp: internable_def)
          then show ?thesis using q by (intro exI [of _ q]) simp
        qed
      qed
    qed
    then show ?thesis using c(5) cl by simp
  qed
qed

lemma found_path:
  assumes "tab_ok t n"
  shows "(case found t h (places h 0 255) of Some p \<Rightarrow> Some p | None \<Rightarrow> find_more t h 256 1023) = found t h (path h n)"
proof -
  have len: "length t = 256 * 4 ^ n" using assms by (simp add: tab_ok_def)
  have app: "found t h (xs @ ys) = (case found t h xs of Some p \<Rightarrow> Some p | None \<Rightarrow> found t h ys)" for xs ys
    by (induction xs) (simp_all add: found_def)
  have "find_more t h (256 * 4 ^ l) (1024 * 4 ^ l - 1) = found t h (concat (map (level h) [l..<n]))" if "l \<le> n" for l
    using that
  proof (induction "n - l" arbitrary: l)
    case 0
    then have "length t \<le> 256 * 4 ^ l" using len by simp
    then show ?case using 0 by (simp add: find_more.simps found_def)
  next
    case (Suc d)
    have "(4 :: nat) ^ l < 4 ^ n" using Suc by (intro power_strict_increasing) auto
    then have "\<not> ((256 :: nat) * 4 ^ l = 0 \<or> length t \<le> 256 * 4 ^ l)" using len by simp
    moreover have "find_more t h (256 * 4 ^ Suc l) (1024 * 4 ^ Suc l - 1) = found t h (concat (map (level h) [Suc l..<n]))"
      using Suc by (intro Suc.hyps) auto
    moreover have "[l..<n] = l # [Suc l..<n]" using Suc by (intro upt_conv_Cons) auto
    ultimately show ?case
      by (subst find_more.simps) (simp only: if_False level_step level_def list.map concat.simps app)
  qed
  from this [of 0] show ?thesis by (simp add: path_def app split: option.split)
qed

lemma interned_name:
  assumes i: "interned st D" and ok: "internable D" and s: "s \<in> D"
  shows "obint_name st (hash s) = s"
proof -
  obtain p where p: "p < length (in_sstk st)" "fst (in_sstk st ! p) = hash s" using i s by (auto simp: interned_def)
  have h: "hash s \<noteq> 0" "CHR 0x00 \<notin> set s" using ok s by (auto simp: internable_def)
  have ne: "in_sstk st \<noteq> []" using p by auto
  then obtain n where t: "tab_ok (in_sstk st) n" using i by (auto simp: interned_def)
  have "probe (in_sstk st) (hash s) (path (hash s) n) = Some p" using t p h(1) by (auto simp: tab_ok_def)
  then have f: "found (in_sstk st) (hash s) (path (hash s) n) = Some p" using p(2) by (rule probe_found)
  obtain u where u: "u \<in> D" "hash s = hash u" "placed st (push_bit 2 (drop_bit 8 (snd (in_sstk st ! p)))) u"
    using i p h(1) unfolding interned_def by metis
  have "u = s" using u(1,2) s ok by (auto simp: internable_def inj_on_def)
  then have c: "cstr (in_obs st) (push_bit 2 (drop_bit 8 (snd (in_sstk st ! p)))) = s"
    using u(3) h(2) i by (intro placed_cstr) (auto simp: interned_def obs_ok_def)
  show ?thesis using h(1) ne found_path [OF t, of "hash s"] f c
    by (simp add: obint_name_def split: option.splits)
qed

fun intern_all :: "(nat \<Rightarrow> bool) \<Rightarrow> interns \<Rightarrow> string list \<Rightarrow> (32 word list \<times> interns) option" where
  "intern_all mem st [] = Some ([], st)"
| "intern_all mem st (s # ss) =
     do { (ob, st) \<leftarrow> intern mem st s; (obs, st) \<leftarrow> intern_all mem st ss; Some (ob # obs, st) }"

lemma intern_all_interned:
  "interned st D \<Longrightarrow> internable (D \<union> set ss) \<Longrightarrow> (\<forall>k. mem k) \<Longrightarrow>
    \<exists>st'. intern_all mem st ss = Some (map hash ss, st') \<and> interned st' (D \<union> set ss)"
proof (induction ss arbitrary: st D)
  case (Cons s ss)
  have "internable (insert s D)" using Cons.prems(2) by (auto simp: internable_def inj_on_def)
  then obtain st1 where 1: "intern mem st s = Some (hash s, st1)" "interned st1 (insert s D)"
    using intern_interned [OF Cons.prems(1) _ Cons.prems(3)] by blast
  have "internable (insert s D \<union> set ss)" using Cons.prems(2) by simp
  then obtain st2 where 2: "intern_all mem st1 ss = Some (map hash ss, st2)" "interned st2 (insert s D \<union> set ss)"
    using Cons.IH [OF 1(2) _ Cons.prems(3)] by blast
  then show ?case using 1(1) by simp
qed simp



end
