(* ===== verification/Zones.thy ===== *)
theory Zones
  imports RangeShift Scale "HOL-Library.Monad_Syntax"
begin

text \<open>
  Time zones: the transitions of \<^verbatim>\<open>src/src/tzraw.c\<close> with the cache of the last range, and the
  conversions of instants of \<^verbatim>\<open>src/src/tzob.c\<close>.  A zone is what its file holds, in host byte
  order: the transition times, the type of each, the offset of each type.  Zone files and their
  cache by name are the parameter \<open>zif\<close> of the conversions, a function from zone tags.
\<close>

section \<open>Transitions\<close>

datatype coord_zone = TZCZ_UNK | TZCZ_UTC | TZCZ_TAI | TZCZ_GPS

record zif =
  z_trs :: "int list"
  z_tys :: "nat list"
  z_tda :: "int list"
  z_cz :: coord_zone

record zrng =
  zr_prev :: int
  zr_next :: int
  zr_offs :: int
  zr_trno :: nat

definition "INT_MIN = (- 2147483648 :: int)"
definition "INT_MAX = (2147483647 :: int)"

definition zif_ntrans :: "zif \<Rightarrow> int" where
  "zif_ntrans z = int (length (z_trs z))"

definition zif_trans :: "zif \<Rightarrow> int \<Rightarrow> int" where
  "zif_trans z n =
     (if zif_ntrans z = 0 \<or> n < 0 then INT_MIN
      else if n \<ge> zif_ntrans z then z_trs z ! nat (zif_ntrans z - 1)
      else z_trs z ! nat n)"

definition zif_type :: "zif \<Rightarrow> int \<Rightarrow> nat" where
  "zif_type z n =
     (if zif_ntrans z = 0 \<or> n < 0 then 0
      else if n \<ge> zif_ntrans z then z_tys z ! nat (zif_ntrans z - 1)
      else z_tys z ! nat n)"

definition zif_troffs :: "zif \<Rightarrow> int \<Rightarrow> int" where
  "zif_troffs z n = z_tda z ! zif_type z n"

text \<open>The bisection; nothing but a hit ends it.\<close>

partial_function (option) find_loop :: "zif \<Rightarrow> int \<Rightarrow> int \<Rightarrow> int \<Rightarrow> int option" where
  "find_loop z t lo hi =
     (let this = (lo + hi) div 2;
          tl = zif_trans z this;
          tu = zif_trans z (this + 1)
      in if t \<ge> tl \<and> t < tu then Some this
         else if t \<ge> tu then find_loop z t this hi
         else if t < tl then find_loop z t lo this
         else find_loop z t lo hi)"

declare find_loop.simps [code]

definition find_trno :: "zif \<Rightarrow> int \<Rightarrow> int \<Rightarrow> int \<Rightarrow> int option" where
  "find_trno z t lo hi =
     (if hi = 0 then Some (- 1)
      else if t < zif_trans z lo then Some (- 1)
      else if t > zif_trans z hi then Some (hi - 1)
      else find_loop z t lo hi)"

definition zif_find_trans :: "zif \<Rightarrow> int \<Rightarrow> int option" where
  "zif_find_trans z t = find_trno z (i32 t) 0 (zif_ntrans z)"

text \<open>The offset of a range is a bit field of 24 bits, its transition one of 8.\<close>

definition i24 :: "int \<Rightarrow> int" where
  "i24 x = (x + 8388608) mod 16777216 - 8388608"

definition find_zrng :: "zif \<Rightarrow> int \<Rightarrow> int \<Rightarrow> int \<Rightarrow> zrng option" where
  "find_zrng z t lo hi =
     do {
       trno \<leftarrow> find_trno z t lo hi;
       let prev = zif_trans z trno;
       let res = (if trno \<le> 0 \<and> t < prev then \<lparr>zr_prev = INT_MIN, zr_next = INT_MIN, zr_offs = 0, zr_trno = 0\<rparr>
                  else if trno < 0 then \<lparr>zr_prev = INT_MIN, zr_next = INT_MAX, zr_offs = 0, zr_trno = 0\<rparr>
                  else \<lparr>zr_prev = prev,
                        zr_next = (if trno + 1 < zif_ntrans z then zif_trans z (trno + 1) else INT_MAX),
                        zr_offs = 0, zr_trno = nat (trno mod 256)\<rparr>);
       Some (res\<lparr>zr_offs := i24 (zif_troffs z (int (zr_trno res)))\<rparr>)
     }"

definition zif_find_zrng :: "zif \<Rightarrow> int \<Rightarrow> zrng option" where
  "zif_find_zrng z t = find_zrng z (i32 t) 0 (zif_ntrans z)"

text \<open>\<open>__offs\<close>: the offset at \<open>t\<close>, with the cache before and after.\<close>

definition offs :: "zif \<Rightarrow> zrng \<Rightarrow> int \<Rightarrow> (int \<times> zrng) option" where
  "offs z cache t =
     (if z_cz z = TZCZ_UTC then Some (0, cache)
      else if t \<ge> zr_prev cache \<and> t < zr_next cache then Some (zr_offs cache, cache)
      else
        let (lo, hi) = (if t \<ge> zr_next cache then (int (zr_trno cache) + 1, zif_ntrans z)
                          else if t < zr_prev cache then (0, int (zr_trno cache))
                          else (0, 0))
        in do { c \<leftarrow> find_zrng z t lo hi; Some (zr_offs c, c) })"

partial_function (option) utc_loop :: "zif \<Rightarrow> int \<Rightarrow> int \<Rightarrow> int \<Rightarrow> zrng \<Rightarrow> (int \<times> zrng) option" where
  "utc_loop z t xi old cache =
     do {
       (xj, cache) \<leftarrow> offs z cache (i32 (t - xi));
       (if xj \<noteq> xi \<and> xi \<noteq> old then utc_loop z t xj xj cache else Some (t - xj, cache))
     }"

declare utc_loop.simps [code]

definition zif_utc_time :: "zif \<Rightarrow> zrng \<Rightarrow> int \<Rightarrow> (int \<times> zrng) option" where
  "zif_utc_time z cache t = utc_loop z t 0 (- 1) cache"

definition zif_local_time :: "zif \<Rightarrow> zrng \<Rightarrow> int \<Rightarrow> (int \<times> zrng) option" where
  "zif_local_time z cache t = do { (x, cache) \<leftarrow> offs z cache (i32 t); Some (t + x, cache) }"

section \<open>Unix time\<close>

definition epoch_mon_yday :: "int list" where
  "epoch_mon_yday = [0, 306, 337, 0, 31, 61, 92, 122, 153, 184, 214, 245, 275]"

definition DAISY_UNIX_BASE :: int where "DAISY_UNIX_BASE = 7977"
definition DAISY_BASE_YEAR :: int where "DAISY_BASE_YEAR = 1948"

definition inst_to_epoch :: "instant \<Rightarrow> int" where
  "inst_to_epoch i =
     (let y = u32 (i_y i - DAISY_BASE_YEAR);
          j0 = u32 (y * 365 + y div 4);
          yd = (if i_m i \<le> 12 then epoch_mon_yday ! nat (i_m i) + i_d i else 0)
      in u32 (u32 ((u32 (u32 (j0 + yd - DAISY_UNIX_BASE) * 24 + (if i_H i \<le> 24 then i_H i else 24))) * 60 + i_M i) * 60 + i_S i))"

definition epoch_rem :: "int list" where
  "epoch_rem = [19, 19, 18, 16, 15, 13, 12, 11, 9, 8, 6, 5, 4, 1]"

definition epoch_rm :: "int list" where
  "epoch_rm = [0, 3, 4, 5, 6, 7, 8, 9, 10, 11, 12, 1, 2, 0]"

text \<open>A day of the year from March on, to the index of its month and its day.\<close>

definition march_md :: "int \<Rightarrow> int \<times> int" where
  "march_md dy =
     (let mon = u32 (dy + 19) div 32; dom = u32 (dy + 19) mod 32;
          beef = epoch_rem ! nat mon; cake = epoch_rem ! nat (mon + 1)
      in if dom \<le> cake then (mon, u32 (dy - (u32 (mon - 1) * 32 - 19 + beef)))
         else (mon + 1, u32 (dy - (mon * 32 - 19 + cake))))"

definition epoch_to_inst :: "int \<Rightarrow> instant" where
  "epoch_to_inst t =
     (let d = u32 (t div 86400 + DAISY_UNIX_BASE);
          s = t mod 86400;
          y0 = d div 365; f0 = u32 (y0 * 365 + y0 div 4);
          (y, f) = (if f0 \<ge> d then (u32 (y0 - 1), u32 (u32 (y0 - 1) * 365 + u32 (y0 - 1) div 4)) else (y0, f0));
          (mon, dom) = march_md (u32 (d - f))
      in \<lparr>i_y = (y + DAISY_BASE_YEAR + (if mon > 10 then 1 else 0)) mod 65536, i_m = epoch_rm ! nat mon, i_d = dom mod 256,
          i_H = s div 60 div 60 mod 256, i_M = s div 60 mod 60, i_S = s mod 60, i_ms = ECHS_ALL_DAY\<rparr>)"

section \<open>Instants in a zone\<close>

text \<open>The tag of the \<open>x\<close>-th zone and back.\<close>

definition make_tzob :: "int \<Rightarrow> int" where
  "make_tzob x = push_bit 6 (x AND 0b11) XOR push_bit 10 (x AND 0b111100)"

definition make_size :: "int \<Rightarrow> int" where
  "make_size z = (drop_bit 8 z AND 0b111100) XOR (drop_bit 6 z AND 0b11)"

text \<open>The zones by tag, each with its cache.\<close>

type_synonym zones = "int \<Rightarrow> (zif \<times> zrng) option"

definition echs_instant_utc :: "zones \<Rightarrow> instant \<Rightarrow> int \<Rightarrow> (instant \<times> zones) option" where
  "echs_instant_utc zs i zob =
     (let i = echs_instant_detach_tzob i
      in if echs_instant_all_day_p i then Some (i, zs)
         else case zs zob of
             None \<Rightarrow> Some (i, zs)
           | Some (z, c) \<Rightarrow>
               do {
                 let loc = inst_to_epoch i;
                 (nix, c) \<leftarrow> zif_utc_time z c loc;
                 Some (echs_instant_add i (1000 * (nix - loc)), zs(zob \<mapsto> (z, c)))
               })"

definition echs_instant_loc :: "zones \<Rightarrow> instant \<Rightarrow> int \<Rightarrow> (instant \<times> zones) option" where
  "echs_instant_loc zs i zob =
     (let i = echs_instant_detach_tzob i
      in if echs_instant_all_day_p i then Some (i, zs)
         else case zs zob of
             None \<Rightarrow> Some (i, zs)
           | Some (z, c) \<Rightarrow>
               do {
                 let nix = inst_to_epoch i;
                 (loc, c) \<leftarrow> zif_local_time z c nix;
                 Some (echs_instant_add i (1000 * (loc - nix)), zs(zob \<mapsto> (z, c)))
               })"

definition echs_tzob_offs :: "zones \<Rightarrow> int \<Rightarrow> instant \<Rightarrow> int \<Rightarrow> int option" where
  "echs_tzob_offs zs z i x =
     (let i = echs_instant_detach_tzob i
      in if echs_instant_all_day_p i then Some 0
         else case zs z of
             None \<Rightarrow> Some 0
           | Some (zi, _) \<Rightarrow> map_option zr_offs (zif_find_zrng zi (inst_to_epoch i + x)))"

definition echs_instant_tzof :: "zones \<Rightarrow> instant \<Rightarrow> int \<Rightarrow> int option" where
  "echs_instant_tzof zs i z = echs_tzob_offs zs z i 0"

definition echs_instant_to_utc :: "zones \<Rightarrow> instant \<Rightarrow> (instant \<times> zones) option" where
  "echs_instant_to_utc zs i =
     (let z = echs_instant_tzob i in if z \<noteq> 0 then echs_instant_utc zs i z else Some (i, zs))"

definition echs_tzob_shift :: "instant \<Rightarrow> int \<Rightarrow> int \<Rightarrow> instant" where
  "echs_tzob_shift i off_from off_to = echs_instant_add i (i32 ((off_to - off_from) * 1000))"

section \<open>The cache against the transitions\<close>

definition zone_ok :: "zif \<Rightarrow> bool" where
  "zone_ok z \<longleftrightarrow> list_all (\<lambda>y. y < length (z_tda z)) (z_tys z) \<and> length (z_tys z) = length (z_trs z) \<and> sorted_wrt (<) (z_trs z) \<and> length (z_trs z) \<le> 255 \<and> z_cz z \<noteq> TZCZ_UTC \<and>
     (\<forall>t\<in>set (z_trs z). INT_MIN < t \<and> t < INT_MAX) \<and>
     (\<forall>o'\<in>set (z_tda z). - 86400 < o' \<and> o' < 86400)"

text \<open>The offset at \<open>t\<close>: that of the last transition that is not after it.\<close>

definition zone_at :: "zif \<Rightarrow> int \<Rightarrow> int" where
  "zone_at z t = zif_troffs z (int (length (takeWhile (\<lambda>x. x \<le> t) (z_trs z))) - 1)"

lemma sorted_nth_le: "sorted_wrt (<) (xs :: int list) \<Longrightarrow> a \<le> b \<Longrightarrow> b < length xs \<Longrightarrow> xs ! a \<le> xs ! b"
  using sorted_wrt_nth_less [of "(<)" xs a b] by (cases "a = b") auto

lemma zone_at_eq:
  assumes "zone_ok z" "k < length (z_trs z)" "z_trs z ! k \<le> t" "Suc k < length (z_trs z) \<Longrightarrow> t < z_trs z ! Suc k"
  shows "zone_at z t = zif_troffs z (int k)"
proof -
  have "z_trs z = take (Suc k) (z_trs z) @ drop (Suc k) (z_trs z)" by simp
  moreover have "\<forall>x\<in>set (take (Suc k) (z_trs z)). x \<le> t"
  proof
    fix x assume "x \<in> set (take (Suc k) (z_trs z))"
    then obtain j where j: "j \<le> k" "x = z_trs z ! j" using assms(2) by (auto simp: in_set_conv_nth less_Suc_eq_le)
    then have "x \<le> z_trs z ! k"
      using assms(1,2) sorted_wrt_nth_less [of "(<)" "z_trs z" j k] by (cases "j = k") (auto simp: zone_ok_def)
    then show "x \<le> t" using assms(3) by simp
  qed
  moreover have "takeWhile (\<lambda>x. x \<le> t) (drop (Suc k) (z_trs z)) = []"
  proof (cases "drop (Suc k) (z_trs z)")
    case (Cons a l)
    then have "Suc k < length (z_trs z)" by (metis drop_eq_Nil2 linorder_not_le list.distinct(1))
    then show ?thesis using assms(4) Cons nth_via_drop [OF Cons] by simp
  qed simp
  ultimately have "takeWhile (\<lambda>x. x \<le> t) (z_trs z) = take (Suc k) (z_trs z)"
    by (metis takeWhile_append2 append_Nil2)
  then show ?thesis using assms(2) by (simp add: zone_at_def)
qed

lemma nat_pred: "nat (int n - 1) = n - 1"
  by simp

lemma zif_trans_nth: "0 \<le> n \<Longrightarrow> z_trs z \<noteq> [] \<Longrightarrow> zif_trans z n = z_trs z ! min (nat n) (length (z_trs z) - 1)"
  by (auto simp: zif_trans_def zif_ntrans_def min_def nat_pred intro!: arg_cong [of _ _ "nth (z_trs z)"])

lemma zif_trans_mono:
  assumes "zone_ok z" "i \<le> j"
  shows "zif_trans z i \<le> zif_trans z j"
proof -
  consider "z_trs z = []" | "z_trs z \<noteq> []" "i < 0" | "z_trs z \<noteq> []" "0 \<le> i" by fastforce
  then show ?thesis
  proof cases
    case 2
    then have "zif_trans z i = INT_MIN" by (simp add: zif_trans_def)
    moreover have "INT_MIN \<le> zif_trans z j"
    proof (cases "j < 0")
      case False
      then have "zif_trans z j \<in> set (z_trs z)" using 2
        by (auto simp: zif_trans_nth min_def length_greater_0_conv [symmetric] simp del: length_greater_0_conv)
      then show ?thesis using assms(1) by (auto simp: zone_ok_def)
    qed (simp add: zif_trans_def)
    ultimately show ?thesis by simp
  next
    case 3
    let ?a = "min (nat i) (length (z_trs z) - 1)" and ?b = "min (nat j) (length (z_trs z) - 1)"
    have "?a \<le> ?b" using assms(2) by (simp add: min_def) linarith
    moreover have "?b < length (z_trs z)" using 3(1) by (cases "z_trs z") (simp_all add: min_def)
    ultimately have "z_trs z ! ?a \<le> z_trs z ! ?b"
      using sorted_nth_le assms(1) unfolding zone_ok_def by blast
    then show ?thesis using 3 assms(2) by (simp add: zif_trans_nth)
  qed (simp add: zif_trans_def zif_ntrans_def)
qed

lemma find_loop_finds:
  assumes "zone_ok z" "0 \<le> lo" "lo < hi" "zif_trans z lo \<le> t" "t < zif_trans z hi"
  shows "\<exists>k. find_loop z t lo hi = Some k \<and> lo \<le> k \<and> k < hi \<and> zif_trans z k \<le> t \<and> t < zif_trans z (k + 1)"
  using assms(2-)
proof (induction "nat (hi - lo)" arbitrary: lo hi rule: less_induct)
  case less
  define mid where "mid = (lo + hi) div 2"
  have b: "lo \<le> mid" "mid < hi" "mid = lo \<Longrightarrow> hi = lo + 1" using less.prems unfolding mid_def by presburger+
  have m: "zif_trans z mid \<le> zif_trans z (mid + 1)" by (rule zif_trans_mono [OF assms(1)]) simp
  consider "t \<ge> zif_trans z mid" "t < zif_trans z (mid + 1)" | "t \<ge> zif_trans z (mid + 1)" | "t < zif_trans z mid"
    by linarith
  then show ?case
  proof cases
    case 1
    then show ?thesis using b by (subst find_loop.simps) (simp add: Let_def flip: mid_def)
  next
    case 2
    then have l: "lo < mid" using b less.prems by (cases "mid = lo") auto
    have "\<exists>k. find_loop z t mid hi = Some k \<and> mid \<le> k \<and> k < hi \<and> zif_trans z k \<le> t \<and> t < zif_trans z (k + 1)"
      using l b 2 m less.prems by (intro less.hyps) auto
    moreover have "find_loop z t lo hi = find_loop z t mid hi"
      using 2 by (subst find_loop.simps) (simp add: Let_def flip: mid_def)
    ultimately show ?thesis using l by force
  next
    case 3
    then have l: "lo < mid" using b less.prems by (cases "mid = lo") auto
    have "\<exists>k. find_loop z t lo mid = Some k \<and> lo \<le> k \<and> k < mid \<and> zif_trans z k \<le> t \<and> t < zif_trans z (k + 1)"
      using l b 3 less.prems by (intro less.hyps) auto
    moreover have "find_loop z t lo hi = find_loop z t lo mid"
      using 3 m by (subst find_loop.simps) (simp add: Let_def flip: mid_def)
    ultimately show ?thesis using b by force
  qed
qed

text \<open>Whatever the loop returns lies in its range; so it does not return for the very last transition.\<close>

lemma find_loop_range: "find_loop z t lo hi = Some k \<Longrightarrow> zif_trans z k \<le> t \<and> t < zif_trans z (k + 1)"
proof (rule find_loop.raw_induct [where P = "\<lambda>z t lo hi k. zif_trans z k \<le> t \<and> t < zif_trans z (k + 1)"], goal_cases)
  case (1 f z t lo hi k)
  then show ?case by (auto simp: Let_def split: if_splits)
qed

lemma last_transition_hangs:
  assumes "zone_ok z" "2 \<le> length (z_trs z)" "t = last (z_trs z)"
  shows "zif_find_zrng z t = None"
proof -
  let ?n = "zif_ntrans z"
  have ne: "z_trs z \<noteq> []" using assms(2) by auto
  have t: "i32 t = t" using assms(1,3) ne by (intro i32_id) (auto simp: zone_ok_def INT_MIN_def INT_MAX_def dest!: last_in_set)
  have le: "zif_trans z j \<le> t" for j
  proof -
    have "zif_trans z j \<le> zif_trans z (max j ?n)" by (rule zif_trans_mono [OF assms(1)]) simp
    also have "\<dots> = t" using ne assms(3) by (simp add: zif_trans_def zif_ntrans_def last_conv_nth nat_pred)
    finally show ?thesis .
  qed
  have "find_loop z t 0 ?n = None"
  proof (cases "find_loop z t 0 ?n")
    case (Some k)
    then show ?thesis using find_loop_range [OF Some] le [of "k + 1"] by simp
  qed simp
  then have "find_trno z t 0 ?n = None" using le [of 0] le [of ?n] ne
    by (auto simp: find_trno_def zif_ntrans_def zif_trans_def last_conv_nth assms(3) nat_pred)
  then show ?thesis by (simp add: zif_find_zrng_def find_zrng_def t)
qed

text \<open>What the cache holds: nothing, or the range from one transition to the next.\<close>

definition zrng_of :: "zif \<Rightarrow> nat \<Rightarrow> zrng" where
  "zrng_of z k = \<lparr>zr_prev = z_trs z ! k, zr_next = (if Suc k < length (z_trs z) then z_trs z ! Suc k else INT_MAX),
                  zr_offs = zif_troffs z (int k), zr_trno = k\<rparr>"

definition no_zrng :: zrng where
  "no_zrng = \<lparr>zr_prev = 0, zr_next = 0, zr_offs = 0, zr_trno = 0\<rparr>"

definition cache_ok :: "zif \<Rightarrow> zrng \<Rightarrow> bool" where
  "cache_ok z c \<longleftrightarrow> c = no_zrng \<or> (\<exists>k<length (z_trs z). c = zrng_of z k)"

lemma i24_id: "- 86400 < x \<Longrightarrow> x < 86400 \<Longrightarrow> i24 x = x"
  by (simp add: i24_def)

lemma zif_troffs_range:
  assumes "zone_ok z" "k < length (z_trs z)"
  shows "- 86400 < zif_troffs z (int k)" "zif_troffs z (int k) < 86400"
proof -
  have "zif_type z (int k) < length (z_tda z)"
    using assms by (auto simp: zif_type_def zone_ok_def zif_ntrans_def list_all_length)
  then have "zif_troffs z (int k) \<in> set (z_tda z)" by (simp add: zif_troffs_def)
  then show "- 86400 < zif_troffs z (int k)" "zif_troffs z (int k) < 86400"
    using assms(1) unfolding zone_ok_def by auto
qed

lemma zif_trans_in: "k < length (z_trs z) \<Longrightarrow> zif_trans z (int k) = z_trs z ! k"
  by (auto simp: zif_trans_def zif_ntrans_def)

lemma zif_trans_end: "z_trs z \<noteq> [] \<Longrightarrow> zif_trans z (int (length (z_trs z))) = last (z_trs z)"
  by (simp add: zif_trans_def zif_ntrans_def last_conv_nth nat_pred)

lemma find_zrng_hit:
  assumes "zone_ok z" "find_trno z t lo hi = Some (int k)" "k < length (z_trs z)" "z_trs z ! k \<le> t"
  shows "find_zrng z t lo hi = Some (zrng_of z k)"
proof -
  have "zif_trans z (int k) = z_trs z ! k" "k < 256"
    using assms(1,3) by (simp_all add: zif_trans_in zone_ok_def)
  moreover have "Suc k < length (z_trs z) \<Longrightarrow> zif_trans z (int k + 1) = z_trs z ! Suc k"
    using zif_trans_in [of "Suc k" z] by (simp add: add.commute)
  ultimately show ?thesis using assms zif_troffs_range [OF assms(1,3)]
    by (simp add: find_zrng_def zrng_of_def zif_ntrans_def i24_id)
qed

lemma find_trno_hit:
  assumes "zone_ok z" "0 \<le> lo" "lo < hi" "hi \<le> zif_ntrans z" "zif_trans z lo \<le> t"
    "t < zif_trans z hi \<or> hi = zif_ntrans z \<and> last (z_trs z) < t"
  shows "\<exists>k<length (z_trs z). find_trno z t lo hi = Some (int k) \<and> z_trs z ! k \<le> t \<and>
    (Suc k < length (z_trs z) \<longrightarrow> t < z_trs z ! Suc k)"
proof -
  have ne: "z_trs z \<noteq> []" using assms(2-4) by (auto simp: zif_ntrans_def)
  show ?thesis using assms(6)
  proof
    assume a: "t < zif_trans z hi"
    then obtain k where k: "find_loop z t lo hi = Some k" "lo \<le> k" "k < hi" "zif_trans z k \<le> t" "t < zif_trans z (k + 1)"
      using find_loop_finds [OF assms(1,2,3,5)] by blast
    have kn: "k = int (nat k)" "nat k < length (z_trs z)" using k(2,3) assms(2,4) by (auto simp: zif_ntrans_def)
    have "z_trs z ! nat k \<le> t" using k(4) kn zif_trans_in [OF kn(2)] by simp
    moreover have "Suc (nat k) < length (z_trs z) \<longrightarrow> t < z_trs z ! Suc (nat k)"
      using k(2,5) assms(2) zif_trans_in [of "Suc (nat k)" z] by (auto simp: add.commute)
    moreover have "find_trno z t lo hi = Some (int (nat k))"
      using k(1) kn(1) a assms(2,3,5) by (simp add: find_trno_def)
    ultimately show ?thesis using kn(2) by blast
  next
    assume a: "hi = zif_ntrans z \<and> last (z_trs z) < t"
    then have "zif_trans z hi < t" using zif_trans_end [OF ne] by (simp add: zif_ntrans_def)
    then have "find_trno z t lo hi = Some (int (length (z_trs z) - 1))"
      using a assms(2,3,5) ne by (auto simp: find_trno_def zif_ntrans_def of_nat_diff Suc_leI)
    then show ?thesis using a ne by (intro exI [of _ "length (z_trs z) - 1"]) (auto simp: last_conv_nth)
  qed
qed

definition query_ok :: "zif \<Rightarrow> int \<Rightarrow> bool" where
  "query_ok z t \<longleftrightarrow> 2 \<le> length (z_trs z) \<and> z_trs z ! 1 \<le> 0 \<and> 0 \<le> t \<and> t < INT_MAX \<and> t \<noteq> last (z_trs z)"

lemma offs_exact:
  assumes z: "zone_ok z" and c: "cache_ok z c" and t: "query_ok z t"
  shows "\<exists>c'. offs z c t = Some (zone_at z t, c') \<and> cache_ok z c'"
proof -
  let ?n = "zif_ntrans z"
  have ne: "z_trs z \<noteq> []" and t0: "0 \<le> t" "z_trs z ! 1 \<le> t" and n2: "2 \<le> length (z_trs z)"
    using t by (auto simp: query_ok_def)
  have t1: "z_trs z ! 0 \<le> t"
    using t0(2) n2 sorted_nth_le [of "z_trs z" 0 1] z by (simp add: zone_ok_def)
  have cz: "z_cz z \<noteq> TZCZ_UTC" using z by (simp add: zone_ok_def)
  have up: "t < zif_trans z ?n \<or> ?n = ?n \<and> last (z_trs z) < t"
    using t zif_trans_end [OF ne] by (auto simp: query_ok_def zif_ntrans_def)
  have hit: "\<exists>c'. find_zrng z t lo hi = Some c' \<and> zr_offs c' = zone_at z t \<and> cache_ok z c'"
    if f: "\<exists>k<length (z_trs z). find_trno z t lo hi = Some (int k) \<and> z_trs z ! k \<le> t \<and>
      (Suc k < length (z_trs z) \<longrightarrow> t < z_trs z ! Suc k)" for lo hi
  proof -
    obtain k where k: "k < length (z_trs z)" "find_trno z t lo hi = Some (int k)" "z_trs z ! k \<le> t"
      "Suc k < length (z_trs z) \<longrightarrow> t < z_trs z ! Suc k" using f by blast
    have "zone_at z t = zif_troffs z (int k)" by (rule zone_at_eq [OF z k(1,3)]) (use k(4) in simp)
    moreover have "cache_ok z (zrng_of z k)" using k(1) by (auto simp: cache_ok_def)
    ultimately show ?thesis using find_zrng_hit [OF z k(2,1,3)] by (simp add: zrng_of_def)
  qed
  show ?thesis
  proof (cases "c = no_zrng")
    case True
    have "zif_trans z 1 \<le> t" using t0(2) n2 zif_trans_in [of 1 z] by simp
    then obtain c' where "find_zrng z t 1 ?n = Some c'" "zr_offs c' = zone_at z t" "cache_ok z c'"
      using hit [OF find_trno_hit [OF z _ _ _ _ up, of 1]] n2 by (auto simp: zif_ntrans_def)
    then show ?thesis using True t0 cz by (simp add: offs_def no_zrng_def)
  next
    case False
    then obtain k where k: "k < length (z_trs z)" "c = zrng_of z k" using c by (auto simp: cache_ok_def)
    consider "zr_prev c \<le> t" "t < zr_next c" | "zr_next c \<le> t" | "t < zr_prev c" "t < zr_next c" by linarith
    then show ?thesis
    proof cases
      case 1
      have "zone_at z t = zif_troffs z (int k)"
        by (rule zone_at_eq [OF z k(1)]) (use 1 k(2) in \<open>auto simp: zrng_of_def\<close>)
      then show ?thesis using 1 k cz c by (simp add: offs_def zrng_of_def)
    next
      case 2
      then have s: "Suc k < length (z_trs z)" "z_trs z ! Suc k \<le> t"
        using t k(2) by (auto simp: zrng_of_def query_ok_def split: if_splits)
      then have "zif_trans z (int k + 1) \<le> t" using zif_trans_in [of "Suc k" z] by (simp add: add.commute)
      then obtain c' where "find_zrng z t (int k + 1) ?n = Some c'" "zr_offs c' = zone_at z t" "cache_ok z c'"
        using hit [OF find_trno_hit [OF z _ _ _ _ up, of "int k + 1"]] s by (auto simp: zif_ntrans_def)
      moreover have "zr_trno c = k" using k(2) by (simp add: zrng_of_def)
      ultimately show ?thesis using 2 cz by (simp add: offs_def)
    next
      case 3
      have p: "zr_prev c = z_trs z ! k" "zr_trno c = k" using k(2) by (simp_all add: zrng_of_def)
      then have "0 < k" using 3 t1 by (cases k) auto
      then have "\<exists>k'<length (z_trs z). find_trno z t 0 (int k) = Some (int k') \<and> z_trs z ! k' \<le> t \<and>
          (Suc k' < length (z_trs z) \<longrightarrow> t < z_trs z ! Suc k')"
        using 3 p k(1) t1 zif_trans_in [of k z] zif_trans_in [of 0 z] ne
        by (intro find_trno_hit [OF z]) (auto simp: zif_ntrans_def)
      from hit [OF this] show ?thesis using 3 p cz by (auto simp: offs_def)
    qed
  qed
qed

text \<open>A sequence of queries through the cache.\<close>

fun offs_run :: "zif \<Rightarrow> zrng \<Rightarrow> int list \<Rightarrow> int list option" where
  "offs_run z c [] = Some []"
| "offs_run z c (t # ts) =
     do { (x, c) \<leftarrow> offs z c t; xs \<leftarrow> offs_run z c ts; Some (x # xs) }"

lemma offs_run_exact:
  "zone_ok z \<Longrightarrow> cache_ok z c \<Longrightarrow> list_all (query_ok z) ts \<Longrightarrow> offs_run z c ts = Some (map (zone_at z) ts)"
proof (induction ts arbitrary: c)
  case (Cons t ts)
  then obtain c' where "offs z c t = Some (zone_at z t, c')" "cache_ok z c'"
    using offs_exact [of z c t] by auto
  then show ?case using Cons by simp
qed simp


text \<open>Vienna, with its changes of 1901 (first entry), 1980, 1996 and two of 2037.\<close>

definition vienna :: zif where
  "vienna = \<lparr>z_trs = [- 2147483647, - 1693706400, 323823600, 828234000, 2121987600, 2140045200],
             z_tys = [0, 1, 1, 1, 1, 0], z_tda = [3600, 7200], z_cz = TZCZ_UNK\<rparr>"


text \<open>What the hypotheses exclude: a query before 1970 on an empty cache, whatever the zone, makes
  the offset of the first type the answer for ever.\<close>

lemma cache_poisoned:
  assumes "z_cz z \<noteq> TZCZ_UTC" "INT_MIN \<le> t" "t < 0"
  shows "\<exists>c. offs z no_zrng t = Some (i24 (zif_troffs z 0), c) \<and>
    (\<forall>u. INT_MIN \<le> u \<longrightarrow> u < INT_MAX \<longrightarrow> offs z c u = Some (i24 (zif_troffs z 0), c))"
proof -
  have "find_zrng z t 0 0 = Some \<lparr>zr_prev = INT_MIN, zr_next = INT_MAX, zr_offs = i24 (zif_troffs z 0), zr_trno = 0\<rparr>"
    using assms(2) by (simp add: find_zrng_def find_trno_def zif_trans_def)
  then show ?thesis using assms by (simp add: offs_def no_zrng_def)
qed

lemma zif_utc_time_two:
  assumes "offs z c (i32 t) = Some (x0, c0)" "offs z c0 (i32 (t - x0)) = Some (x1, c1)"
  shows "zif_utc_time z c t = Some (if x0 = 0 then (t, c0) else (t - x1, c1))"
proof -
  have "utc_loop z t x0 x0 c0 = Some (t - x1, c1)"
    using assms(2) by (subst utc_loop.simps) simp
  then show ?thesis using assms(1) by (simp add: zif_utc_time_def utc_loop.simps [of z t 0])
qed



section \<open>Unix time against the calendar\<close>

text \<open>Years from March on: the day \<open>d\<close> of month \<open>m\<close> in the \<open>b\<close>-th one.\<close>

lemma dayno_march:
  assumes "1 \<le> m" "m \<le> 12"
  shows "dayno (b + 1948 + (if m \<le> 2 then 1 else 0)) m d =
    365 * b + b div 4 + epoch_mon_yday ! nat m + d + (dayno 1970 1 1 - DAISY_UNIX_BASE)"
proof -
  define y where "y = b + 1948"
  have q: "(y + 3) div 4 + (if y mod 4 = 0 then 1 else 0) = b div 4 + 488" "(y + 4) div 4 = b div 4 + 488"
    unfolding y_def by presburger+
  have base: "dayno 1970 1 1 - DAISY_UNIX_BASE = 711567" by (simp add: dayno_def doy_def DAISY_UNIX_BASE_def)
  have m: "epoch_mon_yday ! nat m = doy ! nat m + (if m \<le> 2 then 306 else - 59)"
    using assms by (cases m rule: month_cases) (simp_all add: epoch_mon_yday_def doy_def)
  have "dayno (y + (if m \<le> 2 then 1 else 0)) m d = 365 * b + b div 4 + epoch_mon_yday ! nat m + d + 711567"
  proof (cases "m \<le> 2")
    case True
    then show ?thesis using m q(2) by (simp add: dayno_def y_def)
  next
    case False
    then have "dayno (y + (if m \<le> 2 then 1 else 0)) m d = 365 * y + ((y + 3) div 4 + (if y mod 4 = 0 then 1 else 0)) + doy ! nat m + d"
      by (simp add: dayno_def)
    then show ?thesis unfolding q(1) using m False by (simp add: y_def)
  qed
  then show ?thesis unfolding base y_def .
qed

text \<open>
  C26: from instants to Unix time.  In the years from 1970 to 2098 the result is exact from March to
  December; in January and February it is that of the same date one year later, since the years
  there start in March and the year is not taken back.
\<close>

theorem inst_to_epoch_spec:
  assumes v: "inst_valid i" and y: "1970 \<le> i_y i" "i_y i \<le> 2098"
  shows "inst_to_epoch i = (dayno (i_y i + (if i_m i \<le> 2 then 1 else 0)) (i_m i) (i_d i) - dayno 1970 1 1) * 86400
    + (i_H i * 60 + i_M i) * 60 + i_S i"
proof -
  define b where "b = i_y i - 1948"
  define n where "n = 365 * b + b div 4 + (epoch_mon_yday ! nat (i_m i) + i_d i) - DAISY_UNIX_BASE"
  have m: "1 \<le> i_m i" "i_m i \<le> 12" and d: "1 \<le> i_d i" "i_d i \<le> 31"
    and tod: "0 \<le> i_H i" "i_H i < 24" "0 \<le> i_M i" "i_M i < 60" "0 \<le> i_S i" "i_S i < 60"
    using v get_mdays_range [of "i_m i" "i_y i"] by (auto simp: inst_valid_def valid_date_def valid_ymd_def valid_tod_def)
  have yd: "0 \<le> epoch_mon_yday ! nat (i_m i)" "epoch_mon_yday ! nat (i_m i) \<le> 337"
    using m by (cases "i_m i" rule: month_cases; simp add: epoch_mon_yday_def)+
  have b: "22 \<le> b" "b \<le> 150" "5 \<le> b div 4" "b div 4 \<le> 37" using y unfolding b_def by linarith+
  have n: "0 \<le> n" "n \<le> 47178" using b yd d unfolding n_def DAISY_UNIX_BASE_def by linarith+
  have "inst_to_epoch i = u32 (((n * 24 + i_H i) * 60 + i_M i) * 60 + i_S i)"
  proof -
    have "u32 (i_y i - DAISY_BASE_YEAR) = b" using b by (simp add: b_def DAISY_BASE_YEAR_def u32_id)
    moreover have "u32 (b * 365 + b div 4) = b * 365 + b div 4" using b by (intro u32_id) linarith+
    moreover have "u32 (b * 365 + b div 4 + (epoch_mon_yday ! nat (i_m i) + i_d i) - DAISY_UNIX_BASE) = n"
      using n unfolding n_def by (subst u32_id) (auto simp: algebra_simps)
    moreover have "u32 (u32 (n * 24 + i_H i) * 60 + i_M i) = (n * 24 + i_H i) * 60 + i_M i"
      using n tod by (simp add: u32_id)
    ultimately show ?thesis using m tod by (simp add: inst_to_epoch_def Let_def del: u32_mult_left u32_add_left u32_diff_left)
  qed
  also have "\<dots> = ((n * 24 + i_H i) * 60 + i_M i) * 60 + i_S i"
    using n tod by (simp add: u32_id)
  also have "n = dayno (i_y i + (if i_m i \<le> 2 then 1 else 0)) (i_m i) (i_d i) - dayno 1970 1 1"
    using dayno_march [OF m, of b "i_d i"] by (simp add: n_def b_def)
  finally show ?thesis by (simp add: algebra_simps)
qed

lemma inst_to_epoch_spec_witness:
  "inst_to_epoch \<lparr>i_y = 2017, i_m = 1, i_d = 31, i_H = 12, i_M = 0, i_S = 0, i_ms = 0\<rparr> = 1517400000"
  using inst_to_epoch_spec [of "\<lparr>i_y = 2017, i_m = 1, i_d = 31, i_H = 12, i_M = 0, i_S = 0, i_ms = 0\<rparr>"]
  by (simp add: inst_valid_def valid_date_def valid_ymd_def valid_tod_def get_mdays_def mdays_def dayno_def doy_def)

lemma march_md_table:
  "list_all (\<lambda>n. let (k, dm) = march_md n; m = epoch_rm ! nat k in
     1 \<le> k \<and> k \<le> 12 \<and> 1 \<le> m \<and> m \<le> 12 \<and> (k > 10 \<longleftrightarrow> m \<le> 2) \<and> 1 \<le> dm \<and>
     dm \<le> get_mdays (if n = 366 then 0 else 1) m \<and> epoch_mon_yday ! nat m + dm = n) [1..366]"
  by code_simp

lemma march_md_ok:
  assumes "1 \<le> n" "n \<le> 366" "march_md n = (k, dm)" "m = epoch_rm ! nat k"
  shows "1 \<le> m" "m \<le> 12" "k > 10 \<longleftrightarrow> m \<le> 2" "1 \<le> dm" "dm \<le> get_mdays (if n = 366 then 0 else 1) m"
    "epoch_mon_yday ! nat m + dm = n"
proof -
  have "n \<in> set [1..366]" using assms(1,2) by simp
  from bspec [OF march_md_table [unfolded list_all_iff] this] assms(3,4)
  show "1 \<le> m" "m \<le> 12" "k > 10 \<longleftrightarrow> m \<le> 2" "1 \<le> dm" "dm \<le> get_mdays (if n = 366 then 0 else 1) m"
    "epoch_mon_yday ! nat m + dm = n" by (simp_all add: Let_def)
qed

text \<open>The year that the division by 365 finds, corrected once.\<close>

lemma march_year:
  fixes d :: int
  assumes "7977 \<le> d" "d < 57689"
  defines "y0 \<equiv> d div 365"
  defines "f0 \<equiv> y0 * 365 + y0 div 4"
  defines "b \<equiv> if f0 \<ge> d then y0 - 1 else y0"
  shows "20 \<le> b" "b \<le> 158" "1 \<le> d - (b * 365 + b div 4)" "d - (b * 365 + b div 4) \<le> 366"
    "d - (b * 365 + b div 4) = 366 \<Longrightarrow> (b + 1) mod 4 = 0"
proof -
  have y0: "21 \<le> y0" "y0 \<le> 158" using assms(1,2) unfolding y0_def by linarith+
  have r: "y0 * 365 \<le> d" "d < y0 * 365 + 365" unfolding y0_def by linarith+
  have q: "5 \<le> y0 div 4" "y0 div 4 \<le> 39" using y0 by linarith+
  have s: "(y0 - 1) div 4 = y0 div 4 - (if y0 mod 4 = 0 then 1 else 0)" by presburger
  show "20 \<le> b" "b \<le> 158" using y0 by (auto simp: b_def)
  show "1 \<le> d - (b * 365 + b div 4)" "d - (b * 365 + b div 4) \<le> 366"
    "d - (b * 365 + b div 4) = 366 \<Longrightarrow> (b + 1) mod 4 = 0"
    using r q s by (auto simp: b_def f0_def split: if_splits)
qed

text \<open>
  From Unix time to instants.  For every time that fits 32 bits, unsigned, the result has a
  valid date, that of its day, and the time of day; its milliseconds are the mark of a whole day,
  255, where that of a whole second, 1023, would say what is known.
\<close>

theorem epoch_to_inst_spec:
  assumes "0 \<le> t" "t < 4294967296"
  shows "valid_date (epoch_to_inst t) \<and>
    dayno (i_y (epoch_to_inst t)) (i_m (epoch_to_inst t)) (i_d (epoch_to_inst t)) = dayno 1970 1 1 + t div 86400 \<and>
    (i_H (epoch_to_inst t) * 60 + i_M (epoch_to_inst t)) * 60 + i_S (epoch_to_inst t) = t mod 86400 \<and>
    i_ms (epoch_to_inst t) = 255"
proof -
  define d where "d = t div 86400 + 7977"
  define b where "b = (if d div 365 * 365 + d div 365 div 4 \<ge> d then d div 365 - 1 else d div 365)"
  define n where "n = d - (b * 365 + b div 4)"
  have d: "7977 \<le> d" "d < 57689" using assms unfolding d_def by linarith+
  note my = march_year [OF d, folded b_def]
  have n: "1 \<le> n" "n \<le> 366" "n = 366 \<Longrightarrow> (b + 1) mod 4 = 0" using my(3-5) by (simp_all add: n_def)
  obtain k dm where k: "march_md n = (k, dm)" by fastforce
  define m where "m = epoch_rm ! nat k"
  note mm = march_md_ok [OF n(1,2) k m_def]
  have dmle: "dm \<le> 31" using mm(1,2,5) get_mdays_range [of m "if n = 366 then 0 else 1"] by simp
  have q: "d div 365 \<ge> 21" "d div 365 \<le> 158" using d by linarith+
  define y where "y = b + 1948 + (if m \<le> 2 then 1 else 0)"
  have e: "epoch_to_inst t = \<lparr>i_y = y, i_m = m, i_d = dm, i_H = t mod 86400 div 60 div 60, i_M = t mod 86400 div 60 mod 60,
      i_S = t mod 86400 mod 60, i_ms = 255\<rparr>"
  proof -
    have ud: "u32 (t div 86400 + DAISY_UNIX_BASE) = d" using d by (simp add: d_def DAISY_UNIX_BASE_def u32_id)
    have f: "u32 (d div 365 * 365 + d div 365 div 4) = d div 365 * 365 + d div 365 div 4"
      using q by (intro u32_id) linarith+
    have b1: "u32 (d div 365 - 1) = d div 365 - 1" using q by (simp add: u32_id)
    have fb: "u32 (b * 365 + b div 4) = b * 365 + b div 4" using my(1,2) by (intro u32_id) linarith+
    have un: "u32 n = n" using n by (simp add: u32_id)
    have tods: "t mod 86400 div 60 div 60 mod 256 = t mod 86400 div 60 div 60"
    proof -
      have "0 \<le> t mod 86400" "t mod 86400 < 86400" by simp_all
      then have "0 \<le> t mod 86400 div 60 div 60" "t mod 86400 div 60 div 60 < 256" by linarith+
      then show ?thesis by (rule mod_pos_pos_trivial)
    qed
    have ym: "(b + 1948 + (if k > 10 then 1 else 0)) mod 65536 = y" using my(1,2) mm(3) by (simp add: y_def)
    have yf: "(if d div 365 * 365 + d div 365 div 4 \<ge> d
        then (d div 365 - 1, u32 ((d div 365 - 1) * 365 + (d div 365 - 1) div 4))
        else (d div 365, d div 365 * 365 + d div 365 div 4)) = (b, b * 365 + b div 4)"
    proof (cases "d div 365 * 365 + d div 365 div 4 \<ge> d")
      case True
      then have "b = d div 365 - 1" by (simp add: b_def)
      then show ?thesis using True fb by simp
    next
      case False
      then have "b = d div 365" by (simp add: b_def)
      then show ?thesis using False by simp
    qed
    have dm: "dm mod 256 = dm" using mm(4) dmle by simp
    show ?thesis
      unfolding epoch_to_inst_def Let_def ud f b1 yf prod.case n_def [symmetric] un k
      by (simp only: DAISY_BASE_YEAR_def ym m_def tods dm ECHS_ALL_DAY_def)
  qed
  have lp: "dm \<le> get_mdays y m"
  proof (cases "n = 366")
    case True
    then have "(b + 1) mod 4 = 0" by (rule n(3))
    then have "(b + 1949) mod 4 = 0" by presburger
    then have "dm \<le> get_mdays y m \<or> m > 2" using True mm(5) by (auto simp: y_def get_mdays_def add.commute add.assoc)
    with mm(1,2) show ?thesis using True mm(5) by (cases m rule: month_cases) (auto simp: get_mdays_def mdays_def)
  next
    case False
    with mm(1,2) show ?thesis using mm(5) by (cases m rule: month_cases) (auto simp: get_mdays_def mdays_def)
  qed
  have "dayno y m dm = dayno 1970 1 1 + t div 86400"
    using dayno_march [OF mm(1,2), of b dm] mm(6) by (simp add: y_def n_def d_def DAISY_UNIX_BASE_def)
  moreover have "0 \<le> y" "y < 65536" using my(1,2) by (simp_all add: y_def)
  ultimately show ?thesis unfolding e using mm(1,2,4) lp by (simp add: valid_date_def valid_ymd_def)
qed

lemma epoch_to_inst_spec_witness:
  "dayno (i_y (epoch_to_inst 951782400)) (i_m (epoch_to_inst 951782400)) (i_d (epoch_to_inst 951782400)) = dayno 2000 2 29"
  using epoch_to_inst_spec [of 951782400] by (simp add: dayno_def doy_def)

section \<open>Tags of zones and the files in use\<close>

text \<open>The hashes of the zone names in the order of their tags: at most 64 of them.\<close>

definition bang_tzob :: "int list \<Rightarrow> int \<Rightarrow> int \<times> int list" where
  "bang_tzob hxa hx = (if length hxa \<ge> 64 then (0, hxa) else (make_tzob (int (length hxa) + 1), hxa @ [hx]))"

definition retr_tzob :: "int list \<Rightarrow> int \<Rightarrow> int" where
  "retr_tzob hxa z =
     (let i = make_size z in
      if i \<ge> 64 then 0 else if i = 0 then 0 else if nat (i - 1) < length hxa then hxa ! nat (i - 1) else 0)"

lemma make_size_tzob: "0 \<le> x \<Longrightarrow> x < 64 \<Longrightarrow> make_size (make_tzob x) = x \<longleftrightarrow> x < 4"
proof -
  assume "0 \<le> x" "x < 64"
  moreover have "list_all (\<lambda>x. make_size (make_tzob x) = x \<longleftrightarrow> x < 4) [0..63]" by code_simp
  ultimately show ?thesis unfolding list_all_iff set_upto by simp
qed

text \<open>
  C25: the tag that a new zone gets leads back to the hash of its name, for the first three zones;
  from the fourth on the index that is read from a tag is never the one that was put there, since
  its upper bits are shifted by 10 into the tag and by 8 out of it.
\<close>

theorem tzob_roundtrip:
  assumes "length hxa < 63" "bang_tzob hxa hx = (z, hxb)"
  shows "(length hxa < 3 \<longrightarrow> retr_tzob hxb z = hx) \<and> (3 \<le> length hxa \<longrightarrow> make_size z \<noteq> int (length hxb))"
proof -
  have z: "z = make_tzob (int (length hxa) + 1)" "hxb = hxa @ [hx]" using assms by (auto simp: bang_tzob_def)
  have s: "make_size z = int (length hxa) + 1 \<longleftrightarrow> length hxa < 3"
    unfolding z(1) using assms(1) make_size_tzob [of "int (length hxa) + 1"] by auto
  have "retr_tzob hxb z = hx" if "length hxa < 3"
    using s that z(2) by (simp add: retr_tzob_def)
  then show ?thesis using s z(2) by auto
qed

lemma tzob_roundtrip_witness: "retr_tzob [7, 9] 128 = 9"
  using tzob_roundtrip [of "[7]" 9 128 "[7, 9]"] by (simp add: bang_tzob_def make_tzob_def)

lemma fourth_zone_lost: "bang_tzob [7, 8, 9] 10 = (4096, [7, 8, 9, 10]) \<and> retr_tzob [7, 8, 9, 10] 4096 = 0"
  by code_simp

lemma last_tag_utc: "length hxa = 63 \<Longrightarrow> fst (bang_tzob hxa hx) = 0"
  by (simp add: bang_tzob_def make_tzob_def)

text \<open>
  \<open>__tzob_zif\<close>: the sixteen zone files in use most, each with its tag and its uses.  Opening a zone
  by its tag is the parameter \<open>opn\<close>.
\<close>

record 'h mfu =
  mf_z :: int
  mf_cnt :: int
  mf_zif :: "'h option"

function mfu_scan :: "'h mfu list \<Rightarrow> int \<Rightarrow> nat \<Rightarrow> nat" where
  "mfu_scan m zob i =
     (if i < 15 then if mf_z (m ! i) = 0 \<or> mf_z (m ! i) = zob then i else mfu_scan m zob (i + 1) else i)"
  by auto
termination by (relation "measure (\<lambda>(m, zob, i). 15 - i)") auto

declare mfu_scan.simps [simp del]

definition tzob_zif :: "(int \<Rightarrow> 'h option) \<Rightarrow> 'h mfu list \<Rightarrow> int \<Rightarrow> 'h option \<times> 'h mfu list" where
  "tzob_zif opn m zob =
     (let i = mfu_scan m zob 0; e = m ! i
      in if i < 15 \<and> mf_z e \<noteq> 0 then
           (let e' = e\<lparr>mf_cnt := mf_cnt e + 1\<rparr>
            in (mf_zif e,
                if i = 0 then m
                else if mf_cnt (m ! (i - 1)) < mf_cnt e' then m[i - 1 := e', i := m ! (i - 1)]
                else m[i := e']))
         else if mf_z e = zob then (mf_zif e, m)
         else case opn zob of
             None \<Rightarrow> (None, m)
           | Some h \<Rightarrow> (Some h, m[i := \<lparr>mf_z = zob, mf_cnt = 1, mf_zif = Some h\<rparr>]))"

definition mfu_ok :: "(int \<Rightarrow> 'h option) \<Rightarrow> 'h mfu list \<Rightarrow> bool" where
  "mfu_ok opn m \<longleftrightarrow> length m = 16 \<and> list_all (\<lambda>e. mf_z e \<noteq> 0 \<longrightarrow> mf_zif e = opn (mf_z e)) m"

lemma mfu_scan_stop: "i \<le> 15 \<Longrightarrow> let j = mfu_scan m zob i in j \<le> 15 \<and> (j < 15 \<longrightarrow> mf_z (m ! j) = 0 \<or> mf_z (m ! j) = zob)"
proof (induction m zob i rule: mfu_scan.induct)
  case (1 m zob i)
  show ?case using 1 by (subst (1) mfu_scan.simps) (auto simp: Let_def)
qed

lemma list_all_update: "list_all P m \<Longrightarrow> P e \<Longrightarrow> list_all P (m[i := e])"
  by (auto simp: list_all_iff dest!: set_update_subset_insert [THEN subsetD])

text \<open>
  The files in use are a transparent cache.  Whatever lookups came before, looking a zone's tag
  up gives what opening it gives, and keeps the table: its size, and that each entry holds the file of
  its tag.
\<close>

theorem tzob_zif_transparent:
  assumes "mfu_ok opn m" "zob \<noteq> 0"
  shows "fst (tzob_zif opn m zob) = opn zob \<and> mfu_ok opn (snd (tzob_zif opn m zob))"
proof -
  let ?i = "mfu_scan m zob 0"
  have i: "?i \<le> 15" "?i < 15 \<Longrightarrow> mf_z (m ! ?i) = 0 \<or> mf_z (m ! ?i) = zob"
    using mfu_scan_stop [of 0 m zob] by (simp_all add: Let_def)
  have l: "length m = 16" and a: "list_all (\<lambda>e. mf_z e \<noteq> 0 \<longrightarrow> mf_zif e = opn (mf_z e)) m"
    using assms(1) by (simp_all add: mfu_ok_def)
  have e: "mf_z (m ! j) \<noteq> 0 \<longrightarrow> mf_zif (m ! j) = opn (mf_z (m ! j))" if "j \<le> 15" for j
    using a l that by (auto simp: list_all_length)
  show ?thesis using i e [of ?i] e [of "?i - 1"] a l assms(2)
    by (auto simp: tzob_zif_def Let_def mfu_ok_def intro!: list_all_update split: option.splits)
qed

lemma tzob_zif_transparent_witness:
  "fst (tzob_zif (\<lambda>z. if z = 64 then Some (3 :: nat) else None) (replicate 16 \<lparr>mf_z = 0, mf_cnt = 0, mf_zif = None\<rparr>) 64) = Some 3"
  using tzob_zif_transparent [of "\<lambda>z. if z = 64 then Some (3 :: nat) else None" "replicate 16 \<lparr>mf_z = 0, mf_cnt = 0, mf_zif = None\<rparr>" 64]
  by (simp add: mfu_ok_def list_all_iff)

end
