(* ===== verification/Evrrul.thy ===== *)
theory Evrrul
  imports Unroll RruleSub Zones
begin

text \<open>
  The streams of a task, \<^verbatim>\<open>src/src/evical.c\<close>: a recurrence rule unrolled 64 instants at a time,
  RDATEs and EXDATEs as sorted events, and their composition by muxes and the filter.

  A stream of a rule keeps its proto-event, whose instant is where the next refill starts (null at
  the end), and a cache of 128 instants, 64 to give and 64 groups.  The expanders write to it
  unchecked; a write beyond its end is \<open>None\<close>, and so is a call that does not return.  Expanders
  that tick get \<open>fu\<close> as a bound on their ticks, a function of the rule and the instant they start
  from.  The counters \<open>seq\<close> and \<open>ref\<close> that say when to free the memory are left out.
\<close>

section \<open>Streams of rules\<close>

record evrrul =
  er_e :: event
  er_zon :: int
  er_cal :: echs_scale
  er_pof :: int
  er_rrul :: rrulsp
  er_rdi :: nat
  er_ncch :: nat
  er_cch :: "instant list"

definition echs_event_to_utc :: "zones \<Rightarrow> event \<Rightarrow> (event \<times> zones) option" where
  "echs_event_to_utc zs e = do { (i, zs) \<leftarrow> echs_instant_to_utc zs (ev_from e); Some (e\<lparr>ev_from := i\<rparr>, zs) }"

text \<open>The results of an expander in the cache from slot \<open>k\<close> on, each after its group.\<close>

fun cch_write :: "nat \<Rightarrow> fill \<Rightarrow> instant list \<Rightarrow> instant list option" where
  "cch_write k [] cch = Some cch"
| "cch_write k ((x, g) # r) cch =
     (case g of
        None \<Rightarrow> if k < length cch then cch_write (k + 1) r (cch[k := x]) else None
      | Some g \<Rightarrow> if k + GRP_CCH_OFF < length cch then cch_write (k + 1) r (cch[k + GRP_CCH_OFF := g, k := x]) else None)"

text \<open>The expander of a frequency; the daily one notes each instant as its own group.\<close>

definition rrul_fill :: "(rrulsp \<Rightarrow> instant \<Rightarrow> nat) \<Rightarrow> instant list \<Rightarrow> nat \<Rightarrow> rrulsp \<Rightarrow> fill option" where
  "rrul_fill fu tgt nti rr =
     (let p = tgt ! 0; n = fu rr p; plain = map_option (map (\<lambda>x. (x, None)))
      in case rr_freq rr of
           FREQ_NONE \<Rightarrow> Some []
         | FREQ_YEARLY \<Rightarrow> Some (rrul_fill_yly p nti rr)
         | FREQ_MONTHLY \<Rightarrow> rrul_fill_mly n p nti rr
         | FREQ_WEEKLY \<Rightarrow> plain (rrul_fill_wly n p nti rr)
         | FREQ_DAILY \<Rightarrow>
             map_option (map (\<lambda>x. (x, if wd_any (wd_mask_of (rr_dow rr)) \<and> rr_inter rr = 1 then None else Some x)))
               (rrul_fill_dly n p nti rr)
         | FREQ_HOURLY \<Rightarrow> plain (rrul_fill_Hly n p nti rr)
         | FREQ_MINUTELY \<Rightarrow> plain (rrul_fill_Mly n p nti rr)
         | FREQ_SECONDLY \<Rightarrow> plain (rrul_fill_Sly n tgt nti rr))"

fun utcify :: "zones \<Rightarrow> int \<Rightarrow> int \<Rightarrow> instant list \<Rightarrow> instant list option" where
  "utcify zs zon pof [] = Some []"
| "utcify zs zon pof (x # xs) =
     do { eof \<leftarrow> echs_instant_tzof zs x zon;
          xs \<leftarrow> utcify zs zon pof xs;
          Some ((if eof \<noteq> pof then echs_tzob_shift x eof pof else x) # xs) }"

definition refill :: "(rrulsp \<Rightarrow> instant \<Rightarrow> nat) \<Rightarrow> zones \<Rightarrow> evrrul \<Rightarrow> (nat \<times> evrrul) option" where
  "refill fu zs strm =
     (let rr = er_rrul strm; from = ev_from (er_e strm) in
      if echs_nul_instant_p from then Some (0, strm)
      else if rr_count rr = 0 then Some (0, strm)
      else do {
        let cch = replicate GRP_CCH_OFF from @ drop GRP_CCH_OFF (er_cch strm);
        r \<leftarrow> rrul_fill fu cch GRP_CCH_OFF rr;
        cch \<leftarrow> cch_write 0 r cch;
        let (ncch, from) = (if length r \<ge> GRP_CCH_OFF then (length r - 1, cch ! (length r - 1)) else (length r, echs_nul_instant));
        let count = (if rr_count rr > 0 then if int ncch < rr_count rr then rr_count rr - int ncch else 0 else rr_count rr);
        let strm = strm\<lparr>er_e := (er_e strm)\<lparr>ev_from := from\<rparr>, er_rrul := rr\<lparr>rr_count := count\<rparr>, er_ncch := ncch, er_cch := cch\<rparr>;
        (if ncch = 0 then Some (0, strm)
         else do {
           let scaled = map (\<lambda>x. echs_instant_rescale x (er_cal strm)) (take ncch cch);
           utc \<leftarrow> utcify zs (er_zon strm) (er_pof strm) scaled;
           Some (ncch, strm\<lparr>er_cch := echs_instant_sort utc @ drop ncch cch\<rparr>) })
      })"

definition next_evrrul :: "(rrulsp \<Rightarrow> instant \<Rightarrow> nat) \<Rightarrow> zones \<Rightarrow> evrrul \<Rightarrow> bool \<Rightarrow> (event \<times> evrrul) option" where
  "next_evrrul fu zs this popp =
     do {
       (n, this) \<leftarrow> (if er_rdi this \<ge> er_ncch this then
                      do { (n, this) \<leftarrow> refill fu zs this; Some (n, if n = 0 then this else this\<lparr>er_rdi := 0\<rparr>) }
                    else Some (1, this));
       (if n = 0 then Some (echs_nul_event, this)
        else
          let res = (er_e this)\<lparr>ev_from := er_cch this ! er_rdi this, ev_grp := er_cch this ! (er_rdi this + GRP_CCH_OFF)\<rparr>
          in Some (res, if popp then this\<lparr>er_rdi := er_rdi this + 1\<rparr> else this))
     }"

text \<open>One stream per rule, sharing the event; its memory is zeroed.\<close>

definition make_evrrul :: "event list \<Rightarrow> zones \<Rightarrow> event \<Rightarrow> rrulsp list \<Rightarrow> (evrrul muxed \<times> zones) option" where
  "make_evrrul junk zs e rr =
     (if rr = [] then Some (Mux_null, zs)
      else do {
        let cal = echs_instant_scale (ev_from e);
        let e = e\<lparr>ev_from := echs_instant_rescale (ev_from e) SCALE_GREGORIAN\<rparr>;
        let zon = echs_instant_tzob (ev_from e);
        (e, zs) \<leftarrow> echs_event_to_utc zs e;
        pof \<leftarrow> echs_instant_tzof zs (ev_from e) zon;
        Some (echs_evstrm_vmux junk
          (map (\<lambda>r. Some \<lparr>er_e = e, er_zon = zon, er_cal = cal, er_pof = pof, er_rrul = r, er_rdi = 0, er_ncch = 0,
                          er_cch = replicate (2 * GRP_CCH_OFF) (mk_inst 0 0 0 0 0 0 0)\<rparr>) rr), zs)
      })"

definition clone_evrrul :: "evrrul \<Rightarrow> evrrul" where
  "clone_evrrul s = s"

section \<open>Streams of dates\<close>

text \<open>A date without a time gets that of the proto-event; a date in a zone is taken to UTC.\<close>

definition instant_soup :: "zones \<Rightarrow> instant \<Rightarrow> instant \<Rightarrow> int \<Rightarrow> int \<Rightarrow> (instant \<times> zones) option" where
  "instant_soup zs broth water z eof =
     (if echs_instant_all_day_p water then do {
        let water = water\<lparr>i_H := i_H broth, i_M := i_M broth, i_S := i_S broth, i_ms := i_ms broth\<rparr>;
        fof \<leftarrow> echs_instant_tzof zs water z;
        let soup = echs_instant_detach_tzob water;
        Some (if fof \<noteq> eof then echs_tzob_shift soup fof eof else soup, zs)
      }
      else if echs_instant_tzob water \<noteq> 0 then echs_instant_utc zs water (echs_instant_tzob water)
      else Some (water, zs))"

fun soups :: "zones \<Rightarrow> instant \<Rightarrow> int \<Rightarrow> int \<Rightarrow> instant list \<Rightarrow> (instant list \<times> zones) option" where
  "soups zs broth z eof [] = Some ([], zs)"
| "soups zs broth z eof (d # ds) =
     do { (s, zs) \<leftarrow> instant_soup zs broth d z eof; (ss, zs) \<leftarrow> soups zs broth z eof ds; Some (s # ss, zs) }"

definition make_evrdat :: "zones \<Rightarrow> event \<Rightarrow> instant list \<Rightarrow> (evical option \<times> zones) option" where
  "make_evrdat zs e ds =
     (if ds = [] then Some (None, zs)
      else do {
        let cal = echs_instant_scale (ev_from e);
        let e = e\<lparr>ev_from := echs_instant_rescale (ev_from e) SCALE_GREGORIAN\<rparr>;
        let z = echs_instant_tzob (ev_from e);
        (i, zs) \<leftarrow> echs_instant_to_utc zs (ev_from e);
        let e = e\<lparr>ev_from := i\<rparr>;
        eof \<leftarrow> echs_instant_tzof zs (ev_from e) z;
        (rd, zs) \<leftarrow> soups zs (ev_from e) z eof ds;
        Some (Some (make_evical_vevent (map (\<lambda>x. e\<lparr>ev_from := echs_instant_rescale x cal\<rparr>) (echs_instant_sort rd))), zs)
      })"

definition make_evvevt :: "zones \<Rightarrow> event \<Rightarrow> (evical \<times> zones) option" where
  "make_evvevt zs e = do { (e, zs) \<leftarrow> echs_event_to_utc zs e; Some (make_evical_vevent [e], zs) }"

section \<open>The stream of a rule as a stream\<close>

text \<open>A step of \<open>next\<close>: the cache made ready, with the number of instants in it, or 0 at the end.\<close>

definition er_ready :: "(rrulsp \<Rightarrow> instant \<Rightarrow> nat) \<Rightarrow> zones \<Rightarrow> evrrul \<Rightarrow> (nat \<times> evrrul) option" where
  "er_ready fu zs s =
     (if er_rdi s \<ge> er_ncch s then do { (n, s) \<leftarrow> refill fu zs s; Some (n, if n = 0 then s else s\<lparr>er_rdi := 0\<rparr>) }
      else Some (1, s))"

definition er_front :: "evrrul \<Rightarrow> event" where
  "er_front s = (er_e s)\<lparr>ev_from := er_cch s ! er_rdi s, ev_grp := er_cch s ! (er_rdi s + GRP_CCH_OFF)\<rparr>"

lemma next_ready:
  "next_evrrul fu zs s p = do { (n, s) \<leftarrow> er_ready fu zs s;
     (if n = 0 then Some (echs_nul_event, s) else Some (er_front s, if p then s\<lparr>er_rdi := er_rdi s + 1\<rparr> else s)) }"
  by (cases "refill fu zs s") (auto simp: next_evrrul_def er_ready_def er_front_def Let_def split: prod.splits)

lemma nul_instant_p [simp]: "echs_nul_instant_p echs_nul_instant"
  using nul_event_nul(1) by (simp add: echs_nul_event_p_def echs_nul_event_def del: nul_event_nul)

lemma refill_end:
  assumes "refill fu zs s = Some (0, t)" "er_ncch s \<le> er_rdi s"
  shows "refill fu zs t = Some (0, t)" "er_ncch t \<le> er_rdi t"
proof -
  have "(refill fu zs t = Some (0, t)) \<and> er_ncch t \<le> er_rdi t"
  proof (cases "echs_nul_instant_p (ev_from (er_e s)) \<or> rr_count (er_rrul s) = 0")
    case True
    then have "t = s" using assms(1) unfolding refill_def Let_def by (auto split: if_splits)
    then show ?thesis using assms by simp
  next
    case False
    then have "er_ncch t = 0 \<and> echs_nul_instant_p (ev_from (er_e t))"
      using assms(1) by (auto simp: refill_def Let_def GRP_CCH_OFF_def
          split: Option.bind_splits if_splits)
    then show ?thesis by (simp add: refill_def Let_def)
  qed
  then show "refill fu zs t = Some (0, t)" "er_ncch t \<le> er_rdi t" by simp_all
qed

lemma refill_ncch: "refill fu zs s = Some (Suc n, t) \<Longrightarrow> er_ncch t = Suc n"
  by (auto simp: refill_def Let_def split: Option.bind_splits if_splits)

lemma ready_again: "er_ready fu zs s = Some (Suc n, t) \<Longrightarrow> er_ready fu zs t = Some (1, t)"
  by (auto simp: er_ready_def refill_ncch split: Option.bind_splits if_splits)

text \<open>The events a stream still gives.\<close>

inductive er_gives :: "(rrulsp \<Rightarrow> instant \<Rightarrow> nat) \<Rightarrow> zones \<Rightarrow> evrrul \<Rightarrow> event list \<Rightarrow> bool" for fu zs where
  er_end: "er_ncch s \<le> er_rdi s \<Longrightarrow> refill fu zs s = Some (0, t) \<Longrightarrow> er_gives fu zs s []"
| er_more: "er_ready fu zs s = Some (Suc n, t) \<Longrightarrow> \<not> echs_nul_event_p (er_front t) \<Longrightarrow>
    er_gives fu zs (t\<lparr>er_rdi := er_rdi t + 1\<rparr>) es \<Longrightarrow> er_gives fu zs s (er_front t # es)"

inductive_cases er_gives_NilE: "er_gives fu zs s []"
inductive_cases er_gives_ConsE: "er_gives fu zs s (e # es)"

lemma er_gives_unique: "er_gives fu zs s es \<Longrightarrow> er_gives fu zs s es' \<Longrightarrow> es = es'"
proof (induction arbitrary: es' rule: er_gives.induct)
  case (er_end s t)
  then show ?case by (cases es') (auto elim!: er_gives_ConsE simp: er_ready_def)
next
  case (er_more s n t es)
  from er_more.prems show ?case
  proof (cases rule: er_gives.cases)
    case (er_end t')
    then show ?thesis using er_more.hyps(1) by (simp add: er_ready_def)
  next
    case (er_more n' t' es'')
    then show ?thesis using \<open>er_ready fu zs s = Some (Suc n, t)\<close> \<open>\<And>es'. _ \<Longrightarrow> es = es'\<close> by auto
  qed
qed

definition er_pend :: "(rrulsp \<Rightarrow> instant \<Rightarrow> nat) \<Rightarrow> zones \<Rightarrow> evrrul \<Rightarrow> event list" where
  "er_pend fu zs s = (THE es. er_gives fu zs s es)"

definition er_good :: "(rrulsp \<Rightarrow> instant \<Rightarrow> nat) \<Rightarrow> zones \<Rightarrow> evrrul \<Rightarrow> bool" where
  "er_good fu zs s \<longleftrightarrow> (\<exists>es. er_gives fu zs s es \<and> tidy es)"

lemma er_pend_gives: "er_gives fu zs s es \<Longrightarrow> er_pend fu zs s = es"
  unfolding er_pend_def using er_gives_unique by blast

lemma er_gives_next:
  assumes "er_gives fu zs s es"
  shows "\<exists>s'. next_evrrul fu zs s p = Some (front es, s') \<and> er_gives fu zs s' (if p then tl es else es)"
  using assms
proof (cases rule: er_gives.cases)
  case (er_end t)
  note r = refill_end [OF er_end(3,2)]
  have "next_evrrul fu zs s p = Some (front es, t)" using er_end by (simp add: next_ready er_ready_def)
  moreover have "er_gives fu zs t []" using r by (intro er_gives.er_end)
  ultimately show ?thesis using er_end(1) by auto
next
  case (er_more n t es')
  have "next_evrrul fu zs s p = Some (front es, if p then t\<lparr>er_rdi := er_rdi t + 1\<rparr> else t)"
    using er_more by (simp add: next_ready)
  moreover have "er_gives fu zs t es"
    using er_gives.er_more [of fu zs t 0 t es'] ready_again [OF er_more(2)] er_more by simp
  ultimately show ?thesis using er_more by auto
qed

interpretation rrs: tidy_evstrm "next_evrrul fu zs" "er_pend fu zs" "er_good fu zs" for fu zs
proof
  fix s p assume "er_good fu zs s"
  then obtain es where es: "er_gives fu zs s es" "tidy es" by (auto simp: er_good_def)
  obtain s' where s': "next_evrrul fu zs s p = Some (front es, s')" "er_gives fu zs s' (if p then tl es else es)"
    using er_gives_next [OF es(1)] by blast
  moreover have "er_good fu zs s'" using s'(2) tidy_tl [OF es(2)] es(2) by (auto simp: er_good_def split: if_splits)
  ultimately show "\<exists>s'. next_evrrul fu zs s p = Some (front (er_pend fu zs s), s') \<and> er_good fu zs s' \<and>
      er_pend fu zs s' = (if p then tl (er_pend fu zs s) else er_pend fu zs s)"
    using er_pend_gives es(1) by metis
next
  fix s assume "er_good fu zs s"
  then obtain es where "er_gives fu zs s es" "tidy es" by (auto simp: er_good_def)
  then show "live (er_pend fu zs s)" "Evmux.tidy (er_pend fu zs s)" using er_pend_gives tidy_live by metis+
qed

section \<open>Daily rules\<close>

text \<open>A rule of FREQ=DAILY on the Gregorian scale with INTERVAL, COUNT and UNTIL only.\<close>

definition plain_daily :: "rrulsp \<Rightarrow> bool" where
  "plain_daily rr \<longleftrightarrow> rr_freq rr = FREQ_DAILY \<and> rr_scale rr = SCALE_GREGORIAN \<and> 1 \<le> rr_inter rr \<and> rr_inter rr \<le> 28 \<and>
     - 1 \<le> rr_count rr \<and> rr_count rr < 2147483648 \<and>
     bui31_list (rr_mon rr) = [] \<and> bi31_list (rr_dom rr) = [] \<and> \<not> wd_any (wd_mask_of (rr_dow rr)) \<and>
     bui31_list (rr_H rr) = [] \<and> bui63_list (rr_M rr) = [] \<and> bui63_list (rr_S rr) = []"

text \<open>\<open>x\<close> is the time of day of \<open>p\<close> on day number \<open>n\<close>.\<close>

definition on_day :: "instant \<Rightarrow> instant \<Rightarrow> int \<Rightarrow> bool" where
  "on_day x p n \<longleftrightarrow> (\<exists>y m d. x = p\<lparr>i_y := y, i_m := m, i_d := d\<rparr> \<and> valid_ymd y m d \<and> dayno y m d = n)"

text \<open>The rule has \<open>n\<close> instants from \<open>p\<close> on, all before 2100: COUNT or UNTIL end it.\<close>

definition daily_ends :: "rrulsp \<Rightarrow> instant \<Rightarrow> nat \<Rightarrow> bool" where
  "daily_ends rr p n \<longleftrightarrow> inst_day p + int n * rr_inter rr \<le> last_day \<and>
     (\<forall>i<n. \<forall>x. on_day x p (inst_day p + int i * rr_inter rr) \<longrightarrow> \<not> echs_instant_lt_p (rr_until rr) x) \<and>
     (rr_count rr = int n \<or> (rr_count rr < 0 \<or> int n < rr_count rr) \<and>
        (\<forall>x. on_day x p (inst_day p + int n * rr_inter rr) \<longrightarrow> echs_instant_lt_p (rr_until rr) x))"

lemma run_plain:
  assumes "\<forall>i<n. keep ((adv ^^ i) c) \<and> emit ((adv ^^ i) c) = ([x i], False)"
    "length acc + n \<le> nti" "length acc + n = nti \<or> keep ((adv ^^ n) c) \<and> emit ((adv ^^ n) c) = ([], True)" "n < fuel"
  shows "run fuel (tick_step keep emit adv nti) (c, acc) = Some (acc @ map x [0..<n])"
  using assms
proof (induction n arbitrary: c acc x fuel)
  case 0
  then show ?case by (cases fuel) (auto simp: tick_step_def)
next
  case (Suc n)
  have s: "(adv ^^ i) (adv c) = (adv ^^ Suc i) c" for i by (simp add: funpow_swap1)
  obtain fuel' where f: "fuel = Suc fuel'" using Suc.prems(4) by (cases fuel) auto
  have h: "keep c" "emit c = ([x 0], False)" using Suc.prems(1) by auto
  have "run fuel' (tick_step keep emit adv nti) (adv c, acc @ [x 0]) = Some ((acc @ [x 0]) @ map (\<lambda>i. x (Suc i)) [0..<n])"
    by (rule Suc.IH) (use Suc.prems f s in auto)
  moreover have "map x [0..<Suc n] = x 0 # map (\<lambda>i. x (Suc i)) [0..<n]" by (simp add: map_upt_Suc del: upt_Suc)
  ultimately show ?case using f h Suc.prems(2) by (simp add: tick_step_at tick_emit_def del: upt_Suc)
qed

lemma on_day_clock:
  assumes "plain_start p" "clock_ok c" "c_y c \<le> 2099"
  shows "on_day (clock_inst p c (i_H p, i_M p, i_S p)) p (clock_day c)"
proof -
  have v: "valid_ymd (c_y c) (c_m c) (c_d c)" "0 \<le> c_y c" using assms(2) by (auto simp: clock_ok_def)
  moreover have "c_m c < 256" "c_d c < 256" "0 \<le> c_m c" "0 \<le> c_d c"
    using v(1) get_mdays_range [of "c_m c" "c_y c"] by (auto simp: valid_ymd_def)
  ultimately have "clock_inst p c (i_H p, i_M p, i_S p) = p\<lparr>i_y := c_y c, i_m := c_m c, i_d := c_d c\<rparr>"
    using assms(1,3) by (simp add: clock_inst_def mk_inst_def plain_start_def inst_bits_def)
  then show ?thesis using v unfolding on_day_def clock_day_def by blast
qed

lemma plain_times:
  assumes "plain_daily rr" "plain_start p"
  shows "enum_HMS (make_enum p rr) = [(i_H p, i_M p, i_S p)]"
  using assms by (simp add: plain_daily_def make_enum_def Let_def enum_HMS_def enum_MS_def enum_S_def plain_start_def inst_bits_def)

lemma fill_plain_daily:
  assumes rr: "plain_daily rr" and p: "plain_start p" and n: "n \<le> clip_nti rr nti" "clip_nti rr nti \<noteq> 0" "n < fuel"
    and last: "inst_day p + int n * rr_inter rr \<le> last_day"
    and till: "\<And>i x. i < n \<Longrightarrow> on_day x p (inst_day p + int i * rr_inter rr) \<Longrightarrow> \<not> echs_instant_lt_p (rr_until rr) x"
    and stop: "n = clip_nti rr nti \<or> (\<forall>x. on_day x p (inst_day p + int n * rr_inter rr) \<longrightarrow> echs_instant_lt_p (rr_until rr) x)"
  shows "\<exists>r. rrul_fill_dly fuel p nti rr = Some r \<and> length r = n \<and> (\<forall>i<n. on_day (r ! i) p (inst_day p + int i * rr_inter rr))"
proof -
  let ?k = "rr_inter rr" and ?c = "mk_clock get_mdays (wday_greg (i_y p) (i_m p) (i_d p)) p 0 0 0"
  let ?t = "\<lambda>i. (adv_d SCALE_GREGORIAN ?k ^^ i) ?c"
  let ?x = "\<lambda>i. clock_inst p (?t i) (i_H p, i_M p, i_S p)"
  have k: "1 \<le> ?k" "?k \<le> 28" and sc: "rr_scale rr = SCALE_GREGORIAN" using rr by (auto simp: plain_daily_def)
  note f = plain_start_facts [OF p]
  have day: "clock_day ?c = inst_day p" by (simp add: clock_day_def mk_clock_def inst_day_def)
  have ok: "clock_ok ?c" by (rule f(3)) simp_all
  have lt: "clock_day ?c + int i * ?k < 1 * (last_day + 1)" if "i < Suc n" for i
  proof -
    have "int i * ?k \<le> int n * ?k" using that k by (intro mult_right_mono) auto
    then show ?thesis using last day unfolding mult_1 by linarith
  qed
  have rng: "clock_range clock_day 1 ?k ?c (Suc n)"
    using ok k p lt by (simp add: clock_range_def plain_start_def mk_clock_def)
  note t = daily_ticks [OF rng, unfolded day]
  have on: "on_day (?x i) p (inst_day p + int i * ?k)" if "i < Suc n" for i
    using on_day_clock [OF p, of "?t i"] t [OF that] by simp
  have keep: "day_ok rr (?t i)" if "i < Suc n" for i
    using t [OF that] rr by (subst day_masks) (auto simp: filter_range_def plain_daily_def)
  have cy: "c_y ?c = i_y p" by (simp add: mk_clock_def)
  have first: "\<not> echs_instant_lt_p (?x i) p" if "i < Suc n" for i
  proof -
    have "0 \<le> int i * ?k" using k by simp
    then show ?thesis
      using stamp_less [of "?t i" ?c p "(i_H p, i_M p, i_S p)" "(i_H p, i_M p, i_S p)"] t [OF that] ok p day cy
      unfolding plain_start_inst [OF p refl] by (auto simp: plain_start_def)
  qed
  have emit: "dly_emit p rr (?t i) = (if echs_instant_lt_p (rr_until rr) (?x i) then ([], True) else ([?x i], False))"
    if "i < Suc n" for i
    using first [OF that] by (simp add: dly_emit_def plain_times [OF rr p])
  have "run fuel (tick_step (day_ok rr) (dly_emit p rr) (adv_d SCALE_GREGORIAN ?k) (clip_nti rr nti)) (?c, []) = Some ([] @ map ?x [0..<n])"
  proof (rule run_plain)
    show "\<forall>i<n. day_ok rr (?t i) \<and> dly_emit p rr (?t i) = ([?x i], False)"
      using keep emit on till by (auto simp: less_Suc_eq)
    show "length [] + n = clip_nti rr nti \<or> day_ok rr (?t n) \<and> dly_emit p rr (?t n) = ([], True)"
      using stop keep [of n] emit [of n] on [of n] by auto
  qed (use n in auto)
  then have run: "run fuel (tick_step (day_ok rr) (dly_emit p rr) (adv_d SCALE_GREGORIAN ?k) (clip_nti rr nti)) (?c, []) = Some (map ?x [0..<n])"
    by simp
  have att: "echs_instant_attach_scale (?x i) SCALE_GREGORIAN = ?x i" if "i < n" for i
  proof -
    have "0 \<le> i_y (?x i)" "i_y (?x i) < 4096" using t [of i] that by (simp_all add: clock_inst_def mk_inst_def)
    then show ?thesis by (simp add: echs_instant_attach_scale_def echs_instant_detach_scale_def scale_mux_def Let_def)
  qed
  have "rrul_fill_dly fuel p nti rr = Some (map ?x [0..<n])"
    using run n(2) f(1) rr att unfolding rrul_fill_dly_def Let_def f(2) [OF sc] sc ndom_mdays echs_scale_wday_def
    by (simp add: plain_daily_def cong: map_cong)
  then show ?thesis using on by (intro exI [of _ "map ?x [0..<n]"]) simp
qed

lemma cch_write_daily:
  "length cch = 128 \<Longrightarrow> j + length r \<le> 64 \<Longrightarrow>
    \<exists>cch'. cch_write j (map (\<lambda>x. (x, Some x)) r) cch = Some cch' \<and> length cch' = 128 \<and>
      (\<forall>i<length r. cch' ! (j + i) = r ! i \<and> cch' ! (j + i + 64) = r ! i) \<and> (\<forall>i<j. cch' ! i = cch ! i \<and> cch' ! (i + 64) = cch ! (i + 64))"
proof (induction r arbitrary: j cch)
  case (Cons x r)
  let ?cch = "cch[j + 64 := x, j := x]"
  obtain cch' where c: "cch_write (j + 1) (map (\<lambda>x. (x, Some x)) r) ?cch = Some cch'" "length cch' = 128"
    "\<forall>i<length r. cch' ! (j + 1 + i) = r ! i \<and> cch' ! (j + 1 + i + 64) = r ! i"
    "\<forall>i<j + 1. cch' ! i = ?cch ! i \<and> cch' ! (i + 64) = ?cch ! (i + 64)"
    using Cons.IH [of ?cch "j + 1"] Cons.prems by auto
  have "cch' ! (j + i) = (x # r) ! i \<and> cch' ! (j + i + 64) = (x # r) ! i" if "i < length (x # r)" for i
    using c(3,4) that Cons.prems by (cases i) (auto simp: nth_list_update)
  moreover have "cch' ! i = cch ! i \<and> cch' ! (i + 64) = cch ! (i + 64)" if "i < j" for i
    using c(4) that Cons.prems by (auto simp: nth_list_update)
  ultimately show ?case using c(1,2) Cons.prems by (intro exI [of _ cch']) (simp add: GRP_CCH_OFF_def)
qed simp

definition steady :: "zones \<Rightarrow> int \<Rightarrow> int \<Rightarrow> bool" where
  "steady zs zon pof \<longleftrightarrow> (\<forall>i. echs_instant_tzof zs i zon = Some pof)"

lemma utcify_steady: "steady zs zon pof \<Longrightarrow> utcify zs zon pof xs = Some xs"
  by (induction xs) (auto simp: steady_def)

lemma on_day_start: "plain_start p \<Longrightarrow> on_day x p n \<Longrightarrow> n \<le> last_day \<Longrightarrow> inst_day p \<le> n \<Longrightarrow> plain_start x \<and> inst_day x = n"
proof -
  assume p: "plain_start p" "on_day x p n" "n \<le> last_day" "inst_day p \<le> n"
  then obtain y m d where x: "x = p\<lparr>i_y := y, i_m := m, i_d := d\<rparr>" "valid_ymd y m d" "dayno y m d = n" by (auto simp: on_day_def)
  have v: "valid_ymd (i_y p) (i_m p) (i_d p)" "1901 \<le> i_y p" using valid_start [OF p(1)] by auto
  have "i_y p \<le> y" using later_year [OF x(2) v(1)] p(4) x(3) by (simp add: inst_day_def)
  moreover have "valid_ymd 2099 12 31" by (simp add: valid_ymd_def get_mdays_def mdays_def)
  then have "y \<le> 2099" using dayno_less_iff [of 2099 12 31 y m d] x(2,3) p(3) by (auto simp: not_less [symmetric])
  moreover have "1 \<le> m" "m \<le> 12" "1 \<le> d" "d \<le> 31"
    using x(2) get_mdays_range [of m y] by (auto simp: valid_ymd_def)
  ultimately show ?thesis using p(1) x v by (simp add: plain_start_def inst_bits_def inst_day_def)
qed

lemma on_day_trans: "on_day x p n \<Longrightarrow> on_day z x k \<longleftrightarrow> on_day z p k"
proof -
  assume "on_day x p n"
  then obtain y m d where "x = p\<lparr>i_y := y, i_m := m, i_d := d\<rparr>" by (auto simp: on_day_def)
  then show ?thesis by (simp add: on_day_def)
qed

lemma on_day_rescale: "plain_start x \<Longrightarrow> echs_instant_rescale x SCALE_GREGORIAN = x"
proof -
  assume p: "plain_start x"
  then have v: "1 \<le> i_m x" "i_m x \<le> 12" "1 \<le> i_d x" "i_d x \<le> get_mdays (i_y x) (i_m x)" "1901 \<le> i_y x" "i_y x \<le> 2099" "inst_bits x"
    by (auto simp: plain_start_def valid_ymd_def)
  then have "i_d x \<le> 31" using get_mdays_range(2) [OF v(1,2), of "i_y x"] by simp
  moreover have "echs_instant_scale x = SCALE_GREGORIAN" using inst_bits_scale [OF v(7)] v(5,6) by simp
  ultimately show ?thesis using v by (simp add: echs_instant_rescale_def echs_instant_detach_scale_def
        echs_instant_detach_tzob_def echs_instant_attach_tzob_def echs_instant_attach_scale_def echs_instant_tzob_def
        scale_mux_def Let_def)
qed

lemma plain_not_nul: "plain_start x \<Longrightarrow> \<not> echs_nul_instant_p x"
  by (auto simp: plain_start_def echs_nul_instant_p_def inst_u_def inst_bits_def inst_dpart_def)

lemma on_day_less:
  assumes p: "plain_start p" and x: "on_day x p n" "on_day z p k" and n: "inst_day p \<le> n" "n < k" "k \<le> last_day"
  shows "echs_instant_lt_p x z"
proof -
  have s: "plain_start x" "inst_day x = n" "plain_start z" "inst_day z = k"
    using on_day_start [OF p x(1)] on_day_start [OF p x(2)] n by auto
  have t: "i_H x = i_H z" "i_M x = i_M z" "i_S x = i_S z" "i_ms x = i_ms z" using x by (auto simp: on_day_def)
  let ?c = "\<lambda>x. mk_clock get_mdays (wday_greg (i_y x) (i_m x) (i_d x)) x 0 0 0"
  have o: "clock_ok (?c x)" "clock_ok (?c z)" using plain_start_facts(3) [OF s(1)] plain_start_facts(3) [OF s(3)] by auto
  have "clock_inst x (?c x) (i_H x, i_M x, i_S x) = x" "clock_inst x (?c z) (i_H z, i_M z, i_S z) = z"
    using plain_start_inst [OF s(1) refl] plain_start_inst [OF s(3) refl] t by (simp_all add: clock_inst_def)
  moreover have "clock_day (?c x) = n" "clock_day (?c z) = k" using s by (simp_all add: clock_day_def mk_clock_def inst_day_def)
  ultimately show ?thesis
    using stamp_less [OF o, of x "(i_H x, i_M x, i_S x)" "(i_H z, i_M z, i_S z)"] s(1,3) n(2)
    by (simp add: mk_clock_def plain_start_def)
qed

lemma on_days_sorted:
  assumes p: "plain_start p" and k: "1 \<le> k" and last: "inst_day p + int n * k \<le> last_day" and "length r \<le> n"
    and r: "\<forall>i<length r. on_day (r ! i) p (inst_day p + int i * k)"
  shows "echs_instant_sort r = r"
proof -
  have "sorted_wrt echs_instant_lt_p r" unfolding sorted_wrt_iff_nth_less
  proof (intro allI impI)
    fix i j assume ij: "i < j" "j < length r"
    have le: "int j * k \<le> int n * k" "int i * k < int j * k" "0 \<le> int i * k"
      using ij assms(4) k by (auto intro: mult_right_mono)
    have "i < length r" using ij by simp
    with r ij have on: "on_day (r ! i) p (inst_day p + int i * k)" "on_day (r ! j) p (inst_day p + int j * k)" by blast+
    show "echs_instant_lt_p (r ! i) (r ! j)" by (rule on_day_less [OF p on]) (use le last in linarith)+
  qed
  then have "sorted_wrt (\<lambda>x y. inst_u (inst_up x) \<le> inst_u (inst_up y)) r"
    by (rule sorted_wrt_mono_rel [rotated]) (simp add: echs_instant_lt_p_def)
  then have "sorted (map (\<lambda>i. inst_u (inst_up i)) r)" by (simp only: sorted_map)
  then show ?thesis by (simp add: echs_instant_sort_def sort_key_id_if_sorted)
qed

text \<open>The stream at a refill, with \<open>n\<close> instants to come.\<close>

definition er_fresh :: "(rrulsp \<Rightarrow> instant \<Rightarrow> nat) \<Rightarrow> zones \<Rightarrow> evrrul \<Rightarrow> nat \<Rightarrow> bool" where
  "er_fresh fu zs s n \<longleftrightarrow> er_ncch s \<le> er_rdi s \<and> plain_daily (er_rrul s) \<and> plain_start (ev_from (er_e s)) \<and>
     er_cal s = SCALE_GREGORIAN \<and> steady zs (er_zon s) (er_pof s) \<and> length (er_cch s) = 128 \<and>
     (\<forall>rr p. 65 \<le> fu rr p) \<and> daily_ends (er_rrul s) (ev_from (er_e s)) n"

lemma clip_daily:
  assumes "plain_daily rr" "daily_ends rr p n" "rr_count rr \<noteq> 0"
  shows "clip_nti rr 64 \<noteq> 0" "min n 64 \<le> clip_nti rr 64" "64 \<le> n \<Longrightarrow> clip_nti rr 64 = 64"
    "n < 64 \<Longrightarrow> n = clip_nti rr 64 \<or> (\<forall>x. on_day x p (inst_day p + int n * rr_inter rr) \<longrightarrow> echs_instant_lt_p (rr_until rr) x)"
proof -
  have c: "- 1 \<le> rr_count rr" "rr_count rr < 2147483648" using assms(1) by (auto simp: plain_daily_def)
  have n: "rr_count rr = int n \<or> rr_count rr < 0 \<or> int n < rr_count rr"
    "rr_count rr = int n \<or> (\<forall>x. on_day x p (inst_day p + int n * rr_inter rr) \<longrightarrow> echs_instant_lt_p (rr_until rr) x)"
    using assms(2) by (auto simp: daily_ends_def)
  have u: "u32 (rr_count rr) = (if rr_count rr < 0 then 4294967295 else rr_count rr)"
  proof (cases "rr_count rr < 0")
    case True
    then have "rr_count rr = - 1" using c by simp
    then show ?thesis by (simp add: u32_def)
  qed (use c in \<open>simp add: u32_id\<close>)
  show "clip_nti rr 64 \<noteq> 0" "min n 64 \<le> clip_nti rr 64" "64 \<le> n \<Longrightarrow> clip_nti rr 64 = 64"
    using n(1) assms(3) c by (auto simp: clip_nti_def u)
  show "n < 64 \<Longrightarrow> n = clip_nti rr 64 \<or> (\<forall>x. on_day x p (inst_day p + int n * rr_inter rr) \<longrightarrow> echs_instant_lt_p (rr_until rr) x)"
    using n by (auto simp: clip_nti_def u)
qed

text \<open>One refill: the cache holds the next instants, up to 63, and the proto-instant the one after them.\<close>

lemma refill_daily:
  assumes f: "er_fresh fu zs s n" and c: "rr_count (er_rrul s) \<noteq> 0"
  defines "p \<equiv> ev_from (er_e s)" and "k \<equiv> rr_inter (er_rrul s)" and "m \<equiv> (if 64 \<le> n then 63 else n)"
  obtains t where "refill fu zs s = Some (m, t)" "er_ncch t = m" "er_rdi t = er_rdi s" "er_cal t = er_cal s" "er_zon t = er_zon s"
    "er_pof t = er_pof s" "length (er_cch t) = 128" "\<forall>x. (er_e t)\<lparr>ev_from := x, ev_grp := x\<rparr> = (er_e s)\<lparr>ev_from := x, ev_grp := x\<rparr>"
    "\<forall>i<m. on_day (er_cch t ! i) p (inst_day p + int i * k) \<and> er_cch t ! (i + 64) = er_cch t ! i"
    "if 64 \<le> n then on_day (ev_from (er_e t)) p (inst_day p + 63 * k) else echs_nul_instant_p (ev_from (er_e t))"
    "er_rrul t = (er_rrul s)\<lparr>rr_count := if 0 < rr_count (er_rrul s) then rr_count (er_rrul s) - int m else rr_count (er_rrul s)\<rparr>"
proof -
  let ?rr = "er_rrul s" and ?n = "min n 64"
  have rr: "plain_daily ?rr" and p: "plain_start p" and cal: "er_cal s = SCALE_GREGORIAN" and st: "steady zs (er_zon s) (er_pof s)"
    and len: "length (er_cch s) = 128" and fu: "65 \<le> fu ?rr p" and e: "daily_ends ?rr p n"
    using f by (auto simp: er_fresh_def p_def)
  have k: "1 \<le> k" using rr by (auto simp: plain_daily_def k_def)
  have le: "int i * k \<le> int n * k" if "i \<le> n" for i using that k by (intro mult_right_mono) auto
  have last: "inst_day p + int n * k \<le> last_day" using e by (simp add: daily_ends_def k_def)
  have last': "inst_day p + int i * k \<le> last_day" if "i \<le> n" for i using last le [OF that] by linarith
  note cl = clip_daily [OF rr e c]
  have "\<exists>r. rrul_fill_dly (fu ?rr p) p 64 ?rr = Some r \<and> length r = ?n \<and> (\<forall>i<?n. on_day (r ! i) p (inst_day p + int i * k))"
    unfolding k_def
  proof (rule fill_plain_daily [OF rr p cl(2,1)])
    show "?n < fu ?rr p" using fu by simp
    show "inst_day p + int ?n * rr_inter ?rr \<le> last_day" using last' [of ?n] by (simp add: k_def)
    show "\<And>i x. i < ?n \<Longrightarrow> on_day x p (inst_day p + int i * rr_inter ?rr) \<Longrightarrow> \<not> echs_instant_lt_p (rr_until ?rr) x"
      using e by (auto simp: daily_ends_def)
    show "?n = clip_nti ?rr 64 \<or> (\<forall>x. on_day x p (inst_day p + int ?n * rr_inter ?rr) \<longrightarrow> echs_instant_lt_p (rr_until ?rr) x)"
      using cl(3,4) by (cases "64 \<le> n") auto
  qed
  then obtain r where r: "rrul_fill_dly (fu ?rr p) p 64 ?rr = Some r" "length r = ?n" "\<forall>i<?n. on_day (r ! i) p (inst_day p + int i * k)"
    by blast
  let ?cch = "replicate 64 p @ drop 64 (er_cch s)"
  have fill: "rrul_fill fu ?cch 64 ?rr = Some (map (\<lambda>x. (x, Some x)) r)"
    using r(1) rr by (simp add: rrul_fill_def Let_def plain_daily_def nth_append)
  obtain cch where w: "cch_write 0 (map (\<lambda>x. (x, Some x)) r) ?cch = Some cch" "length cch = 128"
    "\<forall>i<length r. cch ! i = r ! i \<and> cch ! (i + 64) = r ! i"
    using cch_write_daily [of ?cch 0 r] len r(2) by auto
  have m: "m \<le> length r" "m \<le> n" "m < 64" using r(2) by (auto simp: m_def)
  have take: "take m cch = take m r"
  proof (rule nth_equalityI)
    fix i assume "i < length (take m cch)"
    then have "i < m" by simp
    then show "take m cch ! i = take m r ! i" using w(3) m(1) by simp
  qed (use w(2) m in simp)
  have pl: "plain_start (r ! i)" if "i < m" for i
    using on_day_start [OF p, of "r ! i" "inst_day p + int i * k"] r(3) that m last' [of i] k by simp
  have scaled: "map (\<lambda>x. echs_instant_rescale x (er_cal s)) (take m r) = take m r"
    using pl m(1) by (intro map_idI) (auto simp: in_set_conv_nth cal on_day_rescale)
  have sorted: "echs_instant_sort (take m r) = take m r"
    by (rule on_days_sorted [OF p k last]) (use r(3) m r(2) in auto)
  define t where "t = s\<lparr>er_e := (er_e s)\<lparr>ev_from := if 64 \<le> n then r ! 63 else echs_nul_instant\<rparr>,
    er_rrul := ?rr\<lparr>rr_count := if 0 < rr_count ?rr then rr_count ?rr - int m else rr_count ?rr\<rparr>, er_ncch := m,
    er_cch := take m r @ drop m cch\<rparr>"
  have nn: "\<not> echs_nul_instant_p (ev_from (er_e s))" using plain_not_nul [OF p] by (simp add: p_def)
  have "refill fu zs s = Some (m, t)"
  proof (cases "m = 0")
    case True
    then have "n = 0" "r = []" using r(2) by (auto simp: m_def split: if_splits)
    then show ?thesis using nn c fill w(1) True
      by (simp add: refill_def Let_def GRP_CCH_OFF_def flip: p_def) (simp add: t_def)
  next
    case m0: False
    show ?thesis
    proof (cases "64 \<le> n")
      case True
      then have "length r = 64" "m = 63" using r(2) by (simp_all add: m_def)
      moreover have "0 < rr_count ?rr \<Longrightarrow> 63 < rr_count ?rr" using e True by (auto simp: daily_ends_def)
      ultimately show ?thesis using nn c fill w utcify_steady [OF st] scaled sorted take True
        by (simp add: refill_def Let_def GRP_CCH_OFF_def flip: p_def) (simp add: t_def)
    next
      case False
      then have "length r = n" "m = n" using r(2) by (simp_all add: m_def)
      moreover have "0 < rr_count ?rr \<Longrightarrow> \<not> int n < rr_count ?rr \<Longrightarrow> rr_count ?rr = int n" using e by (auto simp: daily_ends_def)
      ultimately show ?thesis using nn c fill w utcify_steady [OF st] scaled sorted take False m0
        by (simp add: refill_def Let_def GRP_CCH_OFF_def flip: p_def) (simp add: t_def)
    qed
  qed
  moreover have "\<forall>i<m. on_day (er_cch t ! i) p (inst_day p + int i * k) \<and> er_cch t ! (i + 64) = er_cch t ! i"
    using r(2,3) w(2,3) m by (auto simp: t_def nth_append)
  moreover have "if 64 \<le> n then on_day (ev_from (er_e t)) p (inst_day p + 63 * k) else echs_nul_instant_p (ev_from (er_e t))"
    using r(3) [rule_format, of 63] by (auto simp: t_def)
  ultimately show thesis using that [of t] w(2) m r(2) by (simp add: t_def min_def)
qed

text \<open>The events of \<open>n\<close> instants, \<open>k\<close> days apart from \<open>p\<close> on, each its own group.\<close>

definition daily_events :: "event \<Rightarrow> instant \<Rightarrow> int \<Rightarrow> nat \<Rightarrow> event list \<Rightarrow> bool" where
  "daily_events e p k n es \<longleftrightarrow> length es = n \<and>
     (\<forall>i<n. \<exists>x. on_day x p (inst_day p + int i * k) \<and> es ! i = e\<lparr>ev_from := x, ev_grp := x\<rparr>)"

lemma er_gives_ready: "er_ready fu zs s = Some (Suc n, t) \<Longrightarrow> er_gives fu zs t es \<Longrightarrow> er_gives fu zs s es"
proof -
  assume s: "er_ready fu zs s = Some (Suc n, t)" and g: "er_gives fu zs t es"
  note t = ready_again [OF s]
  from g show ?thesis
  proof (cases rule: er_gives.cases)
    case (er_end t')
    then show ?thesis using t by (simp add: er_ready_def)
  next
    case (er_more n' t' es')
    then show ?thesis using t er_gives.er_more [OF s] by simp
  qed
qed

lemma er_gives_cached:
  assumes "j \<le> er_ncch t" "\<forall>i<er_ncch t. \<not> echs_nul_event_p (er_front (t\<lparr>er_rdi := i\<rparr>))" "er_gives fu zs (t\<lparr>er_rdi := er_ncch t\<rparr>) es"
  shows "er_gives fu zs (t\<lparr>er_rdi := j\<rparr>) (map (\<lambda>i. er_front (t\<lparr>er_rdi := i\<rparr>)) [j..<er_ncch t] @ es)"
  using assms(1)
proof (induction "er_ncch t - j" arbitrary: j)
  case (Suc d)
  then have j: "j < er_ncch t" by simp
  have r: "er_ready fu zs (t\<lparr>er_rdi := j\<rparr>) = Some (Suc 0, t\<lparr>er_rdi := j\<rparr>)" using j by (simp add: er_ready_def)
  have "er_gives fu zs (t\<lparr>er_rdi := Suc j\<rparr>) (map (\<lambda>i. er_front (t\<lparr>er_rdi := i\<rparr>)) [Suc j..<er_ncch t] @ es)"
    using Suc.hyps(2) j by (intro Suc.hyps(1)) auto
  then show ?case using er_gives.er_more [OF r] assms(2) j by (simp add: upt_conv_Cons)
qed (use assms(1,3) in simp)

lemma daily_gives:
  "er_fresh fu zs s n \<Longrightarrow> \<exists>es. er_gives fu zs s es \<and>
     daily_events (er_e s) (ev_from (er_e s)) (rr_inter (er_rrul s)) n es"
proof (induction n arbitrary: s rule: less_induct)
  case (less n)
  let ?p = "ev_from (er_e s)" and ?k = "rr_inter (er_rrul s)"
  note f = less.prems
  have p: "plain_start ?p" and e: "daily_ends (er_rrul s) ?p n" and rr: "plain_daily (er_rrul s)" and rdi: "er_ncch s \<le> er_rdi s"
    using f by (auto simp: er_fresh_def)
  have k: "1 \<le> ?k" using rr by (simp add: plain_daily_def)
  have last: "inst_day ?p + int i * ?k \<le> last_day" if "i \<le> n" for i
  proof -
    have "int i * ?k \<le> int n * ?k" using that k by (intro mult_right_mono) auto
    then show ?thesis using e unfolding daily_ends_def by linarith
  qed
  show ?case
  proof (cases "rr_count (er_rrul s) = 0")
    case True
    then have "n = 0" using e by (auto simp: daily_ends_def)
    moreover have "refill fu zs s = Some (0, s)" using True by (simp add: refill_def Let_def)
    ultimately show ?thesis using er_gives.er_end [OF rdi] by (auto simp: daily_events_def)
  next
    case False
    define m where "m = (if 64 \<le> n then 63 else n)"
    obtain t where t: "refill fu zs s = Some (m, t)" "er_ncch t = m" "er_rdi t = er_rdi s" "er_cal t = er_cal s" "er_zon t = er_zon s"
      "er_pof t = er_pof s" "length (er_cch t) = 128" "\<forall>x. (er_e t)\<lparr>ev_from := x, ev_grp := x\<rparr> = (er_e s)\<lparr>ev_from := x, ev_grp := x\<rparr>"
      "\<forall>i<m. on_day (er_cch t ! i) ?p (inst_day ?p + int i * ?k) \<and> er_cch t ! (i + 64) = er_cch t ! i"
      "if 64 \<le> n then on_day (ev_from (er_e t)) ?p (inst_day ?p + 63 * ?k) else echs_nul_instant_p (ev_from (er_e t))"
      "er_rrul t = (er_rrul s)\<lparr>rr_count := if 0 < rr_count (er_rrul s) then rr_count (er_rrul s) - int m else rr_count (er_rrul s)\<rparr>"
      unfolding m_def by (rule refill_daily [OF f False])
    define h where "h = map (\<lambda>i. er_front (t\<lparr>er_rdi := i\<rparr>)) [0..<m]"
    have front: "er_front (t\<lparr>er_rdi := i\<rparr>) = (er_e s)\<lparr>ev_from := er_cch t ! i, ev_grp := er_cch t ! i\<rparr>" if "i < m" for i
      using t(8,9) that by (simp add: er_front_def GRP_CCH_OFF_def)
    have mn: "m \<le> n" by (simp add: m_def)
    have live: "\<forall>i<er_ncch t. \<not> echs_nul_event_p (er_front (t\<lparr>er_rdi := i\<rparr>))"
    proof (intro allI impI)
      fix i assume "i < er_ncch t"
      then have i: "i < m" using t(2) by simp
      then have "plain_start (er_cch t ! i)"
        using on_day_start [OF p, of "er_cch t ! i" "inst_day ?p + int i * ?k"] t(9) last [of i] mn k by simp
      then show "\<not> echs_nul_event_p (er_front (t\<lparr>er_rdi := i\<rparr>))" using front [OF i] plain_not_nul by (simp add: echs_nul_event_p_def)
    qed
    have "\<exists>es. er_gives fu zs (t\<lparr>er_rdi := m\<rparr>) es \<and> length es = n - m \<and>
      (\<forall>i<n - m. \<exists>x. on_day x ?p (inst_day ?p + int (m + i) * ?k) \<and> es ! i = (er_e s)\<lparr>ev_from := x, ev_grp := x\<rparr>)"
    proof (cases "64 \<le> n")
      case True
      then have m: "m = 63" by (simp add: m_def)
      let ?q = "ev_from (er_e t)" and ?t = "t\<lparr>er_rdi := m\<rparr>"
      have on: "on_day ?q ?p (inst_day ?p + 63 * ?k)" using True t(10) by simp
      have q: "plain_start ?q" "inst_day ?q = inst_day ?p + 63 * ?k"
        using on_day_start [OF p on] last [of 63] True k by simp_all
      have sh: "inst_day ?q + int i * ?k = inst_day ?p + int (63 + i) * ?k" for i unfolding q(2) by (simp add: algebra_simps)
      have tr: "on_day x ?q j \<longleftrightarrow> on_day x ?p j" for x j by (rule on_day_trans [OF on])
      have rt: "rr_inter (er_rrul t) = ?k" "rr_until (er_rrul t) = rr_until (er_rrul s)" using t(11) by simp_all
      have n63: "63 + (n - 63) = n" using True by simp
      have "\<not> echs_instant_lt_p (rr_until (er_rrul s)) x"
        if "i < n - 63" "on_day x ?p (inst_day ?p + int (63 + i) * ?k)" for i x
        using e that unfolding daily_ends_def by (auto dest!: spec [of _ "63 + i"])
      then have "daily_ends (er_rrul t) ?q (n - 63)"
        unfolding daily_ends_def rt sh tr n63
        using e t(11) m True by (auto simp: daily_ends_def simp del: of_nat_add)
      moreover have "plain_daily (er_rrul t)" using rr t(11) e True m by (auto simp: plain_daily_def daily_ends_def)
      ultimately have "er_fresh fu zs ?t (n - 63)" using f t q(1) by (simp add: er_fresh_def)
      from less.IH [OF _ this] obtain es where es: "er_gives fu zs ?t es" "daily_events (er_e t) ?q ?k (n - 63) es"
        using True rt by auto
      then have "\<forall>i<n - m. \<exists>x. on_day x ?p (inst_day ?p + int (m + i) * ?k) \<and> es ! i = (er_e s)\<lparr>ev_from := x, ev_grp := x\<rparr>"
        unfolding daily_events_def sh tr t(8) [rule_format] m by blast
      then show ?thesis using es m by (auto simp: daily_events_def)
    next
      case F: False
      then have "er_gives fu zs (t\<lparr>er_rdi := m\<rparr>) []"
        using t(2,10) by (intro er_gives.er_end [of _ _ _ "t\<lparr>er_rdi := m\<rparr>"]) (simp_all add: refill_def Let_def)
      then show ?thesis using F by (intro exI [of _ "[]"]) (simp add: m_def)
    qed
    then obtain es where es: "er_gives fu zs (t\<lparr>er_rdi := m\<rparr>) es" "length es = n - m"
      "\<forall>i<n - m. \<exists>x. on_day x ?p (inst_day ?p + int (m + i) * ?k) \<and> es ! i = (er_e s)\<lparr>ev_from := x, ev_grp := x\<rparr>" by blast
    have "daily_events (er_e s) ?p ?k n (h @ es)" unfolding daily_events_def
    proof (intro conjI allI impI)
      fix i assume i: "i < n"
      show "\<exists>x. on_day x ?p (inst_day ?p + int i * ?k) \<and> (h @ es) ! i = (er_e s)\<lparr>ev_from := x, ev_grp := x\<rparr>"
      proof (cases "i < m")
        case True
        then show ?thesis using front t(9) by (intro exI [of _ "er_cch t ! i"]) (simp add: h_def nth_append)
      next
        case F: False
        then show ?thesis using es(3) [rule_format, of "i - m"] i by (simp add: h_def nth_append)
      qed
    qed (use es(2) mn in \<open>simp add: h_def\<close>)
    moreover have "er_gives fu zs s (h @ es)"
    proof (cases m)
      case 0
      then have "n = 0" by (auto simp: m_def split: if_splits)
      then show ?thesis using er_gives.er_end [OF rdi] t(1) 0 es(2) by (simp add: h_def)
    next
      case (Suc m')
      have "er_ready fu zs s = Some (Suc m', t\<lparr>er_rdi := 0\<rparr>)" using t(1) rdi Suc by (simp add: er_ready_def)
      moreover have "er_gives fu zs (t\<lparr>er_rdi := 0\<rparr>) (h @ es)"
        using er_gives_cached [of 0 t fu zs es] live es(1) t(2) by (simp add: h_def)
      ultimately show ?thesis by (rule er_gives_ready)
    qed
    ultimately show ?thesis by blast
  qed
qed

lemma daily_from: "daily_events e p k n es \<Longrightarrow> i < n \<Longrightarrow> on_day (ev_from (es ! i)) p (inst_day p + int i * k)"
proof -
  assume a: "daily_events e p k n es" "i < n"
  then obtain x where x: "on_day x p (inst_day p + int i * k)" "es ! i = e\<lparr>ev_from := x, ev_grp := x\<rparr>"
    by (auto simp: daily_events_def)
  have "ev_from (es ! i) = x" unfolding x(2) by simp
  then show ?thesis using x(1) by simp
qed

lemma daily_sorted:
  assumes d: "daily_events e p k n es" and p: "plain_start p" "1 \<le> k" and last: "inst_day p + int n * k \<le> last_day" and "i < j" "j < n"
  shows "ev_key (es ! i) < ev_key (es ! j)"
proof -
  have "int i * k < int j * k" "int j * k \<le> int n * k" "0 \<le> int i * k"
    using assms(5,6) p(2) by (auto intro: mult_right_mono)
  moreover have "on_day (ev_from (es ! i)) p (inst_day p + int i * k)" "on_day (ev_from (es ! j)) p (inst_day p + int j * k)"
    using daily_from [OF d] assms(5,6) by auto
  ultimately have "echs_instant_lt_p (ev_from (es ! i)) (ev_from (es ! j))"
    using on_day_less [OF p(1)] last by (smt (verit))
  then show ?thesis by (simp add: echs_instant_lt_p_def ev_key_def)
qed

lemma daily_start:
  assumes d: "daily_events e p k n es" and p: "plain_start p" "1 \<le> k" and last: "inst_day p + int n * k \<le> last_day" and "i < n"
  shows "plain_start (ev_from (es ! i))"
proof -
  have "int i * k \<le> int n * k" "0 \<le> int i * k" using assms(5) p(2) by (auto intro: mult_right_mono)
  then show ?thesis using on_day_start [OF p(1) daily_from [OF d assms(5)]] last by simp
qed

lemma tidy_nth:
  "(\<forall>i<length es. inst_bits (ev_from (es ! i)) \<and> \<not> echs_nul_event_p (es ! i)) \<Longrightarrow>
   (\<forall>i j. i < j \<longrightarrow> j < length es \<longrightarrow> ev_key (es ! i) < ev_key (es ! j)) \<Longrightarrow> tidy es"
proof (induction es)
  case (Cons e es)
  have b: "inst_bits (ev_from e)" "\<not> echs_nul_event_p e" using Cons.prems(1) by auto
  have "tidy es"
  proof (rule Cons.IH)
    show "\<forall>i<length es. inst_bits (ev_from (es ! i)) \<and> \<not> echs_nul_event_p (es ! i)"
      using Cons.prems(1) by (metis Suc_less_eq length_Cons nth_Cons_Suc)
    show "\<forall>i j. i < j \<longrightarrow> j < length es \<longrightarrow> ev_key (es ! i) < ev_key (es ! j)"
      using Cons.prems(2) by (metis Suc_less_eq length_Cons nth_Cons_Suc)
  qed
  moreover have "ev_key e \<le> ev_key (hd es) \<and> \<not> echs_event_eq_p (hd es) e" if "es \<noteq> []"
  proof -
    have l: "ev_key e < ev_key (hd es)" "inst_bits (ev_from (hd es))"
      using Cons.prems(1) [rule_format, of 1] Cons.prems(2) [rule_format, of 0 1] that by (simp_all add: hd_conv_nth)
    then show ?thesis using event_eq_key [of "hd es" e] b(1) by auto
  qed
  ultimately show ?case using b by (simp add: tidy_Cons)
qed simp

lemma daily_tidy:
  assumes "daily_events e p k n es" "plain_start p" "1 \<le> k" "inst_day p + int n * k \<le> last_day"
  shows "tidy es"
proof (rule tidy_nth)
  have n: "length es = n" using assms(1) by (simp add: daily_events_def)
  show "\<forall>i<length es. inst_bits (ev_from (es ! i)) \<and> \<not> echs_nul_event_p (es ! i)"
    using daily_start [OF assms] n plain_not_nul by (auto simp: plain_start_def echs_nul_event_p_def)
  show "\<forall>i j. i < j \<longrightarrow> j < length es \<longrightarrow> ev_key (es ! i) < ev_key (es ! j)"
    using daily_sorted [OF assms] n by simp
qed

text \<open>A start without a zone makes a stream without one.\<close>

lemma plain_no_zone: "plain_start p \<Longrightarrow> echs_instant_tzob p = 0"
proof -
  assume "plain_start p"
  then have "1 \<le> i_m p" "i_m p \<le> 12" "1 \<le> i_d p" "i_d p \<le> 31"
    using get_mdays_range [of "i_m p" "i_y p"] by (auto simp: plain_start_def valid_ymd_def)
  then show ?thesis by (simp add: echs_instant_tzob_def)
qed

lemma plain_scale: "plain_start p \<Longrightarrow> echs_instant_scale p = SCALE_GREGORIAN"
  using inst_bits_scale [of p] by (auto simp: plain_start_def)

text \<open>The tag 0 is UTC and has no file.\<close>

definition utc_only :: "zones \<Rightarrow> bool" where
  "utc_only zs \<longleftrightarrow> zs 0 = None"

lemma steady_utc: "utc_only zs \<Longrightarrow> steady zs 0 0"
  by (simp add: utc_only_def steady_def echs_instant_tzof_def echs_tzob_offs_def Let_def)

lemma make_daily:
  assumes rr: "plain_daily rr" and p: "plain_start (ev_from e)" and ends: "daily_ends rr (ev_from e) n"
    and fu: "\<forall>rr p. 65 \<le> fu rr p" and zs: "utc_only zs"
  shows "\<exists>s es. make_evrrul junk zs e [rr] = Some (Mux_one s, zs) \<and> er_good fu zs s \<and> er_pend fu zs s = es \<and>
    daily_events e (ev_from e) (rr_inter rr) n es"
proof -
  let ?s = "\<lparr>er_e = e, er_zon = 0, er_cal = SCALE_GREGORIAN, er_pof = 0, er_rrul = rr, er_rdi = 0, er_ncch = 0,
    er_cch = replicate (2 * GRP_CCH_OFF) (mk_inst 0 0 0 0 0 0 0)\<rparr>"
  have "make_evrrul junk zs e [rr] = Some (Mux_one ?s, zs)"
    using p steady_utc [OF zs] plain_no_zone [OF p]
    by (simp add: make_evrrul_def plain_scale on_day_rescale echs_event_to_utc_def echs_instant_to_utc_def steady_def
        echs_evstrm_vmux_def make_evmux_def)
  moreover have f: "er_fresh fu zs ?s n"
    using assms steady_utc [OF zs] by (simp add: er_fresh_def GRP_CCH_OFF_def)
  obtain es where es: "er_gives fu zs ?s es" "daily_events e (ev_from e) (rr_inter rr) n es"
    using daily_gives [OF f] by auto
  moreover have "tidy es"
    using daily_tidy [OF es(2) p] rr ends by (simp add: plain_daily_def daily_ends_def)
  ultimately show ?thesis using er_pend_gives by (auto simp: er_good_def)
qed

text \<open>
  C2: A daily rule's stream.  For FREQ=DAILY with INTERVAL up to 28, COUNT or UNTIL, from a Gregorian
  UTC start and ending before 2100: the stream that is made gives, over as many refills of its cache
  as it takes, exactly the \<open>n\<close> events of the rule, the i-th one i intervals after the start, at its
  time of day and with its other fields, and then the end of the stream.  It returns whenever the
  expanders may take 65 ticks.
\<close>

theorem daily_stream:
  assumes "plain_daily rr" "plain_start (ev_from e)" "daily_ends rr (ev_from e) n" "\<forall>rr p. 65 \<le> fu rr p" "utc_only zs"
  shows "\<exists>s es. make_evrrul junk zs e [rr] = Some (Mux_one s, zs) \<and> drain (next_evrrul fu zs) (n + 1) s = Some es \<and>
    daily_events e (ev_from e) (rr_inter rr) n es"
proof -
  obtain s es where s: "make_evrrul junk zs e [rr] = Some (Mux_one s, zs)" "er_good fu zs s" "er_pend fu zs s = es"
    "daily_events e (ev_from e) (rr_inter rr) n es" using make_daily [OF assms] by blast
  moreover have "drain (next_evrrul fu zs) (n + 1) s = Some es"
    using rrs.drained [OF s(2), of "n + 1"] s(3,4) by (simp add: daily_events_def)
  ultimately show ?thesis by blast
qed

definition morning :: event where
  "morning = echs_nul_event\<lparr>ev_from := mk_inst 2024 2 28 9 30 0 0, ev_dur := 3600000, ev_oid := 7\<rparr>"

definition hundred_days :: rrulsp where
  "hundred_days = nul_rule\<lparr>rr_freq := FREQ_DAILY, rr_count := 100\<rparr>"

lemma plain_daily_hundred: "plain_daily hundred_days"
  by code_simp

lemma max_instant_last: "plain_start x \<Longrightarrow> \<not> echs_instant_lt_p echs_max_instant x"
proof -
  assume "plain_start x"
  then have "i_y x \<le> 2099" "i_m x < 256" "i_d x < 256" "i_M x < 256" "i_S x < 64" by (auto simp: plain_start_def inst_bits_def)
  moreover have "(i_H x + 1) mod 256 < 256" "(i_ms x + 1) mod 1024 < 1024" by simp_all
  ultimately show ?thesis
    by (simp add: echs_instant_lt_p_def echs_max_instant_def inst_up_def inst_u_def inst_dpart_def)
qed

lemma ends_hundred: "plain_start p \<Longrightarrow> inst_day p + 100 \<le> last_day \<Longrightarrow> daily_ends hundred_days p 100"
proof -
  assume p: "plain_start p" "inst_day p + 100 \<le> last_day"
  have "\<not> echs_instant_lt_p (rr_until hundred_days) x" if "i < 100" "on_day x p (inst_day p + int i * rr_inter hundred_days)" for i x
    using on_day_start [OF p(1) that(2)] p(2) that(1) max_instant_last by (simp add: hundred_days_def nul_rule_def)
  then show ?thesis using p(2) by (simp add: daily_ends_def) (simp add: hundred_days_def nul_rule_def)
qed

lemma morning_start: "plain_start (ev_from morning)" "inst_day (ev_from morning) + 100 \<le> last_day"
  by (simp_all add: morning_def plain_start_def mk_inst_def inst_bits_def valid_ymd_def get_mdays_def mdays_def
      inst_day_def dayno_def doy_def)

theorem daily_stream_witness:
  "\<exists>s es. make_evrrul [] (\<lambda>_. None) morning [hundred_days] = Some (Mux_one s, \<lambda>_. None) \<and>
     drain (next_evrrul (\<lambda>_ _. 65) (\<lambda>_. None)) (100 + 1) s = Some es \<and>
     daily_events morning (ev_from morning) (rr_inter hundred_days) 100 es"
  by (rule daily_stream [OF plain_daily_hundred morning_start(1) ends_hundred [OF morning_start]]) (simp_all add: utc_only_def)

text \<open>
  An expander stops at the first day that fills the 64 slots, but emits all times of that day: with
  five times of day, say, the thirteenth day ends at 65 instants, and the daily expander then writes
  the group of the last one behind the cache.
\<close>

lemma cache_overrun: "length cch = 128 \<Longrightarrow> j + length r > 64 \<Longrightarrow> r \<noteq> [] \<Longrightarrow> cch_write j (map (\<lambda>x. (x, Some x)) r) cch = None"
proof (induction r arbitrary: j cch)
  case (Cons x r)
  then show ?case by (cases "r = []") (auto simp: GRP_CCH_OFF_def)
qed simp

end
