(* ===== verification/TaskStream.thy ===== *)
theory TaskStream
  imports Evrrul
begin

text \<open>
  From a parsed VEVENT or VTODO to a task, \<open>make_task\<close> of \<^verbatim>\<open>src/src/evical.c\<close>: its kind and the
  stream of its events, rules and dates muxed, with the exceptions filtered out.  Streams of
  different classes meet here, so the dispatch over a stream's class is written out: a mux or a
  single stream, a rule or an array of events.  Fresh memory for the caches of muxes is the parameter
  \<open>junk\<close>, by its size; the generated id of a task without one is the parameter \<open>gen\<close>.
\<close>

section \<open>Streams of several classes\<close>

definition next_sum ::
  "('a \<Rightarrow> bool \<Rightarrow> (event \<times> 'a) option) \<Rightarrow> ('b \<Rightarrow> bool \<Rightarrow> (event \<times> 'b) option) \<Rightarrow> 'a + 'b \<Rightarrow> bool \<Rightarrow> (event \<times> ('a + 'b)) option" where
  "next_sum f g s p = (case s of Inl a \<Rightarrow> map_option (apsnd Inl) (f a p) | Inr b \<Rightarrow> map_option (apsnd Inr) (g b p))"

definition next_muxed :: "('s \<Rightarrow> bool \<Rightarrow> (event \<times> 's) option) \<Rightarrow> 's muxed \<Rightarrow> bool \<Rightarrow> (event \<times> 's muxed) option" where
  "next_muxed nxt m p =
     (case m of Mux_null \<Rightarrow> None
      | Mux_one s \<Rightarrow> map_option (apsnd Mux_one) (nxt s p)
      | Mux_all x \<Rightarrow> map_option (apsnd Mux_all) (next_evmux nxt x p))"

definition muxed_pend :: "('s \<Rightarrow> event list) \<Rightarrow> 's muxed \<Rightarrow> event list" where
  "muxed_pend pend m = (case m of Mux_null \<Rightarrow> [] | Mux_one s \<Rightarrow> pend s | Mux_all x \<Rightarrow> mux_pend pend x)"

definition muxed_good :: "('s \<Rightarrow> event list) \<Rightarrow> ('s \<Rightarrow> bool) \<Rightarrow> 's muxed \<Rightarrow> bool" where
  "muxed_good pend good m = (case m of Mux_null \<Rightarrow> False | Mux_one s \<Rightarrow> good s | Mux_all x \<Rightarrow> mux_good pend good x)"

locale two_streams = f: tidy_evstrm f pf gf + g: tidy_evstrm g pg gg
  for f :: "'a \<Rightarrow> bool \<Rightarrow> (event \<times> 'a) option" and pf gf
    and g :: "'b \<Rightarrow> bool \<Rightarrow> (event \<times> 'b) option" and pg gg
begin

lemma sum_evstrm: "tidy_evstrm (next_sum f g) (case_sum pf pg) (case_sum gf gg)"
proof
  show "case_sum gf gg s \<Longrightarrow> \<exists>s'. next_sum f g s p = Some (front (case_sum pf pg s), s') \<and> case_sum gf gg s' \<and>
      case_sum pf pg s' = (if p then tl (case_sum pf pg s) else case_sum pf pg s)" for s p
    using f.step [of _ p] g.step [of _ p] by (cases s) (force simp: next_sum_def)+
qed (auto simp: f.live g.live f.tidy g.tidy split: sum.splits)

end

context tidy_evstrm
begin

lemma muxed_evstrm: "tidy_evstrm (next_muxed nxt) (muxed_pend pend) (muxed_good pend good)"
proof -
  have m: "evstrm (next_evmux nxt) (mux_pend pend) (mux_good pend good)"
    using mux_evstrm by (rule tidy_evstrm.axioms)
  show ?thesis
  proof
    show "muxed_good pend good s \<Longrightarrow> \<exists>s'. next_muxed nxt s p = Some (front (muxed_pend pend s), s') \<and> muxed_good pend good s' \<and>
        muxed_pend pend s' = (if p then tl (muxed_pend pend s) else muxed_pend pend s)" for s p
      using step [of _ p] evstrm.step [OF m, of _ p]
      by (cases s) (force simp: next_muxed_def muxed_good_def muxed_pend_def)+
  qed (auto simp: muxed_good_def muxed_pend_def live evstrm.live [OF m] tidy mux_tidy split: muxed.splits)
qed

end

section \<open>The code\<close>

datatype vtod_typ = VTOD_TYP_UNK | VTOD_TYP_TIMEOUT | VTOD_TYP_DUE | VTOD_TYP_COMPL

record ical_vevent =
  ve_from :: instant
  ve_till :: instant
  ve_comp :: instant
  ve_due :: instant
  ve_dur :: int
  ve_sts :: "64 word"
  ve_cal :: echs_scale
  ve_oid :: "64 word"
  ve_max_simul :: int
  ve_umsk :: int
  ve_rrul :: "rrulsp list"
  ve_xrul :: "rrulsp list"
  ve_rdat :: "instant list"
  ve_xdat :: "instant list"

type_synonym src = "evrrul muxed + evical"

datatype strm = Strm_null | Strm_vevent evical | Strm_filt "(src muxed, src muxed) filtered"

text \<open>The task: the slots that depend on what the entry is; the others are copied.\<close>

datatype vtod_slot = Slot_none | Slot_timeout int | Slot_due instant | Slot_compl instant

record mtask =
  mt_oid :: "64 word"
  mt_max_simul :: int
  mt_umsk :: int
  mt_typ :: vtod_typ
  mt_slot :: vtod_slot
  mt_strm :: strm

definition next_src :: "(rrulsp \<Rightarrow> instant \<Rightarrow> nat) \<Rightarrow> zones \<Rightarrow> src muxed \<Rightarrow> bool \<Rightarrow> (event \<times> src muxed) option" where
  "next_src fu zs = next_muxed (next_sum (next_muxed (next_evrrul fu zs)) next_evical_vevent)"

text \<open>Rules and dates muxed into one where there are both.\<close>

definition join_src :: "(nat \<Rightarrow> event list) \<Rightarrow> evrrul muxed \<Rightarrow> evical option \<Rightarrow> src muxed option" where
  "join_src junk rr r1 =
     (case (rr, r1) of
        (Mux_null, None) \<Rightarrow> None
      | (Mux_null, Some d) \<Rightarrow> Some (Mux_one (Inr d))
      | (_, None) \<Rightarrow> Some (Mux_one (Inl rr))
      | (_, Some d) \<Rightarrow> Some (make_evmux (junk 2) [Inl rr, Inr d]))"

definition make_src :: "(nat \<Rightarrow> event list) \<Rightarrow> zones \<Rightarrow> event \<Rightarrow> rrulsp list \<Rightarrow> instant list \<Rightarrow> (src muxed option \<times> zones) option" where
  "make_src junk zs e rr ds =
     do { (r, zs) \<leftarrow> make_evrrul (junk (length rr)) zs e rr;
          (d, zs) \<leftarrow> make_evrdat zs e ds;
          Some (join_src junk r d, zs) }"

definition vevent_event :: "ical_vevent \<Rightarrow> 64 word \<Rightarrow> int \<Rightarrow> event" where
  "vevent_event ve oid dur =
     \<lparr>ev_from = echs_instant_rescale (ve_from ve) (ve_cal ve), ev_grp = echs_nul_instant, ev_dur = dur, ev_oid = oid,
      ev_sts = ve_sts ve\<rparr>"

text \<open>The duration: an end in absolute time counts when there is no duration; a negative one counts as none.\<close>

definition vevent_dur :: "int \<Rightarrow> instant \<Rightarrow> instant \<Rightarrow> int" where
  "vevent_dur dur from till =
     (if dur = 0 \<and> echs_instant_lt_p from till then echs_instant_diff till from else if dur < 0 then 0 else dur)"

definition make_task :: "(ical_vevent \<Rightarrow> 64 word) \<Rightarrow> (rrulsp \<Rightarrow> instant \<Rightarrow> nat) \<Rightarrow> (nat \<Rightarrow> event list) \<Rightarrow> zones \<Rightarrow> ical_vevent \<Rightarrow>
    (mtask \<times> zones) option" where
  "make_task gen fu junk zs ve =
     do {
       let oid = (if ve_oid ve = 0 then gen ve else ve_oid ve);
       let res = \<lparr>mt_oid = oid, mt_max_simul = (ve_max_simul ve - 1) mod 64, mt_umsk = (ve_umsk ve - 1) mod 1024,
                  mt_typ = VTOD_TYP_UNK, mt_slot = Slot_none, mt_strm = Strm_null\<rparr>;
       (i, zs) \<leftarrow> echs_instant_to_utc zs (ve_from ve);
       (till, zs) \<leftarrow> echs_instant_to_utc zs (ve_till ve);
       let dur = vevent_dur (ve_dur ve) i till;
       let e = vevent_event ve oid dur;
       (if \<not> echs_nul_instant_p (ve_comp ve) then Some (res\<lparr>mt_typ := VTOD_TYP_COMPL, mt_slot := Slot_compl (ve_comp ve)\<rparr>, zs)
        else if echs_nul_instant_p (ve_from ve) then
          Some (if dur \<noteq> 0 then res\<lparr>mt_typ := VTOD_TYP_TIMEOUT, mt_slot := Slot_timeout dur\<rparr>
                else if \<not> echs_nul_instant_p (ve_due ve) then res\<lparr>mt_typ := VTOD_TYP_DUE, mt_slot := Slot_due (ve_due ve)\<rparr>
                else res, zs)
        else if ve_rrul ve = [] \<and> ve_rdat ve = [] then do {
          (s, zs) \<leftarrow> make_evvevt zs e;
          Some (res\<lparr>mt_strm := Strm_vevent s\<rparr>, zs) }
        else do {
          (sx, zs) \<leftarrow> make_src junk zs e (ve_xrul ve) (ve_xdat ve);
          (sr, zs) \<leftarrow> make_src junk zs e (ve_rrul ve) (ve_rdat ve);
          f \<leftarrow> make_evfilt (next_src fu zs) sr sx;
          Some (res\<lparr>mt_strm := Strm_filt f\<rparr>, zs) })
     }"

section \<open>The streams of tasks\<close>

text \<open>The sum and the muxes of the two classes, and the filter over them, are streams.\<close>

interpretation rmux: tidy_evstrm "next_muxed (next_evrrul fu zs)" "muxed_pend (er_pend fu zs)" "muxed_good (er_pend fu zs) (er_good fu zs)"
  for fu zs by (rule rrs.muxed_evstrm)

interpretation rdat: two_streams "next_muxed (next_evrrul fu zs)" "muxed_pend (er_pend fu zs)" "muxed_good (er_pend fu zs) (er_good fu zs)"
  next_evical_vevent vev_pend vev_tidy for fu zs
  by unfold_locales

interpretation srcs: tidy_evstrm "next_sum (next_muxed (next_evrrul fu zs)) next_evical_vevent"
  "case_sum (muxed_pend (er_pend fu zs)) vev_pend" "case_sum (muxed_good (er_pend fu zs) (er_good fu zs)) vev_tidy" for fu zs
  by (rule rdat.sum_evstrm)

definition src_pend :: "(rrulsp \<Rightarrow> instant \<Rightarrow> nat) \<Rightarrow> zones \<Rightarrow> src muxed \<Rightarrow> event list" where
  "src_pend fu zs = muxed_pend (case_sum (muxed_pend (er_pend fu zs)) vev_pend)"

definition src_good :: "(rrulsp \<Rightarrow> instant \<Rightarrow> nat) \<Rightarrow> zones \<Rightarrow> src muxed \<Rightarrow> bool" where
  "src_good fu zs = muxed_good (case_sum (muxed_pend (er_pend fu zs)) vev_pend)
     (case_sum (muxed_good (er_pend fu zs) (er_good fu zs)) vev_tidy)"

interpretation src: tidy_evstrm "next_src fu zs" "src_pend fu zs" "src_good fu zs" for fu zs
  unfolding next_src_def src_pend_def src_good_def by (rule srcs.muxed_evstrm)

interpretation srcf: filter_streams "next_src fu zs" "src_pend fu zs" "src_good fu zs"
  "next_src fu' zs'" "src_pend fu' zs'" "src_good fu' zs'" for fu zs fu' zs'
  by unfold_locales

interpretation srcfilt: evstrm "next_evfilt (next_src fu zs) (next_src fu' zs')"
  "filt_pend (src_pend fu zs) (src_pend fu' zs')" "filt_good (src_good fu zs) (src_pend fu' zs') (src_good fu' zs')" for fu zs fu' zs'
  by (rule srcf.filt_evstrm)

section \<open>A daily event with exceptions\<close>

text \<open>Dates that are fit to be exceptions of an event: UTC instants, not all-day, no two the same.\<close>

definition dates_ok :: "instant list \<Rightarrow> bool" where
  "dates_ok ds \<longleftrightarrow> distinct ds \<and> list_all (\<lambda>d. plain_start d \<and> \<not> echs_instant_all_day_p d) ds"

definition dated_events :: "event \<Rightarrow> instant list \<Rightarrow> event list" where
  "dated_events e ds = map (\<lambda>x. e\<lparr>ev_from := x\<rparr>) (echs_instant_sort ds)"

lemma set_instant_sort [simp]: "set (echs_instant_sort ds) = set ds"
  by (simp add: echs_instant_sort_def)

lemma make_dates:
  assumes e: "plain_start (ev_from e)" and ds: "dates_ok ds" "ds \<noteq> []" and zs: "utc_only zs"
  shows "make_evrdat zs e ds = Some (Some (make_evical_vevent (dated_events e ds)), zs)"
proof -
  have "soups zs b z eof ds = Some (ds, zs)" for b z eof using ds(1)
    by (induction ds) (auto simp: dates_ok_def instant_soup_def plain_no_zone)
  moreover have "map (\<lambda>x. e\<lparr>ev_from := echs_instant_rescale x SCALE_GREGORIAN\<rparr>) (echs_instant_sort ds) = dated_events e ds"
    unfolding dated_events_def using ds(1) by (intro map_cong) (auto simp: dates_ok_def list_all_iff on_day_rescale)
  ultimately show ?thesis using ds(2) e steady_utc [OF zs]
    by (simp add: make_evrdat_def Let_def plain_scale on_day_rescale plain_no_zone echs_instant_to_utc_def steady_def)
qed

lemma dates_tidy:
  assumes "dates_ok ds"
  shows "tidy (dated_events e ds)"
proof (rule tidy_nth)
  let ?s = "echs_instant_sort ds" and ?key = "\<lambda>i. inst_u (inst_up i)"
  have p: "plain_start (?s ! i)" if "i < length ?s" for i
    using assms nth_mem [OF that] by (auto simp: dates_ok_def list_all_iff)
  then show "\<forall>i<length (dated_events e ds). inst_bits (ev_from (dated_events e ds ! i)) \<and> \<not> echs_nul_event_p (dated_events e ds ! i)"
    using plain_not_nul by (auto simp: dated_events_def plain_start_def echs_nul_event_p_def)
  have "inj_on ?key (set ?s)"
  proof (rule inj_onI)
    fix x y assume "x \<in> set ?s" "y \<in> set ?s" "?key x = ?key y"
    then show "x = y" using assms inst_lt_total [of x y] inst_u_inj [of x y]
      by (auto simp: dates_ok_def list_all_iff plain_start_def echs_instant_lt_p_def echs_instant_eq_p_def)
  qed
  moreover have "distinct ?s" using assms by (simp add: echs_instant_sort_def dates_ok_def)
  ultimately have "distinct (map ?key ?s)" by (simp add: distinct_map)
  moreover have "sorted (map ?key ?s)" by (simp add: echs_instant_sort_def)
  ultimately have "sorted_wrt (<) (map ?key ?s)" by (simp add: strict_sorted_iff)
  then show "\<forall>i j. i < j \<longrightarrow> j < length (dated_events e ds) \<longrightarrow> ev_key (dated_events e ds ! i) < ev_key (dated_events e ds ! j)"
    by (auto simp: dated_events_def ev_key_def sorted_wrt_map sorted_wrt_iff_nth_less)
qed

lemma tidy_sorted: "tidy es \<Longrightarrow> sorted (map ev_key es)"
proof (induction es)
  case (Cons e es)
  then have "sorted (map ev_key es)" "es \<noteq> [] \<longrightarrow> ev_key e \<le> ev_key (hd es)" by (auto simp: tidy_Cons)
  then show ?case by (cases es) auto
qed simp

text \<open>An exception's range must end within the fields of an instant.\<close>

definition ranges_ok :: "event list \<Rightarrow> bool" where
  "ranges_ok xs \<longleftrightarrow> list_all (\<lambda>x. inst_bits (r_end (echs_event_range x)) \<and> \<not> echs_nul_range_p (echs_event_range x) \<and>
     dated (echs_event_range x)) xs"

lemma filtered_src:
  assumes g: "src_good fu zs r" "src_good fu' zs' x" and x: "ranges_ok (src_pend fu' zs' x)" "meets_none (src_pend fu' zs' x) (src_pend fu zs r)"
    and b: "list_all (\<lambda>e. inst_bits (ev_from e)) (src_pend fu zs r)"
  shows "\<exists>f. make_evfilt (next_src fu' zs') (Some r) (Some x) = Some (Filt f) \<and>
    filt_good (src_good fu zs) (src_pend fu' zs') (src_good fu' zs') f \<and>
    filt_pend (src_pend fu zs) (src_pend fu' zs') f = filter (\<lambda>e. \<not> hit (src_pend fu' zs' x) e) (src_pend fu zs r)"
proof -
  let ?xs = "src_pend fu' zs' x" and ?es = "src_pend fu zs r"
  obtain x' where p: "echs_evstrm_pop (next_src fu' zs') x = Some (front ?xs, x')" "src_good fu' zs' x'" "src_pend fu' zs' x' = tl ?xs"
    by (rule src.pop [OF g(2)])
  let ?f = "\<lparr>ft_e = r, ft_x = x', ft_ex = echs_event_range (front ?xs)\<rparr>"
  have fl: "filterable ?es ?xs"
    using src.live [OF g(1)] src.live [OF g(2)] tidy_sorted [OF src.tidy [OF g(1)]] tidy_sorted [OF src.tidy [OF g(2)]] x(1) b
    by (simp add: filterable_def ranges_ok_def)
  have "filt_good (src_good fu zs) (src_pend fu' zs') (src_good fu' zs') ?f"
    using g(1) p(2,3) x(1) dated_nul_range by (cases ?xs) (auto simp: filt_good_def nul_range ranges_ok_def list_all_iff)
  moreover have "filt_pend (src_pend fu zs) (src_pend fu' zs') ?f = filter (\<lambda>e. \<not> hit ?xs e) ?es"
  proof (cases ?xs)
    case Nil
    then show ?thesis using p(3) by (simp add: filt_pend_def nul_range passes_nul nul_range_p hit_def)
  next
    case (Cons y ys)
    then show ?thesis using p(3) passes_exact [of ?es y ys] fl x(2) by (simp add: filt_pend_def)
  qed
  moreover have "make_evfilt (next_src fu' zs') (Some r) (Some x) = Some (Filt ?f)" using p(1) by (simp add: make_evfilt_def)
  ultimately show ?thesis by blast
qed


definition standup :: ical_vevent where
  "standup = \<lparr>ve_from = mk_inst 2024 2 28 9 30 0 0, ve_till = echs_nul_instant, ve_comp = echs_nul_instant, ve_due = echs_nul_instant,
     ve_dur = 3600000, ve_sts = 0, ve_cal = SCALE_GREGORIAN, ve_oid = 7, ve_max_simul = 0, ve_umsk = 0,
     ve_rrul = [hundred_days], ve_xrul = [], ve_rdat = [], ve_xdat = [mk_inst 2024 2 29 9 30 0 0]\<rparr>"

abbreviation standup_event :: event where
  "standup_event \<equiv> vevent_event standup (ve_oid standup) (vevent_dur (ve_dur standup) (ve_from standup) (ve_till standup))"

lemma standup_exceptions:
  "dated_events standup_event (ve_xdat standup) = [standup_event\<lparr>ev_from := mk_inst 2024 2 29 9 30 0 0\<rparr>]"
  "echs_event_range (standup_event\<lparr>ev_from := mk_inst 2024 2 29 9 30 0 0\<rparr>) =
     \<lparr>r_beg = mk_inst 2024 2 29 9 30 0 0, r_end = mk_inst 2024 2 29 10 30 0 0\<rparr>"
  by code_simp+

lemma standup_start: "plain_start (ve_from standup)" "inst_day (ve_from standup) + 100 \<le> last_day" "i_H (ve_from standup) = 9"
  using morning_start by (simp_all add: standup_def morning_def mk_inst_def)

lemma standup_meets: "daily_events standup_event (ve_from standup) 1 100 es \<Longrightarrow> meets_none (dated_events standup_event (ve_xdat standup)) es"
proof -
  assume d: "daily_events standup_event (ve_from standup) 1 100 es"
  have v: "i_H (ev_from v) = 9" "inst_bits (ev_from v)" if v: "v \<in> set es" for v
  proof -
    obtain i where i: "i < 100" "v = es ! i" using v d by (auto simp: in_set_conv_nth daily_events_def)
    then have "on_day (ev_from v) (ve_from standup) (inst_day (ve_from standup) + int i * 1)" using daily_from [OF d] by blast
    then show "i_H (ev_from v) = 9" using standup_start(3) by (auto simp: on_day_def)
    show "inst_bits (ev_from v)" using daily_start [OF d standup_start(1) _ _ i(1)] standup_start(2) i(2) by (simp add: plain_start_def)
  qed
  have "\<not> echs_instant_eq_p (mk_inst 2024 2 29 10 30 0 0) (ev_from w)" if "w \<in> set es" for w
  proof -
    have "inst_bits (mk_inst 2024 2 29 10 30 0 0)" "i_H (mk_inst 2024 2 29 10 30 0 0) = 10" by (simp_all add: mk_inst_def inst_bits_def)
    then show ?thesis using inst_u_inj [of "mk_inst 2024 2 29 10 30 0 0" "ev_from w"] v [OF that]
      unfolding echs_instant_eq_p_def by (metis numeral_eq_iff num.distinct(5) semiring_norm(88,89))
  qed
  then show ?thesis unfolding standup_exceptions(1) by (simp add: meets_none_def list_all_iff standup_exceptions(2) echs_range_meets_p_def)
qed


end
