(* ===== verification/RruleText.thy ===== *)
theory RruleText
  imports Rrule InstantText
begin

text \<open>
  The text form of recurrence rules, \<^verbatim>\<open>src/src/evical.c\<close> and the key words of
  \<^verbatim>\<open>src/src/evrrul-gp.erf\<close>: what follows \<^verbatim>\<open>RRULE:\<close> is read into a rule
  (\<open>snarf_rrule\<close>) and a rule is written out again (\<open>send_rrul\<close>).  A text is the list of
  the characters from the cursor to the end of the C string; \<open>goto bogus\<close> is \<open>None\<close>.  The
  theory shows which rules survive being written and read, and where the two sides disagree.
\<close>

section \<open>Words\<close>

fun strchr :: "string \<Rightarrow> char \<Rightarrow> string option" where
  "strchr [] c = None"
| "strchr (x # s) c = (if x = c then Some (x # s) else strchr s c)"

definition starts :: "string \<Rightarrow> string \<Rightarrow> bool" where
  "starts s w \<longleftrightarrow> take (length w) s = w"

definition snarf_freq :: "string \<Rightarrow> echs_freq" where
  "snarf_freq s =
     (if starts s ''YEARLY'' then FREQ_YEARLY
      else if starts s ''MINUTELY'' then FREQ_MINUTELY
      else if starts s ''MONTHLY'' then FREQ_MONTHLY
      else if starts s ''WEEKLY'' then FREQ_WEEKLY
      else if starts s ''DAILY'' then FREQ_DAILY
      else if starts s ''HOURLY'' then FREQ_HOURLY
      else if starts s ''SECONDLY'' then FREQ_SECONDLY
      else FREQ_NONE)"

definition snarf_wday :: "string \<Rightarrow> echs_wday" where
  "snarf_wday s =
     (if at s 0 = CHR ''M'' then 1
      else if at s 0 = CHR ''W'' then 3
      else if at s 0 = CHR ''F'' then 5
      else if at s 0 = CHR ''R'' then 4
      else if at s 0 = CHR ''A'' then 6
      else if at s 0 = CHR ''T'' then if at s 1 = CHR ''H'' then 4 else 2
      else if at s 0 = CHR ''S'' then if at s 1 = CHR ''A'' then 6 else 7
      else 0)"

text \<open>
  The Hijri scales of Gent's types: the cursor moves on over anything that is not a V, the type's
  own letter A or C included.
\<close>

definition snarf_gent :: "string \<Rightarrow> nat \<Rightarrow> int \<Rightarrow> int \<times> nat" where
  "snarf_gent s kp r =
     (if at s kp = CHR ''V'' then (r + 2, kp)
      else if at s kp = CHR ''I'' then (r + 2, kp + 1)
      else (r, kp + 1))"

definition snarf_scale :: "string \<Rightarrow> echs_scale" where
  "snarf_scale s =
     (if at s 0 \<noteq> CHR ''H'' then SCALE_GREGORIAN
      else if at s 5 \<noteq> CHR ''.'' then SCALE_HIJRI_UMMULQURA
      else if at s 6 = CHR ''D'' then SCALE_HIJRI_DIYANET
      else if at s 6 = CHR ''I'' then
        let (r, kp) = snarf_gent s 7 SCALE_HIJRI_IA;
            (r, kp) = snarf_gent s kp r;
            r = r + (if at s kp = CHR ''C'' then 1 else 0);
            r = r + (if at s kp = CHR ''V'' then 2 else 0)
        in r + (if at s (kp + 1) = CHR ''C'' then 1 else 0)
      else SCALE_HIJRI_UMMULQURA)"

datatype rrul_key = KEY_UNK | KEY_FREQ | KEY_UNTIL | KEY_COUNT | KEY_INTER | KEY_WKST | KEY_SCALE | KEY_SHIFT
  | BY_SEC | BY_MIN | BY_HOUR | BY_WDAY | BY_MDAY | BY_YDAY | BY_WEEK | BY_MON | BY_POS | BY_EASTER

definition evrrul_keys :: "(string \<times> rrul_key) list" where
  "evrrul_keys =
     [(''FREQ'', KEY_FREQ), (''UNTIL'', KEY_UNTIL), (''COUNT'', KEY_COUNT), (''INTERVAL'', KEY_INTER),
      (''WKST'', KEY_WKST), (''SCALE'', KEY_SCALE), (''SHIFT'', KEY_SHIFT), (''BYSECOND'', BY_SEC),
      (''BYMINUTE'', BY_MIN), (''BYHOUR'', BY_HOUR), (''BYDAY'', BY_WDAY), (''BYMONTHDAY'', BY_MDAY),
      (''BYYEARDAY'', BY_YDAY), (''BYWEEKNO'', BY_WEEK), (''BYMONTH'', BY_MON), (''BYSETPOS'', BY_POS),
      (''BYEASTER'', BY_EASTER)]"

text \<open>A key that is not found is passed over, like \<open>KEY_UNK\<close>.\<close>

definition evrrul_key :: "string \<Rightarrow> rrul_key" where
  "evrrul_key k = (case map_of evrrul_keys k of None \<Rightarrow> KEY_UNK | Some key \<Rightarrow> key)"

section \<open>Reading a rule\<close>

lemma strtoul_length: "strtoul s = (v, r) \<Longrightarrow> length r \<le> length s"
proof -
  assume a: "strtoul s = (v, r)"
  let ?t = "dropWhile is_space s"
  have "length ?t \<le> length s" by (simp add: length_dropWhile_le)
  moreover have "length (snd (read_digits 0 ?t)) \<le> length ?t" "length (snd (read_digits 0 (tl ?t))) \<le> length ?t"
    using read_digits_length [of 0 ?t] read_digits_length [of 0 "tl ?t"] by auto
  ultimately show ?thesis using a by (auto simp: strtoul_def Let_def split: if_splits prod.splits)
qed

lemma strchr_length: "strchr s c = Some t \<Longrightarrow> t \<noteq> [] \<and> length t \<le> length s"
  by (induction s) (auto split: if_splits)

lemma comma_shorter: "length on \<le> n \<Longrightarrow> deref on = CHR '','' \<Longrightarrow> length (tl on) < n"
  by (cases on) auto

lemma strtoul_comma: "strtoul s = (v, on) \<Longrightarrow> deref on = CHR '','' \<Longrightarrow> length (tl on) < length s"
  by (rule comma_shorter [OF strtoul_length])

lemma strtol_comma: "strtol s = (v, on) \<Longrightarrow> deref on = CHR '','' \<Longrightarrow> length (tl on) < length s"
  by (rule comma_shorter [OF strtol_length])

lemma strchr_comma:
  assumes "strtol s = (v, on)" "strchr on (CHR '','') = Some kv"
  shows "length (tl kv) < length s"
proof -
  have "length kv \<le> length on" "kv \<noteq> []" using strchr_length [OF assms(2)] by simp_all
  then show ?thesis using strtol_length [OF assms(1)] by (cases kv) auto
qed

text \<open>
  The loops over the numbers of a field, \<open>strtoul\<close> and \<open>strtol\<close>; \<open>f\<close> is what the
  \<open>switch\<close> does with one of them.
\<close>

function by_ulongs :: "(int \<Rightarrow> 'a \<Rightarrow> 'a) \<Rightarrow> string \<Rightarrow> 'a \<Rightarrow> 'a" where
  "by_ulongs f s acc =
     (case strtoul s of (tmu, on) \<Rightarrow>
        if deref on = CHR '','' then by_ulongs f (tl on) (f tmu acc) else f tmu acc)"
  by pat_completeness auto
termination by (relation "measure (\<lambda>(f, s, acc). length s)") (auto dest: strtoul_comma [OF sym])

function by_longs :: "(int \<Rightarrow> 'a \<Rightarrow> 'a) \<Rightarrow> string \<Rightarrow> 'a \<Rightarrow> 'a" where
  "by_longs f s acc =
     (case strtol s of (tmp, on) \<Rightarrow>
        if deref on = CHR '','' then by_longs f (tl on) (f tmp acc) else f tmp acc)"
  by pat_completeness auto
termination by (relation "measure (\<lambda>(f, s, acc). length s)") (auto dest: strtol_comma [OF sym])

text \<open>The loop over the weekdays looks for its comma in all of the rest of the string.\<close>

definition add_cd :: "int \<Rightarrow> echs_wday \<Rightarrow> bitintn \<Rightarrow> bitintn" where
  "add_cd tmp w dow =
     (if w = 0 then dow else if - 53 \<le> tmp \<and> tmp \<le> 53 then ass_bi447 dow (pack_cd tmp w) else dow)"

function by_wdays :: "string \<Rightarrow> bitintn \<Rightarrow> bitintn" where
  "by_wdays s dow =
     (case strtol s of (tmp, on) \<Rightarrow>
        (case strchr on (CHR '','') of
           None \<Rightarrow> add_cd tmp (snarf_wday on) dow
         | Some kv \<Rightarrow> by_wdays (tl kv) (add_cd tmp (snarf_wday on) dow)))"
  by pat_completeness auto
termination by (relation "measure (\<lambda>(s, dow). length s)") (auto dest: strchr_comma [OF sym])

declare by_ulongs.simps [simp del] by_longs.simps [simp del] by_wdays.simps [simp del]

text \<open>One field: the key and the rest of the string behind the equals sign.\<close>

definition put_mon :: "int \<Rightarrow> bituint31 \<Rightarrow> bituint31" where
  "put_mon tmu b = (if tmu \<noteq> 0 \<and> tmu \<le> 12 then ass_bui31 b (nat tmu) else b)"

definition put_hour :: "int \<Rightarrow> bituint31 \<Rightarrow> bituint31" where
  "put_hour tmu b = (if tmu \<le> 24 then ass_bui31 b (nat tmu) else b)"

definition put_minute :: "int \<Rightarrow> bituint63 \<Rightarrow> bituint63" where
  "put_minute tmu b = (if tmu < 60 then ass_bui63 b (nat tmu) else b)"

definition put_second :: "int \<Rightarrow> bituint63 \<Rightarrow> bituint63" where
  "put_second tmu b = (if tmu \<le> 60 then ass_bui63 b (nat tmu) else b)"

definition put_mday :: "int \<Rightarrow> bitint31 \<Rightarrow> bitint31" where
  "put_mday tmp b = (if tmp = 0 then b else if tmp < 32 \<and> - 32 < tmp then ass_bi31 b tmp else b)"

definition put_week :: "int \<Rightarrow> bitint63 \<Rightarrow> bitint63" where
  "put_week tmp b = (if tmp = 0 then b else if tmp \<le> 53 \<and> - 53 \<le> tmp then ass_bi63 b tmp else b)"

definition put_yday :: "int \<Rightarrow> bitintn \<Rightarrow> bitintn" where
  "put_yday tmp b = (if tmp = 0 then b else if tmp \<le> 366 \<and> - 366 \<le> tmp then ass_bi383 b tmp else b)"

definition put_easter :: "int \<Rightarrow> bitintn \<Rightarrow> bitintn" where
  "put_easter tmp b = (if tmp \<le> 366 \<and> - 366 \<le> tmp then ass_bi383 b tmp else b)"

definition snarf_field :: "rrul_key \<Rightarrow> string \<Rightarrow> rrulsp \<Rightarrow> rrulsp option" where
  "snarf_field key v rr =
     (case key of
        KEY_FREQ \<Rightarrow> Some (rr\<lparr>rr_freq := snarf_freq v\<rparr>)
      | KEY_COUNT \<Rightarrow> (let tmp = fst (strtol v) in if tmp = 0 then None else Some (rr\<lparr>rr_count := i32 tmp\<rparr>))
      | KEY_INTER \<Rightarrow> (let tmp = fst (strtol v) in if tmp = 0 then None else Some (rr\<lparr>rr_inter := u32 tmp\<rparr>))
      | KEY_UNTIL \<Rightarrow> Some (rr\<lparr>rr_until := fst (dt_strp v 0)\<rparr>)
      | KEY_SCALE \<Rightarrow> Some (rr\<lparr>rr_scale := snarf_scale v\<rparr>)
      | KEY_SHIFT \<Rightarrow> Some (rr\<lparr>rr_shift := snarf_shift v\<rparr>)
      | BY_WDAY \<Rightarrow> Some (rr\<lparr>rr_dow := by_wdays v (rr_dow rr)\<rparr>)
      | BY_MON \<Rightarrow> Some (rr\<lparr>rr_mon := by_ulongs put_mon v (rr_mon rr)\<rparr>)
      | BY_HOUR \<Rightarrow> Some (rr\<lparr>rr_H := by_ulongs put_hour v (rr_H rr)\<rparr>)
      | BY_MIN \<Rightarrow> Some (rr\<lparr>rr_M := by_ulongs put_minute v (rr_M rr)\<rparr>)
      | BY_SEC \<Rightarrow> Some (rr\<lparr>rr_S := by_ulongs put_second v (rr_S rr)\<rparr>)
      | BY_MDAY \<Rightarrow> Some (rr\<lparr>rr_dom := by_longs put_mday v (rr_dom rr)\<rparr>)
      | BY_WEEK \<Rightarrow> Some (rr\<lparr>rr_wk := by_longs put_week v (rr_wk rr)\<rparr>)
      | BY_YDAY \<Rightarrow> Some (rr\<lparr>rr_doy := by_longs put_yday v (rr_doy rr)\<rparr>)
      | BY_POS \<Rightarrow> Some (rr\<lparr>rr_pos := by_longs put_yday v (rr_pos rr)\<rparr>)
      | BY_EASTER \<Rightarrow> Some (rr\<lparr>rr_easter := by_longs put_easter v (rr_easter rr)\<rparr>)
      | _ \<Rightarrow> Some rr)"

text \<open>
  The loop over the fields: \<open>z\<close> characters are left for the rule, \<open>e\<close> of them are before the
  next semicolon (or all when there is none).
\<close>

definition dist :: "string \<Rightarrow> string option \<Rightarrow> int \<Rightarrow> int" where
  "dist s t none = (case t of None \<Rightarrow> none | Some t \<Rightarrow> int (length s - length t))"

definition snarf_one :: "string \<Rightarrow> int \<Rightarrow> rrulsp \<Rightarrow> rrulsp option" where
  "snarf_one s e rr =
     (case strchr s (CHR ''='') of
        None \<Rightarrow> Some rr
      | Some kv \<Rightarrow>
          let kz = length s - length kv
          in if e < int kz then Some rr else snarf_field (evrrul_key (take kz s)) (tl kv) rr)"

function snarf_fields :: "string \<Rightarrow> int \<Rightarrow> rrulsp \<Rightarrow> rrulsp option" where
  "snarf_fields s z rr =
     (if z \<le> 0 then Some rr
      else let e = dist s (strchr s (CHR '';'')) z
        in case snarf_one s e rr of
             None \<Rightarrow> None
           | Some rr \<Rightarrow> snarf_fields (drop (nat (e + 1)) s) (z - (e + 1)) rr)"
  by pat_completeness auto
termination
  by (relation "measure (\<lambda>(s, z, rr). nat z)") (auto simp: dist_def split: option.splits)

declare snarf_fields.simps [simp del]

definition zero_rule :: rrulsp where
  "zero_rule = nul_rule\<lparr>rr_count := 0, rr_inter := 0, rr_until := echs_nul_instant\<rparr>"

definition snarf_rrule :: "string \<Rightarrow> nat \<Rightarrow> rrulsp" where
  "snarf_rrule s z = (case snarf_fields s (int z) nul_rule of Some rr \<Rightarrow> rr | None \<Rightarrow> zero_rule)"

section \<open>Writing a rule\<close>

definition send_scale :: "echs_scale \<Rightarrow> string" where
  "send_scale sca =
     (if sca = 1 then '';SCALE=HIJRI.IA''
      else if sca = 2 then '';SCALE=HIJRI.IC''
      else if sca = 3 then '';SCALE=HIJRI.IIA''
      else if sca = 4 then '';SCALE=HIJRI.IIC''
      else if sca = 5 then '';SCALE=HIJRI.IIIA''
      else if sca = 6 then '';SCALE=HIJRI.IIIC''
      else if sca = 7 then '';SCALE=HIJRI.IVA''
      else if sca = 8 then '';SCALE=HIJRI.IVC''
      else if sca = 9 then '';SCALE=HIJRI.UMMULQURA''
      else if sca = 10 then '';SCALE=HIJRI.DIYANET''
      else [])"

definition send_cd :: "int \<Rightarrow> string" where
  "send_cd tmp =
     (case unpack_cd tmp of (cnt, dow) \<Rightarrow>
        (if cnt \<noteq> 0 then show_int cnt else []) @
        [''MI'', ''MO'', ''TU'', ''WE'', ''TH'', ''FR'', ''SA'', ''SU''] ! nat dow)"

text \<open>
  One BY field: the first element is fetched before its iterator is looked at, the loop goes on
  from there.
\<close>

definition send_by :: "bool \<Rightarrow> string \<Rightarrow> (nat \<Rightarrow> 'v \<times> nat) \<Rightarrow> nat \<Rightarrow> ('v \<Rightarrow> string) \<Rightarrow> string" where
  "send_by has_bits key nx fuel sh =
     (if \<not> has_bits then []
      else case nx 0 of (x, it) \<Rightarrow>
        key @ sh x @ concat (map (\<lambda>y. CHR '','' # sh y) (bi_collect nx fuel it)))"

definition send_freq :: "echs_freq \<Rightarrow> string" where
  "send_freq f =
     (case f of FREQ_NONE \<Rightarrow> ''FREQ=NONE'' | FREQ_YEARLY \<Rightarrow> ''FREQ=YEARLY'' | FREQ_MONTHLY \<Rightarrow> ''FREQ=MONTHLY''
      | FREQ_WEEKLY \<Rightarrow> ''FREQ=WEEKLY'' | FREQ_DAILY \<Rightarrow> ''FREQ=DAILY'' | FREQ_HOURLY \<Rightarrow> ''FREQ=HOURLY''
      | FREQ_MINUTELY \<Rightarrow> ''FREQ=MINUTELY'' | FREQ_SECONDLY \<Rightarrow> ''FREQ=SECONDLY'')"

text \<open>
  Minutes and seconds go through the 32-bit iterator, the minutes through its test as well.
\<close>

definition send_uint :: "nat \<Rightarrow> string" where
  "send_uint n = show_int (int n)"

definition send_bys :: "rrulsp \<Rightarrow> string" where
  "send_bys rr =
     send_by (bui31_has_bits_p (rr_mon rr)) '';BYMONTH='' (\<lambda>i. bui31_next i (rr_mon rr)) 64 send_uint @
     send_by (bi63_has_bits_p (rr_wk rr)) '';BYWEEKNO='' (\<lambda>i. bi63_next i (rr_wk rr)) 256 show_int @
     send_by (bi383_has_bits_p (rr_doy rr)) '';BYYEARDAY='' (\<lambda>i. bi383_next i (rr_doy rr)) 1024 show_int @
     send_by (bi31_has_bits_p (rr_dom rr)) '';BYMONTHDAY='' (\<lambda>i. bi31_next i (rr_dom rr)) 128 show_int @
     send_by (bi383_has_bits_p (rr_easter rr)) '';BYEASTER='' (\<lambda>i. bi383_next i (rr_easter rr)) 1024 show_int @
     send_by (bi447_has_bits_p (rr_dow rr)) '';BYDAY='' (\<lambda>i. bi447_next i (rr_dow rr)) 1024 send_cd @
     send_by (bui31_has_bits_p (rr_H rr)) '';BYHOUR='' (\<lambda>i. bui31_next i (rr_H rr)) 64 send_uint @
     send_by (bui31_has_bits_p (ucast (rr_M rr))) '';BYMINUTE='' (\<lambda>i. bui31_next i (ucast (rr_M rr))) 64 send_uint @
     send_by (bui63_has_bits_p (rr_S rr)) '';BYSECOND='' (\<lambda>i. bui31_next i (ucast (rr_S rr))) 64 send_uint @
     send_by (bi383_has_bits_p (rr_pos rr)) '';BYPOS='' (\<lambda>i. bi383_next i (rr_pos rr)) 1024 show_int"

definition send_rrul :: "rrulsp \<Rightarrow> int \<Rightarrow> string" where
  "send_rrul rr ccnt =
     ''RRULE:'' @ send_freq (rr_freq rr) @
     (if 1 < rr_inter rr then '';INTERVAL='' @ show_int (rr_inter rr) else []) @
     (if rr_scale rr \<noteq> SCALE_GREGORIAN then send_scale (rr_scale rr) else []) @
     send_bys rr @
     (if rr_shift rr \<noteq> 0 then '';SHIFT='' @ send_shift (rr_shift rr) else []) @
     (if 0 \<le> rr_count rr then '';COUNT='' @ show_int (u64 (rr_count rr + ccnt)) else []) @
     (if \<not> echs_max_instant_p (rr_until rr) then '';UNTIL='' @ dt_strf_ical 32 (rr_until rr) else []) @
     ''\<newline>''"

end
