(* ===== verification/RruleTrip.thy ===== *)
theory RruleTrip
  imports RruleText DurationText
begin

text \<open>
  Round trips of recurrence rules through \<open>send_rrul\<close> and \<open>snarf_rrule\<close>: what a BY field
  prints for a set built from a list, what the reader's loops make of such a text, one lemma per
  field, and their composition for a whole rule.
\<close>

section \<open>What a BY field prints\<close>

definition by_text :: "string \<Rightarrow> string list \<Rightarrow> string" where
  "by_text key ts = (case ts of [] \<Rightarrow> [] | t # ts \<Rightarrow> key @ t @ concat (map (Cons (CHR '','')) ts))"

lemma by_text_simps [simp]: "by_text key [] = []"
  "by_text key (t # ts) = key @ t @ concat (map (Cons (CHR '','')) ts)"
  by (simp_all add: by_text_def)

lemma send_by_empty: "\<not> hb \<Longrightarrow> send_by hb key nx fuel sh = []"
  by (simp add: send_by_def)

context bi_iterator begin

lemma send_by_rest:
  assumes "inv 0 b" "rest 0 b = xs" "length xs < fuel" "hb \<longleftrightarrow> xs \<noteq> []"
  shows "send_by hb key (\<lambda>i. nxt i b) fuel sh = by_text key (map sh xs)"
proof (cases xs)
  case Nil
  with assms(4) show ?thesis by (simp add: send_by_empty)
next
  case (Cons x ys)
  with step [OF assms(1)] assms(2) obtain it where
    it: "nxt 0 b = (x, it)" "it \<noteq> 0" "inv it b" "rest it b = ys" by blast
  with collect_rest [of it b fuel] assms(3) Cons
  have "bi_collect (\<lambda>i. nxt i b) fuel it = ys" by simp
  with it(1) assms(4) Cons show ?thesis by (simp add: send_by_def comp_def)
qed

end

lemma strict_list: "sorted_wrt (<) (xs :: nat list) \<Longrightarrow> sorted_list_of_set (set xs) = xs"
  by (rule sorted_list_of_set.idem_if_sorted_distinct) (simp_all add: strict_sorted_iff)

lemma it_list_unique:
  "sorted_wrt it_before xs \<Longrightarrow> sorted_wrt it_before ys \<Longrightarrow> set xs = set ys \<Longrightarrow> xs = ys"
proof (induction xs arbitrary: ys)
  case (Cons x xs)
  then obtain y zs where ys: "ys = y # zs" by (cases ys) auto
  have "x = y"
  proof (rule ccontr)
    assume "x \<noteq> y"
    with Cons.prems ys have "y \<in> set xs" "x \<in> set zs" by auto
    with Cons.prems ys have "it_before x y" "it_before y x" by auto
    then show False using it_before_trans it_before_irrefl by blast
  qed
  moreover have "x \<notin> set xs" "y \<notin> set zs" using Cons.prems ys it_before_irrefl by auto
  ultimately have "set xs = set zs" using Cons.prems(3) ys by auto
  then have "xs = zs" using Cons ys by auto
  with \<open>x = y\<close> ys show ?case by simp
qed simp

lemma singleton_value:
  assumes "x < 2 ^ 31"
  shows "unat (drop_bit 1 (push_bit 1 (of_nat x) OR 1 :: 32 word)) = x"
proof -
  have bx: "bit x n \<Longrightarrow> n < 31" for n using assms by (metis bit_take_bit_iff take_bit_nat_eq_self)
  define w where "w = (push_bit 1 (of_nat x) OR 1 :: 32 word)"
  have "bit w (Suc n) \<longleftrightarrow> bit x n" for n
    unfolding w_def bit_or_iff bit_push_bit_iff using bx [of n] by (auto simp: bit_1_iff bit_word_of_nat_iff)
  then have "drop_bit 1 w = of_nat x"
    using bx by (intro bit_word_eqI) (simp add: bit_drop_bit_eq bit_word_of_nat_iff)
  moreover have "x < 2 ^ 32" using assms by simp
  ultimately have "unat (drop_bit 1 w) = x" by (simp add: unsigned_of_nat take_bit_nat_eq_self)
  then show ?thesis unfolding w_def .
qed

lemma collect_stop: "snd (nx it) = 0 \<Longrightarrow> bi_collect nx fuel it = []"
  by (cases fuel) (auto simp: split_beta)

lemma send_single:
  assumes "x < 2 ^ 31"
  defines "b \<equiv> push_bit 1 (of_nat x) OR 1 :: 32 word"
  shows "send_by True key (\<lambda>i. bui_next i b) 64 sh = by_text key [sh x]" "b \<noteq> 0"
proof -
  have "bit b 0" unfolding b_def bit_or_iff by simp
  moreover from this show "b \<noteq> 0" by auto
  moreover have "unat (drop_bit 1 b) = x" unfolding b_def by (rule singleton_value [OF assms(1)])
  ultimately show "send_by True key (\<lambda>i. bui_next i b) 64 sh = by_text key [sh x]"
    by (simp add: send_by_def bui_next_def Let_def collect_stop)
qed

text \<open>Several integers below 31, seen through the lower 32 bits of a wider set.\<close>

lemma send_bits:
  fixes xs :: "nat list"
  assumes "sorted_wrt (<) xs" "1 < length xs" "\<forall>x \<in> set xs. x < 31" "31 < LENGTH('a)"
  defines "b \<equiv> ucast (foldl ass_bui (0 :: 'a::len word) xs) :: 32 word"
  shows "send_by True key (\<lambda>i. bui_next i b) 64 sh = by_text key (map sh xs)" "b \<noteq> 0"
proof -
  let ?w = "foldl ass_bui (0 :: 'a word) xs"
  obtain x y zs where xs: "xs = x # y # zs" using assms(2) by (cases xs; cases "tl xs") auto
  have l: "\<forall>x \<in> set xs. x + 1 < LENGTH('a)" using assms(3,4) by fastforce
  have e: "bui_elems ?w = set xs" using foldl_ass_bui [of "0 :: 'a word" xs] l by simp
  have a: "bui_wf (ass_bui (0 :: 'a word) x)" "ass_bui (0 :: 'a word) x \<noteq> 0"
    using ass_bui_elems [of "0 :: 'a word" x] ass_bui_nonzero [of "0 :: 'a word" x] l xs by auto
  then have d: "\<not> bit ?w 0"
    using foldl_ass_bui [of "ass_bui (0 :: 'a word) x" "y # zs"] l xs by simp
  have bit: "bit ?w (Suc k) \<longleftrightarrow> k \<in> set xs" for k
    using e d xs by (auto simp: bui_elems_def split: if_splits)
  then have c: "\<not> bit b 0" "bit b (Suc k) \<longleftrightarrow> k \<in> set xs" for k
    using d assms(3) by (auto simp: b_def bit_ucast_iff)
  from c(2) [of x] xs show "b \<noteq> 0" by auto
  have "set (bui_rest 0 b) = set xs"
    using c assms(3) by (auto simp: bui_rest_def)
  then have "bui_rest 0 b = xs"
    using bui_rest_sorted [of b] assms(1) by (metis strict_list)
  moreover from this have "length xs < 64" using bui_rest_length [of 0 b] by simp
  ultimately show "send_by True key (\<lambda>i. bui_next i b) 64 sh = by_text key (map sh xs)"
    using xs by (intro bui.send_by_rest) auto
qed

definition wide_ok :: "nat list \<Rightarrow> bool" where
  "wide_ok xs \<longleftrightarrow> sorted_wrt (<) xs \<and> (\<forall>x \<in> set xs. x < 63) \<and> (length xs \<le> 1 \<or> (\<forall>x \<in> set xs. x < 31))"

lemma wide_cases:
  assumes "length xs \<le> 1 \<or> (\<forall>x \<in> set xs. x < (31 :: nat))"
  obtains "xs = []" | x where "xs = [x]" | "1 < length xs" "\<forall>x \<in> set xs. x < 31"
  using assms by (cases xs; cases "tl xs") auto

lemma send_unsigned:
  fixes key :: string
  assumes "wide_ok xs"
  defines "b \<equiv> foldl ass_bui (0 :: 32 word) xs"
  shows "send_by (b \<noteq> 0) key (\<lambda>i. bui_next i b) 64 sh = by_text key (map sh xs)"
  using assms(1) [unfolded wide_ok_def, THEN conjunct2, THEN conjunct2]
proof (cases rule: wide_cases)
  case 1
  then show ?thesis by (simp add: b_def send_by_empty)
next
  case (2 x)
  then have "b = push_bit 1 (of_nat x) OR 1" by (simp add: b_def ass_bui_def)
  with send_single(1) [where key = key and sh = sh, of x] send_single(2) [of x] 2 assms(1) show ?thesis by (simp add: wide_ok_def)
next
  case 3
  with send_bits(1) [where ?'a = 32 and key = key and sh = sh, of xs] send_bits(2) [where ?'a = 32, of xs] assms(1) show ?thesis
    by (simp add: b_def wide_ok_def)
qed

lemma send_wide:
  fixes key :: string
  assumes "wide_ok xs"
  defines "b \<equiv> foldl ass_bui63 (0 :: 64 word) xs"
  shows "send_by (ucast b \<noteq> (0 :: 32 word)) key (\<lambda>i. bui_next i (ucast b :: 32 word)) 64 sh = by_text key (map sh xs)"
    "send_by (b \<noteq> 0) key (\<lambda>i. bui_next i (ucast b :: 32 word)) 64 sh = by_text key (map sh xs)"
proof -
  have "(ucast b \<noteq> (0 :: 32 word) \<longleftrightarrow> xs \<noteq> []) \<and> (b \<noteq> 0 \<longleftrightarrow> xs \<noteq> []) \<and>
    (xs \<noteq> [] \<longrightarrow> send_by True key (\<lambda>i. bui_next i (ucast b :: 32 word)) 64 sh = by_text key (map sh xs))"
    using assms(1) [unfolded wide_ok_def, THEN conjunct2, THEN conjunct2]
  proof (cases rule: wide_cases)
    case 1
    then show ?thesis by (simp add: b_def)
  next
    case (2 x)
    then have b: "b = ucast (push_bit 1 (of_nat x) OR 1 :: 32 word)" by (simp add: b_def ass_bui63_def)
    have u: "(ucast (ucast w :: 64 word) :: 32 word) = w" for w :: "32 word"
      by (intro bit_word_eqI) (simp add: bit_ucast_iff)
    have x: "x < 2 ^ 31" using 2 assms(1) by (simp add: wide_ok_def)
    from b u have ub: "(ucast b :: 32 word) = push_bit 1 (of_nat x) OR 1" by metis
    then have n: "(ucast b :: 32 word) \<noteq> 0" using send_single(2) [OF x] by metis
    then have "b \<noteq> 0" by auto
    with n send_single(1) [where key = key and sh = sh, OF x] ub 2 show ?thesis by simp
  next
    case 3
    have "b = foldl ass_bui 0 xs" using foldl_ass_bui63 assms(1) by (auto simp: b_def wide_ok_def)
    moreover have "sorted_wrt (<) xs" using assms(1) by (simp add: wide_ok_def)
    moreover have "b \<noteq> 0" if "(ucast b :: 32 word) \<noteq> 0" using that by auto
    ultimately show ?thesis using send_bits [where ?'a = 64, of xs] 3 by auto
  qed
  then show "send_by (ucast b \<noteq> (0 :: 32 word)) key (\<lambda>i. bui_next i (ucast b :: 32 word)) 64 sh = by_text key (map sh xs)"
    "send_by (b \<noteq> 0) key (\<lambda>i. bui_next i (ucast b :: 32 word)) 64 sh = by_text key (map sh xs)"
    by (cases "xs = []"; simp add: send_by_empty)+
qed

lemma send_signed:
  fixes xs :: "int list"
  assumes "sorted_wrt it_before xs" "\<forall>x \<in> set xs. \<bar>x\<bar> < int LENGTH('a::len)" "1 < LENGTH('a)"
    "length xs \<le> 1 \<or> (\<exists>x \<in> set xs. 0 < x)" "2 * LENGTH('a) < fuel"
  defines "b \<equiv> foldl ass_bi (bi_empty :: 'a bitint) xs"
  shows "send_by (bpos b \<noteq> 0 \<or> bneg b \<noteq> 0) key (\<lambda>i. bi_next i b) fuel sh = by_text key (map sh xs)"
proof (rule bi.send_by_rest)
  have "set (bi_rest 0 b) = set xs"
    using bi_list_fold [OF assms(2)] assms(4) by (cases xs) (auto simp: b_def)
  then show l: "bi_rest 0 b = xs" using bi_rest_sorted assms(1) it_list_unique by blast
  show "length xs < fuel" using bi_rest_length [of b] l assms(5) by simp
  have "bi_elems b = set xs"
    using foldl_ass_bi [of "bi_empty :: 'a bitint" xs] assms(2)
    by (auto simp: b_def bi_elems_def bi_wf_def bi_empty_def)
  then show "(bpos b \<noteq> 0 \<or> bneg b \<noteq> 0) \<longleftrightarrow> xs \<noteq> []"
    by (cases xs) (auto simp: b_def bi_elems_def bi_empty_def)
qed (use assms(3) in simp)

lemma send_array:
  fixes xs :: "int list"
  assumes "sorted_wrt it_before xs" "\<forall>x \<in> set xs. \<bar>x\<bar> < int (32 * n) - 1" "n = 12 \<or> n = 14"
  defines "b \<equiv> foldl ass_bin (bin_empty n) xs"
  shows "send_by (npos b ! 0 \<noteq> 0) key (\<lambda>i. bin_next i b) 1024 sh = by_text key (map sh xs)"
proof -
  have n: "0 < n" "n < 2 ^ 20" using assms(3) by auto
  have ab: "\<forall>x \<in> set xs. \<bar>x\<bar> < int (32 * n)" using assms(2) by fastforce
  have e: "bin_elems b = set xs" and wf: "bin_wf n b"
    using foldl_ass_bin [OF bin_empty_wf [OF n] ab] bin_empty_elems [OF n(1)] by (auto simp: b_def)
  have len: "length (npos b) = n" using wf by (simp add: bin_wf_def)
  have s: "bin_wf (length (npos b)) b" using wf len by simp
  have "\<not> (bit (npos b ! 0) 0 \<and> abit (npos b) (32 * n - 1))"
  proof
    assume "bit (npos b ! 0) 0 \<and> abit (npos b) (32 * n - 1)"
    moreover from this have "32 * n - 1 \<in> {k. abit (npos b) k} - {0}" using n(1) by auto
    then have "int (32 * n - 1) \<in> int ` ({k. abit (npos b) k} - {0})" by (rule imageI)
    ultimately have "int (32 * n - 1) \<in> bin_elems b" unfolding bin_elems_def by (simp only: if_True UnI1)
    with e assms(2) have "\<bar>int (32 * n - 1)\<bar> < int (32 * n) - 1" by blast
    then show False using n(1) by linarith
  qed
  then have "set (bin_rest 0 b) = set xs" using bin_rest_set [OF s] e len by auto
  then have l: "bin_rest 0 b = xs" using bin_rest_sorted [OF s] assms(1) it_list_unique by blast
  have "length xs < 1024" using bin_rest_length [OF s] l len assms(3) by auto
  moreover have "npos b ! 0 \<noteq> 0 \<longleftrightarrow> xs \<noteq> []"
  proof (cases "npos b ! 0 = 0")
    case True
    then have "bin_elems b = {}" by (simp add: bin_elems_def bin_vals_def bi_count_def)
    with e True show ?thesis by simp
  qed (use n(1) in \<open>auto simp: b_def bin_empty_def\<close>)
  ultimately show ?thesis using s l by (intro bin.send_by_rest) auto
qed

section \<open>What the reader's loops make of such a text\<close>

lemma show_pos_chars: "0 \<le> n \<Longrightarrow> c \<in> set (show_pos n) \<Longrightarrow> is_digit c"
  using show_pos_digits [of n] by (auto simp: list_all_iff)

lemma show_int_chars: "c \<in> set (show_int n) \<Longrightarrow> is_digit c \<or> c = CHR ''-''"
  using show_pos_chars [of n] show_pos_chars [of "- n"] by (auto simp: show_int_def split: if_splits)

lemma show_int_plain [simp]: "CHR '';'' \<notin> set (show_int n)" "CHR ''='' \<notin> set (show_int n)" "CHR '','' \<notin> set (show_int n)"
  using show_int_chars [of "CHR '';''" n] show_int_chars [of "CHR ''=''" n] show_int_chars [of "CHR '',''" n]
  by (auto simp: is_digit_def ord_def)

lemma by_ulongs_text:
  assumes "0 \<le> n" "n \<le> ULONG_MAX" "\<forall>n \<in> set ns. 0 \<le> n \<and> n \<le> ULONG_MAX" "ends_field rest"
  shows "by_ulongs f (show_int n @ concat (map (\<lambda>n. CHR '','' # show_int n) ns) @ rest) acc =
    foldl (\<lambda>acc n. f n acc) acc (n # ns)"
  using assms
proof (induction ns arbitrary: n acc)
  case Nil
  then show ?case
    by (subst by_ulongs.simps)
      (auto simp: show_int_def strtoul_show_pos ends_field_stops ends_field_def)
next
  case (Cons m ns)
  have "strtoul (show_int n @ CHR '','' # t) = (n, CHR '','' # t)" for t
    using Cons.prems by (simp add: show_int_def strtoul_show_pos)
  with Cons show ?case by (subst by_ulongs.simps) simp
qed

lemma by_longs_text:
  assumes "\<bar>n\<bar> \<le> LONG_MAX" "\<forall>n \<in> set ns. \<bar>n\<bar> \<le> LONG_MAX" "ends_field rest"
  shows "by_longs f (show_int n @ concat (map (\<lambda>n. CHR '','' # show_int n) ns) @ rest) acc =
    foldl (\<lambda>acc n. f n acc) acc (n # ns)"
  using assms
proof (induction ns arbitrary: n acc)
  case Nil
  then have "- LONG_MAX \<le> n" "n \<le> LONG_MAX" by linarith+
  with Nil show ?case
    by (subst by_longs.simps) (auto simp: strtol_show_int ends_field_stops ends_field_def)
next
  case (Cons m ns)
  then have "- LONG_MAX \<le> n" "n \<le> LONG_MAX" by linarith+
  then have "strtol (show_int n @ CHR '','' # t) = (n, CHR '','' # t)" for t
    by (simp add: strtol_show_int)
  with Cons show ?case by (subst by_longs.simps) simp
qed

text \<open>
  The weekday loop runs into the fields behind its own; a text is \<open>quiet\<close> when it reads no
  weekday there.
\<close>

definition quiet :: "string \<Rightarrow> bool" where
  "quiet s \<longleftrightarrow> (\<forall>dow. (case strchr s (CHR '','') of None \<Rightarrow> dow | Some kv \<Rightarrow> by_wdays (tl kv) dow) = dow)"

lemma quiet_simps: "quiet []" "c \<noteq> CHR '','' \<Longrightarrow> quiet (c # s) \<longleftrightarrow> quiet s"
  by (simp_all add: quiet_def)

lemma strchr_append: "c \<notin> set t \<Longrightarrow> strchr (t @ s) c = strchr s c"
  by (induction t) auto

lemma strchr_none: "c \<notin> set t \<Longrightarrow> strchr t c = None"
  by (induction t) auto

lemma quiet_append: "CHR '','' \<notin> set t \<Longrightarrow> quiet (t @ s) \<longleftrightarrow> quiet s"
  by (simp add: quiet_def strchr_append)

definition no_wday :: "string \<Rightarrow> bool" where
  "no_wday s \<longleftrightarrow> stops s \<and> snarf_wday s = 0"

lemma by_wdays_step:
  "by_wdays s dow =
     (case strtol s of (tmp, on) \<Rightarrow>
       (case strchr on (CHR '','') of None \<Rightarrow> add_cd tmp (snarf_wday on) dow
        | Some kv \<Rightarrow> by_wdays (tl kv) (add_cd tmp (snarf_wday on) dow)))"
  by (rule by_wdays.simps)

lemma quiet_number:
  assumes "strtol t = (n, s)" "snarf_wday s = 0"
  shows "quiet (CHR '','' # t) \<longleftrightarrow> quiet s"
proof -
  have "by_wdays t dow = (case strchr s (CHR '','') of None \<Rightarrow> dow | Some kv \<Rightarrow> by_wdays (tl kv) dow)" for dow
    by (subst by_wdays_step) (simp add: assms add_cd_def split: option.split)
  then show ?thesis by (simp add: quiet_def)
qed

definition wday_name :: "int \<Rightarrow> string" where
  "wday_name w = [''MI'', ''MO'', ''TU'', ''WE'', ''TH'', ''FR'', ''SA'', ''SU''] ! nat w"

definition cd_ok :: "int \<Rightarrow> bool" where
  "cd_ok d \<longleftrightarrow> - 53 \<le> d div 8 \<and> d div 8 \<le> 53 \<and> 1 \<le> d mod 8"

lemma wday_cases: "1 \<le> w \<Longrightarrow> w < 8 \<Longrightarrow> w = 1 \<or> w = 2 \<or> w = 3 \<or> w = 4 \<or> w = 5 \<or> w = 6 \<or> w = (7 :: int)"
  by arith

lemma wday_name_read:
  assumes "1 \<le> w" "w < 8"
  shows "snarf_wday (wday_name w @ s) = w" "stops (wday_name w @ s)" "CHR '','' \<notin> set (wday_name w)"
    "CHR '';'' \<notin> set (wday_name w)" "strtol (wday_name w @ s) = (0, wday_name w @ s)"
  using wday_cases [OF assms]
  by (elim disjE; simp add: wday_name_def snarf_wday_def at_def is_digit_def ord_def strtol_def is_space_def)+

lemma strtol_cd:
  assumes "cd_ok d"
  shows "\<exists>tmp w. strtol (send_cd d @ s) = (tmp, wday_name w @ s) \<and> 1 \<le> w \<and> w < 8 \<and>
    add_cd tmp w dow = ass_bi447 dow d"
proof -
  define c w where "c = d div 8" and "w = d mod 8"
  have w: "1 \<le> w" "w < 8" and c: "- 53 \<le> c" "c \<le> 53" using assms by (simp_all add: cd_ok_def c_def w_def)
  have "pack_cd c w = d" by (simp add: pack_cd_def c_def w_def)
  then have "add_cd c w dow = ass_bi447 dow d" using w c by (auto simp: add_cd_def)
  moreover have "send_cd d = (if c \<noteq> 0 then show_int c else []) @ wday_name w"
    by (simp add: send_cd_def unpack_cd_def wday_name_def c_def w_def)
  then have "strtol (send_cd d @ s) = (c, wday_name w @ s)"
    using wday_name_read(2,5) [OF w, of s] c strtol_show_int [of c "wday_name w @ s"]
    by (simp add: LONG_MAX_def)
  ultimately show ?thesis using w by blast
qed

lemma by_wdays_text:
  assumes "cd_ok d" "\<forall>d \<in> set ds. cd_ok d" "quiet rest"
  shows "by_wdays (send_cd d @ concat (map (\<lambda>d. CHR '','' # send_cd d) ds) @ rest) dow = foldl ass_bi447 dow (d # ds)"
  using assms
proof (induction ds arbitrary: d dow)
  case Nil
  then obtain tmp w where d: "strtol (send_cd d @ rest) = (tmp, wday_name w @ rest)" "1 \<le> w" "w < 8"
      "add_cd tmp w dow = ass_bi447 dow d"
    using strtol_cd [of d rest dow] by auto
  from Nil.prems(3) have "(case strchr rest (CHR '','') of None \<Rightarrow> D | Some kv \<Rightarrow> by_wdays (tl kv) D) = D" for D
    by (simp add: quiet_def)
  with d wday_name_read [OF d(2,3)] show ?case by (subst by_wdays_step) (simp add: strchr_append)
next
  case (Cons e ds)
  let ?t = "CHR '','' # send_cd e @ concat (map (\<lambda>d. CHR '','' # send_cd d) ds) @ rest"
  from Cons.prems(1) obtain tmp w where d: "strtol (send_cd d @ ?t) = (tmp, wday_name w @ ?t)" "1 \<le> w" "w < 8"
      "add_cd tmp w dow = ass_bi447 dow d"
    using strtol_cd [of d ?t dow] by auto
  with wday_name_read [OF d(2,3)] Cons show ?case by (subst by_wdays_step) (simp add: strchr_append)
qed

section \<open>One field\<close>

definition parse_tail :: "string \<Rightarrow> rrulsp \<Rightarrow> rrulsp option" where
  "parse_tail s rr = (case s of [] \<Rightarrow> Some rr | _ # t \<Rightarrow> snarf_fields t (int (length t)) rr)"

definition good_rest :: "string \<Rightarrow> bool" where
  "good_rest s \<longleftrightarrow> s = [] \<or> hd s = CHR '';''"

lemma good_rest_simps [simp]: "good_rest []" "good_rest (c # s) \<longleftrightarrow> c = CHR '';''"
  by (simp_all add: good_rest_def)

lemma good_rest_ends: "good_rest s \<Longrightarrow> ends_field s"
  by (cases s) (auto simp: ends_field_def)

lemma parse_tail_Nil [simp]: "parse_tail [] rr = Some rr"
  by (simp add: parse_tail_def)

lemma field_step:
  assumes key: "CHR '';'' \<notin> set key" "CHR ''='' \<notin> set key" and v: "CHR '';'' \<notin> set v" and r: "good_rest rest"
  shows "parse_tail (CHR '';'' # key @ CHR ''='' # v @ rest) rr =
    (case snarf_field (evrrul_key key) (v @ rest) rr of None \<Rightarrow> None | Some rr \<Rightarrow> parse_tail rest rr)"
proof -
  let ?s = "key @ CHR ''='' # v @ rest"
  let ?e = "int (length key + length v + 1)"
  have semi: "strchr ?s (CHR '';'') = (if rest = [] then None else Some rest)"
    using key v r by (cases rest) (simp_all add: strchr_append strchr_none)
  have e: "dist ?s (strchr ?s (CHR '';'')) (int (length ?s)) = ?e"
    unfolding semi by (cases rest) (simp_all add: dist_def)
  have "strchr ?s (CHR ''='') = Some (CHR ''='' # v @ rest)"
    using key by (simp add: strchr_append)
  then have one: "snarf_one ?s ?e rr = snarf_field (evrrul_key key) (v @ rest) rr"
    by (simp add: snarf_one_def)
  have d: "drop (nat (?e + 1)) ?s = tl rest"
    by (cases rest) (simp_all add: nat_add_distrib)
  have z: "snarf_fields (tl rest) (int (length ?s) - (?e + 1)) rr' = parse_tail rest rr'" for rr'
    using r by (cases rest) (simp_all add: parse_tail_def snarf_fields.simps [of "[]"])
  have "parse_tail (CHR '';'' # ?s) rr = snarf_fields ?s (int (length ?s)) rr"
    by (simp add: parse_tail_def)
  also have "\<dots> = (case snarf_one ?s ?e rr of None \<Rightarrow> None
      | Some rr \<Rightarrow> snarf_fields (drop (nat (?e + 1)) ?s) (int (length ?s) - (?e + 1)) rr)"
    by (subst snarf_fields.simps) (simp only: e Let_def, simp)
  finally show ?thesis unfolding one d z .
qed

lemma joined_plain:
  "CHR '';'' \<notin> set (concat (map (\<lambda>x. CHR '','' # sh x) xs))" if "\<forall>x \<in> set xs. CHR '';'' \<notin> set (sh x)"
  using that by auto

lemma map_comma: "map (Cons (CHR '','')) (map sh xs) = map (\<lambda>x. CHR '','' # sh x) xs"
  by simp

text \<open>A BY field as a whole, for any loop that reads its list.\<close>

lemma field_by:
  assumes key: "CHR '';'' \<notin> set key" "CHR ''='' \<notin> set key" and r: "good_rest rest"
    and sh: "\<forall>x \<in> set xs. CHR '';'' \<notin> set (sh x)"
    and read: "\<And>v rr. snarf_field (evrrul_key key) v rr = Some (upd (rd v (get rr)) rr)"
    and get: "\<And>rr. upd (get rr) rr = rr"
    and loop: "\<And>x ys. xs = x # ys \<Longrightarrow>
      rd (sh x @ concat (map (\<lambda>x. CHR '','' # sh x) ys) @ rest) (get rr) = foldl st (get rr) (x # ys)"
  shows "parse_tail (by_text (CHR '';'' # key @ ''='') (map sh xs) @ rest) rr = parse_tail rest (upd (foldl st (get rr) xs) rr)"
proof (cases xs)
  case Nil
  then show ?thesis by (simp add: get)
next
  case (Cons x ys)
  let ?v = "sh x @ concat (map (\<lambda>x. CHR '','' # sh x) ys)"
  have v: "CHR '';'' \<notin> set ?v" using sh joined_plain [of ys sh] Cons by auto
  have "by_text (CHR '';'' # key @ ''='') (map sh xs) @ rest = CHR '';'' # key @ CHR ''='' # ?v @ rest"
    by (simp add: Cons comp_def)
  then show ?thesis
    using field_step [OF key v r, of rr] loop [OF Cons] Cons by (simp add: read)
qed

lemma foldl_same: "(\<And>x acc. x \<in> set xs \<Longrightarrow> f acc x = g acc x) \<Longrightarrow> foldl f acc xs = foldl g acc xs"
  by (induction xs arbitrary: acc) auto

lemma ulongs_loop:
  assumes "\<forall>n \<in> set (x # ys). int n \<le> 100" "good_rest rest" "\<And>n acc. n \<in> set (x # ys) \<Longrightarrow> f (int n) acc = st acc n"
  shows "by_ulongs f (send_uint x @ concat (map (\<lambda>x. CHR '','' # send_uint x) ys) @ rest) acc = foldl st acc (x # ys)"
proof -
  have "by_ulongs f (show_int (int x) @ concat (map (\<lambda>n. CHR '','' # show_int n) (map int ys)) @ rest) acc =
      foldl (\<lambda>acc n. f n acc) acc (int x # map int ys)"
    using assms(1) by (intro by_ulongs_text good_rest_ends assms(2)) (auto simp: ULONG_MAX_def)
  then show ?thesis
    using foldl_same [of "x # ys" "\<lambda>acc n. f (int n) acc" st] assms(3)
    by (simp add: send_uint_def comp_def foldl_map)
qed

lemma longs_loop:
  assumes "\<forall>n \<in> set (x # ys). \<bar>n\<bar> \<le> 1000" "good_rest rest" "\<And>n acc. n \<in> set (x # ys) \<Longrightarrow> f n acc = st acc n"
  shows "by_longs f (show_int x @ concat (map (\<lambda>x. CHR '','' # show_int x) ys) @ rest) acc = foldl st acc (x # ys)"
  using by_longs_text [of x ys rest f acc] foldl_same [of "x # ys" "\<lambda>acc n. f n acc" st] assms
  by (force simp: LONG_MAX_def good_rest_ends)

lemma field_ulongs:
  assumes "CHR '';'' \<notin> set key" "CHR ''='' \<notin> set key" "good_rest rest"
    and x: "\<forall>n \<in> set xs. int n \<le> 100 \<and> (\<forall>acc. f (int n) acc = st acc n)"
    and "\<And>v rr. snarf_field (evrrul_key key) v rr = Some (upd (by_ulongs f v (get rr)) rr)"
    and "\<And>rr. upd (get rr) rr = rr"
  shows "parse_tail (by_text (CHR '';'' # key @ ''='') (map send_uint xs) @ rest) rr =
    parse_tail rest (upd (foldl st (get rr) xs) rr)"
proof (rule field_by [OF assms(1-3) _ assms(5,6)])
  show "\<forall>x \<in> set xs. CHR '';'' \<notin> set (send_uint x)" by (simp add: send_uint_def)
  fix y ys assume "xs = y # ys"
  with x show "by_ulongs f (send_uint y @ concat (map (\<lambda>x. CHR '','' # send_uint x) ys) @ rest) (get rr) = foldl st (get rr) (y # ys)"
    by (intro ulongs_loop assms(3)) auto
qed

lemma field_longs:
  assumes "CHR '';'' \<notin> set key" "CHR ''='' \<notin> set key" "good_rest rest"
    and x: "\<forall>n \<in> set xs. \<bar>n\<bar> \<le> 1000 \<and> (\<forall>acc. f n acc = st acc n)"
    and "\<And>v rr. snarf_field (evrrul_key key) v rr = Some (upd (by_longs f v (get rr)) rr)"
    and "\<And>rr. upd (get rr) rr = rr"
  shows "parse_tail (by_text (CHR '';'' # key @ ''='') (map show_int xs) @ rest) rr =
    parse_tail rest (upd (foldl st (get rr) xs) rr)"
proof (rule field_by [OF assms(1-3) _ assms(5,6)])
  fix y ys assume "xs = y # ys"
  with x show "by_longs f (show_int y @ concat (map (\<lambda>x. CHR '','' # show_int x) ys) @ rest) (get rr) = foldl st (get rr) (y # ys)"
    by (intro longs_loop assms(3)) auto
qed simp

lemmas keys = evrrul_key_def evrrul_keys_def snarf_field_def

section \<open>The fields of a rule\<close>

record by_parts =
  b_mon :: "nat list"
  b_wk :: "int list"
  b_doy :: "int list"
  b_dom :: "int list"
  b_easter :: "int list"
  b_dow :: "int list"
  b_H :: "nat list"
  b_M :: "nat list"
  b_S :: "nat list"
  b_pos :: "int list"

definition with_parts :: "by_parts \<Rightarrow> rrulsp \<Rightarrow> rrulsp" where
  "with_parts p rr = rr\<lparr>
     rr_mon := foldl ass_bui31 0 (b_mon p), rr_wk := foldl ass_bi63 bi_empty (b_wk p),
     rr_doy := foldl ass_bi383 (bin_empty 12) (b_doy p), rr_dom := foldl ass_bi31 bi_empty (b_dom p),
     rr_easter := foldl ass_bi383 (bin_empty 12) (b_easter p), rr_dow := foldl ass_bi447 (bin_empty 14) (b_dow p),
     rr_H := foldl ass_bui31 0 (b_H p), rr_M := foldl ass_bui63 0 (b_M p), rr_S := foldl ass_bui63 0 (b_S p),
     rr_pos := foldl ass_bi383 (bin_empty 12) (b_pos p)\<rparr>"

text \<open>
  Signed parts without naught, up to a bound, in the iterator's order; the sets without an array
  lose negative integers unless a positive one or nothing else is there.
\<close>

definition part_ok :: "int \<Rightarrow> int list \<Rightarrow> bool" where
  "part_ok n xs \<longleftrightarrow> sorted_wrt it_before xs \<and> (\<forall>x \<in> set xs. x \<noteq> 0 \<and> \<bar>x\<bar> \<le> n)"

definition some_pos :: "int list \<Rightarrow> bool" where
  "some_pos xs \<longleftrightarrow> length xs \<le> 1 \<or> (\<exists>x \<in> set xs. 0 < x)"

definition parts_ok :: "by_parts \<Rightarrow> bool" where
  "parts_ok p \<longleftrightarrow>
     sorted_wrt (<) (b_mon p) \<and> set (b_mon p) \<subseteq> {1..12} \<and>
     part_ok 53 (b_wk p) \<and> some_pos (b_wk p) \<and> part_ok 366 (b_doy p) \<and>
     part_ok 31 (b_dom p) \<and> some_pos (b_dom p) \<and>
     sorted_wrt it_before (b_easter p) \<and> (\<forall>x \<in> set (b_easter p). \<bar>x\<bar> \<le> 366) \<and>
     sorted_wrt it_before (b_dow p) \<and> (\<forall>d \<in> set (b_dow p). cd_ok d) \<and>
     sorted_wrt (<) (b_H p) \<and> set (b_H p) \<subseteq> {..24} \<and>
     wide_ok (b_M p) \<and> set (b_M p) \<subseteq> {..<60} \<and> wide_ok (b_S p) \<and> set (b_S p) \<subseteq> {..60} \<and>
     part_ok 366 (b_pos p)"

definition bys_text :: "by_parts \<Rightarrow> string" where
  "bys_text p =
     by_text '';BYMONTH='' (map send_uint (b_mon p)) @ by_text '';BYWEEKNO='' (map show_int (b_wk p)) @
     by_text '';BYYEARDAY='' (map show_int (b_doy p)) @ by_text '';BYMONTHDAY='' (map show_int (b_dom p)) @
     by_text '';BYEASTER='' (map show_int (b_easter p)) @ by_text '';BYDAY='' (map send_cd (b_dow p)) @
     by_text '';BYHOUR='' (map send_uint (b_H p)) @ by_text '';BYMINUTE='' (map send_uint (b_M p)) @
     by_text '';BYSECOND='' (map send_uint (b_S p)) @ by_text '';BYPOS='' (map show_int (b_pos p))"

lemma cd_bound: "cd_ok d \<Longrightarrow> \<bar>d\<bar> < 447"
  unfolding cd_ok_def by presburger

lemma part_bound: "part_ok n xs \<Longrightarrow> n < m \<Longrightarrow> \<forall>x \<in> set xs. \<bar>x\<bar> < m"
  by (fastforce simp: part_ok_def)

lemma wide_31: "sorted_wrt (<) xs \<Longrightarrow> \<forall>x \<in> set xs. x < 31 \<Longrightarrow> wide_ok xs"
  by (fastforce simp: wide_ok_def)

lemma send_bys_text:
  assumes "parts_ok p"
  shows "send_bys (with_parts p rr) = bys_text p"
proof -
  note [simp] = ass_bui31_def [abs_def] ass_bi63_def [abs_def] ass_bi31_def [abs_def] ass_bi383_def [abs_def]
    ass_bi447_def [abs_def] bui31_next_def bi63_next_def bi31_next_def bi383_next_def bi447_next_def
    bui31_has_bits_p_def bui63_has_bits_p_def bi31_has_bits_p_def bi63_has_bits_p_def bi383_has_bits_p_def
    bi447_has_bits_p_def
  have w: "wide_ok (b_mon p)" "wide_ok (b_H p)" "wide_ok (b_M p)" "wide_ok (b_S p)"
    using assms by (auto simp: parts_ok_def intro!: wide_31)
  have s: "sorted_wrt it_before (b_wk p)" "sorted_wrt it_before (b_doy p)" "sorted_wrt it_before (b_dom p)"
    "sorted_wrt it_before (b_easter p)" "sorted_wrt it_before (b_dow p)" "sorted_wrt it_before (b_pos p)"
    using assms by (auto simp: parts_ok_def part_ok_def)
  have b: "\<forall>x \<in> set (b_wk p). \<bar>x\<bar> < 64" "\<forall>x \<in> set (b_doy p). \<bar>x\<bar> < 383" "\<forall>x \<in> set (b_dom p). \<bar>x\<bar> < 32"
    "\<forall>x \<in> set (b_easter p). \<bar>x\<bar> < 383" "\<forall>x \<in> set (b_dow p). \<bar>x\<bar> < 447" "\<forall>x \<in> set (b_pos p). \<bar>x\<bar> < 383"
    using assms by (auto simp: parts_ok_def part_ok_def cd_bound)
  have q: "length (b_wk p) \<le> 1 \<or> (\<exists>x \<in> set (b_wk p). 0 < x)" "length (b_dom p) \<le> 1 \<or> (\<exists>x \<in> set (b_dom p). 0 < x)"
    using assms by (auto simp: parts_ok_def some_pos_def)
  show ?thesis
    using send_unsigned [OF w(1)] send_unsigned [OF w(2)] send_wide(1) [OF w(3)] send_wide(2) [OF w(4)]
      send_signed [where ?'a = 64, OF s(1) _ _ q(1)] send_signed [where ?'a = 32, OF s(3) _ _ q(2)]
      send_array [OF s(2), of 12] send_array [OF s(4), of 12] send_array [OF s(5), of 14] send_array [OF s(6), of 12] b
    by (simp add: send_bys_def with_parts_def bys_text_def)
qed

lemma parse_mon:
  assumes "good_rest rest" "set xs \<subseteq> {1..12}"
  shows "parse_tail (by_text '';BYMONTH='' (map send_uint xs) @ rest) rr =
    parse_tail rest (rr\<lparr>rr_mon := foldl ass_bui31 (rr_mon rr) xs\<rparr>)"
proof -
  have "parse_tail (by_text (CHR '';'' # ''BYMONTH'' @ ''='') (map send_uint xs) @ rest) rr =
      parse_tail rest ((\<lambda>v rr. rr\<lparr>rr_mon := v\<rparr>) (foldl ass_bui31 (rr_mon rr) xs) rr)"
    by (rule field_ulongs [where f = put_mon]) (use assms in \<open>auto simp: keys put_mon_def part_ok_def\<close>)
  then show ?thesis by simp
qed

lemma parse_wk:
  assumes "good_rest rest" "part_ok 53 xs"
  shows "parse_tail (by_text '';BYWEEKNO='' (map show_int xs) @ rest) rr =
    parse_tail rest (rr\<lparr>rr_wk := foldl ass_bi63 (rr_wk rr) xs\<rparr>)"
proof -
  have "parse_tail (by_text (CHR '';'' # ''BYWEEKNO'' @ ''='') (map show_int xs) @ rest) rr =
      parse_tail rest ((\<lambda>v rr. rr\<lparr>rr_wk := v\<rparr>) (foldl ass_bi63 (rr_wk rr) xs) rr)"
    by (rule field_longs [where f = put_week]) (use assms in \<open>auto simp: keys put_week_def part_ok_def\<close>)
  then show ?thesis by simp
qed

lemma parse_doy:
  assumes "good_rest rest" "part_ok 366 xs"
  shows "parse_tail (by_text '';BYYEARDAY='' (map show_int xs) @ rest) rr =
    parse_tail rest (rr\<lparr>rr_doy := foldl ass_bi383 (rr_doy rr) xs\<rparr>)"
proof -
  have "parse_tail (by_text (CHR '';'' # ''BYYEARDAY'' @ ''='') (map show_int xs) @ rest) rr =
      parse_tail rest ((\<lambda>v rr. rr\<lparr>rr_doy := v\<rparr>) (foldl ass_bi383 (rr_doy rr) xs) rr)"
    by (rule field_longs [where f = put_yday]) (use assms in \<open>auto simp: keys put_yday_def part_ok_def\<close>)
  then show ?thesis by simp
qed

lemma parse_dom:
  assumes "good_rest rest" "part_ok 31 xs"
  shows "parse_tail (by_text '';BYMONTHDAY='' (map show_int xs) @ rest) rr =
    parse_tail rest (rr\<lparr>rr_dom := foldl ass_bi31 (rr_dom rr) xs\<rparr>)"
proof -
  have "parse_tail (by_text (CHR '';'' # ''BYMONTHDAY'' @ ''='') (map show_int xs) @ rest) rr =
      parse_tail rest ((\<lambda>v rr. rr\<lparr>rr_dom := v\<rparr>) (foldl ass_bi31 (rr_dom rr) xs) rr)"
    by (rule field_longs [where f = put_mday]) (use assms in \<open>auto simp: keys put_mday_def part_ok_def\<close>)
  then show ?thesis by simp
qed

lemma parse_easter:
  assumes "good_rest rest" "\<forall>x \<in> set xs. \<bar>x\<bar> \<le> 366"
  shows "parse_tail (by_text '';BYEASTER='' (map show_int xs) @ rest) rr =
    parse_tail rest (rr\<lparr>rr_easter := foldl ass_bi383 (rr_easter rr) xs\<rparr>)"
proof -
  have "parse_tail (by_text (CHR '';'' # ''BYEASTER'' @ ''='') (map show_int xs) @ rest) rr =
      parse_tail rest ((\<lambda>v rr. rr\<lparr>rr_easter := v\<rparr>) (foldl ass_bi383 (rr_easter rr) xs) rr)"
    by (rule field_longs [where f = put_easter]) (use assms in \<open>auto simp: keys put_easter_def part_ok_def\<close>)
  then show ?thesis by simp
qed

lemma parse_H:
  assumes "good_rest rest" "set xs \<subseteq> {..24}"
  shows "parse_tail (by_text '';BYHOUR='' (map send_uint xs) @ rest) rr =
    parse_tail rest (rr\<lparr>rr_H := foldl ass_bui31 (rr_H rr) xs\<rparr>)"
proof -
  have "parse_tail (by_text (CHR '';'' # ''BYHOUR'' @ ''='') (map send_uint xs) @ rest) rr =
      parse_tail rest ((\<lambda>v rr. rr\<lparr>rr_H := v\<rparr>) (foldl ass_bui31 (rr_H rr) xs) rr)"
    by (rule field_ulongs [where f = put_hour]) (use assms in \<open>auto simp: keys put_hour_def part_ok_def\<close>)
  then show ?thesis by simp
qed

lemma parse_M:
  assumes "good_rest rest" "set xs \<subseteq> {..<60}"
  shows "parse_tail (by_text '';BYMINUTE='' (map send_uint xs) @ rest) rr =
    parse_tail rest (rr\<lparr>rr_M := foldl ass_bui63 (rr_M rr) xs\<rparr>)"
proof -
  have "parse_tail (by_text (CHR '';'' # ''BYMINUTE'' @ ''='') (map send_uint xs) @ rest) rr =
      parse_tail rest ((\<lambda>v rr. rr\<lparr>rr_M := v\<rparr>) (foldl ass_bui63 (rr_M rr) xs) rr)"
    by (rule field_ulongs [where f = put_minute]) (use assms in \<open>auto simp: keys put_minute_def part_ok_def\<close>)
  then show ?thesis by simp
qed

lemma parse_S:
  assumes "good_rest rest" "set xs \<subseteq> {..60}"
  shows "parse_tail (by_text '';BYSECOND='' (map send_uint xs) @ rest) rr =
    parse_tail rest (rr\<lparr>rr_S := foldl ass_bui63 (rr_S rr) xs\<rparr>)"
proof -
  have "parse_tail (by_text (CHR '';'' # ''BYSECOND'' @ ''='') (map send_uint xs) @ rest) rr =
      parse_tail rest ((\<lambda>v rr. rr\<lparr>rr_S := v\<rparr>) (foldl ass_bui63 (rr_S rr) xs) rr)"
    by (rule field_ulongs [where f = put_second]) (use assms in \<open>auto simp: keys put_second_def part_ok_def\<close>)
  then show ?thesis by simp
qed

text \<open>The positions are written under a key that the reader does not know.\<close>

lemma parse_pos:
  assumes "good_rest rest"
  shows "parse_tail (by_text '';BYPOS='' (map show_int xs) @ rest) rr = parse_tail rest rr"
proof -
  have "parse_tail (by_text (CHR '';'' # ''BYPOS'' @ ''='') (map show_int xs) @ rest) rr = parse_tail rest ((\<lambda>v rr. rr) () rr)"
    by (rule field_by [where rd = "\<lambda>v acc. ()" and get = "\<lambda>rr. ()" and st = "\<lambda>acc x. ()"])
      (use assms in \<open>auto simp: keys\<close>)
  then show ?thesis by simp
qed

lemma send_cd_plain: "cd_ok d \<Longrightarrow> CHR '';'' \<notin> set (send_cd d)"
  using wday_name_read(4) [of "d mod 8"]
  by (auto simp: send_cd_def unpack_cd_def cd_ok_def wday_name_def)

lemma parse_dow:
  assumes "good_rest rest" "\<forall>d \<in> set xs. cd_ok d" "quiet rest"
  shows "parse_tail (by_text '';BYDAY='' (map send_cd xs) @ rest) rr =
    parse_tail rest (rr\<lparr>rr_dow := foldl ass_bi447 (rr_dow rr) xs\<rparr>)"
proof -
  have "parse_tail (by_text (CHR '';'' # ''BYDAY'' @ ''='') (map send_cd xs) @ rest) rr =
      parse_tail rest ((\<lambda>v rr. rr\<lparr>rr_dow := v\<rparr>) (foldl ass_bi447 (rr_dow rr) xs) rr)"
  proof (rule field_by [where rd = by_wdays])
    show "\<forall>x \<in> set xs. CHR '';'' \<notin> set (send_cd x)" using assms(2) by (simp add: send_cd_plain)
    fix x ys assume "xs = x # ys"
    with assms show "by_wdays (send_cd x @ concat (map (\<lambda>x. CHR '','' # send_cd x) ys) @ rest) (rr_dow rr) =
        foldl ass_bi447 (rr_dow rr) (x # ys)"
      by (intro by_wdays_text) auto
  qed (use assms in \<open>auto simp: keys\<close>)
  then show ?thesis by simp
qed

text \<open>Number lists, and what may stand behind a number, are quiet.\<close>

lemma quiet_list:
  assumes "\<forall>n \<in> set ns. \<bar>n\<bar> \<le> LONG_MAX" "good_rest rest"
  shows "quiet (concat (map (\<lambda>n. CHR '','' # show_int n) ns) @ rest) \<longleftrightarrow> quiet rest"
  using assms
proof (induction ns)
  case (Cons n ns)
  let ?r = "concat (map (\<lambda>n. CHR '','' # show_int n) ns) @ rest"
  have "deref ?r = CHR '','' \<or> deref ?r = CHR '';'' \<or> ?r = []"
    using Cons.prems(2) by (cases ns; cases rest) auto
  then have r: "stops ?r" "snarf_wday ?r = 0"
    by (auto simp: stops_def snarf_wday_def at_0)
  have "- LONG_MAX \<le> n" "n \<le> LONG_MAX" using Cons.prems(1) by auto
  then have "strtol (show_int n @ ?r) = (n, ?r)" using r(1) by (rule strtol_show_int)
  from quiet_number [OF this r(2)] Cons show ?case by simp
qed simp

lemma quiet_ints:
  assumes "\<forall>n \<in> set ns. \<bar>n\<bar> \<le> 1000" "good_rest rest" "CHR '','' \<notin> set key"
  shows "quiet (by_text key (map show_int ns) @ rest) \<longleftrightarrow> quiet rest"
proof (cases ns)
  case (Cons n ms)
  have "CHR '','' \<notin> set (key @ show_int n)" using assms(3) by simp
  from quiet_append [OF this] quiet_list [of ms rest] assms Cons show ?thesis
    by (fastforce simp: comp_def LONG_MAX_def)
qed simp

lemma quiet_uints:
  assumes "\<forall>n \<in> set ns. n \<le> 100" "good_rest rest" "CHR '','' \<notin> set key"
  shows "quiet (by_text key (map send_uint ns) @ rest) \<longleftrightarrow> quiet rest"
proof -
  have "map send_uint ns = map show_int (map int ns)" by (simp add: send_uint_def)
  moreover have "\<forall>n \<in> set (map int ns). \<bar>n\<bar> \<le> 1000" using assms(1) by auto
  ultimately show ?thesis using quiet_ints [OF _ assms(2,3)] by metis
qed

lemma good_by_text: "good_rest rest \<Longrightarrow> good_rest (by_text (CHR '';'' # key) ts @ rest)"
  by (cases ts) simp_all

section \<open>The other fields\<close>

lemma parse_freq:
  assumes "good_rest rest"
  shows "parse_tail (CHR '';'' # send_freq f @ rest) rr = parse_tail rest (rr\<lparr>rr_freq := f\<rparr>)"
proof -
  define v where "v = drop 5 (send_freq f)"
  have "send_freq f = ''FREQ'' @ CHR ''='' # v" "CHR '';'' \<notin> set v" "snarf_freq (v @ rest) = f"
    by (cases f; simp add: v_def send_freq_def snarf_freq_def starts_def)+
  then show ?thesis using field_step [of "''FREQ''" v rest rr] assms by (simp add: keys)
qed

lemma parse_number:
  assumes "good_rest rest" "0 < n" "n \<le> 4294967295"
  shows "parse_tail ('';INTERVAL='' @ show_int n @ rest) rr = parse_tail rest (rr\<lparr>rr_inter := n\<rparr>)"
    "n < 2147483648 \<Longrightarrow> parse_tail ('';COUNT='' @ show_int n @ rest) rr = parse_tail rest (rr\<lparr>rr_count := n\<rparr>)"
proof -
  have n: "strtol (show_int n @ rest) = (n, rest)"
    using assms by (intro strtol_show_int ends_field_stops good_rest_ends) (auto simp: LONG_MAX_def)
  show "parse_tail ('';INTERVAL='' @ show_int n @ rest) rr = parse_tail rest (rr\<lparr>rr_inter := n\<rparr>)"
    using field_step [of "''INTERVAL''" "show_int n" rest rr] assms n by (simp add: keys u32_id)
  show "parse_tail ('';COUNT='' @ show_int n @ rest) rr = parse_tail rest (rr\<lparr>rr_count := n\<rparr>)" if "n < 2147483648"
    using field_step [of "''COUNT''" "show_int n" rest rr] assms n that by (simp add: keys i32_id)
qed

text \<open>Four of the ten Hijri scales are not read back from what is written for them.\<close>

definition scale_back :: "echs_scale \<Rightarrow> bool" where
  "scale_back sca \<longleftrightarrow> sca \<in> {0, 5, 6, 7, 8, 9, 10}"

lemma scale_texts:
  assumes "good_rest rest"
  shows "snarf_scale (''HIJRI.IIIA'' @ rest) = 5" "snarf_scale (''HIJRI.IIIC'' @ rest) = 6"
    "snarf_scale (''HIJRI.IVA'' @ rest) = 7" "snarf_scale (''HIJRI.IVC'' @ rest) = 8"
    "snarf_scale (''HIJRI.UMMULQURA'' @ rest) = 9" "snarf_scale (''HIJRI.DIYANET'' @ rest) = 10"
  using assms by (auto simp: snarf_scale_def snarf_gent_def at_def good_rest_def deref_def split: list.split)

lemma scale_words:
  assumes "scale_back sca" "sca \<noteq> 0" "good_rest rest"
  shows "\<exists>v. send_scale sca = CHR '';'' # ''SCALE'' @ CHR ''='' # v \<and> CHR '';'' \<notin> set v \<and> snarf_scale (v @ rest) = sca"
proof -
  have "sca = 5 \<or> sca = 6 \<or> sca = 7 \<or> sca = 8 \<or> sca = 9 \<or> sca = 10"
    using assms(1,2) by (simp add: scale_back_def)
  then show ?thesis
  proof (elim disjE)
    assume "sca = 5"
    with scale_texts(1) [OF assms(3)] show ?thesis by (intro exI [of _ "''HIJRI.IIIA''"]) (simp add: send_scale_def)
  next
    assume "sca = 6"
    with scale_texts(2) [OF assms(3)] show ?thesis by (intro exI [of _ "''HIJRI.IIIC''"]) (simp add: send_scale_def)
  next
    assume "sca = 7"
    with scale_texts(3) [OF assms(3)] show ?thesis by (intro exI [of _ "''HIJRI.IVA''"]) (simp add: send_scale_def)
  next
    assume "sca = 8"
    with scale_texts(4) [OF assms(3)] show ?thesis by (intro exI [of _ "''HIJRI.IVC''"]) (simp add: send_scale_def)
  next
    assume "sca = 9"
    with scale_texts(5) [OF assms(3)] show ?thesis by (intro exI [of _ "''HIJRI.UMMULQURA''"]) (simp add: send_scale_def)
  next
    assume "sca = 10"
    with scale_texts(6) [OF assms(3)] show ?thesis by (intro exI [of _ "''HIJRI.DIYANET''"]) (simp add: send_scale_def)
  qed
qed

lemma parse_scale:
  assumes "good_rest rest" "scale_back sca" "rr_scale rr = 0"
  shows "parse_tail ((if sca \<noteq> SCALE_GREGORIAN then send_scale sca else []) @ rest) rr = parse_tail rest (rr\<lparr>rr_scale := sca\<rparr>)"
proof (cases "sca = 0")
  case True
  have "rr\<lparr>rr_scale := 0\<rparr> = rr" using assms(3) by (cases rr) simp
  with True show ?thesis by simp
next
  case False
  from scale_words [OF assms(2) False assms(1)] obtain v where
    "send_scale sca = CHR '';'' # ''SCALE'' @ CHR ''='' # v" "CHR '';'' \<notin> set v" "snarf_scale (v @ rest) = sca" by blast
  then show ?thesis using False field_step [of "''SCALE''" v rest rr] assms(1) by (simp add: keys)
qed

text \<open>The shifts that can be written.\<close>

definition shift_ok :: "echs_shift \<Rightarrow> bool" where
  "shift_ok sh \<longleftrightarrow> sh = 0 \<or> (\<exists>d b iv. - 32768 \<le> d \<and> d < 32768 \<and> \<bar>b\<bar> < 16384 \<and>
     (sh = shift_fin d b (if iv then 2 else 0) \<or> sh = shift_pack d 0 0))"

lemma shift_ok_cases:
  assumes "shift_ok sh" "sh \<noteq> 0"
  obtains d b iv where "- 32768 \<le> d" "d < 32768" "\<bar>b\<bar> < 16384" "sh = shift_fin d b (if iv then 2 else 0)"
  | d where "- 32768 \<le> d" "d < 32768" "sh = shift_pack d 0 0"
  using assms unfolding shift_ok_def by blast

lemma shift_ok_read:
  assumes "shift_ok sh" "sh \<noteq> 0" "good_rest rest"
  shows "snarf_shift (send_shift sh @ rest) = sh"
  using assms(1,2)
proof (cases rule: shift_ok_cases)
  case (1 d b iv)
  with shift_text_roundtrip [of d b rest iv] good_rest_ends [OF assms(3)] show ?thesis by (simp add: Let_def)
next
  case (2 d)
  with shift_text_roundtrip [of d 0 rest False] good_rest_ends [OF assms(3)] show ?thesis by (simp add: Let_def)
qed

lemma send_shift_plain: "CHR '';'' \<notin> set (send_shift sh)"
  by (auto simp: send_shift_def)

lemma parse_shift:
  assumes "good_rest rest" "shift_ok sh" "rr_shift rr = 0"
  shows "parse_tail ((if sh \<noteq> 0 then '';SHIFT='' @ send_shift sh else []) @ rest) rr = parse_tail rest (rr\<lparr>rr_shift := sh\<rparr>)"
proof (cases "sh = 0")
  case True
  have "rr\<lparr>rr_shift := 0\<rparr> = rr" using assms(3) by (cases rr) simp
  with True show ?thesis by simp
next
  case False
  with field_step [of "''SHIFT''" "send_shift sh" rest rr] assms shift_ok_read send_shift_plain
  show ?thesis by (simp add: keys)
qed

lemma quiet_shift:
  assumes "good_rest rest"
  shows "quiet ((if sh \<noteq> 0 then '';SHIFT='' @ send_shift sh else []) @ rest) \<longleftrightarrow> quiet rest"
proof -
  let ?g = "if echs_shift_neg_p sh then ''-'' else ''+''"
  let ?d = "if echs_shift_dvalue sh \<noteq> 0 then show_int (drop_bit 16 sh) else []"
  let ?e = "if echs_shift_inv_p sh \<and> echs_shift_absval sh \<noteq> 0 then ?g else []"
  let ?B = "?g @ show_int (echs_shift_absval sh) @ ''B'' @ ?e"
  have a: "0 \<le> echs_shift_absval sh" "echs_shift_absval sh \<le> LONG_MAX"
  proof -
    have "sh AND 0xffff = sh mod 65536" using take_bit_eq_mask [of 16 sh] by (simp add: take_bit_eq_mod mask_eq_exp_minus_1)
    then have "0 \<le> sh AND 0xffff" "sh AND 0xffff < 65536" by simp_all
    then have "0 \<le> (sh AND 0xffff) div 4" "(sh AND 0xffff) div 4 \<le> LONG_MAX" unfolding LONG_MAX_def by linarith+
    then show "0 \<le> echs_shift_absval sh" "echs_shift_absval sh \<le> LONG_MAX"
      by (simp_all add: echs_shift_absval_def drop_bit_eq_div)
  qed
  let ?r = "''B'' @ ?e @ rest"
  have "stops ?r" "snarf_wday ?r = 0" by (simp_all add: snarf_wday_def at_0)
  moreover have "strtol (?g @ show_int (echs_shift_absval sh) @ ?r) =
      (if echs_shift_neg_p sh then - echs_shift_absval sh else echs_shift_absval sh, ?r)"
    using strtol_show_pos(2,3) [OF a, of ?r] a by (auto simp: show_int_def)
  ultimately have c: "quiet (CHR '','' # ?B @ rest) \<longleftrightarrow> quiet ?r"
    using quiet_number [of "?B @ rest"] by simp
  have e: "CHR '','' \<notin> set ?e" "CHR '','' \<notin> set ?B" "CHR '','' \<notin> set ?d" by auto
  have r: "quiet ?r \<longleftrightarrow> quiet rest" using quiet_append [OF e(1), of rest] by (simp add: quiet_simps)
  have s: "send_shift sh @ rest = ?d @ (if echs_shift_bday_p sh then
      if echs_shift_dvalue sh \<noteq> 0 then CHR '','' # ?B @ rest else ?B @ rest else rest)"
    by (simp add: send_shift_def)
  have "quiet (send_shift sh @ rest) \<longleftrightarrow> quiet rest"
    unfolding s quiet_append [OF e(3)] using c r quiet_append [OF e(2), of rest] by auto
  then show ?thesis by (simp add: quiet_simps)
qed

text \<open>The last recurrence, to the day or to the second.\<close>

definition until_ok :: "instant \<Rightarrow> bool" where
  "until_ok i \<longleftrightarrow> i = echs_max_instant \<or> text_ok i \<and> (echs_instant_all_day_p i \<or> i_ms i = ECHS_ALL_SEC)"

lemma until_chars:
  assumes "text_ok i" "c \<in> set (dt_strf_ical 32 i)"
  shows "is_digit c \<or> c = CHR ''T'' \<or> c = CHR ''Z''"
  using assms dg_is_digit by (auto simp: dt_strf_ical_text split: if_splits)

lemma parse_until:
  assumes "until_ok i" "rr_until rr = echs_max_instant"
  shows "parse_tail (if \<not> echs_max_instant_p i then '';UNTIL='' @ dt_strf_ical 32 i else []) rr = Some (rr\<lparr>rr_until := i\<rparr>)"
    "quiet (if \<not> echs_max_instant_p i then '';UNTIL='' @ dt_strf_ical 32 i else [])"
proof -
  let ?t = "dt_strf_ical 32 i"
  have "\<not> echs_max_instant_p i \<Longrightarrow> text_ok i \<and> (echs_instant_all_day_p i \<or> i_ms i = ECHS_ALL_SEC)"
    using assms(1) by (auto simp: until_ok_def echs_max_instant_p_def echs_max_instant_def inst_u_def)
  moreover have "i = echs_max_instant" if "echs_max_instant_p i" using that assms(1) text_ok_max by (auto simp: until_ok_def)
  moreover have c: "CHR '';'' \<notin> set ?t" "CHR '','' \<notin> set ?t" if "text_ok i"
    using until_chars [OF that, of "CHR '';''"] until_chars [OF that, of "CHR '',''"] by auto
  moreover have "fst (dt_strp ?t 0) = i" if "text_ok i" "echs_instant_all_day_p i \<or> i_ms i = ECHS_ALL_SEC"
    using ical_text_roundtrip [OF that(1), of 32 "[]" 0] that(2) by (cases i) (auto simp: ends_text_def)
  moreover have "rr\<lparr>rr_until := echs_max_instant\<rparr> = rr" using assms(2) by (cases rr) simp
  ultimately show "parse_tail (if \<not> echs_max_instant_p i then '';UNTIL='' @ ?t else []) rr = Some (rr\<lparr>rr_until := i\<rparr>)"
    using field_step [of "''UNTIL''" ?t "[]" rr] by (auto simp: keys)
  show "quiet (if \<not> echs_max_instant_p i then '';UNTIL='' @ ?t else [])"
    using c quiet_append [of ?t "[]"] \<open>\<not> echs_max_instant_p i \<Longrightarrow> text_ok i \<and> _\<close> by (auto simp: quiet_simps)
qed

section \<open>A whole rule\<close>

definition printable :: "rrulsp \<Rightarrow> int \<Rightarrow> bool" where
  "printable rr ccnt \<longleftrightarrow>
     1 \<le> rr_inter rr \<and> rr_inter rr < 4294967296 \<and> scale_back (rr_scale rr) \<and> shift_ok (rr_shift rr) \<and>
     until_ok (rr_until rr) \<and>
     (rr_count rr = - 1 \<or> 0 \<le> rr_count rr \<and> 0 < rr_count rr + ccnt \<and> rr_count rr + ccnt < 2147483648)"

lemma parse_inter:
  assumes "good_rest rest" "1 \<le> n" "n < 4294967296" "rr_inter rr = 1"
  shows "parse_tail ((if 1 < n then '';INTERVAL='' @ show_int n else []) @ rest) rr = parse_tail rest (rr\<lparr>rr_inter := n\<rparr>)"
proof (cases "1 < n")
  case True
  with parse_number(1) [OF assms(1), of n rr] assms(3) show ?thesis by simp
next
  case False
  then have "rr\<lparr>rr_inter := n\<rparr> = rr" using assms by (cases rr) simp
  with False show ?thesis by simp
qed

definition count_back :: "rrulsp \<Rightarrow> int \<Rightarrow> int" where
  "count_back rr ccnt = (if rr_count rr < 0 then - 1 else rr_count rr + ccnt)"

lemma parse_count:
  assumes "good_rest rest" "printable rr0 ccnt" "rr_count rr = - 1"
  shows "parse_tail ((if 0 \<le> rr_count rr0 then '';COUNT='' @ show_int (u64 (rr_count rr0 + ccnt)) else []) @ rest) rr =
    parse_tail rest (rr\<lparr>rr_count := count_back rr0 ccnt\<rparr>)"
proof (cases "0 \<le> rr_count rr0")
  case True
  then have "0 < rr_count rr0 + ccnt" "rr_count rr0 + ccnt < 2147483648" using assms(2) by (auto simp: printable_def)
  with parse_number(2) [OF assms(1), of "rr_count rr0 + ccnt" rr] True show ?thesis by (simp add: u64_id count_back_def)
next
  case False
  then have "rr\<lparr>rr_count := count_back rr0 ccnt\<rparr> = rr" using assms by (cases rr) (simp add: count_back_def)
  with False show ?thesis by simp
qed

text \<open>What stands behind the BY fields: shift, count and last recurrence.\<close>

definition tail_text :: "rrulsp \<Rightarrow> int \<Rightarrow> string" where
  "tail_text rr ccnt =
     (if rr_shift rr \<noteq> 0 then '';SHIFT='' @ send_shift (rr_shift rr) else []) @
     (if 0 \<le> rr_count rr then '';COUNT='' @ show_int (u64 (rr_count rr + ccnt)) else []) @
     (if \<not> echs_max_instant_p (rr_until rr) then '';UNTIL='' @ dt_strf_ical 32 (rr_until rr) else [])"

definition until_text :: "rrulsp \<Rightarrow> string" where
  "until_text rr = (if \<not> echs_max_instant_p (rr_until rr) then '';UNTIL='' @ dt_strf_ical 32 (rr_until rr) else [])"

definition count_text :: "rrulsp \<Rightarrow> int \<Rightarrow> string" where
  "count_text rr ccnt = (if 0 \<le> rr_count rr then '';COUNT='' @ show_int (u64 (rr_count rr + ccnt)) else [])"

lemma good_tails: "good_rest (until_text rr)" "good_rest (count_text rr ccnt @ until_text rr)" "good_rest (tail_text rr ccnt)"
  by (auto simp: until_text_def count_text_def tail_text_def)

lemma tail_text_eq: "tail_text rr ccnt =
    (if rr_shift rr \<noteq> 0 then '';SHIFT='' @ send_shift (rr_shift rr) else []) @ count_text rr ccnt @ until_text rr"
  by (simp add: tail_text_def count_text_def until_text_def)

lemma parse_tail_text:
  assumes "printable rr0 ccnt" "rr_shift rr = 0" "rr_count rr = - 1" "rr_until rr = echs_max_instant"
  shows "parse_tail (tail_text rr0 ccnt) rr =
    Some (rr\<lparr>rr_shift := rr_shift rr0, rr_count := count_back rr0 ccnt, rr_until := rr_until rr0\<rparr>)"
  using assms parse_shift [OF good_tails(2) _ assms(2), of "rr_shift rr0"] parse_count [OF good_tails(1) assms(1)]
    parse_until(1) [of "rr_until rr0"]
  by (simp add: tail_text_eq count_text_def [symmetric] until_text_def [symmetric] printable_def)

lemma quiet_tail: "printable rr ccnt \<Longrightarrow> quiet (tail_text rr ccnt)"
proof -
  assume p: "printable rr ccnt"
  have "quiet (until_text rr)" using p parse_until(2) [of "rr_until rr" nul_rule]
    by (simp add: until_text_def printable_def nul_rule_def)
  then have "quiet (count_text rr ccnt @ until_text rr)"
    using quiet_append [of "show_int (u64 (rr_count rr + ccnt))"] by (simp add: count_text_def quiet_simps)
  then show ?thesis using quiet_shift [OF good_tails(2)] by (simp add: tail_text_eq)
qed

lemma send_rrul_text:
  assumes "parts_ok p"
  shows "send_rrul (with_parts p rr) ccnt = ''RRULE:'' @ (send_freq (rr_freq rr) @
      (if 1 < rr_inter rr then '';INTERVAL='' @ show_int (rr_inter rr) else []) @
      (if rr_scale rr \<noteq> SCALE_GREGORIAN then send_scale (rr_scale rr) else []) @
      bys_text p @ tail_text rr ccnt) @ ''\<newline>''"
  using send_bys_text [OF assms, of rr] by (simp add: send_rrul_def tail_text_def with_parts_def)

lemma parse_bys:
  assumes p: "parts_ok p" and r: "good_rest rest" "quiet rest" and n: "rr = nul_rule\<lparr>rr_freq := f, rr_inter := i, rr_scale := s\<rparr>"
  shows "parse_tail (bys_text p @ rest) rr = parse_tail rest (with_parts (p\<lparr>b_pos := []\<rparr>) rr)"
proof -
  have b: "set (b_mon p) \<subseteq> {1..12}" "part_ok 53 (b_wk p)" "part_ok 366 (b_doy p)" "part_ok 31 (b_dom p)"
    "\<forall>x \<in> set (b_easter p). \<bar>x\<bar> \<le> 366" "\<forall>d \<in> set (b_dow p). cd_ok d" "set (b_H p) \<subseteq> {..24}"
    "set (b_M p) \<subseteq> {..<60}" "set (b_S p) \<subseteq> {..60}"
    using p by (simp_all add: parts_ok_def)
  note g = r(1) good_by_text
  have "\<forall>x \<in> set (b_pos p). \<bar>x\<bar> \<le> 1000" using p by (auto simp: parts_ok_def part_ok_def)
  moreover have "\<forall>n \<in> set (b_H p). n \<le> 100" "\<forall>n \<in> set (b_M p). n \<le> 100" "\<forall>n \<in> set (b_S p). n \<le> 100"
    using b(7-9) by auto
  ultimately have q: "quiet (by_text '';BYHOUR='' (map send_uint (b_H p)) @ by_text '';BYMINUTE='' (map send_uint (b_M p)) @
      by_text '';BYSECOND='' (map send_uint (b_S p)) @ by_text '';BYPOS='' (map show_int (b_pos p)) @ rest)"
    using r by (simp add: quiet_uints quiet_ints good_by_text)
  show ?thesis
    using parse_mon [OF _ b(1)] parse_wk [OF _ b(2)] parse_doy [OF _ b(3)] parse_dom [OF _ b(4)] parse_easter [OF _ b(5)]
      parse_dow [OF _ b(6) q] parse_H [OF _ b(7)] parse_M [OF _ b(8)] parse_S [OF _ b(9)] parse_pos r(1)
    by (simp add: bys_text_def good_by_text n with_parts_def nul_rule_def)
qed

definition rule_text :: "by_parts \<Rightarrow> rrulsp \<Rightarrow> int \<Rightarrow> string" where
  "rule_text p rr ccnt =
     send_freq (rr_freq rr) @ (if 1 < rr_inter rr then '';INTERVAL='' @ show_int (rr_inter rr) else []) @
     (if rr_scale rr \<noteq> SCALE_GREGORIAN then send_scale (rr_scale rr) else []) @ bys_text p @ tail_text rr ccnt"

lemma rule_text_back:
  assumes "parts_ok p" "printable rr ccnt"
  shows "send_rrul (with_parts p rr) ccnt = ''RRULE:'' @ rule_text p rr ccnt @ ''\<newline>'' \<and>
    snarf_rrule (rule_text p rr ccnt) (length (rule_text p rr ccnt)) = (with_parts p rr)
      \<lparr>rr_count := (if rr_count rr < 0 then - 1 else rr_count rr + ccnt), rr_pos := bin_empty 12\<rparr>"
proof -
  let ?i = "if 1 < rr_inter rr then '';INTERVAL='' @ show_int (rr_inter rr) else []"
  let ?s = "if rr_scale rr \<noteq> SCALE_GREGORIAN then send_scale (rr_scale rr) else []"
  let ?b = "bys_text p @ tail_text rr ccnt"
  let ?t = "send_freq (rr_freq rr) @ ?i @ ?s @ ?b"
  let ?n = "nul_rule\<lparr>rr_freq := rr_freq rr\<rparr>"
  have pr: "1 \<le> rr_inter rr" "rr_inter rr < 4294967296" "scale_back (rr_scale rr)"
    using assms(2) by (simp_all add: printable_def)
  have g: "good_rest ?b" using good_tails(3) by (simp add: bys_text_def good_by_text)
  then have gs: "good_rest (?s @ ?b)" by (simp add: send_scale_def)
  then have gi: "good_rest (?i @ ?s @ ?b)" by auto
  have "snarf_fields ?t (int (length ?t)) nul_rule = parse_tail (CHR '';'' # ?t) nul_rule"
    by (simp add: parse_tail_def)
  also have "\<dots> = parse_tail (?i @ ?s @ ?b) ?n" by (rule parse_freq [OF gi])
  also have "\<dots> = parse_tail (?s @ ?b) (?n\<lparr>rr_inter := rr_inter rr\<rparr>)"
    by (rule parse_inter [OF gs pr(1,2)]) (simp add: nul_rule_def)
  also have "\<dots> = parse_tail ?b (?n\<lparr>rr_inter := rr_inter rr, rr_scale := rr_scale rr\<rparr>)"
    by (rule parse_scale [OF g pr(3)]) (simp add: nul_rule_def)
  also have "\<dots> = parse_tail (tail_text rr ccnt)
      (with_parts (p\<lparr>b_pos := []\<rparr>) (?n\<lparr>rr_inter := rr_inter rr, rr_scale := rr_scale rr\<rparr>))"
    by (simp add: parse_bys [OF assms(1) good_tails(3) quiet_tail [OF assms(2)]])
  also have "\<dots> = Some ((with_parts p rr)\<lparr>rr_count := count_back rr ccnt, rr_pos := bin_empty 12\<rparr>)"
    by (subst parse_tail_text [OF assms(2)]) (simp_all add: with_parts_def nul_rule_def)
  finally have "snarf_rrule ?t (length ?t) =
      (with_parts p rr)\<lparr>rr_count := count_back rr ccnt, rr_pos := bin_empty 12\<rparr>"
    by (simp add: snarf_rrule_def)
  then show ?thesis
    unfolding count_back_def using send_rrul_text [OF assms(1), of rr ccnt] by (simp add: rule_text_def)
qed



section \<open>Where the two sides disagree\<close>

text \<open>The letter of the epoch is skipped, or taken from the next field.\<close>

lemma scales_lost:
  "snarf_scale ''HIJRI.IC'' = SCALE_HIJRI_IA" "snarf_scale ''HIJRI.IIC'' = 3" "snarf_scale ''HIJRI.IA;COUNT=3'' = 2"
  by code_simp+

text \<open>A minute above 30 that is not the only one is not written.\<close>

lemma minutes_lost:
  "send_rrul (nul_rule\<lparr>rr_freq := FREQ_DAILY, rr_M := foldl ass_bui63 0 [0, 45]\<rparr>) 0 =
    ''RRULE:FREQ=DAILY;BYMINUTE=0\<newline>''"
  by code_simp

text \<open>The list of weekdays goes on behind the comma of another field.\<close>

lemma weekdays_overrun:
  "bi447_list (rr_dow (snarf_rrule ''FREQ=WEEKLY;BYDAY=MO;X=A,FR'' 27)) = [1, 5]"
  by code_simp

text \<open>A count that has come down to 0 is written, and makes the line worthless.\<close>

lemma count_zero:
  "send_rrul (nul_rule\<lparr>rr_freq := FREQ_DAILY, rr_count := 0\<rparr>) 0 = ''RRULE:FREQ=DAILY;COUNT=0\<newline>''"
  "snarf_rrule ''FREQ=DAILY;COUNT=0'' 18 = zero_rule"
  by code_simp+

end
