(* ===== verification/Ical.thy ===== *)
theory Ical
  imports RruleText TaskStream DurationText Intern
begin

text \<open>
  The fields of iCalendar components, \<^verbatim>\<open>snarf_fld\<close> and \<^verbatim>\<open>snarf_pro\<close> of \<^verbatim>\<open>src/src/evical.c\<close>:
  what one unfolded line does to the component that is being read.  A pointer into the line is the
  rest of the C string from there; \<open>ep - vp\<close> is a number.  A name's tag in the table of zones
  (\<open>echs_tzob\<close>) and in the table of states (\<open>add_state\<close>) are the parameters \<open>tz\<close> and \<open>stof\<close>;
  the integer of an interned name is its hash, as \<^theory_text>\<open>Intern.intern_names\<close> shows.
\<close>

section \<open>Numbers in other bases\<close>

definition digit_val :: "char \<Rightarrow> int" where
  "digit_val c =
     (if is_digit c then ord c - 48
      else if 97 \<le> ord c \<and> ord c \<le> 122 then ord c - 87
      else if 65 \<le> ord c \<and> ord c \<le> 90 then ord c - 55
      else 36)"

fun read_base :: "int \<Rightarrow> int \<Rightarrow> string \<Rightarrow> int \<times> string" where
  "read_base b acc [] = (acc, [])"
| "read_base b acc (c # s) = (if digit_val c < b then read_base b (acc * b + digit_val c) s else (acc, c # s))"

text \<open>\<open>strtol\<close> for base 8, or for base 0 with the C prefixes.\<close>

definition strtol_base :: "int \<Rightarrow> string \<Rightarrow> int \<times> string" where
  "strtol_base b s =
     (let t = dropWhile is_space s;
          (neg, t) = (if deref t = CHR ''-'' then (True, tl t)
                      else if deref t = CHR ''+'' then (False, tl t) else (False, t));
          (b, t) = (if b \<noteq> 0 then (b, t)
                    else if deref t = CHR ''0'' \<and> at t 1 \<in> {CHR ''x'', CHR ''X''} \<and> digit_val (at t 2) < 16 then (16, drop 2 t)
                    else if deref t = CHR ''0'' then (8, t) else (10, t))
      in if digit_val (deref t) < b
         then let (v, r) = read_base b 0 t; v = (if neg then - v else v)
              in (max (- LONG_MAX - 1) (min LONG_MAX v), r)
         else (0, s))"

text \<open>\<open>on < ep\<close>: the number does not fill the value.\<close>

definition unread :: "string \<Rightarrow> string \<Rightarrow> nat \<Rightarrow> bool" where
  "unread vp on n \<longleftrightarrow> length vp - length on < n"

section \<open>Components\<close>

datatype nms = Nms_nul | Nms_str string | Nms_num int

definition nms_num :: "int \<Rightarrow> nms" where
  "nms_num i = Nms_num (i mod 2 ^ 63)"

datatype ical_meth = METH_UNK | METH_PUBLISH | METH_REQUEST | METH_REPLY | METH_ADD | METH_CANCEL | METH_REFRESH
  | METH_COUNTER | METH_DECLINECOUNTER

record mrulsp =
  mr_mdir :: int
  mr_from :: "64 word"
  mr_into :: "64 word"

text \<open>What a component holds besides its dates, rules and numbers.\<close>

record pvevent = ical_vevent +
  ve_cmd :: "string option"
  ve_desc :: "string option"
  ve_owner :: nms
  ve_u :: nms
  ve_g :: nms
  ve_wd :: "string option"
  ve_sh :: "string option"
  ve_org :: "string option"
  ve_att :: "string list"
  ve_in :: "string option"
  ve_out :: "string option"
  ve_err :: "string option"
  ve_mailout :: bool
  ve_moutset :: bool
  ve_mailerr :: bool
  ve_merrset :: bool
  ve_mailrun :: bool
  ve_mrunset :: bool
  ve_meth :: ical_meth
  ve_req :: int
  ve_mrul :: "mrulsp list"

definition nul_vevent :: pvevent where
  "nul_vevent = \<lparr>ve_from = echs_nul_instant, ve_till = echs_nul_instant, ve_comp = echs_nul_instant, ve_due = echs_nul_instant,
     ve_dur = 0, ve_sts = 0, ve_cal = 0, ve_oid = 0, ve_max_simul = 0, ve_umsk = 0,
     ve_rrul = [], ve_xrul = [], ve_rdat = [], ve_xdat = [],
     ve_cmd = None, ve_desc = None, ve_owner = Nms_nul, ve_u = Nms_nul, ve_g = Nms_nul, ve_wd = None, ve_sh = None,
     ve_org = None, ve_att = [], ve_in = None, ve_out = None, ve_err = None,
     ve_mailout = False, ve_moutset = False, ve_mailerr = False, ve_merrset = False, ve_mailrun = False, ve_mrunset = False,
     ve_meth = METH_UNK, ve_req = 0, ve_mrul = []\<rparr>"

datatype ical_fld = FLD_UNK | FLD_BEGIN | FLD_END | FLD_METH | FLD_SCALE | FLD_DTSTART | FLD_DTEND | FLD_DUE | FLD_COMPL
  | FLD_DURA | FLD_RRULE | FLD_RDATE | FLD_XRULE | FLD_XDATE | FLD_UID | FLD_SUMM | FLD_DESC | FLD_LOC | FLD_SHELL
  | FLD_STATE | FLD_MRULE | FLD_MFILE | FLD_ATT | FLD_ORG | FLD_IFILE | FLD_OFILE | FLD_EFILE | FLD_MOUT | FLD_MERR
  | FLD_MRUN | FLD_MAX_SIMUL | FLD_RSTAT | FLD_RECURID | FLD_OWNER | FLD_UMASK | FLD_SUID | FLD_SGID

definition ical_flds :: "(string \<times> ical_fld) list" where
  "ical_flds =
     [(''BEGIN'', FLD_BEGIN), (''END'', FLD_END), (''METHOD'', FLD_METH), (''CALSCALE'', FLD_SCALE),
      (''DTSTART'', FLD_DTSTART), (''DTEND'', FLD_DTEND), (''DUE'', FLD_DUE), (''COMPLETED'', FLD_COMPL),
      (''DURATION'', FLD_DURA), (''RRULE'', FLD_RRULE), (''RDATE'', FLD_RDATE), (''EXRULE'', FLD_XRULE),
      (''EXDATE'', FLD_XDATE), (''UID'', FLD_UID), (''SUMMARY'', FLD_SUMM), (''DESCRIPTION'', FLD_DESC),
      (''X-GA-STATE'', FLD_STATE), (''X-GA-MRULE'', FLD_MRULE), (''X-GA-MFILE'', FLD_MFILE),
      (''X-ECHS-OWNER'', FLD_OWNER), (''X-ECHS-SHELL'', FLD_SHELL), (''X-ECHS-IFILE'', FLD_IFILE),
      (''X-ECHS-OFILE'', FLD_OFILE), (''X-ECHS-EFILE'', FLD_EFILE), (''X-ECHS-MAIL-RUN'', FLD_MRUN),
      (''X-ECHS-MAIL-OUT'', FLD_MOUT), (''X-ECHS-MAIL-ERR'', FLD_MERR), (''X-ECHS-MAX-SIMUL'', FLD_MAX_SIMUL),
      (''X-ECHS-UMASK'', FLD_UMASK), (''X-ECHS-SETUID'', FLD_SUID), (''X-ECHS-SETGID'', FLD_SGID),
      (''LOCATION'', FLD_LOC), (''ATTENDEE'', FLD_ATT), (''ORGANIZER'', FLD_ORG), (''REQUEST-STATUS'', FLD_RSTAT),
      (''RECURRENCE-ID'', FLD_RECURID)]"

definition evical_fld :: "string \<Rightarrow> ical_fld option" where
  "evical_fld s = map_of ical_flds s"

datatype ical_comp = COMP_UNK | COMP_VCAL | COMP_VEVT | COMP_VTOD | COMP_VJRN

definition evical_comp :: "string \<Rightarrow> ical_comp option" where
  "evical_comp s =
     map_of [(''VCALENDAR'', COMP_VCAL), (''VEVENT'', COMP_VEVT), (''VTODO'', COMP_VTOD), (''VJOURNAL'', COMP_VJRN)] s"

definition evical_meth :: "string \<Rightarrow> ical_meth option" where
  "evical_meth s =
     map_of [(''PUBLISH'', METH_PUBLISH), (''REQUEST'', METH_REQUEST), (''REPLY'', METH_REPLY), (''ADD'', METH_ADD),
       (''CANCEL'', METH_CANCEL), (''REFRESH'', METH_REFRESH), (''COUNTER'', METH_COUNTER),
       (''DECLINECOUNTER'', METH_DECLINECOUNTER)] s"

section \<open>Values\<close>

definition is_sep :: "char \<Rightarrow> bool" where
  "is_sep c \<longleftrightarrow> c = CHR '':'' \<or> c = CHR '';''"

text \<open>\<open>strpbrk(s, ":;")\<close>\<close>

fun strpbrk :: "string \<Rightarrow> string option" where
  "strpbrk [] = None"
| "strpbrk (c # s) = (if is_sep c then Some (c # s) else strpbrk s)"

lemma strpbrk_length: "strpbrk s = Some t \<Longrightarrow> length t \<le> length s"
  by (induction s) (auto split: if_splits)

text \<open>
  The modifiers between a field's name and its value: \<open>f\<close> gets the text of each one and the
  length of what is behind its equals sign.  When no separator follows, the cursor goes to the
  colon before the value, which ends the loop.
\<close>

function mods :: "(string \<Rightarrow> string \<Rightarrow> 'a \<Rightarrow> 'a) \<Rightarrow> string \<Rightarrow> 'a \<Rightarrow> 'a" where
  "mods f eof acc =
     (if deref eof \<noteq> CHR '';'' then acc
      else case strpbrk (tl eof) of
             None \<Rightarrow> f (tl eof) (tl eof) acc
           | Some neo \<Rightarrow> mods f neo (f (tl eof) (take (length (tl eof) - length neo) (tl eof)) acc))"
  by pat_completeness auto
termination
proof (relation "measure (\<lambda>(f, s, acc). length s)")
  fix f :: "string \<Rightarrow> string \<Rightarrow> 'a \<Rightarrow> 'a" and eof acc neo
  assume "\<not> deref eof \<noteq> CHR '';''" "strpbrk (tl eof) = Some neo"
  then show "((f, neo, f (tl eof) (take (length (tl eof) - length neo) (tl eof)) acc), f, eof, acc) \<in> measure (\<lambda>(f, s, acc). length s)"
    using strpbrk_length [of "tl eof" neo] by (cases eof) auto
qed simp

declare mods.simps [simp del]

definition dt_mod :: "(string \<Rightarrow> int) \<Rightarrow> bool \<Rightarrow> string \<Rightarrow> string \<Rightarrow> instant \<Rightarrow> instant" where
  "dt_mod tz zulu s m res =
     (if starts s ''TZID='' then if zulu then res else echs_instant_attach_tzob res (tz (drop 5 m))
      else if starts s ''SCALE='' then echs_instant_attach_scale res (snarf_scale (drop 6 s))
      else res)"

definition snarf_dt :: "(string \<Rightarrow> int) \<Rightarrow> string \<Rightarrow> string \<Rightarrow> nat \<Rightarrow> instant" where
  "snarf_dt tz eof vp n =
     (case dt_strp vp n of
        (res, None) \<Rightarrow> res
      | (res, Some on) \<Rightarrow> mods (dt_mod tz (on < n \<and> at vp on = CHR ''Z'')) eof res)"

text \<open>\<open>for (; vp < ep; vp = eod + 1)\<close> with \<open>eod = strchr(vp, ',') ?: ep\<close>.\<close>

function for_commas :: "(string \<Rightarrow> nat \<Rightarrow> 'a \<Rightarrow> 'a) \<Rightarrow> string \<Rightarrow> int \<Rightarrow> 'a \<Rightarrow> 'a" where
  "for_commas f vp n acc =
     (if n \<le> 0 then acc
      else let e = dist vp (strchr vp (CHR '','')) n
        in for_commas f (drop (nat (e + 1)) vp) (n - (e + 1)) (f vp (nat e) acc))"
  by pat_completeness auto
termination
  by (relation "measure (\<lambda>(f, s, z, acc). nat z)") (auto simp: dist_def split: option.splits)

declare for_commas.simps [simp del]

definition dtl_mod :: "(string \<Rightarrow> int) \<Rightarrow> string \<Rightarrow> string \<Rightarrow> int \<times> echs_scale \<Rightarrow> int \<times> echs_scale" where
  "dtl_mod tz s m zs =
     (if starts s ''TZID='' then (tz (drop 5 m), snd zs)
      else if starts s ''SCALE='' then (fst zs, snarf_scale (drop 6 s))
      else zs)"

definition dtl_add :: "int \<Rightarrow> echs_scale \<Rightarrow> string \<Rightarrow> nat \<Rightarrow> instant list \<Rightarrow> instant list" where
  "dtl_add z s vp e dl =
     (case dt_strp vp e of
        (i, None) \<Rightarrow> dl
      | (i, Some on) \<Rightarrow>
          if echs_instant_0_p i then dl
          else let i = (if e \<le> on \<or> at vp on \<noteq> CHR ''Z'' then echs_instant_attach_tzob i z else i)
            in dl @ [echs_instant_attach_scale i s])"

definition snarf_dtlst :: "(string \<Rightarrow> int) \<Rightarrow> string \<Rightarrow> string \<Rightarrow> nat \<Rightarrow> instant list" where
  "snarf_dtlst tz eof vp n =
     (case mods (dtl_mod tz) eof (0, SCALE_GREGORIAN) of (z, s) \<Rightarrow> for_commas (dtl_add z s) vp (int n) [])"

text \<open>\<open>strndup\<close>\<close>

definition strndup :: "string \<Rightarrow> nat \<Rightarrow> string" where
  "strndup s n = takeWhile (\<lambda>c. c \<noteq> CHR 0x00) (take n s)"

definition snarf_mailto :: "string \<Rightarrow> nat \<Rightarrow> string option" where
  "snarf_mailto line llen =
     (if llen < 7 \<or> CHR '':'' \<notin> set (take llen line) then Some (take llen line)
      else if starts line ''mailto:'' then Some (take (llen - 7) (drop 7 line))
      else None)"

text \<open>The integer of an interned name; none for a name that is too long.\<close>

definition oid_of :: "string \<Rightarrow> 64 word" where
  "oid_of s = (if length s = 0 \<or> length s \<ge> 256 then 0 else ucast (obint s))"

definition stset_add_state :: "64 word \<Rightarrow> nat \<Rightarrow> 64 word" where
  "stset_add_state sts st = sts OR push_bit st 1"

definition add_st :: "(string \<Rightarrow> nat) \<Rightarrow> string \<Rightarrow> nat \<Rightarrow> 64 word \<Rightarrow> 64 word" where
  "add_st stof vp e sts = (let st = stof (take e vp) in if st = 0 then sts else stset_add_state sts st)"

section \<open>Movers\<close>

definition snarf_mdir :: "string \<Rightarrow> int" where
  "snarf_mdir s =
     (if at s 0 = CHR ''P'' then if at s 4 = CHR ''T'' then 2 else 1
      else if at s 0 = CHR ''F'' then if at s 6 = CHR ''T'' then 4 else 3
      else 0)"

text \<open>
  The states of a field that begins at the equals sign, \<open>m\<close> characters before its end; the search
  for a comma does not stop there.
\<close>

function for_moves :: "(string \<Rightarrow> nat) \<Rightarrow> string \<Rightarrow> int \<Rightarrow> 64 word \<Rightarrow> 64 word" where
  "for_moves stof kv m sts =
     (if m \<le> 0 then sts
      else let kv = tl kv; e = dist kv (strchr kv (CHR '','')) (m - 1)
        in for_moves stof (drop (nat e) kv) (m - 1 - e) (add_st stof kv (nat e) sts))"
  by pat_completeness auto
termination
  by (relation "measure (\<lambda>(f, s, z, acc). nat z)") (auto simp: dist_def split: option.splits)

declare for_moves.simps [simp del]

definition snarf_move :: "(string \<Rightarrow> nat) \<Rightarrow> string \<Rightarrow> int \<Rightarrow> mrulsp \<Rightarrow> mrulsp" where
  "snarf_move stof s e mr =
     (case strchr s (CHR ''='') of
        None \<Rightarrow> mr
      | Some kv \<Rightarrow>
          let kz = length s - length kv; key = take kz s
          in if e < int kz then mr
             else if key = ''DIR'' then mr\<lparr>mr_mdir := snarf_mdir (tl kv)\<rparr>
             else if key = ''MOVEFROM'' then mr\<lparr>mr_from := for_moves stof kv (e - int kz) (mr_from mr)\<rparr>
             else if key = ''MOVEINTO'' then mr\<lparr>mr_into := for_moves stof kv (e - int kz) (mr_into mr)\<rparr>
             else mr)"

function move_fields :: "(string \<Rightarrow> nat) \<Rightarrow> string \<Rightarrow> int \<Rightarrow> mrulsp \<Rightarrow> mrulsp" where
  "move_fields stof s z mr =
     (if z \<le> 0 then mr
      else let e = dist s (strchr s (CHR '';'')) z
        in move_fields stof (drop (nat (e + 1)) s) (z - (e + 1)) (snarf_move stof s e mr))"
  by pat_completeness auto
termination
  by (relation "measure (\<lambda>(f, s, z, mr). nat z)") (auto simp: dist_def split: option.splits)

declare move_fields.simps [simp del]

definition snarf_mrule :: "(string \<Rightarrow> nat) \<Rightarrow> string \<Rightarrow> nat \<Rightarrow> mrulsp" where
  "snarf_mrule stof s z = move_fields stof s (int z) \<lparr>mr_mdir = 0, mr_from = 0, mr_into = 0\<rparr>"

section \<open>One field of a component\<close>

definition first_str :: "string option \<Rightarrow> string \<Rightarrow> nat \<Rightarrow> string option" where
  "first_str old vp n = (case old of None \<Rightarrow> Some (strndup vp n) | Some s \<Rightarrow> Some s)"

definition flag_of :: "string \<Rightarrow> bool" where
  "flag_of vp \<longleftrightarrow> at vp 0 \<notin> {CHR ''0'', CHR ''f'', CHR ''F''}"

definition max_simul_of :: "int \<Rightarrow> string \<Rightarrow> nat \<Rightarrow> int" where
  "max_simul_of old vp n =
     (let (i, on) = strtol_base 0 vp in if unread vp on n then old else if i < 0 \<or> 63 \<le> i then old else i + 1)"

definition umsk_of :: "int \<Rightarrow> string \<Rightarrow> nat \<Rightarrow> int" where
  "umsk_of old vp n =
     (let (i, on) = strtol_base 8 vp in if unread vp on n then old else if i < 0 \<or> 511 < i then old else i + 1)"

definition nms_of :: "string \<Rightarrow> nat \<Rightarrow> nms" where
  "nms_of vp n = (let (i, on) = strtol_base 0 vp in if unread vp on n then Nms_str (strndup vp n) else nms_num i)"

definition snarf_fld ::
  "(string \<Rightarrow> int) \<Rightarrow> (string \<Rightarrow> nat) \<Rightarrow> pvevent \<Rightarrow> ical_fld \<Rightarrow> string \<Rightarrow> string \<Rightarrow> nat \<Rightarrow> pvevent" where
  "snarf_fld tz stof ve fld eof vp n =
     (if n = 0 then ve
      else case fld of
        FLD_DTSTART \<Rightarrow> ve\<lparr>ve_from := snarf_dt tz eof vp n\<rparr>
      | FLD_COMPL \<Rightarrow> ve\<lparr>ve_comp := snarf_dt tz eof vp n\<rparr>
      | FLD_DTEND \<Rightarrow> ve\<lparr>ve_till := snarf_dt tz eof vp n\<rparr>
      | FLD_DUE \<Rightarrow> ve\<lparr>ve_due := snarf_dt tz eof vp n\<rparr>
      | FLD_DURA \<Rightarrow> (let (i, on) = idiff_strp vp n in if n \<le> on then ve\<lparr>ve_dur := i\<rparr> else ve)
      | FLD_XDATE \<Rightarrow> (let l = snarf_dtlst tz eof vp n in if l = [] then ve else ve\<lparr>ve_xdat := l\<rparr>)
      | FLD_RDATE \<Rightarrow> (let l = snarf_dtlst tz eof vp n in if l = [] then ve else ve\<lparr>ve_rdat := l\<rparr>)
      | FLD_RRULE \<Rightarrow> (let r = snarf_rrule vp n in if rr_freq r = FREQ_NONE then ve else ve\<lparr>ve_rrul := ve_rrul ve @ [r]\<rparr>)
      | FLD_XRULE \<Rightarrow> (let r = snarf_rrule vp n in if rr_freq r = FREQ_NONE then ve else ve\<lparr>ve_xrul := ve_xrul ve @ [r]\<rparr>)
      | FLD_MRULE \<Rightarrow> (let r = snarf_mrule stof vp n in if mr_mdir r = 0 then ve else ve\<lparr>ve_mrul := ve_mrul ve @ [r]\<rparr>)
      | FLD_STATE \<Rightarrow> ve\<lparr>ve_sts := for_commas (add_st stof) vp (int n) (ve_sts ve)\<rparr>
      | FLD_UID \<Rightarrow> ve\<lparr>ve_oid := oid_of (take n vp)\<rparr>
      | FLD_SUMM \<Rightarrow> ve\<lparr>ve_cmd := first_str (ve_cmd ve) vp n\<rparr>
      | FLD_DESC \<Rightarrow> ve\<lparr>ve_desc := first_str (ve_desc ve) vp n\<rparr>
      | FLD_LOC \<Rightarrow> ve\<lparr>ve_wd := first_str (ve_wd ve) vp n\<rparr>
      | FLD_IFILE \<Rightarrow> ve\<lparr>ve_in := first_str (ve_in ve) vp n\<rparr>
      | FLD_OFILE \<Rightarrow> ve\<lparr>ve_out := first_str (ve_out ve) vp n\<rparr>
      | FLD_EFILE \<Rightarrow> ve\<lparr>ve_err := first_str (ve_err ve) vp n\<rparr>
      | FLD_MOUT \<Rightarrow> ve\<lparr>ve_mailout := flag_of vp, ve_moutset := True\<rparr>
      | FLD_MERR \<Rightarrow> ve\<lparr>ve_mailerr := flag_of vp, ve_merrset := True\<rparr>
      | FLD_MRUN \<Rightarrow> ve\<lparr>ve_mailrun := flag_of vp, ve_mrunset := True\<rparr>
      | FLD_SHELL \<Rightarrow> ve\<lparr>ve_sh := first_str (ve_sh ve) vp n\<rparr>
      | FLD_ATT \<Rightarrow> (case snarf_mailto vp n of None \<Rightarrow> ve | Some a \<Rightarrow> ve\<lparr>ve_att := ve_att ve @ [a]\<rparr>)
      | FLD_ORG \<Rightarrow>
          (case ve_org ve of
             Some _ \<Rightarrow> ve
           | None \<Rightarrow> (case snarf_mailto vp n of None \<Rightarrow> ve | Some a \<Rightarrow> ve\<lparr>ve_org := Some (strndup a (length a))\<rparr>))
      | FLD_MAX_SIMUL \<Rightarrow> ve\<lparr>ve_max_simul := max_simul_of (ve_max_simul ve) vp n\<rparr>
      | FLD_UMASK \<Rightarrow> ve\<lparr>ve_umsk := umsk_of (ve_umsk ve) vp n\<rparr>
      | FLD_OWNER \<Rightarrow> ve\<lparr>ve_owner := nms_of vp n\<rparr>
      | FLD_SUID \<Rightarrow> ve\<lparr>ve_u := nms_of vp n\<rparr>
      | FLD_SGID \<Rightarrow> ve\<lparr>ve_g := nms_of vp n\<rparr>
      | FLD_RSTAT \<Rightarrow> ve\<lparr>ve_req := xdig (at vp 0)\<rparr>
      | FLD_RECURID \<Rightarrow>
          ve\<lparr>ve_from := fst (dt_strp vp 0),
             ve_till := (if at vp (n - 1) = CHR ''+'' then echs_max_instant else echs_nul_instant)\<rparr>
      | _ \<Rightarrow> ve)"

text \<open>The prologue: what stands in the calendar outside of its components.\<close>

definition snarf_pro ::
  "(string \<Rightarrow> int) \<Rightarrow> (string \<Rightarrow> nat) \<Rightarrow> pvevent \<Rightarrow> ical_fld \<Rightarrow> string \<Rightarrow> string \<Rightarrow> nat \<Rightarrow> pvevent" where
  "snarf_pro tz stof ve fld eof vp n =
     (if n = 0 then ve
      else case fld of
        FLD_METH \<Rightarrow> (case evical_meth (take n vp) of None \<Rightarrow> ve | Some m \<Rightarrow> ve\<lparr>ve_meth := m\<rparr>)
      | FLD_MAX_SIMUL \<Rightarrow> ve\<lparr>ve_max_simul := max_simul_of (ve_max_simul ve) vp n\<rparr>
      | FLD_OWNER \<Rightarrow> snarf_fld tz stof ve fld eof vp n
      | FLD_UMASK \<Rightarrow> snarf_fld tz stof ve fld eof vp n
      | FLD_SUID \<Rightarrow> snarf_fld tz stof ve fld eof vp n
      | FLD_SGID \<Rightarrow> snarf_fld tz stof ve fld eof vp n
      | FLD_SCALE \<Rightarrow> ve\<lparr>ve_cal := snarf_scale vp\<rparr>
      | _ \<Rightarrow> ve)"

end
