(* ===== verification/IcalPush.thy ===== *)
theory IcalPush
  imports Ical
begin

text \<open>
  The push parser of \<^verbatim>\<open>src/src/evical.c\<close>: \<open>esccpy\<close>, \<open>_ical_pull\<close> and \<open>_ical_proc\<close> behind
  \<open>echs_evical_push\<close> and \<open>echs_evical_pull\<close>.  Clients push what they read, buffer by buffer, and
  pull until nothing more comes; a line is unfolded into the stash of 1024 bytes, whole or in parts,
  and drives the state machine of calendars and components.  The theory shows that the way a text is
  cut into buffers does not matter, under conditions each of which is shown to be necessary, and
  what the machine makes of a component.
\<close>

section \<open>Unfolding\<close>

text \<open>
  \<open>esccpy(tgt, tz, src, sz)\<close> with \<open>tgt\<close> the stash from \<open>off\<close> on and \<open>ti\<close> the bytes copied.  The
  escape sequences are looked up at the backslash itself.
\<close>

definition esc_char :: "char \<Rightarrow> char" where
  "esc_char c = (if c = CHR ''n'' \<or> c = CHR ''N'' then CHR 0x0A else c)"

function esccpy :: "string \<Rightarrow> nat \<Rightarrow> nat \<Rightarrow> string \<Rightarrow> nat \<Rightarrow> string \<times> nat" where
  "esccpy arr off tz [] ti = (arr[off + ti := CHR 0x00], ti)"
| "esccpy arr off tz (c # s) ti =
     (let arr = arr[off + ti := c];
          (arr, ti, s') =
            (if c = CHR 0x0D then (arr, ti, s)
             else if c = CHR 0x0A then (arr, ti, drop 1 s)
             else if c = CHR 0x5C then (arr[off + ti := esc_char c], ti + 1, drop 1 s)
             else (arr, ti + 1, s))
      in if tz \<le> ti then (arr, 0) else esccpy arr off tz s' ti)"
  by pat_completeness auto
termination by (relation "measure (\<lambda>(arr, off, tz, s, ti). length s)") (auto split: if_splits)

section \<open>The state machine\<close>

text \<open>\<open>ST_UNK\<close>, \<open>ST_VCAL\<close>, \<open>ST_VTOD\<close>, \<open>ST_VOTH\<close> are 0 to 3; more than \<open>ST_VOTH\<close> counts the depth.\<close>

record parser =
  pa_st :: nat
  pa_ve :: pvevent
  pa_glob :: pvevent
  pa_buf :: string
  pa_six :: nat
  pa_stash :: string

definition ST_UNK :: nat where "ST_UNK = 0"
definition ST_VCAL :: nat where "ST_VCAL = 1"
definition ST_VTOD :: nat where "ST_VTOD = 2"
definition ST_VOTH :: nat where "ST_VOTH = 3"

definition new_parser :: parser where
  "new_parser = \<lparr>pa_st = ST_UNK, pa_ve = nul_vevent, pa_glob = nul_vevent, pa_buf = [], pa_six = 0,
     pa_stash = replicate 1024 (CHR 0x00)\<rparr>"

datatype pres = More | Eop | Comp pvevent

text \<open>A cleared component with the task and the scale of the globals.\<close>

definition begin_comp :: "pvevent \<Rightarrow> pvevent" where
  "begin_comp g = g\<lparr>ve_from := echs_nul_instant, ve_till := echs_nul_instant, ve_comp := echs_nul_instant,
     ve_due := echs_nul_instant, ve_dur := 0, ve_sts := 0, ve_rrul := [], ve_xrul := [], ve_rdat := [], ve_xdat := [],
     ve_meth := METH_UNK, ve_req := 0, ve_mrul := []\<rparr>"

definition end_comp :: "pvevent \<Rightarrow> pvevent \<Rightarrow> pvevent" where
  "end_comp g ve =
     (let ve = (if ve_owner ve = Nms_nul then ve\<lparr>ve_owner := ve_owner g\<rparr> else ve);
          ve = (if ve_umsk ve = 0 then ve\<lparr>ve_umsk := ve_umsk g\<rparr> else ve);
          ve = (if ve_max_simul ve = 0 then ve\<lparr>ve_max_simul := ve_max_simul g\<rparr> else ve);
          ve = (if ve_u ve = Nms_nul then ve\<lparr>ve_u := ve_u g, ve_g := ve_g g, ve_wd := ve_wd g, ve_sh := ve_sh g\<rparr> else ve)
      in ve\<lparr>ve_cal := ve_cal g\<rparr>)"

definition proc_field ::
  "(string \<Rightarrow> int) \<Rightarrow> (string \<Rightarrow> nat) \<Rightarrow> parser \<Rightarrow> ical_fld \<Rightarrow> string \<Rightarrow> string \<Rightarrow> nat \<Rightarrow> pres \<times> parser" where
  "proc_field tz stof p fld eofld vp n =
     (let comp = evical_comp (take n vp); stop = (Eop, p\<lparr>pa_st := ST_UNK\<rparr>)
      in if pa_st p = ST_UNK then
           if fld \<noteq> FLD_BEGIN then (Eop, p)
           else if comp \<noteq> Some COMP_VCAL then (More, p\<lparr>pa_st := ST_VOTH\<rparr>)
           else (More, p\<lparr>pa_glob := nul_vevent, pa_st := ST_VCAL\<rparr>)
         else if pa_st p = ST_VCAL then
           if fld = FLD_BEGIN \<or> fld = FLD_END then
             (case comp of
                None \<Rightarrow> if fld = FLD_END then stop else (More, p\<lparr>pa_st := ST_VOTH\<rparr>)
              | Some c \<Rightarrow>
                  if (c = COMP_VTOD \<or> c = COMP_VEVT) \<and> fld = FLD_BEGIN
                  then (More, p\<lparr>pa_ve := begin_comp (pa_glob p), pa_st := ST_VTOD\<rparr>)
                  else stop)
           else (More, p\<lparr>pa_glob := snarf_pro tz stof (pa_glob p) fld eofld vp n\<rparr>)
         else if pa_st p = ST_VTOD then
           if fld = FLD_BEGIN then stop
           else if fld = FLD_END then
             if comp = Some COMP_VEVT \<or> comp = Some COMP_VTOD
             then let ve = end_comp (pa_glob p) (pa_ve p) in (Comp ve, p\<lparr>pa_ve := ve, pa_st := ST_VCAL\<rparr>)
             else stop
           else (More, p\<lparr>pa_ve := snarf_fld tz stof (pa_ve p) fld eofld vp n\<rparr>)
         else
           if fld = FLD_BEGIN then (More, p\<lparr>pa_st := pa_st p + 1\<rparr>)
           else if fld = FLD_END then
             if comp = Some COMP_VCAL then stop
             else (More, p\<lparr>pa_st := (if pa_st p = ST_VOTH then ST_VCAL else pa_st p - 1)\<rparr>)
           else (More, p))"

definition proc_line :: "(string \<Rightarrow> int) \<Rightarrow> (string \<Rightarrow> nat) \<Rightarrow> parser \<Rightarrow> string \<Rightarrow> nat \<Rightarrow> pres \<times> parser" where
  "proc_line tz stof p s z =
     (case strpbrk s of
        None \<Rightarrow> (More, p)
      | Some eofld \<Rightarrow>
          (case evical_fld (take (length s - length eofld) s) of
             None \<Rightarrow> (More, p)
           | Some fld \<Rightarrow>
               (case strchr eofld (CHR '':'') of
                  None \<Rightarrow> (More, p)
                | Some c \<Rightarrow> proc_field tz stof p fld eofld (tl c) (z - (length s - length (tl c))))))"

text \<open>The stash as a C string; an overlong line may leave it longer than its six bytes say.\<close>

definition ical_proc :: "(string \<Rightarrow> int) \<Rightarrow> (string \<Rightarrow> nat) \<Rightarrow> parser \<Rightarrow> pres \<times> parser" where
  "ical_proc tz stof p =
     (case proc_line tz stof p (takeWhile (\<lambda>c. c \<noteq> CHR 0x00) (pa_stash p)) (pa_six p) of
        (r, p) \<Rightarrow> (r, p\<lparr>pa_six := 0\<rparr>))"

section \<open>Pulling\<close>

definition is_blank :: "char \<Rightarrow> bool" where
  "is_blank c \<longleftrightarrow> c = CHR '' '' \<or> c = CHR 0x09"

text \<open>Where the line ends that is not continued on the next one, or the buffer with it.\<close>

fun find_eol :: "string \<Rightarrow> nat option" where
  "find_eol [] = None"
| "find_eol (c # s) =
     (if c = CHR 0x0A \<and> \<not> (s \<noteq> [] \<and> is_blank (hd s)) then Some 1 else map_option Suc (find_eol s))"

lemma find_eol_pos: "find_eol s = Some k \<Longrightarrow> 0 < k \<and> k \<le> length s"
  by (induction s arbitrary: k) (auto split: if_splits)

definition STASHZ :: nat where "STASHZ = 1024"

definition stash_in :: "parser \<Rightarrow> string \<Rightarrow> parser" where
  "stash_in p src =
     (case esccpy (pa_stash p) (pa_six p) (STASHZ - pa_six p) src 0 of
        (arr, k) \<Rightarrow> p\<lparr>pa_stash := arr, pa_six := pa_six p + k\<rparr>)"

lemma proc_buf [simp]: "pa_buf (snd (ical_proc tz stof p)) = pa_buf p"
  by (auto simp: ical_proc_def proc_line_def proc_field_def Let_def split: option.splits prod.splits)

lemma stash_buf [simp]: "pa_buf (stash_in p src) = pa_buf p"
  by (auto simp: stash_in_def split: prod.splits)

lemma proc_buf_eq: "ical_proc tz stof p = (r, q) \<Longrightarrow> pa_buf q = pa_buf p"
  by (metis proc_buf snd_conv)

lemma chop_shorter: "find_eol bp = Some k \<Longrightarrow> length bp - k < length bp"
  using find_eol_pos [of bp k] by linarith

function chop_more :: "(string \<Rightarrow> int) \<Rightarrow> (string \<Rightarrow> nat) \<Rightarrow> parser \<Rightarrow> pres \<times> parser" where
  "chop_more tz stof p =
     (let bp = pa_buf p; eol = find_eol bp; open = (eol = None \<or> eol = Some (length bp))
      in if open \<and> STASHZ - pa_six p \<le> length bp then (More, p\<lparr>pa_six := 0\<rparr>)
         else if open then
           let p = stash_in p bp
           in (More, if eol \<noteq> None then p\<lparr>pa_stash := (pa_stash p)[pa_six p := CHR 0x01]\<rparr> else p)
         else
           let k = the eol; p = stash_in (p\<lparr>pa_buf := drop k bp\<rparr>) (take k bp)
           in if pa_six p = 0 then (More, p)
              else case ical_proc tz stof p of
                     (More, p) \<Rightarrow> chop_more tz stof p
                   | (r, p) \<Rightarrow> (r, p))"
  by pat_completeness auto
termination
proof (relation "measure (\<lambda>(tz, stof, p). length (pa_buf p))", goal_cases)
  case (2 tz stof p bp eol opn k p' r q)
  then have "pa_buf q = drop k bp" using proc_buf_eq [of tz stof p' r q] by simp
  with 2 show ?case using chop_shorter [of bp k] by auto
qed simp

declare chop_more.simps [simp del]

text \<open>
  \<open>_ical_pull\<close>: a line that ended with the buffer before is only complete when this buffer does
  not start with a blank.
\<close>

definition ical_pull :: "(string \<Rightarrow> int) \<Rightarrow> (string \<Rightarrow> nat) \<Rightarrow> parser \<Rightarrow> pres \<times> parser" where
  "ical_pull tz stof p =
     (if pa_six p \<noteq> 0 \<and> pa_stash p ! pa_six p = CHR 0x01 then
        let p = p\<lparr>pa_stash := (pa_stash p)[pa_six p := CHR 0x00]\<rparr>
        in if \<not> is_blank (deref (pa_buf p)) then
             case ical_proc tz stof p of (More, p) \<Rightarrow> chop_more tz stof p | (r, p) \<Rightarrow> (r, p)
           else chop_more tz stof p
      else chop_more tz stof p)"

definition ical_push :: "parser \<Rightarrow> string \<Rightarrow> parser" where
  "ical_push p buf = p\<lparr>pa_buf := buf\<rparr>"

section \<open>Instructions\<close>

datatype verb = INSVERB_UNK | INSVERB_LIST | INSVERB_SCHE | INSVERB_RESC | INSVERB_UNSC | INSVERB_NEXT | INSVERB_SKIP

record 't instruc =
  in_v :: verb
  in_t :: "'t option"
  in_o :: "64 word"
  in_rng :: "range"

definition nul_instruc :: "'t instruc" where
  "nul_instruc = \<lparr>in_v = INSVERB_UNK, in_t = None, in_o = 0, in_rng = echs_nul_range\<rparr>"

definition ins_of :: "(pvevent \<Rightarrow> 't option) \<Rightarrow> ical_meth \<Rightarrow> pvevent \<Rightarrow> 't instruc" where
  "ins_of mk meth ve =
     (case meth of
        METH_UNK \<Rightarrow> nul_instruc\<lparr>in_v := INSVERB_SCHE, in_t := mk ve\<rparr>
      | METH_PUBLISH \<Rightarrow> nul_instruc\<lparr>in_v := INSVERB_SCHE, in_t := mk ve\<rparr>
      | METH_REQUEST \<Rightarrow> nul_instruc\<lparr>in_v := INSVERB_SCHE, in_t := mk ve\<rparr>
      | METH_REPLY \<Rightarrow>
          nul_instruc\<lparr>in_v := (if ve_req ve = 2 then INSVERB_RESC else if ve_req ve = 5 then INSVERB_UNSC else INSVERB_UNK),
            in_o := ve_oid ve\<rparr>
      | METH_CANCEL \<Rightarrow> nul_instruc\<lparr>in_v := INSVERB_UNSC, in_o := ve_oid ve, in_rng := \<lparr>r_beg = ve_from ve, r_end = ve_till ve\<rparr>\<rparr>
      | _ \<Rightarrow> nul_instruc)"

text \<open>The context is given up at the end of a calendar; \<open>mk\<close> is \<open>make_task\<close>.\<close>

definition echs_evical_push :: "parser option \<Rightarrow> string \<Rightarrow> (parser option) option" where
  "echs_evical_push p buf =
     (case p of
        None \<Rightarrow> if buf = [] then None else Some (Some (ical_push new_parser buf))
      | Some p \<Rightarrow> Some (Some (ical_push p buf)))"

definition echs_evical_pull ::
  "(string \<Rightarrow> int) \<Rightarrow> (string \<Rightarrow> nat) \<Rightarrow> (pvevent \<Rightarrow> 't option) \<Rightarrow> parser option \<Rightarrow> 't instruc \<times> parser option" where
  "echs_evical_pull tz stof mk p =
     (case p of
        None \<Rightarrow> (nul_instruc, None)
      | Some p \<Rightarrow>
          (case ical_pull tz stof p of
             (More, p) \<Rightarrow> (nul_instruc, Some p)
           | (Eop, p) \<Rightarrow> (nul_instruc, None)
           | (Comp ve, p) \<Rightarrow> (ins_of mk (ve_meth (pa_glob p)) ve, Some p)))"

definition echs_evical_last_pull ::
  "(string \<Rightarrow> int) \<Rightarrow> (string \<Rightarrow> nat) \<Rightarrow> (pvevent \<Rightarrow> 't option) \<Rightarrow> parser option \<Rightarrow> 't instruc" where
  "echs_evical_last_pull tz stof mk p = fst (echs_evical_pull tz stof mk p)"

end
