(* ===== verification/IcalLines.thy ===== *)
theory IcalLines
  imports IcalPush
begin

text \<open>
  What the push parser sees of a text, however it is cut into buffers: its logical lines, unfolded,
  one after the other.
\<close>

section \<open>Unfolded text\<close>

fun esc :: "string \<Rightarrow> string" where
  "esc [] = []"
| "esc [c] = (if c = CHR 0x0D \<or> c = CHR 0x0A then [] else [c])"
| "esc (c # d # s) =
     (if c = CHR 0x0D then esc (d # s)
      else if c = CHR 0x0A then esc s
      else if c = CHR 0x5C then c # esc s
      else c # esc (d # s))"

lemma esc_length: "length (esc s) \<le> length s"
  by (induction s rule: esc.induct) auto

definition clean_end :: "string \<Rightarrow> bool" where
  "clean_end s \<longleftrightarrow> s = [] \<or> last s \<noteq> CHR 0x0A \<and> last s \<noteq> CHR 0x5C"

lemma esc_Cons: "c \<noteq> CHR 0x0D \<Longrightarrow> c \<noteq> CHR 0x0A \<Longrightarrow> c \<noteq> CHR 0x5C \<Longrightarrow> esc (c # s) = c # esc s"
  "esc (CHR 0x0D # s) = esc s" "esc (CHR 0x0A # s) = esc (drop 1 s)" "esc (CHR 0x5C # s) = CHR 0x5C # esc (drop 1 s)"
  by (cases s; simp)+

lemma esc_append: "clean_end a \<Longrightarrow> esc (a @ b) = esc a @ esc b"
proof (induction a rule: esc.induct)
  case (2 c)
  then show ?case by (auto simp: clean_end_def esc_Cons)
next
  case (3 c d s)
  then have "clean_end (d # s)" "s \<noteq> [] \<Longrightarrow> clean_end s" by (auto simp: clean_end_def)
  moreover have "clean_end []" by (simp add: clean_end_def)
  ultimately show ?case using 3(1-4) by (cases "s = []") auto
qed simp

lemma esccpy_steps:
  "ti < tz \<Longrightarrow> esccpy arr off tz (CHR 0x0D # s) ti = esccpy (arr[off + ti := CHR 0x0D]) off tz s ti"
  "ti < tz \<Longrightarrow> esccpy arr off tz (CHR 0x0A # s) ti = esccpy (arr[off + ti := CHR 0x0A]) off tz (drop 1 s) ti"
  "ti + 1 < tz \<Longrightarrow> esccpy arr off tz (CHR 0x5C # s) ti = esccpy (arr[off + ti := CHR 0x5C]) off tz (drop 1 s) (ti + 1)"
  "ti + 1 < tz \<Longrightarrow> c \<noteq> CHR 0x0D \<Longrightarrow> c \<noteq> CHR 0x0A \<Longrightarrow> c \<noteq> CHR 0x5C \<Longrightarrow>
    esccpy arr off tz (c # s) ti = esccpy (arr[off + ti := c]) off tz s (ti + 1)"
  by (simp_all add: esc_char_def)

text \<open>The copy in place: the bytes before it stay, the unfolded text and a NUL follow.\<close>

definition copied :: "string \<Rightarrow> nat \<Rightarrow> string \<Rightarrow> string \<Rightarrow> bool" where
  "copied arr at0 t arr' \<longleftrightarrow> length arr' = length arr \<and> take (at0 + length t) arr' = take at0 arr @ t \<and>
     arr' ! (at0 + length t) = CHR 0x00"

lemma copied_step: "n < length arr \<Longrightarrow> copied (arr[n := c]) (Suc n) t arr' \<Longrightarrow> copied arr n (c # t) arr'"
  by (simp add: copied_def take_Suc_conv_app_nth)

lemma copied_same: "copied (arr[n := c]) n t arr' \<longleftrightarrow> copied arr n t arr'"
  by (simp add: copied_def)

lemma esccpy_spec:
  assumes "ti + length s < tz" "off + tz \<le> length arr"
  shows "\<exists>arr'. esccpy arr off tz s ti = (arr', ti + length (esc s)) \<and> copied arr (off + ti) (esc s) arr'"
  using assms
proof (induction s arbitrary: arr ti rule: length_induct)
  case (1 s)
  show ?case
  proof (cases s)
    case Nil
    with 1 show ?thesis by (auto simp: copied_def)
  next
    case (Cons c t)
    have IH: "\<exists>arr'. esccpy a off tz u i = (arr', i + length (esc u)) \<and> copied a (off + i) (esc u) arr'"
      if "length u \<le> length t" "i + length u < tz" "length a = length arr" for a u i
      using 1 Cons that by auto
    have l: "ti < tz" "off + ti < length arr" "ti + length t < tz" using 1 Cons by auto
    have d: "length (drop 1 t) \<le> length t" by simp
    consider "c = CHR 0x0D" | "c = CHR 0x0A" | "c = CHR 0x5C" | "c \<noteq> CHR 0x0D" "c \<noteq> CHR 0x0A" "c \<noteq> CHR 0x5C" by blast
    then show ?thesis
    proof cases
      case a: 1
      with IH [of t ti "arr[off + ti := CHR 0x0D]"] l Cons show ?thesis
        by (auto simp: esccpy_steps(1) esc_Cons(2) copied_same)
    next
      case a: 2
      with IH [of "drop 1 t" ti "arr[off + ti := CHR 0x0A]"] l Cons show ?thesis
        by (auto simp: esccpy_steps(2) esc_Cons(3) copied_same)
    next
      case a: 3
      have t: "ti + 1 < tz" using 1 Cons by auto
      from IH [of "drop 1 t" "ti + 1" "arr[off + ti := CHR 0x5C]"] l t 1(2) Cons d obtain arr' where
        "esccpy (arr[off + ti := CHR 0x5C]) off tz (drop 1 t) (ti + 1) = (arr', ti + 1 + length (esc (drop 1 t)))"
        "copied (arr[off + ti := CHR 0x5C]) (off + (ti + 1)) (esc (drop 1 t)) arr'" by fastforce
      with a Cons copied_step [OF l(2), of "CHR 0x5C" "esc (drop 1 t)" arr'] esccpy_steps(3) [OF t] show ?thesis
        by (auto simp: esc_Cons(4))
    next
      case a: 4
      have t: "ti + 1 < tz" using 1 Cons by auto
      from IH [of t "ti + 1" "arr[off + ti := c]"] l t 1(2) Cons obtain arr' where
        "esccpy (arr[off + ti := c]) off tz t (ti + 1) = (arr', ti + 1 + length (esc t))"
        "copied (arr[off + ti := c]) (off + (ti + 1)) (esc t) arr'" by fastforce
      with a Cons copied_step [OF l(2), of c "esc t" arr'] esccpy_steps(4) [OF t a] show ?thesis
        by (auto simp: esc_Cons(1) [OF a])
    qed
  qed
qed

section \<open>Logical lines\<close>

text \<open>The complete lines of a text, raw, and what is left of it.\<close>

function lines_of :: "string \<Rightarrow> string list \<times> string" where
  "lines_of s =
     (case find_eol s of
        None \<Rightarrow> ([], s)
      | Some k \<Rightarrow> if k = length s then ([], s) else apfst (Cons (take k s)) (lines_of (drop k s)))"
  by pat_completeness auto
termination by (relation "measure length") (auto dest: chop_shorter)

declare lines_of.simps [simp del]

lemma find_eol_app:
  "find_eol u = None \<Longrightarrow> find_eol (u @ c) = map_option ((+) (length u)) (find_eol c)"
  "find_eol u = Some k \<Longrightarrow> c \<noteq> [] \<Longrightarrow> k < length u \<or> \<not> is_blank (hd c) \<Longrightarrow> find_eol (u @ c) = Some k"
proof (induction u arbitrary: k)
  case Nil
  { case 1 show ?case by (cases "find_eol c") simp_all }
  { case 2 then show ?case by simp }
next
  case (Cons a u)
  { case 1 with Cons.IH(1) show ?case by (cases "find_eol c") (auto simp: hd_append split: if_splits) }
  { case 2 with Cons.IH(2) show ?case by (auto simp: hd_append split: if_splits) }
qed

lemma find_eol_last: "find_eol u = None \<Longrightarrow> u = [] \<or> last u \<noteq> CHR 0x0A"
  by (induction u) (auto split: if_splits)

lemma find_eol_end: "find_eol u = Some (length u) \<Longrightarrow> u \<noteq> [] \<and> last u = CHR 0x0A"
  by (induction u) (auto split: if_splits)

text \<open>The machine over a list of unfolded lines: the components it delivers, and where it stops.\<close>

definition core :: "parser \<Rightarrow> parser" where
  "core p = p\<lparr>pa_buf := [], pa_six := 0, pa_stash := []\<rparr>"

definition run_line :: "(string \<Rightarrow> int) \<Rightarrow> (string \<Rightarrow> nat) \<Rightarrow> parser \<Rightarrow> string \<Rightarrow> pres \<times> parser" where
  "run_line tz stof q l = proc_line tz stof q (takeWhile (\<lambda>c. c \<noteq> CHR 0x00) l) (length l)"

fun run_lines :: "(string \<Rightarrow> int) \<Rightarrow> (string \<Rightarrow> nat) \<Rightarrow> parser \<Rightarrow> string list \<Rightarrow> pvevent list \<times> parser option" where
  "run_lines tz stof q [] = ([], Some q)"
| "run_lines tz stof q (l # ls) =
     (case run_line tz stof q l of
        (More, q) \<Rightarrow> run_lines tz stof q ls
      | (Eop, q) \<Rightarrow> ([], None)
      | (Comp ve, q) \<Rightarrow> apfst (Cons ve) (run_lines tz stof q ls))"

lemma proc_line_core: "proc_line tz stof (core p) s z = apsnd core (proc_line tz stof p s z)"
  by (auto simp: proc_line_def proc_field_def core_def Let_def split: option.splits)

text \<open>Pulling until nothing comes: what a client gets out of one buffer.\<close>

lemma ical_proc_six: "ical_proc tz stof p = (r, q) \<Longrightarrow> pa_six q = 0 \<and> pa_buf q = pa_buf p"
  using proc_buf_eq [of tz stof p r q] by (auto simp: ical_proc_def split: prod.splits)

text \<open>The two ways on after a line was stashed.\<close>

definition and_chop :: "(string \<Rightarrow> int) \<Rightarrow> (string \<Rightarrow> nat) \<Rightarrow> pres \<times> parser \<Rightarrow> pres \<times> parser" where
  "and_chop tz stof rp = (case fst rp of More \<Rightarrow> chop_more tz stof (snd rp) | _ \<Rightarrow> rp)"

lemma and_chop_simps [simp]: "and_chop tz stof (More, p) = chop_more tz stof p" "and_chop tz stof (Eop, p) = (Eop, p)"
  "and_chop tz stof (Comp v, p) = (Comp v, p)"
  by (simp_all add: and_chop_def)

lemma chop_line:
  assumes "find_eol (pa_buf p) = Some k" "k \<noteq> length (pa_buf p)" "p' = stash_in (p\<lparr>pa_buf := drop k (pa_buf p)\<rparr>) (take k (pa_buf p))"
  shows "chop_more tz stof p = (if pa_six p' = 0 then (More, p') else and_chop tz stof (ical_proc tz stof p'))"
  using assms by (subst chop_more.simps) (auto simp: Let_def and_chop_def split: prod.splits pres.splits)

lemma chop_open:
  assumes "find_eol (pa_buf p) = None \<or> find_eol (pa_buf p) = Some (length (pa_buf p))"
  shows "fst (chop_more tz stof p) = More"
  using assms by (subst chop_more.simps) (auto simp: Let_def)

lemma pull_line:
  "ical_pull tz stof p =
     (if pa_six p \<noteq> 0 \<and> pa_stash p ! pa_six p = CHR 0x01 then
        let p = p\<lparr>pa_stash := (pa_stash p)[pa_six p := CHR 0x00]\<rparr>
        in if \<not> is_blank (deref (pa_buf p)) then and_chop tz stof (ical_proc tz stof p) else chop_more tz stof p
      else chop_more tz stof p)"
  by (auto simp: ical_pull_def Let_def and_chop_def split: prod.splits pres.splits)

lemma chop_comp: "chop_more tz stof p = (Comp ve, q) \<Longrightarrow> length (pa_buf q) < length (pa_buf p) \<and> pa_six q = 0"
proof (induction "length (pa_buf p)" arbitrary: p rule: less_induct)
  case less
  have "\<not> (find_eol (pa_buf p) = None \<or> find_eol (pa_buf p) = Some (length (pa_buf p)))"
    using chop_open [of p tz stof] less.prems by force
  then obtain k where k: "find_eol (pa_buf p) = Some k" "k \<noteq> length (pa_buf p)" by auto
  define p1 where "p1 = stash_in (p\<lparr>pa_buf := drop k (pa_buf p)\<rparr>) (take k (pa_buf p))"
  obtain r p2 where r: "ical_proc tz stof p1 = (r, p2)" by force
  have c: "and_chop tz stof (r, p2) = (Comp ve, q)"
    using less.prems chop_line [OF k p1_def] r by (auto split: if_splits)
  have b: "length (pa_buf p2) < length (pa_buf p)" "pa_six p2 = 0"
    using ical_proc_six [OF r] chop_shorter [OF k(1)] by (auto simp: p1_def)
  show ?case
  proof (cases r)
    case More
    with c less.hyps [OF b(1)] b show ?thesis by auto
  qed (use b c in auto)
qed

lemma pull_comp:
  assumes "ical_pull tz stof p = (Comp ve, q)"
  shows "length (pa_buf q) + (if pa_six q = 0 then 0 else 1) < length (pa_buf p) + (if pa_six p = 0 then 0 else 1)"
proof (cases "pa_six p \<noteq> 0 \<and> pa_stash p ! pa_six p = CHR 0x01 \<and> \<not> is_blank (deref (pa_buf p))")
  case True
  let ?p = "p\<lparr>pa_stash := (pa_stash p)[pa_six p := CHR 0x00]\<rparr>"
  obtain r p' where r: "ical_proc tz stof ?p = (r, p')" by force
  with True assms have "and_chop tz stof (r, p') = (Comp ve, q)" by (simp add: pull_line)
  with ical_proc_six [OF r] chop_comp [of tz stof p' ve q] True show ?thesis by (cases r) auto
next
  case False
  define p' where "p' = (if pa_six p \<noteq> 0 \<and> pa_stash p ! pa_six p = CHR 0x01 then p\<lparr>pa_stash := (pa_stash p)[pa_six p := CHR 0x00]\<rparr> else p)"
  have "chop_more tz stof p' = (Comp ve, q)" using assms False by (auto simp: pull_line p'_def Let_def)
  from chop_comp [OF this] show ?thesis by (auto simp: p'_def split: if_splits)
qed

function drain :: "(string \<Rightarrow> int) \<Rightarrow> (string \<Rightarrow> nat) \<Rightarrow> parser \<Rightarrow> pvevent list \<times> parser option" where
  "drain tz stof p =
     (case ical_pull tz stof p of
        (More, p) \<Rightarrow> ([], Some p)
      | (Eop, p) \<Rightarrow> ([], None)
      | (Comp ve, p) \<Rightarrow> apfst (Cons ve) (drain tz stof p))"
  by pat_completeness auto
termination
  by (relation "measure (\<lambda>(tz, stof, p). length (pa_buf p) + (if pa_six p = 0 then 0 else 1))") (use pull_comp [OF sym] in auto)

declare drain.simps [simp del]

text \<open>Buffer after buffer, until the end of a calendar.\<close>

fun feed :: "(string \<Rightarrow> int) \<Rightarrow> (string \<Rightarrow> nat) \<Rightarrow> parser \<Rightarrow> string list \<Rightarrow> pvevent list \<times> parser option" where
  "feed tz stof p [] = ([], Some p)"
| "feed tz stof p (c # cs) =
     (case drain tz stof (ical_push p c) of
        (vs, None) \<Rightarrow> (vs, None)
      | (vs, Some p) \<Rightarrow> apfst ((@) vs) (feed tz stof p cs))"

section \<open>Cutting a text into buffers\<close>

text \<open>
  What the parser holds of the raw text \<open>u\<close> of an unfinished line: its unfolded form, and a mark
  when it may be complete.
\<close>

definition holds :: "parser \<Rightarrow> string \<Rightarrow> bool" where
  "holds p u \<longleftrightarrow> length (pa_stash p) = STASHZ \<and> length u < STASHZ \<and> pa_six p = length (esc u) \<and>
     take (pa_six p) (pa_stash p) = esc u \<and>
     (find_eol u = None \<and> (pa_six p \<noteq> 0 \<longrightarrow> pa_stash p ! pa_six p = CHR 0x00) \<or>
      find_eol u = Some (length u) \<and> (pa_six p \<noteq> 0 \<longrightarrow> pa_stash p ! pa_six p = CHR 0x01))"

text \<open>A cut must not come after a backslash, and not before the blank of a folded line.\<close>

definition cut_ok :: "string \<Rightarrow> string \<Rightarrow> bool" where
  "cut_ok u c \<longleftrightarrow> u = [] \<or> last u \<noteq> CHR 0x5C \<and> \<not> (last u = CHR 0x0A \<and> is_blank (deref c))"

definition line_ok :: "string \<Rightarrow> bool" where
  "line_ok l \<longleftrightarrow> length l < STASHZ \<and> esc l \<noteq> []"

lemma stash_in_spec:
  assumes "length (pa_stash p) = STASHZ" "length (esc u) + length src < STASHZ" "pa_six p = length (esc u)"
    "take (pa_six p) (pa_stash p) = esc u" "clean_end u"
  shows "\<exists>arr. stash_in p src = p\<lparr>pa_stash := arr, pa_six := length (esc (u @ src))\<rparr> \<and> length arr = STASHZ \<and>
    take (length (esc (u @ src))) arr = esc (u @ src) \<and> arr ! length (esc (u @ src)) = CHR 0x00"
proof -
  have "0 + length src < STASHZ - pa_six p" "pa_six p + (STASHZ - pa_six p) \<le> length (pa_stash p)"
    using assms by simp_all
  from esccpy_spec [OF this] obtain arr where
    "esccpy (pa_stash p) (pa_six p) (STASHZ - pa_six p) src 0 = (arr, length (esc src))"
    "copied (pa_stash p) (pa_six p) (esc src) arr" by auto
  then show ?thesis using assms by (intro exI [of _ arr]) (simp add: stash_in_def copied_def esc_append)
qed

lemma takeWhile_stop: "\<not> P c \<Longrightarrow> takeWhile P (l @ c # r) = takeWhile P l"
  by (induction l) auto

lemma ical_proc_line:
  assumes "length (pa_stash p) = STASHZ" "pa_six p = length l" "take (pa_six p) (pa_stash p) = l" "length l < STASHZ"
    "pa_stash p ! pa_six p = CHR 0x00"
  shows "ical_proc tz stof p = apsnd (\<lambda>q. q\<lparr>pa_six := 0\<rparr>) (run_line tz stof p l)"
proof -
  have "pa_stash p = l @ CHR 0x00 # drop (Suc (length l)) (pa_stash p)"
    using assms by (metis append_take_drop_id Cons_nth_drop_Suc)
  then have "takeWhile (\<lambda>c. c \<noteq> CHR 0x00) (pa_stash p) =
      takeWhile (\<lambda>c. c \<noteq> CHR 0x00) (l @ CHR 0x00 # drop (Suc (length l)) (pa_stash p))" by (rule arg_cong)
  also have "\<dots> = takeWhile (\<lambda>c. c \<noteq> CHR 0x00) l" by (rule takeWhile_stop) simp
  finally have "takeWhile (\<lambda>c. c \<noteq> CHR 0x00) (pa_stash p) = takeWhile (\<lambda>c. c \<noteq> CHR 0x00) l" .
  then show ?thesis by (simp add: ical_proc_def run_line_def assms(2) apsnd_def map_prod_def split_beta)
qed

lemma run_line_core: "run_line tz stof (core p) l = apsnd core (run_line tz stof p l)"
  by (simp add: run_line_def proc_line_core)

lemma run_line_frame:
  "run_line tz stof p l = (r, q) \<Longrightarrow> pa_buf q = pa_buf p \<and> pa_stash q = pa_stash p \<and> pa_six q = pa_six p"
  by (auto simp: run_line_def proc_line_def proc_field_def Let_def split: option.splits if_splits)

lemma core_simps [simp]: "core (p\<lparr>pa_six := n\<rparr>) = core p" "core (p\<lparr>pa_buf := s\<rparr>) = core p" "core (p\<lparr>pa_stash := t\<rparr>) = core p"
  by (simp_all add: core_def)

definition drain_from :: "(string \<Rightarrow> int) \<Rightarrow> (string \<Rightarrow> nat) \<Rightarrow> pres \<times> parser \<Rightarrow> pvevent list \<times> parser option" where
  "drain_from tz stof rp =
     (case fst rp of More \<Rightarrow> ([], Some (snd rp)) | Eop \<Rightarrow> ([], None) | Comp ve \<Rightarrow> apfst (Cons ve) (drain tz stof (snd rp)))"

lemma drain_from_simps [simp]: "drain_from tz stof (More, p) = ([], Some p)" "drain_from tz stof (Eop, p) = ([], None)"
  "drain_from tz stof (Comp ve, p) = apfst (Cons ve) (drain tz stof p)"
  by (simp_all add: drain_from_def)

lemma drain_pull: "drain tz stof p = drain_from tz stof (ical_pull tz stof p)"
  by (subst drain.simps) (auto simp: drain_from_def split: prod.splits pres.splits)

text \<open>The parser did what the machine does with the lines, and holds \<open>u\<close> of what follows.\<close>

definition agree :: "string \<Rightarrow> pvevent list \<times> parser option \<Rightarrow> pvevent list \<times> parser option \<Rightarrow> bool" where
  "agree u r d \<longleftrightarrow> fst d = fst r \<and>
     (case snd r of None \<Rightarrow> snd d = None | Some q \<Rightarrow> \<exists>p. snd d = Some p \<and> core p = q \<and> holds p u)"

lemma agree_cons: "agree u r d \<Longrightarrow> agree u (apfst (Cons v) r) (apfst (Cons v) d)"
  by (auto simp: agree_def split: option.splits)

lemma line_agree:
  assumes p: "length (pa_stash p) = STASHZ" "pa_six p = length l" "take (pa_six p) (pa_stash p) = l" "length l < STASHZ"
      "pa_stash p ! pa_six p = CHR 0x00"
    and more: "\<And>q. length (pa_stash q) = STASHZ \<Longrightarrow> pa_six q = 0 \<Longrightarrow> pa_buf q = pa_buf p \<Longrightarrow>
      agree u (run_lines tz stof (core q) ls) (drain_from tz stof (chop_more tz stof q))"
  shows "agree u (run_lines tz stof (core p) (l # ls)) (drain_from tz stof (and_chop tz stof (ical_proc tz stof p)))"
proof -
  obtain r q where r: "run_line tz stof p l = (r, q)" by force
  let ?q = "q\<lparr>pa_six := 0\<rparr>"
  have i: "ical_proc tz stof p = (r, ?q)" using ical_proc_line [OF p] r by simp
  have c: "run_line tz stof (core p) l = (r, core q)" using run_line_core [of tz stof p l] r by simp
  have m: "agree u (run_lines tz stof (core q) ls) (drain_from tz stof (chop_more tz stof ?q))"
    using more [of ?q] run_line_frame [OF r] p(1) by simp
  show ?thesis
  proof (cases r)
    case More
    with i c m show ?thesis by simp
  next
    case Eop
    with i c show ?thesis by (simp add: agree_def)
  next
    case (Comp ve)
    have "ical_pull tz stof ?q = chop_more tz stof ?q" by (simp add: pull_line)
    with Comp i c agree_cons [OF m] show ?thesis by (simp add: drain_pull)
  qed
qed

lemma lines_of_open:
  "find_eol s = None \<or> find_eol s = Some (length s) \<Longrightarrow> lines_of s = ([], s)"
  "find_eol s = Some k \<Longrightarrow> k \<noteq> length s \<Longrightarrow> lines_of s = apfst (Cons (take k s)) (lines_of (drop k s))"
  by (subst lines_of.simps; auto)+

lemma chop_agree:
  assumes "length (pa_stash p) = STASHZ" "pa_six p = length (esc u)" "take (pa_six p) (pa_stash p) = esc u"
    "find_eol u = None" "clean_end u" "pa_buf p \<noteq> []" "lines_of (u @ pa_buf p) = (ls, u')"
    "\<forall>l \<in> set ls. line_ok l" "length u' < STASHZ"
  shows "agree u' (run_lines tz stof (core p) (map esc ls)) (drain_from tz stof (chop_more tz stof p))"
  using assms
proof (induction "length (pa_buf p)" arbitrary: p u ls rule: less_induct)
  case less
  let ?c = "pa_buf p"
  have f: "find_eol (u @ ?c) = map_option ((+) (length u)) (find_eol ?c)" by (rule find_eol_app(1) [OF less.prems(4)])
  have lu: "length (esc u) \<le> length u" by (rule esc_length)
  show ?case
  proof (cases "find_eol ?c = None \<or> find_eol ?c = Some (length ?c)")
    case True
    then have "find_eol (u @ ?c) = None \<or> find_eol (u @ ?c) = Some (length (u @ ?c))" unfolding f by auto
    then have l: "ls = []" "u' = u @ ?c" using less.prems(7) lines_of_open(1) [of "u @ ?c"] by auto
    with less.prems(9) lu have z: "length (esc u) + length ?c < STASHZ" by simp
    from stash_in_spec [OF less.prems(1) z less.prems(2,3,5)] obtain arr where
      a: "stash_in p ?c = p\<lparr>pa_stash := arr, pa_six := length (esc u')\<rparr>" "length arr = STASHZ"
        "take (length (esc u')) arr = esc u'" "arr ! length (esc u') = CHR 0x00" unfolding l(2) by blast
    have nf: "\<not> (STASHZ - pa_six p \<le> length ?c)" using z less.prems(2) by simp
    let ?p = "stash_in p ?c"
    have six: "length (esc u') < STASHZ" using esc_length [of u'] less.prems(9) by linarith
    have ch: "chop_more tz stof p = (More, if find_eol ?c \<noteq> None then ?p\<lparr>pa_stash := (pa_stash ?p)[pa_six ?p := CHR 0x01]\<rparr> else ?p)"
      using True nf by (subst chop_more.simps) (simp add: Let_def)
    have "holds (snd (chop_more tz stof p)) u'"
      unfolding ch holds_def using a True f six less.prems(9) by (auto simp: l(2) nth_list_update)
    moreover have "core (snd (chop_more tz stof p)) = core p" unfolding ch using a by simp
    ultimately show ?thesis unfolding l(1) ch by (auto simp: agree_def)
  next
    case False
    then obtain k where k: "find_eol ?c = Some k" "k \<noteq> length ?c" by auto
    let ?l = "u @ take k ?c"
    have kl: "k \<le> length ?c" using find_eol_pos [OF k(1)] by simp
    have "lines_of (u @ ?c) = apfst (Cons ?l) (lines_of (drop k ?c))"
      using lines_of_open(2) [of "u @ ?c" "length u + k"] f k by simp
    then obtain ls2 where ls: "ls = ?l # ls2" "lines_of (drop k ?c) = (ls2, u')"
      using less.prems(7) by (cases "lines_of (drop k ?c)") auto
    define p0 where "p0 = p\<lparr>pa_buf := drop k ?c\<rparr>"
    define p1 where "p1 = stash_in p0 (take k ?c)"
    have lo: "length ?l < STASHZ" "esc ?l \<noteq> []" using less.prems(8) ls(1) by (auto simp: line_ok_def)
    then have z: "length (esc u) + length (take k ?c) < STASHZ" using lu by simp
    have p0: "length (pa_stash p0) = STASHZ" "pa_six p0 = length (esc u)" "take (pa_six p0) (pa_stash p0) = esc u"
      using less.prems by (simp_all add: p0_def)
    from stash_in_spec [OF p0(1) z p0(2,3) less.prems(5)] obtain arr where
      a: "p1 = p0\<lparr>pa_stash := arr, pa_six := length (esc ?l)\<rparr>" "length arr = STASHZ"
        "take (length (esc ?l)) arr = esc ?l" "arr ! length (esc ?l) = CHR 0x00" unfolding p1_def by blast
    have el: "length (esc ?l) < STASHZ" using esc_length [of ?l] lo by linarith
    have ch: "chop_more tz stof p = and_chop tz stof (ical_proc tz stof p1)"
      using chop_line [OF k p1_def [unfolded p0_def]] a lo(2) by simp
    have "agree u' (run_lines tz stof (core p1) (esc ?l # map esc ls2)) (drain_from tz stof (and_chop tz stof (ical_proc tz stof p1)))"
    proof (rule line_agree)
      fix q :: parser assume q: "length (pa_stash q) = STASHZ" "pa_six q = 0" "pa_buf q = pa_buf p1"
      have b: "pa_buf q = drop k ?c" using q(3) a(1) by (simp add: p0_def)
      have sh: "length (pa_buf q) < length ?c" using chop_shorter [OF k(1)] b by simp
      have ne: "pa_buf q \<noteq> []" using b k(2) kl by simp
      show "agree u' (run_lines tz stof (core q) (map esc ls2)) (drain_from tz stof (chop_more tz stof q))"
        using less.hyps [OF sh, of "[]" ls2] q ne b ls less.prems(8,9) by (simp add: clean_end_def)
    qed (use a el in simp_all)
    moreover have "core p1 = core p" using a(1) by (simp add: p0_def)
    ultimately show ?thesis unfolding ch ls(1) by simp
  qed
qed

text \<open>One buffer.\<close>

lemma drain_agree:
  assumes h: "holds p u" and c: "c \<noteq> []" "cut_ok u c" and l: "lines_of (u @ c) = (ls, u')"
    and ok: "\<forall>l \<in> set ls. line_ok l" "length u' < STASHZ"
  shows "agree u' (run_lines tz stof (core p) (map esc ls)) (drain tz stof (ical_push p c))"
proof -
  let ?p = "ical_push p c"
  have p: "length (pa_stash ?p) = STASHZ" "pa_six ?p = length (esc u)" "take (pa_six ?p) (pa_stash ?p) = esc u"
    "pa_buf ?p = c" "core ?p = core p"
    using h by (auto simp: holds_def ical_push_def)
  consider "find_eol u = None" | "find_eol u = Some (length u)" using h by (auto simp: holds_def)
  then show ?thesis
  proof cases
    case 1
    then have "ical_pull tz stof ?p = chop_more tz stof ?p"
      using h by (auto simp: pull_line holds_def ical_push_def)
    moreover have "clean_end u" using find_eol_last [OF 1] c(2) by (auto simp: clean_end_def cut_ok_def)
    then have "agree u' (run_lines tz stof (core ?p) (map esc ls)) (drain_from tz stof (chop_more tz stof ?p))"
      using chop_agree [OF p(1-3) 1] p(4) c(1) l ok by simp
    ultimately show ?thesis by (simp add: drain_pull p(5))
  next
    case 2
    then have e: "u \<noteq> []" "last u = CHR 0x0A" using find_eol_end by blast+
    with c have nb: "\<not> is_blank (deref c)" by (simp add: cut_ok_def)
    have "find_eol (u @ c) = Some (length u)"
      using 2 c(1) nb by (intro find_eol_app(2)) (auto simp: neq_Nil_conv)
    then have "lines_of (u @ c) = apfst (Cons u) (lines_of c)"
      using lines_of_open(2) [of "u @ c" "length u"] c(1) by simp
    then obtain ls2 where ls: "ls = u # ls2" "lines_of c = (ls2, u')" using l by (cases "lines_of c") auto
    then have six: "pa_six ?p \<noteq> 0" using ok(1) p(2) by (auto simp: line_ok_def)
    let ?q = "?p\<lparr>pa_stash := (pa_stash ?p)[pa_six ?p := CHR 0x00]\<rparr>"
    have n: "length (esc u) < STASHZ" using esc_length [of u] h by (simp add: holds_def)
    have "pa_stash ?p ! pa_six ?p = CHR 0x01" using h six 2 by (auto simp: holds_def ical_push_def)
    then have pl: "ical_pull tz stof ?p = and_chop tz stof (ical_proc tz stof ?q)"
      using six nb p(4) by (simp add: pull_line Let_def)
    have "agree u' (run_lines tz stof (core ?q) (esc u # map esc ls2)) (drain_from tz stof (and_chop tz stof (ical_proc tz stof ?q)))"
    proof (rule line_agree)
      fix q :: parser assume q: "length (pa_stash q) = STASHZ" "pa_six q = 0" "pa_buf q = pa_buf ?q"
      then show "agree u' (run_lines tz stof (core q) (map esc ls2)) (drain_from tz stof (chop_more tz stof q))"
        using p(4) c(1) ls ok by (intro chop_agree [where u = "[]"]) (auto simp: clean_end_def)
    qed (use p n in simp_all)
    then show ?thesis unfolding drain_pull pl ls(1) using p(5) by simp
  qed
qed

text \<open>The lines of a text in two parts.\<close>

lemma lines_of_pending: "lines_of s = (ls, u) \<Longrightarrow> find_eol u = None \<or> find_eol u = Some (length u)"
proof (induction s arbitrary: ls rule: lines_of.induct)
  case (1 s)
  show ?case
  proof (cases "find_eol s = None \<or> find_eol s = Some (length s)")
    case True
    with 1(2) lines_of_open(1) [OF True] show ?thesis by auto
  next
    case False
    then obtain k where k: "find_eol s = Some k" "k \<noteq> length s" by auto
    with 1(1) [OF k] 1(2) lines_of_open(2) [OF k] show ?thesis by (cases "lines_of (drop k s)") auto
  qed
qed

lemma lines_of_app: "lines_of a = (ls, u) \<Longrightarrow> lines_of (a @ b) = apfst ((@) ls) (lines_of (u @ b))"
proof (induction a arbitrary: ls rule: lines_of.induct)
  case (1 a)
  show ?case
  proof (cases "find_eol a = None \<or> find_eol a = Some (length a)")
    case True
    with 1(2) lines_of_open(1) [OF True] show ?thesis by (cases "lines_of (a @ b)") auto
  next
    case False
    then obtain k where k: "find_eol a = Some k" "k \<noteq> length a" by auto
    have kl: "k < length a" using find_eol_pos [OF k(1)] k(2) by simp
    then have "find_eol (a @ b) = Some k" using find_eol_app(2) [OF k(1)] k(1) by (cases "b = []") auto
    then have l: "lines_of (a @ b) = apfst (Cons (take k a)) (lines_of (drop k a @ b))"
      using lines_of_open(2) [of "a @ b" k] kl by simp
    obtain ls2 where ls: "ls = take k a # ls2" "lines_of (drop k a) = (ls2, u)"
      using 1(2) lines_of_open(2) [OF k] by (cases "lines_of (drop k a)") auto
    from 1(1) [OF k ls(2)] l ls(1) show ?thesis by (cases "lines_of (u @ b)") auto
  qed
qed

lemma find_eol_within: "find_eol (u @ b) = Some k \<Longrightarrow> k < length u \<Longrightarrow> find_eol u = Some k"
  by (induction u arbitrary: k) (auto simp: hd_append split: if_splits)

lemma pending_short:
  assumes "find_eol u = None \<or> find_eol u = Some (length u)" "lines_of (u @ b) = (ls, u')"
    "\<forall>l \<in> set ls. line_ok l" "length u' < STASHZ"
  shows "length u < STASHZ"
proof (cases "find_eol (u @ b) = None \<or> find_eol (u @ b) = Some (length (u @ b))")
  case True
  with assms(2,4) lines_of_open(1) [OF True] show ?thesis by auto
next
  case False
  then obtain k where k: "find_eol (u @ b) = Some k" "k \<noteq> length (u @ b)" by auto
  have "length u \<le> k"
    using find_eol_within [OF k(1)] assms(1) by (cases "k < length u") auto
  moreover have "take k (u @ b) \<in> set ls" using assms(2) lines_of_open(2) [OF k] by (cases "lines_of (drop k (u @ b))") auto
  then have "length (take k (u @ b)) < STASHZ" using assms(3) by (auto simp: line_ok_def)
  ultimately show ?thesis using find_eol_pos [OF k(1)] by simp
qed

lemma pending_ne: "lines_of s = (ls, u) \<Longrightarrow> s \<noteq> [] \<Longrightarrow> u \<noteq> [] \<and> last u = last s"
proof (induction s arbitrary: ls rule: lines_of.induct)
  case (1 s)
  show ?case
  proof (cases "find_eol s = None \<or> find_eol s = Some (length s)")
    case True
    with 1(2,3) lines_of_open(1) [OF True] show ?thesis by auto
  next
    case False
    then obtain k where k: "find_eol s = Some k" "k \<noteq> length s" by auto
    then have "k < length s" using find_eol_pos [OF k(1)] by simp
    moreover obtain ls2 where "lines_of (drop k s) = (ls2, u)"
      using 1(2) lines_of_open(2) [OF k] by (cases "lines_of (drop k s)") auto
    ultimately show ?thesis using 1(1) [OF k] by (auto simp: last_drop)
  qed
qed

fun cuts_ok :: "string list \<Rightarrow> bool" where
  "cuts_ok [] = True"
| "cuts_ok [c] = (c \<noteq> [])"
| "cuts_ok (c # d # cs) = (c \<noteq> [] \<and> cut_ok c d \<and> cuts_ok (d # cs))"

lemma run_lines_app:
  "run_lines tz stof q (xs @ ys) = (case run_lines tz stof q xs of (vs, None) \<Rightarrow> (vs, None)
    | (vs, Some q) \<Rightarrow> apfst ((@) vs) (run_lines tz stof q ys))"
  by (induction xs arbitrary: q) (auto simp: apfst_def map_prod_def split: prod.splits pres.splits option.splits)

lemma feed_agree:
  assumes "holds p u" "cuts_ok cs" "cs \<noteq> [] \<Longrightarrow> cut_ok u (hd cs)" "lines_of (u @ concat cs) = (ls, u')"
    "\<forall>l \<in> set ls. line_ok l" "length u' < STASHZ"
  shows "agree u' (run_lines tz stof (core p) (map esc ls)) (feed tz stof p cs)"
  using assms
proof (induction cs arbitrary: p u ls)
  case Nil
  then have "find_eol u = None \<or> find_eol u = Some (length u)" by (auto simp: holds_def)
  with Nil lines_of_open(1) show ?case by (auto simp: agree_def)
next
  case (Cons c cs)
  have c: "c \<noteq> []" "cuts_ok cs" "cs \<noteq> [] \<Longrightarrow> cut_ok c (hd cs)" "cut_ok u c"
    using Cons.prems(2,3) by (cases cs; simp)+
  obtain ls1 u1 where 1: "lines_of (u @ c) = (ls1, u1)" by force
  obtain ls2 where ls: "ls = ls1 @ ls2" "lines_of (u1 @ concat cs) = (ls2, u')"
    using Cons.prems(4) lines_of_app [OF 1, of "concat cs"] by (cases "lines_of (u1 @ concat cs)") auto
  have ok: "\<forall>l \<in> set ls1. line_ok l" "\<forall>l \<in> set ls2. line_ok l" using Cons.prems(5) ls(1) by auto
  have u1: "length u1 < STASHZ" using pending_short [OF lines_of_pending [OF 1] ls(2) ok(2) Cons.prems(6)] .
  from drain_agree [OF Cons.prems(1) c(1,4) 1 ok(1) u1]
  have d: "agree u1 (run_lines tz stof (core p) (map esc ls1)) (drain tz stof (ical_push p c))" .
  note app = run_lines_app [of tz stof]
  obtain vs r where r: "run_lines tz stof (core p) (map esc ls1) = (vs, r)" by force
  show ?case
  proof (cases r)
    case None
    with d r app show ?thesis unfolding ls(1) by (auto simp: agree_def split: prod.splits)
  next
    case (Some q)
    with d r obtain p' where p': "drain tz stof (ical_push p c) = (vs, Some p')" "core p' = q" "holds p' u1"
      by (cases "drain tz stof (ical_push p c)") (auto simp: agree_def)
    have "cut_ok u1 (hd cs)" if "cs \<noteq> []"
      using pending_ne [OF 1] c(1) c(3) [OF that] by (auto simp: cut_ok_def)
    from Cons.IH [OF p'(3) c(2) this ls(2) ok(2) Cons.prems(6)]
    have "agree u' (run_lines tz stof q (map esc ls2)) (feed tz stof p' cs)" using p'(2) by simp
    then show ?thesis
      unfolding ls(1) using r Some p'(1) app by (auto simp: agree_def split: option.splits)
  qed
qed

lemma feed_any_cuts:
  assumes "cuts_ok cs" "lines_of (concat cs) = (ls, u)" "\<forall>l \<in> set ls. line_ok l" "length u < STASHZ"
  shows "agree u (run_lines tz stof (core new_parser) (map esc ls)) (feed tz stof new_parser cs)"
proof -
  have "holds new_parser []" by (simp add: holds_def new_parser_def STASHZ_def)
  from feed_agree [OF this assms(1) _ _ assms(3,4)] assms(2) show ?thesis by (simp add: cut_ok_def)
qed

text \<open>
  C3: How a text is cut into the buffers that are pushed does not matter: pulling after each push
  delivers exactly the components that the state machine makes of the text's logical lines,
  unfolded, one after the other, and stops where it stops; provided that no line is longer than the
  stash, that no line is empty (the parser throws the rest of the buffer away), and that no cut falls
  behind a backslash or between a line break and the blank that continues the line.
\<close>

theorem push_any_cuts:
  assumes "cuts_ok cs" "lines_of (concat cs) = (ls, u)" "\<forall>l \<in> set ls. line_ok l" "length u < STASHZ"
  shows "let (vs, q) = run_lines tz stof (core new_parser) (map esc ls); (vs', p) = feed tz stof new_parser cs
    in vs' = vs \<and> map_option core p = q"
  using feed_any_cuts [OF assms, of tz stof] by (auto simp: agree_def split: option.splits)

definition cal_text :: "string list" where
  "cal_text = [''BEGIN:VCALENDAR\<newline>BEG'', ''IN:VEVENT\<newline>'', ''UID:echse@ho'', ''st\<newline>SUMMARY:/bin/t\<newline> rue\<newline>END:VEVENT\<newline>END:V'']"

lemma push_any_cuts_witness:
  "let (vs, q) = run_lines (\<lambda>_. 0) (\<lambda>_. 0) (core new_parser) (map esc (fst (lines_of (concat cal_text))));
       (vs', p) = feed (\<lambda>_. 0) (\<lambda>_. 0) new_parser cal_text
   in vs' = vs \<and> map_option core p = q"
proof (rule push_any_cuts)
  show "cuts_ok cal_text" by code_simp
  show "lines_of (concat cal_text) = (fst (lines_of (concat cal_text)), ''END:V'')" by code_simp
  show "\<forall>l \<in> set (fst (lines_of (concat cal_text))). line_ok l" by code_simp
  show "length ''END:V'' < STASHZ" by code_simp
qed

section \<open>Where the cuts and the text do matter\<close>

text \<open>What stands behind an empty line is dropped up to the end of the buffer.\<close>

lemma empty_line_drops:
  "feed (\<lambda>_. 0) (\<lambda>_. 0) new_parser [''BEGIN:VCALENDAR\<newline>\<newline>BEGIN:VEVENT\<newline>END:VEVENT\<newline>END:VCALENDAR\<newline>X''] =
    ([], snd (feed (\<lambda>_. 0) (\<lambda>_. 0) new_parser [''BEGIN:VCALENDAR\<newline>\<newline>BEGIN:VEVENT\<newline>END:VEVENT\<newline>END:VCALENDAR\<newline>X'']))"
  by code_simp

text \<open>A line folded at the end of a buffer keeps the blank.\<close>

lemma folded_at_cut:
  "map ve_cmd (fst (feed (\<lambda>_. 0) (\<lambda>_. 0) new_parser
     [''BEGIN:VCALENDAR\<newline>BEGIN:VEVENT\<newline>SUMMARY:/bin/t\<newline>'', '' rue\<newline>END:VEVENT\<newline>X''])) = [Some ''/bin/t rue'']"
  "map ve_cmd (fst (feed (\<lambda>_. 0) (\<lambda>_. 0) new_parser
     [''BEGIN:VCALENDAR\<newline>BEGIN:VEVENT\<newline>SUMMARY:/bin/t\<newline> rue\<newline>END:VEVENT\<newline>X''])) = [Some ''/bin/true'']"
  by code_simp+

text \<open>An escape sequence keeps its backslash and loses the character.\<close>

lemma escapes_mangled: "esc ''a'' = ''a'' \<and> esc (''a'' @ [CHR 0x5C, CHR '','', CHR ''b'']) = ''a'' @ [CHR 0x5C, CHR ''b'']"
  by code_simp

end
