(* ===== verification/IcalSend.thy ===== *)
theory IcalSend
  imports IcalLines RruleTrip
begin

text \<open>
  Writing tasks and events as iCalendar text, \<open>send_task\<close>, \<open>send_ev\<close>, \<open>send_evrrul\<close> and
  \<open>echs_task_icalify\<close> of \<^verbatim>\<open>src/src/evical.c\<close>: what echsd writes into its queue files and echsq
  sends to it.  The name of an interned integer is the parameter \<open>nm\<close> (\<open>obint_name\<close>), a state's name
  \<open>stn\<close>, a zone's name \<open>zn\<close>; the stamp of the first message is \<open>now\<close>, and \<open>auto\<close> the count of
  messages.
\<close>

section \<open>The writers\<close>

definition nl :: "string \<Rightarrow> string" where
  "nl l = l @ ''\<newline>''"

definition opt_line :: "string \<Rightarrow> string option \<Rightarrow> string" where
  "opt_line key v = (case v of None \<Rightarrow> [] | Some s \<Rightarrow> nl (key @ s))"

definition flag_line :: "string \<Rightarrow> bool \<Rightarrow> bool \<Rightarrow> string" where
  "flag_line key on v = (if on then nl (key @ show_int (if v then 1 else 0)) else [])"

text \<open>A user or group; \<open>%u\<close> of a number cut to 32 bits.\<close>

definition nms_line :: "string \<Rightarrow> nms \<Rightarrow> string" where
  "nms_line key x =
     (case x of Nms_nul \<Rightarrow> [] | Nms_str s \<Rightarrow> nl (key @ s) | Nms_num n \<Rightarrow> nl (key @ show_int (u32 n)))"

text \<open>\<open>0%o\<close>\<close>

function show_oct :: "int \<Rightarrow> string" where
  "show_oct n = (if n < 8 then [chr (48 + n)] else show_oct (n div 8) @ [chr (48 + n mod 8)])"
  by pat_completeness auto
termination by (relation "measure nat") auto

declare show_oct.simps [simp del]

definition send_slot :: "vtod_typ \<Rightarrow> vtod_slot \<Rightarrow> string" where
  "send_slot typ slot =
     (case slot of
        Slot_timeout d \<Rightarrow> nl (''TIMEOUT:'' @ idiff_strf 24 d)
      | Slot_due i \<Rightarrow> nl (''DUE:'' @ dt_strf_ical 28 i)
      | Slot_compl i \<Rightarrow> nl (''COMPLETED:'' @ dt_strf_ical 22 i)
      | Slot_none \<Rightarrow> [])"

text \<open>
  The task: what \<open>make_task\<close> set (\<open>t\<close>), and what it copied from the component (\<open>ve\<close>).
\<close>

definition send_task :: "(64 word \<Rightarrow> string) \<Rightarrow> int \<Rightarrow> mtask \<Rightarrow> pvevent \<Rightarrow> string" where
  "send_task nm auto t ve =
     nl (if mt_oid t \<noteq> 0 then ''UID:'' @ nm (mt_oid t) else ''UID:echse_merged_vevent_'' @ show_int auto) @
     send_slot (mt_typ t) (mt_slot t) @
     opt_line ''SUMMARY:'' (ve_cmd ve) @
     opt_line ''DESCRIPTION:'' (ve_desc ve) @
     opt_line ''ORGANIZER:'' (ve_org ve) @
     concat (map (\<lambda>a. nl (''ATTENDEE:'' @ a)) (ve_att ve)) @
     opt_line ''X-ECHS-IFILE:'' (ve_in ve) @
     opt_line ''X-ECHS-OFILE:'' (ve_out ve) @
     opt_line ''X-ECHS-EFILE:'' (ve_err ve) @
     nms_line ''X-ECHS-SETUID:'' (ve_u ve) @
     nms_line ''X-ECHS-SETGID:'' (ve_g ve) @
     opt_line ''X-ECHS-SHELL:'' (ve_sh ve) @
     opt_line ''LOCATION:'' (ve_wd ve) @
     (if mt_umsk t \<le> 511 then nl (''X-ECHS-UMASK:0'' @ show_oct (mt_umsk t)) else []) @
     flag_line ''X-ECHS-MAIL-RUN:'' (ve_mrunset ve) (ve_mailrun ve) @
     flag_line ''X-ECHS-MAIL-OUT:'' (ve_moutset ve) (ve_mailout ve) @
     flag_line ''X-ECHS-MAIL-ERR:'' (ve_merrset ve) (ve_mailerr ve) @
     (if mt_max_simul t < 63 then nl (''X-ECHS-MAX-SIMUL:'' @ show_int (mt_max_simul t)) else [])"

text \<open>States, the lowest first; the lowest bit stands for none, and writing it alone would crash the program.\<close>

definition send_stset :: "(nat \<Rightarrow> string option) \<Rightarrow> 64 word \<Rightarrow> string" where
  "send_stset stn sts =
     (case filter (bit sts) [0..<64] of
        [] \<Rightarrow> []
      | s # ss \<Rightarrow> (case stn s of None \<Rightarrow> [] | Some n \<Rightarrow> n) @
          concat (map (\<lambda>n. CHR '','' # n) (List.map_filter stn ss)))"

definition send_ev ::
  "(int \<Rightarrow> string option) \<Rightarrow> (nat \<Rightarrow> string option) \<Rightarrow> zones \<Rightarrow> event \<Rightarrow> int \<Rightarrow> (string \<times> zones) option" where
  "send_ev zn stn zs e z =
     (if echs_nul_instant_p (ev_from e) then Some ([], zs)
      else
        let sca = echs_instant_scale (ev_from e);
            head = ''DTSTART'' @ (if echs_instant_all_day_p (ev_from e) then '';VALUE=DATE'' else []) @ send_scale sca;
            i = (if sca \<noteq> 0 then echs_instant_detach_scale (ev_from e) else ev_from e)
        in do {
          (head, i, zs) \<leftarrow> (case (if z \<noteq> 0 then zn z else None) of
              None \<Rightarrow> Some (head, i, zs)
            | Some n \<Rightarrow> do { (i, zs) \<leftarrow> echs_instant_loc zs i z; Some (head @ '';TZID='' @ n, i, zs) });
          Some (nl (head @ '':'' @ dt_strf_ical 31 i) @ nl (''DURATION:'' @ idiff_strf 31 (ev_dur e)) @
                (if ev_sts e \<noteq> 0 then nl (''X-GA-STATE:'' @ send_stset stn (ev_sts e)) else []), zs)
        })"

text \<open>
  The rules of one entry: the event of the first one, moved to the earliest occurrence that is still
  cached, and then every rule with the occurrences it has cached.
\<close>

definition er_cand :: "evrrul \<Rightarrow> instant" where
  "er_cand r = (if er_ncch r \<le> er_rdi r then ev_from (er_e r) else er_cch r ! er_rdi r)"

definition earliest :: "evrrul list \<Rightarrow> instant \<Rightarrow> instant" where
  "earliest rs i =
     foldl (\<lambda>i r. if echs_instant_lt_p (er_cand r) i \<or> echs_nul_instant_p i then er_cand r else i) i rs"

definition send_evrruls ::
  "(int \<Rightarrow> string option) \<Rightarrow> (nat \<Rightarrow> string option) \<Rightarrow> zones \<Rightarrow> evrrul list \<Rightarrow> (string \<times> zones) option" where
  "send_evrruls zn stn zs rs =
     (case rs of
        [] \<Rightarrow> Some ([], zs)
      | r # _ \<Rightarrow>
          do {
            (s, zs) \<leftarrow> send_ev zn stn zs ((er_e r)\<lparr>ev_from := earliest rs (ev_from (er_e r))\<rparr>) (er_zon r);
            Some (s @ concat (map (\<lambda>r. send_rrul (er_rrul r) (int (er_ncch r) - int (er_rdi r))) rs), zs)
          })"

definition send_ical_hdr :: "instant \<Rightarrow> bool \<Rightarrow> string" where
  "send_ical_hdr now vtodop = nl (if vtodop then ''BEGIN:VTODO'' else ''BEGIN:VEVENT'') @ nl (''DTSTAMP:'' @ dt_strf_ical 24 now)"

definition send_ical_ftr :: "bool \<Rightarrow> string" where
  "send_ical_ftr vtodop = nl (if vtodop then ''END:VTODO'' else ''END:VEVENT'')"

section \<open>Serialising streams\<close>

fun send_all :: "('s \<Rightarrow> zones \<Rightarrow> (string \<times> zones) option) \<Rightarrow> 's list \<Rightarrow> zones \<Rightarrow> (string \<times> zones) option" where
  "send_all f [] zs = Some ([], zs)"
| "send_all f (s # ss) zs = do { (x, zs) \<leftarrow> f s zs; (y, zs) \<leftarrow> send_all f ss zs; Some (x @ y, zs) }"

definition send_evical_vevent ::
  "(int \<Rightarrow> string option) \<Rightarrow> (nat \<Rightarrow> string option) \<Rightarrow> evical \<Rightarrow> zones \<Rightarrow> (string \<times> zones) option" where
  "send_evical_vevent zn stn s zs =
     (if length (vev_ev s) \<le> vev_i s then Some ([], zs) else send_ev zn stn zs (vev_ev s ! vev_i s) 0)"

definition seria_muxed :: "('s \<Rightarrow> zones \<Rightarrow> (string \<times> zones) option) \<Rightarrow> 's muxed \<Rightarrow> zones \<Rightarrow> (string \<times> zones) option" where
  "seria_muxed f m zs =
     (case m of Mux_null \<Rightarrow> None | Mux_one s \<Rightarrow> f s zs
      | Mux_all x \<Rightarrow> (case mux_s x of None \<Rightarrow> None | Some ss \<Rightarrow> send_all f ss zs))"

text \<open>
  The rules of an entry are one sequence with one event; when they are muxed with dates they are
  cloned, and then each is a sequence of its own.
\<close>

definition seria_rules ::
  "(int \<Rightarrow> string option) \<Rightarrow> (nat \<Rightarrow> string option) \<Rightarrow> bool \<Rightarrow> evrrul muxed \<Rightarrow> zones \<Rightarrow> (string \<times> zones) option" where
  "seria_rules zn stn cloned m zs =
     (case m of
        Mux_all x \<Rightarrow>
          if cloned then seria_muxed (\<lambda>r zs. send_evrruls zn stn zs [r]) m zs
          else (case mux_s x of None \<Rightarrow> None | Some rs \<Rightarrow> send_evrruls zn stn zs rs)
      | _ \<Rightarrow> seria_muxed (\<lambda>r zs. send_evrruls zn stn zs [r]) m zs)"

definition seria_src ::
  "(int \<Rightarrow> string option) \<Rightarrow> (nat \<Rightarrow> string option) \<Rightarrow> bool \<Rightarrow> src \<Rightarrow> zones \<Rightarrow> (string \<times> zones) option" where
  "seria_src zn stn cloned s zs =
     (case s of Inl m \<Rightarrow> seria_rules zn stn cloned m zs | Inr v \<Rightarrow> send_evical_vevent zn stn v zs)"

definition seria_srcs ::
  "(int \<Rightarrow> string option) \<Rightarrow> (nat \<Rightarrow> string option) \<Rightarrow> src muxed \<Rightarrow> zones \<Rightarrow> (string \<times> zones) option" where
  "seria_srcs zn stn m zs = (case m of Mux_all _ \<Rightarrow> seria_muxed (seria_src zn stn True) m zs | _ \<Rightarrow> seria_muxed (seria_src zn stn False) m zs)"

text \<open>A filter hands on what it filters; the exceptions are not written.\<close>

definition seria_strm ::
  "(int \<Rightarrow> string option) \<Rightarrow> (nat \<Rightarrow> string option) \<Rightarrow> strm \<Rightarrow> zones \<Rightarrow> (string \<times> zones) option" where
  "seria_strm zn stn s zs =
     (case s of
        Strm_null \<Rightarrow> None
      | Strm_vevent v \<Rightarrow> send_evical_vevent zn stn v zs
      | Strm_filt Filt_null \<Rightarrow> None
      | Strm_filt (Filt_same m) \<Rightarrow> seria_srcs zn stn m zs
      | Strm_filt (Filt f) \<Rightarrow> seria_srcs zn stn (ft_e f) zs)"

text \<open>\<open>echs_evstrm_next\<close> and \<open>echs_evstrm_pop\<close> of a task's stream.\<close>

definition next_strm :: "(rrulsp \<Rightarrow> instant \<Rightarrow> nat) \<Rightarrow> zones \<Rightarrow> strm \<Rightarrow> bool \<Rightarrow> (event \<times> strm) option" where
  "next_strm fu zs s p =
     (case s of
        Strm_null \<Rightarrow> None
      | Strm_vevent v \<Rightarrow> map_option (apsnd Strm_vevent) (next_evical_vevent v p)
      | Strm_filt Filt_null \<Rightarrow> None
      | Strm_filt (Filt_same m) \<Rightarrow> map_option (apsnd (Strm_filt \<circ> Filt_same)) (next_src fu zs m p)
      | Strm_filt (Filt f) \<Rightarrow> map_option (apsnd (Strm_filt \<circ> Filt)) (next_evfilt (next_src fu zs) (next_src fu zs) f p))"

section \<open>Tasks and queue files\<close>

text \<open>
  A task without stream, or one whose stream still has something to give: the stream is peeked at,
  which may refill its caches.  The count of messages is returned with the task.
\<close>

definition strm_null :: "strm \<Rightarrow> bool" where
  "strm_null s \<longleftrightarrow> s = Strm_null \<or> s = Strm_filt Filt_null"

definition echs_task_icalify ::
  "(64 word \<Rightarrow> string) \<Rightarrow> (int \<Rightarrow> string option) \<Rightarrow> (nat \<Rightarrow> string option) \<Rightarrow> instant \<Rightarrow> (rrulsp \<Rightarrow> instant \<Rightarrow> nat) \<Rightarrow>
   int \<Rightarrow> zones \<Rightarrow> mtask \<Rightarrow> pvevent \<Rightarrow> (string \<times> mtask \<times> int \<times> zones) option" where
  "echs_task_icalify nm zn stn now fu auto zs t ve =
     (if strm_null (mt_strm t) then
        Some (send_ical_hdr now True @ send_task nm (auto + 1) t ve @ send_ical_ftr True, t, auto + 1, zs)
      else do {
        (e, s) \<leftarrow> next_strm fu zs (mt_strm t) False;
        let t = t\<lparr>mt_strm := s\<rparr>;
        if echs_nul_event_p e then Some ([], t, auto, zs)
        else do {
          (x, zs) \<leftarrow> seria_strm zn stn s zs;
          Some (send_ical_hdr now False @ send_task nm (auto + 1) t ve @ x @ send_ical_ftr False, t, auto + 1, zs)
        }
      })"

definition cal_head :: "string" where
  "cal_head = nl ''BEGIN:VCALENDAR'' @ nl ''VERSION:2.0'' @ nl ''PRODID:-//GA Financial Solutions//echse//EN'' @
     nl ''CALSCALE:GREGORIAN''"

text \<open>The owner: a name, or a number that is not the one for nobody.\<close>

definition owner_line :: "nms \<Rightarrow> string" where
  "owner_line x =
     (case x of
        Nms_nul \<Rightarrow> []
      | Nms_str s \<Rightarrow> nl (''X-ECHS-OWNER:'' @ s)
      | Nms_num n \<Rightarrow> if u32 n < 4294967295 then nl (''X-ECHS-OWNER:'' @ show_int (u32 n)) else [])"

definition echs_icalify_init :: "verb \<Rightarrow> (mtask \<times> pvevent) option \<Rightarrow> string" where
  "echs_icalify_init v t =
     cal_head @
     (case v of
        INSVERB_SCHE \<Rightarrow> nl ''METHOD:PUBLISH'' @
          (case t of
             None \<Rightarrow> []
           | Some (t, ve) \<Rightarrow>
               (if mt_max_simul t \<noteq> 0 then nl (''X-ECHS-MAX-SIMUL:'' @ show_int (mt_max_simul t)) else []) @
               owner_line (ve_owner ve))
      | INSVERB_UNSC \<Rightarrow> nl ''METHOD:CANCEL''
      | _ \<Rightarrow> [])"

definition echs_icalify_fini :: "string" where
  "echs_icalify_fini = nl ''END:VCALENDAR''"

definition echs_unsc_icalify :: "instant \<Rightarrow> string \<Rightarrow> string" where
  "echs_unsc_icalify now tuid =
     send_ical_hdr now False @ nl (''UID:'' @ tuid) @ nl ''STATUS:CANCELLED'' @ send_ical_ftr False"

text \<open>
  The queue file of a user, \<open>chkpnt1\<close> of \<^verbatim>\<open>src/src/echsd.c\<close>, for the tasks of this user in the
  order of the table.
\<close>

fun icalify_all ::
  "(int \<Rightarrow> zones \<Rightarrow> mtask \<Rightarrow> pvevent \<Rightarrow> (string \<times> mtask \<times> int \<times> zones) option) \<Rightarrow> int \<Rightarrow> zones \<Rightarrow> (mtask \<times> pvevent) list \<Rightarrow>
   string option" where
  "icalify_all f auto zs [] = Some []"
| "icalify_all f auto zs ((t, ve) # ts) =
     do { (x, _, auto, zs) \<leftarrow> f auto zs t ve; y \<leftarrow> icalify_all f auto zs ts; Some (x @ y) }"

definition chkpnt1 ::
  "(64 word \<Rightarrow> string) \<Rightarrow> (int \<Rightarrow> string option) \<Rightarrow> (nat \<Rightarrow> string option) \<Rightarrow> instant \<Rightarrow> (rrulsp \<Rightarrow> instant \<Rightarrow> nat) \<Rightarrow>
   int \<Rightarrow> zones \<Rightarrow> (mtask \<times> pvevent) list \<Rightarrow> string option" where
  "chkpnt1 nm zn stn now fu auto zs ts =
     (case ts of
        [] \<Rightarrow> Some (echs_icalify_init INSVERB_UNK None @ echs_icalify_fini)
      | t # _ \<Rightarrow>
          do {
            x \<leftarrow> icalify_all (echs_task_icalify nm zn stn now fu) auto zs ts;
            Some (echs_icalify_init INSVERB_SCHE (Some t) @ x @ echs_icalify_fini)
          })"

end
