(* ===== verification/Spec2Isabelle.thy ===== *)
theory Spec2Isabelle
  imports BitInt BitIntN Instant Scale DateConv CString RangeShift Rrule RruleDays RruleFill RruleYearly RruleTick RruleTicks RruleSegment RruleSub
    Event Evmux Evfilt Unroll TaskTab Daemon DaemonRun
    InstantText DurationText Hash Intern Zones Evrrul TaskStream
    RruleText RruleTrip Ical IcalPush IcalLines IcalSend
begin

text \<open>
  A verification development for echse, a scheduler for iCalendar tasks and events.  All paths are
  under \<^verbatim>\<open>src/src\<close>.

  The program.  \<^verbatim>\<open>evical.c\<close> reads iCalendar text, pushed buffer by buffer, into components and
  makes tasks of them.  A task owns an event stream: the occurrences of its recurrence rules
  (\<^verbatim>\<open>evrrul.c\<close>) and dates, muxed into chronological order (\<^verbatim>\<open>evstrm.c\<close>), less those that overlap an
  exception (\<^verbatim>\<open>evfilt.c\<close>).  The command line tool \<^verbatim>\<open>echse.c\<close> keeps tasks in a hash table and prints
  the events of a window; the daemon \<^verbatim>\<open>echsd.c\<close> keeps the tasks of many users, checks who may change
  them, schedules each at its next event, supervises its children, and writes its queue back with the
  writers of \<^verbatim>\<open>evical.c\<close>.  Below lie packed instants (\<^verbatim>\<open>instant.c\<close>), calendar scales (\<^verbatim>\<open>scale.c\<close>),
  time zones (\<^verbatim>\<open>tzraw.c\<close>, \<^verbatim>\<open>tzob.c\<close>), integer sets (\<^verbatim>\<open>bitint.c\<close>), interned strings (\<^verbatim>\<open>intern.c\<close>)
  and the texts of instants and durations (\<^verbatim>\<open>dt-strpf.c\<close>).

  Conventions.  C integers are \<^typ>\<open>int\<close> with the wrap-around written out by the casts \<open>u32\<close>, \<open>i32\<close>
  and so on of \<^theory_text>\<open>Prelude\<close>, or words where bits matter; structs are records; a pointer into a string
  is the rest of the string or an index; a loop that may not end takes fuel, and \<open>None\<close> is the call
  that has not returned yet.  Interfaces are locales, each interpreted on the model of the code that
  provides it: the iterators of sets, event streams and tidy event streams, the streams of a
  filter, the fillers of a period, the ticking clocks, the tables of tasks.

  \<^item> \<^theory_text>\<open>Prelude\<close>: casts, words, the scanning loops shared by the components.
  \<^item> \<^theory_text>\<open>BitInt\<close>, \<^theory_text>\<open>BitIntN\<close>: the degrading sets of \<^verbatim>\<open>bitint.h\<close> and \<^verbatim>\<open>bitint.c\<close>; an iterator
    lists what was stored, with the exceptions that are proved (a lone 0, negatives without a positive,
    a full positive half).
  \<^item> \<^theory_text>\<open>Instant\<close>: \<^verbatim>\<open>instant.h\<close>, \<^verbatim>\<open>instant.c\<close>; normalising and adding are exact on the time line, the
    packed order is chronological.  Sorting is the stable sort that the vendored \<^verbatim>\<open>wikisort.c\<close> documents.
  \<^item> \<^theory_text>\<open>HijriData\<close>, \<^theory_text>\<open>Scale\<close>: \<^verbatim>\<open>dat_ummulqura.c\<close>, \<^verbatim>\<open>dat_diyanet.c\<close>, \<^verbatim>\<open>scale.c\<close> and the tag bits of
    instants; conversions to Julian days and back.
  \<^item> \<^theory_text>\<open>DateConv\<close>: the date converters of \<^verbatim>\<open>evrrul.c\<close> against the calendar, ISO 8601 weeks and
    the ecclesiastical full moon.
  \<^item> \<^theory_text>\<open>CString\<close>, \<^theory_text>\<open>RangeShift\<close>: C's number parsing and printing; \<^verbatim>\<open>range.h\<close>, \<^verbatim>\<open>shift.h\<close>.
  \<^item> \<^theory_text>\<open>Rrule\<close>, \<^theory_text>\<open>RruleDays\<close>, \<^theory_text>\<open>RruleFill\<close>, \<^theory_text>\<open>RruleYearly\<close>: rules, their candidate days, BYSETPOS
    and SHIFT, and the yearly and monthly expanders; what they emit is in the window and bounded, the
    candidates are those of RFC 5545, and termination is characterised.
  \<^item> \<^theory_text>\<open>RruleTick\<close>, \<^theory_text>\<open>RruleTicks\<close>, \<^theory_text>\<open>RruleSegment\<close>, \<^theory_text>\<open>RruleSub\<close>: the weekly to secondly expanders;
    the clock advances by the interval, what is returned is an initial segment of what RFC 5545
    describes, and rules for days that do not exist never return.
  \<^item> \<^theory_text>\<open>Event\<close>, \<^theory_text>\<open>Evmux\<close>, \<^theory_text>\<open>Evfilt\<close>: events and streams with their interface \<open>evstrm\<close> (peeking does
    not change what is pending, popping takes its head), the mux as a merge, the filter as the exact
    difference of two streams.
  \<^item> \<^theory_text>\<open>Unroll\<close>, \<^theory_text>\<open>TaskTab\<close>: the commands of \<^verbatim>\<open>echse.c\<close>; the hash tables of \<^verbatim>\<open>echse.c\<close> and
    \<^verbatim>\<open>echsd.c\<close> refine maps.
  \<^item> \<^theory_text>\<open>Daemon\<close>, \<^theory_text>\<open>DaemonRun\<close>: credentials and permissions, rescheduling, and the life of a task with
    its children as a transition system.
  \<^item> \<^theory_text>\<open>Hash\<close>, \<^theory_text>\<open>Intern\<close>: XXH32 and the interned ids, whose names are the strings they come from.
  \<^item> \<^theory_text>\<open>Zones\<close>: transitions with their cache, Unix time, zone tags.
  \<^item> \<^theory_text>\<open>InstantText\<close>, \<^theory_text>\<open>DurationText\<close>: the round trips of \<^verbatim>\<open>dt-strpf.c\<close>.
  \<^item> \<^theory_text>\<open>Evrrul\<close>, \<^theory_text>\<open>TaskStream\<close>: the stream of a rule over the refills of its cache, \<open>make_task\<close>, and
    unrolling a task from its component to the printed events.
  \<^item> \<^theory_text>\<open>RruleText\<close>, \<^theory_text>\<open>RruleTrip\<close>: \<open>snarf_rrule\<close> and \<open>send_rrul\<close>; which rules survive their text.
  \<^item> \<^theory_text>\<open>Ical\<close>, \<^theory_text>\<open>IcalPush\<close>, \<^theory_text>\<open>IcalLines\<close>: the fields of components, the push parser with its stash and
    state machine, and its refinement: however a text is cut into buffers, the machine sees its
    unfolded lines.
  \<^item> \<^theory_text>\<open>IcalSend\<close>: the writers of tasks, events and calendars.

  Bounds and fuel.  The ticking expanders take a number of ticks; those until the end of 2099, up to
  which the weekday arithmetic of the code is right, are enough for every claim that a call returns,
  and a stream refills its cache of 64 slots within 65 ticks when no day is filtered.  The monthly
  expander searches with fuel 12, one tick for each congruence class of months.  Iterators list at most
  twice the width of their set.  The parser's stash has 1024 bytes.  A first day beyond the end of its
  month makes the code shift by an undefined amount; such days are outside of the properties.

  Not modelled: sockets, libev, the HTTP texts, logging, process control (\<^verbatim>\<open>echsx.c\<close>), the queue
  client (\<^verbatim>\<open>echsq.c\<close>), the opening of zone files and the zone compiler (\<^verbatim>\<open>zoneinfo.c\<close>), the movers
  (\<^verbatim>\<open>evmrul.c\<close>) and the table of states (\<^verbatim>\<open>state.c\<close>), the release of memory, string lists and
  buffers, the astronomical helpers that nothing links, and vendored code.  Where the model needs one
  of these (the table of zones, of states, of users) it is a parameter.
\<close>

end
